(* ===== verification/Prelude.thy ===== *)
theory Prelude
  imports
    Main
    "HOL-Library.Word"
    "HOL-Library.Monad_Syntax"
    "HOL-Library.Char_ord"
    "HOL-Library.List_Lexorder"
begin

text \<open>
  Shared vocabulary of the development.

  \<^item> Machine integers.  A Go \<open>int\<close> is a HOL \<open>int\<close> that is brought back into the signed 64-bit
    range by \<open>i64\<close> wherever the source computes with a value that a peer can choose (views
    above all); \<open>uint64\<close> is the conversion of the same name.
  \<^item> Calls that do not return.  A Go call that may panic, exit the process or loop has a result of
    type \<open>'a option\<close>; \<open>None\<close> means that the call does not return to its caller.
  \<^item> Go errors are values: \<open>error option\<close>, \<open>None\<close> for \<open>nil\<close>.
  \<^item> Go maps are HOL maps; \<open>maplen\<close> is \<open>len(m)\<close>.  The iteration order of \<open>range m\<close> is unspecified
    in Go: definitions that depend on it take the enumeration as an argument, and
    \<open>range_order\<close> states what the language guarantees about it.
\<close>

section \<open>Fact collections\<close>

named_theorems go_arith \<open>evaluation of Go integer arithmetic inside the 64-bit range\<close>
named_theorems inv_intros \<open>an operation preserves the invariant of its component\<close>
named_theorems frame_simps \<open>fields that an operation leaves alone\<close>

section \<open>Machine integers\<close>

definition i64 :: "int \<Rightarrow> int" where
  "i64 x = (x + 2 ^ 63) mod 2 ^ 64 - 2 ^ 63"

definition in_i64 :: "int \<Rightarrow> bool" where
  "in_i64 x \<longleftrightarrow> - (2 ^ 63) \<le> x \<and> x < 2 ^ 63"

definition uint64 :: "int \<Rightarrow> nat" where
  "uint64 x = nat (x mod 2 ^ 64)"

definition go_quot :: "int \<Rightarrow> int \<Rightarrow> int" where
  "go_quot a b = sgn a * sgn b * (\<bar>a\<bar> div \<bar>b\<bar>)"

definition go_rem :: "int \<Rightarrow> int \<Rightarrow> int" where
  "go_rem a b = a - b * go_quot a b"

lemma i64_id [go_arith]: "in_i64 x \<Longrightarrow> i64 x = x"
  by (simp add: i64_def in_i64_def)

lemma i64_in_i64 [intro!, simp]: "in_i64 (i64 x)"
proof -
  have "0 \<le> (x + 2 ^ 63) mod 2 ^ 64" and "(x + 2 ^ 63) mod 2 ^ 64 < 2 ^ 64"
    by (rule pos_mod_sign, simp) (rule pos_mod_bound, simp)
  then show ?thesis by (simp add: i64_def in_i64_def)
qed

lemma i64_succ [go_arith]: "in_i64 x \<Longrightarrow> x < 2 ^ 63 - 1 \<Longrightarrow> i64 (x + 1) = x + 1"
  by (rule i64_id) (auto simp: in_i64_def)

lemma i64_max_wraps: "i64 (2 ^ 63 - 1 + 1) = - (2 ^ 63)"
  by (simp add: i64_def)

lemma uint64_nonneg [go_arith]: "0 \<le> x \<Longrightarrow> x < 2 ^ 64 \<Longrightarrow> uint64 x = nat x"
  by (simp add: uint64_def)

lemma uint64_less: "uint64 x < 2 ^ 64"
proof -
  have "x mod 2 ^ 64 < 2 ^ 64" by (rule pos_mod_bound) simp
  then show ?thesis by (simp add: uint64_def nat_less_iff)
qed

lemma uint64_mono: "0 \<le> x \<Longrightarrow> x < y \<Longrightarrow> y < 2 ^ 64 \<Longrightarrow> uint64 x < uint64 y"
  by (simp add: uint64_nonneg)

lemma go_quot_nonneg [go_arith]: "0 \<le> a \<Longrightarrow> 0 < b \<Longrightarrow> go_quot a b = a div b"
  by (cases "a = 0") (simp_all add: go_quot_def)

lemma go_rem_nonneg [go_arith]: "0 \<le> a \<Longrightarrow> 0 < b \<Longrightarrow> go_rem a b = a mod b"
  by (simp add: go_rem_def go_quot_nonneg minus_mult_div_eq_mod)

section \<open>Maps and their enumeration\<close>

definition maplen :: "('k \<rightharpoonup> 'v) \<Rightarrow> nat" where
  "maplen m = card (dom m)"

lemma maplen_empty [simp]: "maplen Map.empty = 0"
  by (simp add: maplen_def)

lemma maplen_upd:
  "finite (dom m) \<Longrightarrow> maplen (m(k \<mapsto> v)) = (if k \<in> dom m then maplen m else Suc (maplen m))"
  by (simp add: maplen_def insert_absorb)

lemma maplen_upd_ge: "finite (dom m) \<Longrightarrow> maplen m \<le> maplen (m(k \<mapsto> v))"
  by (simp add: maplen_upd)

definition range_order :: "('k set \<Rightarrow> 'k list) \<Rightarrow> bool" where
  "range_order rng \<longleftrightarrow> (\<forall>A. finite A \<longrightarrow> set (rng A) = A \<and> distinct (rng A))"

lemma range_order_sorted: "range_order (sorted_list_of_set :: 'k::linorder set \<Rightarrow> 'k list)"
  by (simp add: range_order_def)

lemma range_orderD:
  assumes "range_order rng" and "finite A"
  shows "set (rng A) = A" and "distinct (rng A)" and "length (rng A) = card A"
  using assms distinct_card [of "rng A"] by (auto simp: range_order_def)

section \<open>Lists\<close>

lemma nth_append_old: "a < length xs \<Longrightarrow> (xs @ ys) ! a = xs ! a"
  by (simp add: nth_append)

lemma list_all_list_update:
  "list_all P xs \<Longrightarrow> P x \<Longrightarrow> list_all P (xs[i := x])"
  by (induction xs arbitrary: i) (auto split: nat.splits)

text \<open>Slice indexing with the bounds check of the language: out of range panics.\<close>

definition go_index :: "'a list \<Rightarrow> int \<Rightarrow> 'a option" where
  "go_index xs i = (if 0 \<le> i \<and> i < int (length xs) then Some (xs ! nat i) else None)"

lemma go_index_nat [simp]: "i < length xs \<Longrightarrow> go_index xs (int i) = Some (xs ! i)"
  by (simp add: go_index_def)

lemma go_index_eq_Some_iff:
  "go_index xs i = Some x \<longleftrightarrow> 0 \<le> i \<and> nat i < length xs \<and> xs ! nat i = x"
  by (auto simp: go_index_def)

lemma go_index_eq_None_iff: "go_index xs i = None \<longleftrightarrow> i < 0 \<or> int (length xs) \<le> i"
  by (auto simp: go_index_def)

section \<open>Options\<close>

lemma bind_Some_conv: "Option.bind x f = Some y \<longleftrightarrow> (\<exists>z. x = Some z \<and> f z = Some y)"
  by (cases x) auto

type_synonym error = string

end
