(* ===== verification/Identity.thy ===== *)
theory Identity
  imports Prelude
begin

text \<open>
  Node identifiers (src/identity/identity.go).  A \<open>NodeID\<close> is the decimal text of a node number;
  \<open>NewNodeID\<close> prints it with \<open>strconv.Itoa\<close> and \<open>Node\<close> reads it back with
  \<open>strconv.ParseUint(s, 10, 64)\<close>, yielding 0 when the text is not an unsigned 64-bit decimal.
  The two library functions are modelled here, since every component that maps a node to a key, a
  group or a leader goes through them.
\<close>

type_synonym NodeID = string

section \<open>Decimal text\<close>

definition digit_char :: "nat \<Rightarrow> char" where
  "digit_char d = ''0123456789'' ! d"

definition digit_val :: "char \<Rightarrow> nat option" where
  "digit_val c = (if 48 \<le> (of_char c :: nat) \<and> (of_char c :: nat) \<le> 57
                  then Some (of_char c - 48) else None)"

fun itoa_nat :: "nat \<Rightarrow> string" where
  "itoa_nat n = (if n < 10 then [digit_char n] else itoa_nat (n div 10) @ [digit_char (n mod 10)])"

declare itoa_nat.simps [simp del]

definition Itoa :: "int \<Rightarrow> string" where
  "Itoa i = (if i < 0 then CHR ''-'' # itoa_nat (nat (- i)) else itoa_nat (nat i))"

fun parse_digits :: "nat \<Rightarrow> string \<Rightarrow> nat option" where
  "parse_digits acc [] = Some acc"
| "parse_digits acc (c # cs) =
     (case digit_val c of
        None \<Rightarrow> None
      | Some d \<Rightarrow> (if 2 ^ 64 \<le> acc * 10 + d then None else parse_digits (acc * 10 + d) cs))"

definition ParseUint :: "string \<Rightarrow> nat option" where
  "ParseUint s = (if s = [] then None else parse_digits 0 s)"

section \<open>NodeID\<close>

definition NewNodeID :: "int \<Rightarrow> NodeID" where
  "NewNodeID node = Itoa (if node < 0 then i64 (- node) else node)"

definition Node :: "NodeID \<Rightarrow> int" where
  "Node i = (case ParseUint i of None \<Rightarrow> 0 | Some n \<Rightarrow> i64 (int n))"

section \<open>Printing and parsing are inverse\<close>

lemma digit_val_char: "d < 10 \<Longrightarrow> digit_val (digit_char d) = Some d"
proof -
  assume "d < 10"
  then have "d \<in> {0, 1, 2, 3, 4, 5, 6, 7, 8, 9}" by auto
  then show ?thesis
    by (elim insertE) (simp_all add: digit_val_def digit_char_def)
qed

lemma itoa_nat_Nil [simp]: "itoa_nat n \<noteq> []"
  by (subst itoa_nat.simps) simp

lemma parse_digits_snoc:
  "parse_digits acc (s @ [c]) =
     (case parse_digits acc s of
        None \<Rightarrow> None
      | Some a \<Rightarrow> parse_digits a [c])"
  by (induction s arbitrary: acc) (auto split: option.split)

lemma parse_itoa_nat: "n < 2 ^ 64 \<Longrightarrow> parse_digits 0 (itoa_nat n) = Some n"
proof (induction n rule: itoa_nat.induct)
  case (1 n)
  show ?case
  proof (cases "n < 10")
    case True
    then show ?thesis by (simp add: itoa_nat.simps [of n] digit_val_char)
  next
    case False
    with "1" have "parse_digits 0 (itoa_nat (n div 10)) = Some (n div 10)" by simp
    with False "1.prems" show ?thesis
      by (simp add: itoa_nat.simps [of n] parse_digits_snoc digit_val_char)
  qed
qed

lemma ParseUint_itoa: "n < 2 ^ 64 \<Longrightarrow> ParseUint (itoa_nat n) = Some n"
  by (simp add: ParseUint_def parse_itoa_nat)

lemma Node_NewNodeID [simp]: "0 \<le> n \<Longrightarrow> n < 2 ^ 63 \<Longrightarrow> Node (NewNodeID n) = n"
  by (simp add: Node_def NewNodeID_def Itoa_def ParseUint_itoa nat_less_iff i64_id in_i64_def)

lemma NewNodeID_inj:
  assumes "NewNodeID m = NewNodeID n" and "0 \<le> m" "m < 2 ^ 63" "0 \<le> n" "n < 2 ^ 63"
  shows "m = n"
  using assms Node_NewNodeID by metis

lemma Node_in_i64 [simp]: "in_i64 (Node i)"
  by (auto simp: Node_def in_i64_def split: option.split)
     (use i64_in_i64 in \<open>auto simp: in_i64_def\<close>)

end
