(* ===== verification/Crypto.thy ===== *)
theory Crypto
  imports Identity
begin

text \<open>
  Identifiers, keys and signatures (src/crypto/id.go, sign.go, ecdsa.go, signature.go).

  An \<open>Identifier\<close> is a \<open>[32]byte\<close>, here a 256-bit word whose most significant byte is index 0.
  The elliptic-curve operations, SHA-3 and the JSON encoder are library code: they are the
  arguments \<open>Ecdsa\<close>, \<open>sha3\<close> and \<open>enc\<close>.  The numbers \<open>r\<close> and \<open>s\<close> of a signature travel as their
  decimal text, so the scheme is stated on the text.
\<close>

unbundle bit_operations_syntax

type_synonym Bytes = "8 word list"
type_synonym Identifier = "256 word"
type_synonym Signature = "Bytes list"
type_synonym AggSig = "Signature list"

section \<open>Identifiers\<close>

definition byte_step :: "Identifier \<Rightarrow> 8 word \<Rightarrow> Identifier" where
  "byte_step acc b = push_bit 8 acc OR ucast b"

definition HashToID :: "Bytes \<Rightarrow> Identifier" where
  "HashToID hash = foldl byte_step 0 (take 32 (hash @ replicate 32 0))"

definition IDToByte :: "Identifier \<Rightarrow> Bytes" where
  "IDToByte x = map (\<lambda>i. ucast (drop_bit (8 * (31 - i)) x)) [0..<32]"

definition MakeID :: "('b \<Rightarrow> Bytes) \<Rightarrow> (Bytes \<Rightarrow> Bytes) \<Rightarrow> 'b \<Rightarrow> Identifier" where
  "MakeID enc sha3 body = HashToID (sha3 (enc body))"

lemma bit_foldl_byte_step:
  assumes "n < 256"
  shows "bit (foldl byte_step a bs) n =
    (if n < 8 * length bs then bit (bs ! (length bs - 1 - n div 8)) (n mod 8)
     else bit a (n - 8 * length bs))"
  using assms
proof (induction bs arbitrary: n rule: rev_induct)
  case Nil
  then show ?case by simp
next
  case (snoc b bs)
  show ?case
  proof (cases "n < 8")
    case True
    with snoc.prems show ?thesis
      by (simp add: byte_step_def bit_simps nth_append)
  next
    case False
    then have n: "n div 8 = Suc ((n - 8) div 8)" "(n - 8) mod 8 = n mod 8"
      using le_div_geq [of 8 n] by (auto simp: le_mod_geq)
    have "bit (foldl byte_step a (bs @ [b])) n = bit (foldl byte_step a bs) (n - 8)"
      using False snoc.prems bit_imp_le_length [of b n] by (auto simp: byte_step_def bit_simps)
    also have "\<dots> = (if n - 8 < 8 * length bs
        then bit (bs ! (length bs - 1 - (n - 8) div 8)) ((n - 8) mod 8)
        else bit a (n - 8 - 8 * length bs))"
      using snoc.prems by (intro snoc.IH) simp
    finally show ?thesis using False n by (auto simp: nth_append)
  qed
qed

lemma length_IDToByte [simp]: "length (IDToByte x) = 32"
  by (simp add: IDToByte_def)

lemma HashToID_IDToByte: "HashToID (IDToByte x) = x"
proof (rule bit_word_eqI)
  fix n assume "n < LENGTH(256)"
  then have n: "n < 256" by simp
  have "8 * (n div 8) + n mod 8 = n" by simp
  moreover have "n div 8 < 32" "n mod 8 < 8" using n by simp_all
  ultimately show "bit (HashToID (IDToByte x)) n = bit x n"
    using n by (simp add: HashToID_def bit_foldl_byte_step IDToByte_def bit_simps add.commute
      del: mod_less_divisor)
qed

lemma IDToByte_HashToID:
  assumes len: "length hash = 32"
  shows "IDToByte (HashToID hash) = hash"
proof (rule nth_equalityI)
  show "length (IDToByte (HashToID hash)) = length hash" by (simp add: len)
next
  fix i assume "i < length (IDToByte (HashToID hash))"
  then have i: "i < 32" by simp
  show "IDToByte (HashToID hash) ! i = hash ! i"
  proof (rule bit_word_eqI)
    fix k assume "k < LENGTH(8)"
    then have k: "k < 8" by simp
    with i have "(8 * (31 - i) + k) div 8 = 31 - i" "(8 * (31 - i) + k) mod 8 = k"
      "8 * (31 - i) + k < 256" by auto
    with i k len show "bit (IDToByte (HashToID hash) ! i) k = bit (hash ! i) k"
      by (simp add: HashToID_def IDToByte_def bit_simps bit_foldl_byte_step)
  qed
qed

section \<open>Keys\<close>

record Ecdsa =
  generateKey :: "NodeID \<Rightarrow> Bytes option"
  publicKey :: "Bytes \<Rightarrow> Bytes"
  signKey :: "Bytes \<Rightarrow> Bytes \<Rightarrow> (Bytes \<times> Bytes) option"
  verifyKey :: "Bytes \<Rightarrow> Bytes \<Rightarrow> Bytes \<Rightarrow> Bytes \<Rightarrow> bool"

record KeyRing =
  scheme :: Ecdsa
  keys :: "Bytes option list"
  pubKeys :: "Bytes option list"

definition ECDSA_P256 :: string where "ECDSA_P256 = ''ECDSA_P256''"
definition ECDSA_SECp256k1 :: string where "ECDSA_SECp256k1 = ''ECDSA_SECp256k1''"
definition BLS_BLS12381 :: string where "BLS_BLS12381 = ''BLS_BLS12381''"

definition GenerateKey :: "Ecdsa \<Rightarrow> string \<Rightarrow> NodeID \<Rightarrow> Bytes option \<times> error option" where
  "GenerateKey ec signer nid =
     (if signer = ECDSA_P256 then
        (case generateKey ec nid of
           None \<Rightarrow> (None, Some ''ecdsa.GenerateKey'')
         | Some priv \<Rightarrow> (Some priv, None))
      else if signer = ECDSA_SECp256k1 then (None, None)
      else if signer = BLS_BLS12381 then (None, None)
      else (None, Some ''Invalid signature scheme!''))"

text \<open>
  \<open>SetKeys\<close> fills the two global slices from index 0 and stops at the first error.  The loop
  reads \<open>keys[i].PublicKey()\<close>, which panics on a nil key.
\<close>

fun set_keys_from :: "KeyRing \<Rightarrow> nat \<Rightarrow> nat \<Rightarrow> (KeyRing \<times> error option) option" where
  "set_keys_from kr i 0 = Some (kr, None)"
| "set_keys_from kr i (Suc k) =
     (case GenerateKey (scheme kr) ECDSA_P256 (NewNodeID (int i + 1)) of
        (key, Some err) \<Rightarrow> Some (kr\<lparr>keys := (keys kr)[i := key]\<rparr>, Some err)
      | (key, None) \<Rightarrow>
          (case key of
             None \<Rightarrow> None
           | Some priv \<Rightarrow>
               set_keys_from
                 (kr\<lparr>keys := (keys kr)[i := Some priv],
                     pubKeys := (pubKeys kr)[i := Some (publicKey (scheme kr) priv)]\<rparr>)
                 (Suc i) k))"

definition SetKeys :: "Ecdsa \<Rightarrow> nat \<Rightarrow> (KeyRing \<times> error option) option" where
  "SetKeys ec n =
     set_keys_from \<lparr>scheme = ec, keys = replicate n None, pubKeys = replicate n None\<rparr> 0 n"

section \<open>Signing and verification\<close>

definition Sign :: "Ecdsa \<Rightarrow> Bytes \<Rightarrow> Bytes \<Rightarrow> Signature \<times> error option" where
  "Sign ec priv msg =
     (case signKey ec priv msg of
        None \<Rightarrow> ([], Some ''ecdsa.Sign'')
      | Some (r, s) \<Rightarrow> ([r, s], None))"

text \<open>\<open>Verify\<close> converts the signature with \<open>ToECDSA\<close>, which indexes its first two elements.\<close>

definition Verify :: "Ecdsa \<Rightarrow> Bytes \<Rightarrow> Signature \<Rightarrow> Bytes \<Rightarrow> (bool \<times> error option) option" where
  "Verify ec pub sig hash =
     do { r \<leftarrow> go_index sig 0;
          s \<leftarrow> go_index sig 1;
          Some (verifyKey ec pub hash r s, None) }"

definition PrivSign :: "KeyRing \<Rightarrow> Bytes \<Rightarrow> NodeID \<Rightarrow> (Signature \<times> error option) option" where
  "PrivSign kr data nodeID =
     do { key \<leftarrow> go_index (keys kr) (i64 (Node nodeID - 1));
          priv \<leftarrow> key;
          Some (Sign (scheme kr) priv data) }"

definition PubVerify :: "KeyRing \<Rightarrow> Signature \<Rightarrow> Bytes \<Rightarrow> NodeID \<Rightarrow> (bool \<times> error option) option" where
  "PubVerify kr sig data nodeID =
     do { key \<leftarrow> go_index (pubKeys kr) (i64 (Node nodeID - 1));
          pub \<leftarrow> key;
          Verify (scheme kr) pub sig data }"

fun verify_signers ::
  "KeyRing \<Rightarrow> AggSig \<Rightarrow> Identifier \<Rightarrow> nat \<Rightarrow> NodeID list \<Rightarrow> (bool \<times> error option) option" where
  "verify_signers kr aggregatedSigs blockID i [] = Some (True, None)"
| "verify_signers kr aggregatedSigs blockID i (signer # rest) =
     do { sig \<leftarrow> go_index aggregatedSigs (int i);
          (sigIsCorrect, errAgg) \<leftarrow> PubVerify kr sig (IDToByte blockID) signer;
          if errAgg \<noteq> None then Some (False, errAgg)
          else if \<not> sigIsCorrect then Some (False, None)
          else verify_signers kr aggregatedSigs blockID (Suc i) rest }"

definition VerifyQuorumSignature ::
  "KeyRing \<Rightarrow> AggSig \<Rightarrow> Identifier \<Rightarrow> NodeID list \<Rightarrow> (bool \<times> error option) option" where
  "VerifyQuorumSignature kr aggregatedSigs blockID aggSigners =
     verify_signers kr aggregatedSigs blockID 0 aggSigners"

section \<open>What verification establishes\<close>

definition signed_by :: "KeyRing \<Rightarrow> Identifier \<Rightarrow> NodeID \<Rightarrow> Signature \<Rightarrow> bool" where
  "signed_by kr blockID signer sig \<longleftrightarrow>
     PubVerify kr sig (IDToByte blockID) signer = Some (True, None)"

lemma PubVerify_no_error: "PubVerify kr sig data nid = Some (ok, err) \<Longrightarrow> err = None"
  by (auto simp: PubVerify_def Verify_def bind_Some_conv)

lemma verify_signers_True_iff:
  "verify_signers kr aggs blockID i signers = Some (True, err) \<longleftrightarrow>
     err = None \<and> i + length signers \<le> max i (length aggs) \<and>
     (\<forall>j < length signers. signed_by kr blockID (signers ! j) (aggs ! (i + j)))"
proof (induction signers arbitrary: i)
  case Nil
  then show ?case by auto
next
  case (Cons s ss)
  have all: "(\<forall>j < length (s # ss). signed_by kr blockID ((s # ss) ! j) (aggs ! (i + j))) \<longleftrightarrow>
    signed_by kr blockID s (aggs ! i) \<and>
    (\<forall>j < length ss. signed_by kr blockID (ss ! j) (aggs ! (Suc i + j)))"
    by (simp add: All_less_Suc2)
  show ?case
  proof (cases "i < length aggs")
    case False
    then show ?thesis by (auto simp: go_index_def)
  next
    case True
    show ?thesis
    proof (cases "signed_by kr blockID s (aggs ! i)")
      case True
      with \<open>i < length aggs\<close> Cons.IH [of "Suc i"] all show ?thesis
        by (auto simp: signed_by_def)
    next
      case False
      with \<open>i < length aggs\<close> all show ?thesis
        by (auto simp: signed_by_def bind_Some_conv dest: PubVerify_no_error split: if_splits)
    qed
  qed
qed

lemma VerifyQuorumSignature_True_iff:
  "VerifyQuorumSignature kr aggs blockID signers = Some (True, err) \<longleftrightarrow>
     err = None \<and> length signers \<le> length aggs \<and>
     (\<forall>j < length signers. signed_by kr blockID (signers ! j) (aggs ! j))"
  by (simp add: VerifyQuorumSignature_def verify_signers_True_iff)

section \<open>Keys set up by \<open>SetKeys\<close> verify what they sign\<close>

definition ecdsa_correct :: "Ecdsa \<Rightarrow> bool" where
  "ecdsa_correct ec \<longleftrightarrow>
     (\<forall>priv data r s. signKey ec priv data = Some (r, s) \<longrightarrow>
        verifyKey ec (publicKey ec priv) data r s)"

definition ring_ok :: "KeyRing \<Rightarrow> nat \<Rightarrow> bool" where
  "ring_ok kr k \<longleftrightarrow> length (pubKeys kr) = length (keys kr) \<and>
     (\<forall>j < k. j < length (keys kr) \<and>
        (\<exists>priv. keys kr ! j = Some priv \<and> pubKeys kr ! j = Some (publicKey (scheme kr) priv)))"

lemma set_keys_from_ok:
  assumes "set_keys_from kr i k = Some (kr', None)" and "ring_ok kr i" and "i + k \<le> length (keys kr)"
  shows "ring_ok kr' (i + k) \<and> scheme kr' = scheme kr"
  using assms
proof (induction kr i k rule: set_keys_from.induct)
  case (1 kr i)
  then show ?case by simp
next
  case (2 kr i k)
  from "2.prems"(1) obtain priv where
    gen: "GenerateKey (scheme kr) ECDSA_P256 (NewNodeID (int i + 1)) = (Some priv, None)"
    and rest: "set_keys_from (kr\<lparr>keys := (keys kr)[i := Some priv],
        pubKeys := (pubKeys kr)[i := Some (publicKey (scheme kr) priv)]\<rparr>) (Suc i) k
      = Some (kr', None)"
    by (auto split: prod.splits option.splits)
  let ?kr = "kr\<lparr>keys := (keys kr)[i := Some priv],
    pubKeys := (pubKeys kr)[i := Some (publicKey (scheme kr) priv)]\<rparr>"
  have "ring_ok ?kr (Suc i)"
    using "2.prems"(2,3) by (auto simp: ring_ok_def nth_list_update less_Suc_eq)
  with "2.IH" [OF gen [symmetric] refl refl rest] "2.prems"(3) show ?case by simp
qed

text \<open>Sign-verify round trip: after \<open>SetKeys\<close> has filled the key ring of a network of \<open>n\<close> nodes without
  error, whatever \<open>PrivSign\<close> signs for one of its nodes, \<open>PubVerify\<close> accepts for that node.  The
  curve's documented law (a signature verifies under the public key of its private key) is the
  hypothesis \<open>ecdsa_correct\<close>.\<close>

theorem SetKeys_sign_verify:
  assumes "ecdsa_correct ec" and "SetKeys ec n = Some (kr, None)"
    and "1 \<le> i" and "i \<le> int n" and "n < 2 ^ 63"
    and "PrivSign kr data (NewNodeID i) = Some (sig, None)"
  shows "PubVerify kr sig data (NewNodeID i) = Some (True, None)"
proof -
  let ?kr0 = "\<lparr>scheme = ec, keys = replicate n None, pubKeys = replicate n None\<rparr>"
  have "ring_ok kr (0 + n) \<and> scheme kr = scheme ?kr0"
    using assms(2) by (intro set_keys_from_ok) (auto simp: SetKeys_def ring_ok_def)
  then have ok: "ring_ok kr n" and ec: "scheme kr = ec" by simp_all
  have idx: "i64 (Node (NewNodeID i) - 1) = int (nat (i - 1))"
    using assms(3-5) by (simp add: i64_id in_i64_def)
  from ok assms(3,4) obtain priv where j: "nat (i - 1) < length (keys kr)"
    and k: "keys kr ! nat (i - 1) = Some priv"
    and p: "pubKeys kr ! nat (i - 1) = Some (publicKey ec priv)"
  proof -
    from assms(3,4) have "nat (i - 1) < n" by linarith
    with ok ec that show ?thesis by (auto simp: ring_ok_def)
  qed
  have lp: "nat (i - 1) < length (pubKeys kr)" using ok j by (simp add: ring_ok_def)
  have kk: "go_index (keys kr) (i64 (Node (NewNodeID i) - 1)) = Some (Some priv)"
    unfolding idx go_index_nat [OF j] k ..
  have pp: "go_index (pubKeys kr) (i64 (Node (NewNodeID i) - 1)) = Some (Some (publicKey ec priv))"
    unfolding idx go_index_nat [OF lp] p ..
  from assms(6) ec obtain r s where "signKey ec priv data = Some (r, s)" "sig = [r, s]"
    by (auto simp: PrivSign_def Sign_def kk split: option.splits)
  with assms(1) ec show ?thesis
    by (auto simp: PubVerify_def Verify_def ecdsa_correct_def go_index_def [of "[r, s]"] pp)
qed

definition toy_ecdsa :: Ecdsa where
  "toy_ecdsa = \<lparr>generateKey = (\<lambda>n. Some [of_nat (length n)]), publicKey = (\<lambda>k. k),
     signKey = (\<lambda>k m. Some (k, m)), verifyKey = (\<lambda>p m r s. p = r \<and> m = s)\<rparr>"

theorem SetKeys_sign_verify_witness:
  "\<exists>kr. SetKeys toy_ecdsa 2 = Some (kr, None) \<and>
     PubVerify kr [[1], [7, 8]] [7, 8] (NewNodeID 2) = Some (True, None)"
proof -
  have c: "ecdsa_correct toy_ecdsa" by (simp add: ecdsa_correct_def toy_ecdsa_def)
  have l: "length (NewNodeID 1) = 1" "length (NewNodeID 2) = 1"
    by (simp_all add: NewNodeID_def Itoa_def itoa_nat.simps)
  let ?kr = "\<lparr>scheme = toy_ecdsa, keys = [Some [1], Some [1]], pubKeys = [Some [1], Some [1]]\<rparr>"
  have s: "SetKeys toy_ecdsa 2 = Some (?kr, None)"
    using l by (simp add: SetKeys_def numeral_2_eq_2 GenerateKey_def toy_ecdsa_def)
  have n: "Node (NewNodeID 2) = 2" by (rule Node_NewNodeID) simp_all
  have "PrivSign ?kr [7, 8] (NewNodeID 2) = Some ([[1], [7, 8]], None)"
    by (simp add: PrivSign_def Sign_def toy_ecdsa_def n i64_def go_index_def)
  from SetKeys_sign_verify [OF c s _ _ _ this] s show ?thesis by auto
qed

text \<open>Quorum signatures: \<open>VerifyQuorumSignature\<close> accepts exactly when there is a signature for every listed
  signer and each one verifies for the signer at its position.\<close>

theorem VerifyQuorumSignature_accepts_iff:
  "(\<exists>err. VerifyQuorumSignature kr aggs blockID signers = Some (True, err)) =
     (length signers \<le> length aggs \<and>
      list_all2 (signed_by kr blockID) signers (take (length signers) aggs))"
  by (auto simp: VerifyQuorumSignature_True_iff list_all2_conv_all_nth)

text \<open>No quorum check: the verifier does not count signers; an empty signer list is accepted for any block, so the
  caller alone is responsible for the size of a quorum.\<close>

theorem VerifyQuorumSignature_empty_accepted:
  "VerifyQuorumSignature kr aggs blockID [] = Some (True, None)"
  by (simp add: VerifyQuorumSignature_def)

text \<open>Identifier round trip: an identifier survives its conversion to bytes and back, and a digest of 32 bytes
  survives its conversion to an identifier and back.\<close>

theorem identifier_bytes_roundtrip:
  "HashToID (IDToByte x) = x \<and> (length hash = 32 \<longrightarrow> IDToByte (HashToID hash) = hash)"
  by (simp add: HashToID_IDToByte IDToByte_HashToID)

theorem identifier_bytes_roundtrip_witness:
  "length (replicate 32 (3 :: 8 word)) = 32 \<and>
     IDToByte (HashToID (replicate 32 3)) = replicate 32 3"
  using identifier_bytes_roundtrip [of 0 "replicate 32 3"] by simp

end
