(* ===== verification/Merkle.thy ===== *)
theory Merkle
  imports Crypto
begin

text \<open>
  Merkle trees and proofs (src/crypto/merkle/hash.go, tree.go, proof.go).  The hash function
  \<open>tmhash.Sum\<close> is the argument \<open>H\<close>.  The recursive root, the in-place iterative root, the proof
  builder with its linked proof nodes, and the verifier are modelled; the lemmas show that the two
  root computations agree, that every built proof verifies, and that a verified proof speaks of
  the item at its index unless two distinct strings among those hashed collide.
\<close>

section \<open>Hashes (hash.go)\<close>

definition emptyHash :: "(Bytes \<Rightarrow> Bytes) \<Rightarrow> Bytes" where
  "emptyHash H = H []"

definition leafHash :: "(Bytes \<Rightarrow> Bytes) \<Rightarrow> Bytes \<Rightarrow> Bytes" where
  "leafHash H leaf = H ([0] @ leaf)"

definition innerHash :: "(Bytes \<Rightarrow> Bytes) \<Rightarrow> Bytes \<Rightarrow> Bytes \<Rightarrow> Bytes" where
  "innerHash H left right = H ([1] @ (left @ right))"

section \<open>Split point (tree.go)\<close>

fun bits_Len :: "nat \<Rightarrow> nat" where
  "bits_Len n = (if n = 0 then 0 else Suc (bits_Len (n div 2)))"

declare bits_Len.simps [simp del]

definition split_point :: "nat \<Rightarrow> nat" where
  "split_point n = (let k = 2 ^ (bits_Len n - 1) in if k = n then k div 2 else k)"

definition getSplitPoint :: "int \<Rightarrow> int option" where
  "getSplitPoint len =
     (if len < 1 then None else Some (int (split_point (nat len))))"

lemma bits_Len_bounds: "0 < n \<Longrightarrow> 2 ^ (bits_Len n - 1) \<le> n \<and> n < 2 ^ bits_Len n \<and> 0 < bits_Len n"
proof (induction n rule: bits_Len.induct)
  case (1 n)
  show ?case
  proof (cases "n div 2 = 0")
    case True
    with "1.prems" have "n = 1" by simp
    then show ?thesis by (simp add: bits_Len.simps)
  next
    case False
    then have IH: "2 ^ (bits_Len (n div 2) - 1) \<le> n div 2" "n div 2 < 2 ^ bits_Len (n div 2)"
      "0 < bits_Len (n div 2)"
      using "1.IH" "1.prems" by auto
    then have "(2::nat) ^ bits_Len (n div 2) = 2 * 2 ^ (bits_Len (n div 2) - 1)"
      by (cases "bits_Len (n div 2)") auto
    moreover have "n = 2 * (n div 2) + n mod 2" "n mod 2 < 2" by simp_all
    ultimately have "2 ^ bits_Len (n div 2) \<le> n" "n < 2 * 2 ^ bits_Len (n div 2)"
      using IH by linarith+
    with IH "1.prems" show ?thesis by (simp add: bits_Len.simps [of n])
  qed
qed

text \<open>The split point is the largest power of two below the length.\<close>

definition is_split :: "nat \<Rightarrow> nat \<Rightarrow> bool" where
  "is_split n k \<longleftrightarrow> (\<exists>e. k = 2 ^ e) \<and> k < n \<and> n \<le> 2 * k"

lemma split_point_is_split: "2 \<le> n \<Longrightarrow> is_split n (split_point n)"
proof -
  assume n: "2 \<le> n"
  let ?e = "bits_Len n - 1"
  have b: "2 ^ ?e \<le> n" "n < 2 ^ bits_Len n" "0 < bits_Len n" using bits_Len_bounds n by auto
  then have n2: "n < 2 * 2 ^ ?e" by (cases "bits_Len n") auto
  show ?thesis
  proof (cases "2 ^ ?e = n")
    case True
    with n have "?e \<noteq> 0" by (metis One_nat_def Suc_1 not_less_eq_eq order_refl power_0)
    then obtain e where "?e = Suc e" by (cases ?e) auto
    with True have "split_point n = 2 ^ e" "n = 2 * 2 ^ e" by (auto simp: split_point_def)
    then show ?thesis by (auto simp: is_split_def)
  next
    case False
    with b n2 show ?thesis by (auto simp: split_point_def is_split_def)
  qed
qed

lemma is_split_unique: "is_split n k \<Longrightarrow> is_split n k' \<Longrightarrow> k = k'"
proof -
  assume "is_split n k" "is_split n k'"
  then obtain e e' where k: "k = 2 ^ e" "k < n" "n \<le> 2 * k" and k': "k' = 2 ^ e'" "k' < n" "n \<le> 2 * k'"
    by (auto simp: is_split_def)
  have "e < Suc e'" "e' < Suc e"
    using k k' power_less_imp_less_exp [of "2::nat" e "Suc e'"] power_less_imp_less_exp [of "2::nat" e' "Suc e"]
    by auto
  then have "e = e'" by simp
  with k k' show ?thesis by simp
qed

lemma split_point_bounds: "2 \<le> n \<Longrightarrow> 0 < split_point n \<and> split_point n < n"
  using split_point_is_split [of n] by (auto simp: is_split_def)

lemma split_point_length:
  assumes "xs \<noteq> []" and "length xs \<noteq> Suc 0"
  shows "0 < split_point (length xs)" and "split_point (length xs) < length xs"
proof -
  have "2 \<le> length xs" using assms by (cases xs) (auto simp: Suc_le_eq)
  then show "0 < split_point (length xs)" "split_point (length xs) < length xs"
    using split_point_bounds by auto
qed

lemma split_point_half: "3 \<le> n \<Longrightarrow> split_point ((n + 1) div 2) * 2 = split_point n"
proof -
  assume n: "3 \<le> n"
  have s: "is_split n (split_point n)" using n by (intro split_point_is_split) simp
  then obtain e where e: "split_point n = 2 ^ e" by (auto simp: is_split_def)
  with s n have "e \<noteq> 0" by (auto simp: is_split_def intro: Nat.gr0I)
  then obtain d where d: "e = Suc d" by (cases e) auto
  have "is_split ((n + 1) div 2) (2 ^ d)" using s e d by (auto simp: is_split_def)
  moreover have "is_split ((n + 1) div 2) (split_point ((n + 1) div 2))"
    using n by (intro split_point_is_split) simp
  ultimately show ?thesis using is_split_unique e d by fastforce
qed

section \<open>Recursive root (tree.go)\<close>

function HashFromByteSlices :: "(Bytes \<Rightarrow> Bytes) \<Rightarrow> Bytes list \<Rightarrow> Bytes" where
  "HashFromByteSlices H items =
     (if length items = 0 then emptyHash H
      else if length items = 1 then leafHash H (items ! 0)
      else let k = split_point (length items);
               left = HashFromByteSlices H (take k items);
               right = HashFromByteSlices H (drop k items)
           in innerHash H left right)"
  by pat_completeness auto
termination
  by (relation "measure (\<lambda>(H, items). length items)")
     (auto simp: split_point_length min_less_iff_disj diff_less)

declare HashFromByteSlices.simps [simp del]

section \<open>Iterative root (tree.go)\<close>

text \<open>
  The loop works in place on one array: \<open>rp\<close> and \<open>wp\<close> are its read and write positions, and
  the prefix of length \<open>wp\<close> is the next level when the pass ends.
\<close>

function pass_loop ::
  "(Bytes \<Rightarrow> Bytes) \<Rightarrow> nat \<Rightarrow> Bytes list \<Rightarrow> nat \<Rightarrow> nat \<Rightarrow> Bytes list \<times> nat" where
  "pass_loop H sz items rp wp =
     (if rp < sz then
        if rp + 1 < sz then
          pass_loop H sz (items[wp := innerHash H (items ! rp) (items ! (rp + 1))]) (rp + 2) (wp + 1)
        else
          pass_loop H sz (items[wp := items ! rp]) (rp + 1) (wp + 1)
      else (items, wp))"
  by pat_completeness auto
termination
  by (relation "measure (\<lambda>(H, sz, items, rp, wp). sz - rp)") auto

declare pass_loop.simps [simp del]

lemma pass_loop_wp: "snd (pass_loop H sz items rp wp) = wp + (sz - rp + 1) div 2"
proof (induction H sz items rp wp rule: pass_loop.induct)
  case (1 H sz items rp wp)
  consider "sz \<le> rp" | "sz = rp + 1" | "rp + 2 \<le> sz" by linarith
  then show ?case
  proof cases
    case 1
    then show ?thesis by (simp add: pass_loop.simps [of H sz items rp wp])
  next
    case 2
    with "1" show ?thesis by (subst pass_loop.simps) simp
  next
    case 3
    then obtain d where "sz = rp + 2 + d" using le_Suc_ex by blast
    with "1" show ?thesis by (subst pass_loop.simps) simp
  qed
qed

function level_loop :: "(Bytes \<Rightarrow> Bytes) \<Rightarrow> Bytes list \<Rightarrow> nat \<Rightarrow> Bytes" where
  "level_loop H items sz =
     (if sz = 0 then emptyHash H
      else if sz = 1 then items ! 0
      else let r = pass_loop H sz items 0 0 in level_loop H (fst r) (snd r))"
  by pat_completeness auto
termination
  by (relation "measure (\<lambda>(H, items, sz). sz)") (auto simp: pass_loop_wp)

declare level_loop.simps [simp del]

definition HashFromByteSlicesIterative :: "(Bytes \<Rightarrow> Bytes) \<Rightarrow> Bytes list \<Rightarrow> Bytes" where
  "HashFromByteSlicesIterative H input = level_loop H (map (leafHash H) input) (length input)"

subsection \<open>Agreement of the two\<close>

text \<open>A root over hashes, and one level of pairing as a list function.\<close>

function root_of :: "(Bytes \<Rightarrow> Bytes) \<Rightarrow> Bytes list \<Rightarrow> Bytes" where
  "root_of H hs =
     (if length hs = 0 then emptyHash H
      else if length hs = 1 then hs ! 0
      else innerHash H (root_of H (take (split_point (length hs)) hs))
                       (root_of H (drop (split_point (length hs)) hs)))"
  by pat_completeness auto
termination
  by (relation "measure (\<lambda>(H, hs). length hs)")
     (auto simp: split_point_length min_less_iff_disj diff_less)

declare root_of.simps [simp del]

fun pair_up :: "(Bytes \<Rightarrow> Bytes) \<Rightarrow> Bytes list \<Rightarrow> Bytes list" where
  "pair_up H (x # y # r) = innerHash H x y # pair_up H r"
| "pair_up H xs = xs"

lemma length_pair_up: "length (pair_up H xs) = (length xs + 1) div 2"
  by (induction H xs rule: pair_up.induct) auto

lemma pair_up_append: "even (length xs) \<Longrightarrow> pair_up H (xs @ ys) = pair_up H xs @ pair_up H ys"
  by (induction H xs rule: pair_up.induct) auto

lemma HashFromByteSlices_root_of: "HashFromByteSlices H items = root_of H (map (leafHash H) items)"
proof (induction H items rule: HashFromByteSlices.induct)
  case (1 H items)
  then show ?case
    by (auto simp: HashFromByteSlices.simps [of H items] root_of.simps [of H "map (leafHash H) items"]
        Let_def take_map drop_map)
qed

lemma root_of_pair_up: "2 \<le> length hs \<Longrightarrow> root_of H (pair_up H hs) = root_of H hs"
proof (induction "length hs" arbitrary: hs rule: less_induct)
  case less
  let ?n = "length hs" and ?k = "split_point (length hs)"
  show ?case
  proof (cases "?n = 2")
    case True
    then obtain x y where "hs = [x, y]" by (auto simp: length_Suc_conv numeral_2_eq_2)
    moreover have "split_point (Suc (Suc 0)) = 1"
      using split_point_bounds [of "Suc (Suc 0)"] by simp
    ultimately show ?thesis by (simp add: root_of.simps)
  next
    case False
    with less.prems have n3: "3 \<le> ?n" by simp
    let ?j = "split_point ((?n + 1) div 2)"
    have j: "?j * 2 = ?k" and kn: "?k < ?n" "0 < ?k"
      using split_point_half n3 split_point_bounds [of ?n] by auto
    have k2: "2 \<le> ?k" and ev: "even ?k" using j kn by presburger+
    have split: "pair_up H hs = pair_up H (take ?k hs) @ pair_up H (drop ?k hs)"
      using pair_up_append [of "take ?k hs" H "drop ?k hs"] kn ev by simp
    have len: "length (pair_up H (take ?k hs)) = ?j"
      using kn j by (simp add: length_pair_up)
    have l: "root_of H (pair_up H (take ?k hs)) = root_of H (take ?k hs)"
      using less.hyps [of "take ?k hs"] kn k2 by simp
    have r: "root_of H (pair_up H (drop ?k hs)) = root_of H (drop ?k hs)"
    proof (cases "2 \<le> length (drop ?k hs)")
      case True
      with less.hyps [of "drop ?k hs"] kn show ?thesis by simp
    next
      case False
      with kn obtain x where "drop ?k hs = [x]"
        by (cases "drop ?k hs" rule: list.exhaust) (auto simp: not_le less_Suc_eq_le numeral_2_eq_2)
      then show ?thesis by simp
    qed
    have lp: "length (pair_up H hs) = (?n + 1) div 2" "2 \<le> (?n + 1) div 2"
      using n3 by (simp_all add: length_pair_up)
    have "root_of H (pair_up H hs) =
      innerHash H (root_of H (take ?j (pair_up H hs))) (root_of H (drop ?j (pair_up H hs)))"
      using n3 lp by (subst root_of.simps) simp
    also have "\<dots> = innerHash H (root_of H (take ?k hs)) (root_of H (drop ?k hs))"
      using split len l r by simp
    also have "\<dots> = root_of H hs" using n3 by (subst (3) root_of.simps) auto
    finally show ?thesis .
  qed
qed

lemma pass_loop_pair_up:
  assumes "wp \<le> rp" and "sz \<le> length items"
  shows "length (fst (pass_loop H sz items rp wp)) = length items \<and>
    take (snd (pass_loop H sz items rp wp)) (fst (pass_loop H sz items rp wp)) =
      take wp items @ pair_up H (drop rp (take sz items))"
  using assms
proof (induction H sz items rp wp rule: pass_loop.induct)
  case (1 H sz items rp wp)
  show ?case
  proof (cases "rp < sz")
    case False
    then show ?thesis by (simp add: pass_loop.simps [of H sz items rp wp])
  next
    case rp: True
    show ?thesis
    proof (cases "rp + 1 < sz")
      case True
      let ?items = "items[wp := innerHash H (items ! rp) (items ! (rp + 1))]"
      have d: "drop rp (take sz items) =
        items ! rp # items ! (rp + 1) # drop (rp + 2) (take sz items)"
        using True "1.prems" by (simp add: Cons_nth_drop_Suc [symmetric])
      have "drop (rp + 2) (take sz ?items) = drop (rp + 2) (take sz items)"
        using "1.prems" by (simp add: take_update_swap drop_update_cancel)
      moreover have "take (wp + 1) ?items = take wp items @ [innerHash H (items ! rp) (items ! (rp + 1))]"
        using True "1.prems" by (simp add: take_Suc_conv_app_nth)
      ultimately show ?thesis
        using "1.IH"(1) [OF rp True] "1.prems" rp True d
        by (simp add: pass_loop.simps [of H sz items rp wp])
    next
      case False
      let ?items = "items[wp := items ! rp]"
      have d: "drop rp (take sz items) = [items ! rp]"
        using False rp "1.prems" by (simp add: Cons_nth_drop_Suc [symmetric])
      have "drop (rp + 1) (take sz ?items) = []" using False by simp
      moreover have "take (wp + 1) ?items = take wp items @ [items ! rp]"
        using rp "1.prems" by (simp add: take_Suc_conv_app_nth)
      ultimately show ?thesis
        using "1.IH"(2) [OF rp False] "1.prems" rp False d
        by (simp add: pass_loop.simps [of H sz items rp wp])
    qed
  qed
qed

lemma level_loop_root_of:
  "sz \<le> length items \<Longrightarrow> level_loop H items sz = root_of H (take sz items)"
proof (induction H items sz rule: level_loop.induct)
  case (1 H items sz)
  show ?case
  proof (cases "2 \<le> sz")
    case False
    then consider "sz = 0" | "sz = 1" by linarith
    then show ?thesis
    proof cases
      case 1
      then show ?thesis by (simp add: level_loop.simps [of H items 0] root_of.simps [of H "[]"])
    next
      case 2
      with "1.prems" obtain x r where "items = x # r" by (cases items) auto
      with 2 show ?thesis by (simp add: level_loop.simps [of H _ "Suc 0"] root_of.simps [of H "[x]"])
    qed
  next
    case True
    let ?r = "pass_loop H sz items 0 0"
    have p: "length (fst ?r) = length items" "take (snd ?r) (fst ?r) = pair_up H (take sz items)"
      using pass_loop_pair_up [of 0 0 sz items H] "1.prems" by simp_all
    have "snd ?r \<le> length (fst ?r)"
      using p "1.prems" by (simp add: pass_loop_wp)
    then have "level_loop H (fst ?r) (snd ?r) = root_of H (pair_up H (take sz items))"
      using "1.IH" [of ?r] True p by simp
    with True "1.prems" show ?thesis
      by (simp add: level_loop.simps [of H items sz] Let_def root_of_pair_up)
  qed
qed

text \<open>Optimised root: the in-place iterative root computation returns the root of the recursive definition, for
  every list of items and every hash function.\<close>

theorem iterative_eq_recursive: "HashFromByteSlicesIterative H input = HashFromByteSlices H input"
  by (simp add: HashFromByteSlicesIterative_def level_loop_root_of HashFromByteSlices_root_of)

section \<open>Proofs (proof.go)\<close>

definition MaxAunts :: nat where "MaxAunts = 100"

definition tmhash_Size :: nat where "tmhash_Size = 32"

record Proof =
  prTotal :: int
  prIndex :: int
  prLeafHash :: Bytes
  prAunts :: "Bytes list"

text \<open>
  Proof nodes are linked by pointers, so they live in a store: an address is an index into the
  list of allocated nodes, and assigning to a field of a node updates the list at its address.
\<close>

record ProofNode =
  pnHash :: Bytes
  pnParent :: "nat option"
  pnLeft :: "nat option"
  pnRight :: "nat option"

type_synonym pn_store = "ProofNode list"

definition newProofNode :: "Bytes \<Rightarrow> ProofNode" where
  "newProofNode h = \<lparr>pnHash = h, pnParent = None, pnLeft = None, pnRight = None\<rparr>"

function trailsFromByteSlices ::
  "(Bytes \<Rightarrow> Bytes) \<Rightarrow> Bytes list \<Rightarrow> pn_store \<Rightarrow> nat list \<times> nat \<times> pn_store" where
  "trailsFromByteSlices H items s =
     (if length items = 0 then ([], length s, s @ [newProofNode (emptyHash H)])
      else if length items = 1 then
        ([length s], length s, s @ [newProofNode (leafHash H (items ! 0))])
      else let k = split_point (length items);
               (lefts, leftRoot, s1) = trailsFromByteSlices H (take k items) s;
               (rights, rightRoot, s2) = trailsFromByteSlices H (drop k items) s1;
               rootHash = innerHash H (pnHash (s2 ! leftRoot)) (pnHash (s2 ! rightRoot));
               root = length s2;
               s3 = s2 @ [newProofNode rootHash];
               s4 = s3[leftRoot := (s3 ! leftRoot)\<lparr>pnParent := Some root, pnRight := Some rightRoot\<rparr>];
               s5 = s4[rightRoot := (s4 ! rightRoot)\<lparr>pnParent := Some root, pnLeft := Some leftRoot\<rparr>]
           in (lefts @ rights, root, s5))"
  by pat_completeness auto
termination
  by (relation "measure (\<lambda>(H, items, s). length items)")
     (auto simp: split_point_length min_less_iff_disj diff_less)

declare trailsFromByteSlices.simps [simp del]

text \<open>The walk up the parent pointers; \<open>None\<close> stands for a walk that never ends.\<close>

definition node_aunt :: "pn_store \<Rightarrow> nat \<Rightarrow> Bytes list" where
  "node_aunt s spn =
     (case pnLeft (s ! spn) of
        Some l \<Rightarrow> [pnHash (s ! l)]
      | None \<Rightarrow> (case pnRight (s ! spn) of Some r \<Rightarrow> [pnHash (s ! r)] | None \<Rightarrow> []))"

partial_function (option) flatten_loop ::
  "pn_store \<Rightarrow> nat option \<Rightarrow> Bytes list \<Rightarrow> Bytes list option" where
  "flatten_loop s spn innerHashes =
     (case spn of
        None \<Rightarrow> Some innerHashes
      | Some a \<Rightarrow> flatten_loop s (pnParent (s ! a)) (innerHashes @ node_aunt s a))"

definition FlattenAunts :: "pn_store \<Rightarrow> nat \<Rightarrow> Bytes list option" where
  "FlattenAunts s spn = flatten_loop s (Some spn) []"

fun proofs_from :: "pn_store \<Rightarrow> int \<Rightarrow> int \<Rightarrow> nat list \<Rightarrow> Proof list option" where
  "proofs_from s tot i [] = Some []"
| "proofs_from s tot i (trail # trails) =
     do { aunts \<leftarrow> FlattenAunts s trail;
          rest \<leftarrow> proofs_from s tot (i + 1) trails;
          Some (\<lparr>prTotal = tot, prIndex = i, prLeafHash = pnHash (s ! trail), prAunts = aunts\<rparr> # rest) }"

definition ProofsFromByteSlices ::
  "(Bytes \<Rightarrow> Bytes) \<Rightarrow> Bytes list \<Rightarrow> (Bytes \<times> Proof list) option" where
  "ProofsFromByteSlices H items =
     (case trailsFromByteSlices H items [] of
        (trails, rootSPN, s) \<Rightarrow>
          do { proofs \<leftarrow> proofs_from s (int (length items)) 0 trails;
               Some (pnHash (s ! rootSPN), proofs) })"

subsection \<open>Verification\<close>

text \<open>\<open>None\<close> is the nil slice, which \<open>bytes.Equal\<close> does not tell from the empty one.\<close>

function computeHashFromAunts ::
  "(Bytes \<Rightarrow> Bytes) \<Rightarrow> int \<Rightarrow> int \<Rightarrow> Bytes \<Rightarrow> Bytes list \<Rightarrow> Bytes option" where
  "computeHashFromAunts H index tot lh innerHashes =
     (if index \<ge> tot \<or> index < 0 \<or> tot \<le> 0 then None
      else if tot = 1 then
        (if length innerHashes \<noteq> 0 then None else Some lh)
      else if length innerHashes = 0 then None
      else let numLeft = int (split_point (nat tot)) in
        if index < numLeft then
          (case computeHashFromAunts H index numLeft lh (butlast innerHashes) of
             None \<Rightarrow> None
           | Some leftHash \<Rightarrow> Some (innerHash H leftHash (last innerHashes)))
        else
          (case computeHashFromAunts H (index - numLeft) (tot - numLeft) lh (butlast innerHashes) of
             None \<Rightarrow> None
           | Some rightHash \<Rightarrow> Some (innerHash H (last innerHashes) rightHash)))"
  by pat_completeness auto
termination
  by (relation "measure (\<lambda>(H, i, n, lh, hs). length hs)") auto

declare computeHashFromAunts.simps [simp del]

definition ComputeRootHash :: "(Bytes \<Rightarrow> Bytes) \<Rightarrow> Proof \<Rightarrow> Bytes option" where
  "ComputeRootHash H sp =
     computeHashFromAunts H (prIndex sp) (prTotal sp) (prLeafHash sp) (prAunts sp)"

definition bytes_of :: "Bytes option \<Rightarrow> Bytes" where
  "bytes_of b = (case b of None \<Rightarrow> [] | Some x \<Rightarrow> x)"

definition ProofVerify :: "(Bytes \<Rightarrow> Bytes) \<Rightarrow> Proof \<Rightarrow> Bytes \<Rightarrow> Bytes \<Rightarrow> error option" where
  "ProofVerify H sp rootHash leaf =
     (let lh = leafHash H leaf in
      if prTotal sp < 0 then Some ''proof total must be positive''
      else if prIndex sp < 0 then Some ''proof index cannot be negative''
      else if prLeafHash sp \<noteq> lh then Some ''invalid leaf hash''
      else if bytes_of (ComputeRootHash H sp) \<noteq> rootHash then Some ''invalid root hash''
      else None)"

definition ValidateBasic :: "Proof \<Rightarrow> error option" where
  "ValidateBasic sp =
     (if prTotal sp < 0 then Some ''negative Total''
      else if prIndex sp < 0 then Some ''negative Index''
      else if length (prLeafHash sp) \<noteq> tmhash_Size then Some ''expected LeafHash size''
      else if length (prAunts sp) > MaxAunts then Some ''expected no more aunts''
      else if \<exists>a\<in>set (prAunts sp). length a \<noteq> tmhash_Size then Some ''expected Aunts size''
      else None)"

subsection \<open>Built proofs verify\<close>

text \<open>The aunts of an item, by recursion over the tree.\<close>

function aunts_of :: "(Bytes \<Rightarrow> Bytes) \<Rightarrow> Bytes list \<Rightarrow> nat \<Rightarrow> Bytes list" where
  "aunts_of H items i =
     (if length items = 0 \<or> length items = 1 then []
      else let k = split_point (length items) in
        if i < k then aunts_of H (take k items) i @ [HashFromByteSlices H (drop k items)]
        else aunts_of H (drop k items) (i - k) @ [HashFromByteSlices H (take k items)])"
  by pat_completeness auto
termination
  by (relation "measure (\<lambda>(H, items, i). length items)")
     (auto simp: split_point_length min_less_iff_disj diff_less)

declare aunts_of.simps [simp del]

lemma computeHashFromAunts_aunts_of:
  "i < length items \<Longrightarrow>
    computeHashFromAunts H (int i) (int (length items)) (leafHash H (items ! i)) (aunts_of H items i)
      = Some (HashFromByteSlices H items)"
proof (induction H items i rule: aunts_of.induct)
  case (1 H items i)
  let ?k = "split_point (length items)"
  show ?case
  proof (cases "length items = 1")
    case True
    with "1.prems" show ?thesis
      by (simp add: computeHashFromAunts.simps [of H 0 1] aunts_of.simps [of H items]
          HashFromByteSlices.simps [of H items])
  next
    case False
    with "1.prems" have ne: "\<not> (length items = 0 \<or> length items = 1)" by auto
    then have k: "0 < ?k" "?k < length items" using split_point_length [of items] by auto
    show ?thesis
    proof (cases "i < ?k")
      case True
      from "1.IH"(1) [OF ne refl True] k True have
        "computeHashFromAunts H (int i) (int ?k) (leafHash H (items ! i)) (aunts_of H (take ?k items) i)
           = Some (HashFromByteSlices H (take ?k items))"
        by (simp add: min_absorb2)
      with True ne k show ?thesis
        by (simp add: computeHashFromAunts.simps [of H "int i" "int (length items)"]
            aunts_of.simps [of H items i] HashFromByteSlices.simps [of H items] Let_def)
    next
      case False
      from "1.IH"(2) [OF ne refl False] k False "1.prems" have
        "computeHashFromAunts H (int i - int ?k) (int (length items) - int ?k) (leafHash H (items ! i))
           (aunts_of H (drop ?k items) (i - ?k)) = Some (HashFromByteSlices H (drop ?k items))"
        by (simp add: of_nat_diff)
      with False ne k "1.prems" show ?thesis
        by (simp add: computeHashFromAunts.simps [of H "int i" "int (length items)"]
            aunts_of.simps [of H items i] HashFromByteSlices.simps [of H items] Let_def)
    qed
  qed
qed

text \<open>
  A later store agrees with the one a subtree was built in, the links of the subtree's own root
  apart, which its parent sets.
\<close>

definition covers :: "pn_store \<Rightarrow> nat \<Rightarrow> nat \<Rightarrow> pn_store \<Rightarrow> bool" where
  "covers s' lo r t \<longleftrightarrow> length s' \<le> length t
     \<and> (\<forall>a. lo \<le> a \<and> a < length s' \<longrightarrow> pnHash (t ! a) = pnHash (s' ! a))
     \<and> (\<forall>a. lo \<le> a \<and> a < length s' \<and> a \<noteq> r \<longrightarrow> t ! a = s' ! a)"

definition trail_ok ::
  "(Bytes \<Rightarrow> Bytes) \<Rightarrow> Bytes list \<Rightarrow> pn_store \<Rightarrow> nat list \<Rightarrow> nat \<Rightarrow> pn_store \<Rightarrow> bool" where
  "trail_ok H items s ts r s' \<longleftrightarrow> length s \<le> r \<and> r < length s' \<and> take (length s) s' = s
     \<and> length ts = length items \<and> s' ! r = newProofNode (HashFromByteSlices H items)
     \<and> (\<forall>t. covers s' (length s) r t \<longrightarrow>
          (\<forall>i < length items. pnHash (t ! (ts ! i)) = leafHash H (items ! i)
             \<and> (\<forall>acc. flatten_loop t (Some (ts ! i)) acc =
                    flatten_loop t (Some r) (acc @ aunts_of H items i))))"

lemma flatten_loop_Some:
  "flatten_loop s (Some a) acc = flatten_loop s (pnParent (s ! a)) (acc @ node_aunt s a)"
  by (subst flatten_loop.simps) simp

lemma flatten_loop_None: "flatten_loop s None acc = Some acc"
  by (subst flatten_loop.simps) simp

lemma take_nth_old: "take (length s) s' = s \<Longrightarrow> a < length s \<Longrightarrow> s' ! a = s ! a"
  by (metis nth_take)

lemma covers_weaken:
  assumes "covers s5 lo root t" and "lo \<le> lo'" and "length s1 \<le> length s5" and "length s1 \<le> root"
    and "\<And>a. lo' \<le> a \<Longrightarrow> a < length s1 \<Longrightarrow> pnHash (s5 ! a) = pnHash (s1 ! a)"
    and "\<And>a. lo' \<le> a \<Longrightarrow> a < length s1 \<Longrightarrow> a \<noteq> r \<Longrightarrow> s5 ! a = s1 ! a"
  shows "covers s1 lo' r t"
  unfolding covers_def
proof (intro conjI allI impI)
  show "length s1 \<le> length t" using assms(1,3) by (simp add: covers_def)
next
  fix a assume "lo' \<le> a \<and> a < length s1"
  with assms(1-5) show "pnHash (t ! a) = pnHash (s1 ! a)" by (simp add: covers_def)
next
  fix a assume "lo' \<le> a \<and> a < length s1 \<and> a \<noteq> r"
  with assms(1-4,6) show "t ! a = s1 ! a" by (simp add: covers_def)
qed

lemma trail_ok_combine:
  assumes n: "\<not> length items = 0" "\<not> length items = 1"
    and k: "k = split_point (length items)"
    and L: "trail_ok H (take k items) s ls lr s1"
    and R: "trail_ok H (drop k items) s1 rs rr s2"
    and root: "root = length s2"
    and s3: "s3 = s2 @ [newProofNode (innerHash H (pnHash (s2 ! lr)) (pnHash (s2 ! rr)))]"
    and s4: "s4 = s3[lr := (s3 ! lr)\<lparr>pnParent := Some root, pnRight := Some rr\<rparr>]"
    and s5: "s5 = s4[rr := (s4 ! rr)\<lparr>pnParent := Some root, pnLeft := Some lr\<rparr>]"
  shows "trail_ok H items s (ls @ rs) root s5"
proof -
  have kb: "0 < k" "k < length items" using n k split_point_length [of items] by auto
  have pl: "length s \<le> lr" "lr < length s1" "take (length s) s1 = s" "length ls = k"
    "s1 ! lr = newProofNode (HashFromByteSlices H (take k items))"
    using L kb by (auto simp: trail_ok_def)
  have pr: "length s1 \<le> rr" "rr < length s2" "take (length s1) s2 = s1" "length rs = length items - k"
    "s2 ! rr = newProofNode (HashFromByteSlices H (drop k items))"
    using R kb by (auto simp: trail_ok_def)
  have le: "length s \<le> length s1" "length s1 \<le> length s2" using pl pr by linarith+
  have len: "length s5 = Suc (length s2)" by (simp add: s5 s4 s3)
  have old: "take (length s) s2 = s"
    using pl(3) pr(3) le by (metis min_absorb1 take_take)
  have lrh: "s2 ! lr = newProofNode (HashFromByteSlices H (take k items))"
    using take_nth_old [OF pr(3) pl(2)] pl(5) by simp
  have rooth: "innerHash H (pnHash (s2 ! lr)) (pnHash (s2 ! rr)) = HashFromByteSlices H items"
    using n k lrh pr(5) by (simp add: HashFromByteSlices.simps [of H items] Let_def newProofNode_def)
  have at_root: "s5 ! root = newProofNode (HashFromByteSlices H items)"
    using pl pr le rooth by (simp add: s5 s4 s3 root nth_append)
  have at_l: "s5 ! lr = \<lparr>pnHash = HashFromByteSlices H (take k items), pnParent = Some root,
      pnLeft = None, pnRight = Some rr\<rparr>"
    using pl pr le lrh by (simp add: s5 s4 s3 root nth_append newProofNode_def)
  have at_r: "s5 ! rr = \<lparr>pnHash = HashFromByteSlices H (drop k items), pnParent = Some root,
      pnLeft = Some lr, pnRight = None\<rparr>"
    using pl pr le by (simp add: s5 s4 s3 root nth_append newProofNode_def)
  have rest: "\<And>a. a < length s2 \<Longrightarrow> a \<noteq> lr \<Longrightarrow> a \<noteq> rr \<Longrightarrow> s5 ! a = s2 ! a"
    by (simp add: s5 s4 s3 nth_append)
  have "take (length s) s5 = s"
    using old pl pr le by (simp add: s5 s4 s3)
  moreover have "\<forall>i < length items. pnHash (t ! ((ls @ rs) ! i)) = leafHash H (items ! i)
      \<and> (\<forall>acc. flatten_loop t (Some ((ls @ rs) ! i)) acc =
             flatten_loop t (Some root) (acc @ aunts_of H items i))"
    if t: "covers s5 (length s) root t" for t
  proof -
    have tl: "t ! lr = s5 ! lr" and tr: "t ! rr = s5 ! rr"
      using t pl pr le len root by (auto simp: covers_def)
    have cl: "covers s1 (length s) lr t"
    proof (rule covers_weaken [OF t])
      fix a assume a: "length s \<le> a" "a < length s1"
      then show e: "a \<noteq> lr \<Longrightarrow> s5 ! a = s1 ! a"
        using rest [of a] take_nth_old [OF pr(3), of a] pr le by simp
      then show "pnHash (s5 ! a) = pnHash (s1 ! a)"
        using at_l pl(5) by (cases "a = lr") (simp_all add: newProofNode_def)
    qed (use le len root in simp_all)
    have cr: "covers s2 (length s1) rr t"
    proof (rule covers_weaken [OF t])
      fix a assume a: "length s1 \<le> a" "a < length s2"
      then show e: "a \<noteq> rr \<Longrightarrow> s5 ! a = s2 ! a" using rest [of a] pl by simp
      then show "pnHash (s5 ! a) = pnHash (s2 ! a)"
        using at_r pr(5) by (cases "a = rr") (simp_all add: newProofNode_def)
    qed (use le len root in simp_all)
    have Lt: "pnHash (t ! (ls ! i)) = leafHash H (items ! i)"
      "flatten_loop t (Some (ls ! i)) acc = flatten_loop t (Some lr) (acc @ aunts_of H (take k items) i)"
      if "i < k" for i acc
      using L cl that kb by (auto simp: trail_ok_def)
    have Rt: "pnHash (t ! (rs ! j)) = leafHash H (items ! (k + j))"
      "flatten_loop t (Some (rs ! j)) acc = flatten_loop t (Some rr) (acc @ aunts_of H (drop k items) j)"
      if "j < length items - k" for j acc
      using R cr that kb by (auto simp: trail_ok_def)
    have al: "node_aunt t lr = [HashFromByteSlices H (drop k items)]"
      and ar: "node_aunt t rr = [HashFromByteSlices H (take k items)]"
      using tl tr at_l at_r by (simp_all add: node_aunt_def)
    show ?thesis
    proof (intro allI impI)
      fix i assume i: "i < length items"
      show "pnHash (t ! ((ls @ rs) ! i)) = leafHash H (items ! i) \<and>
        (\<forall>acc. flatten_loop t (Some ((ls @ rs) ! i)) acc =
             flatten_loop t (Some root) (acc @ aunts_of H items i))"
      proof (cases "i < k")
        case True
        with n k show ?thesis
          by (simp add: nth_append pl(4) Lt flatten_loop_Some [of t lr] tl at_l al
              aunts_of.simps [of H items i] Let_def)
      next
        case False
        with n k i Rt [of "i - k"] show ?thesis
          by (simp add: nth_append pl(4) flatten_loop_Some [of t rr] tr at_r ar
              aunts_of.simps [of H items i] Let_def)
      qed
    qed
  qed
  ultimately show ?thesis
    using pl pr le len root at_root kb by (simp add: trail_ok_def)
qed

lemma trailsFromByteSlices_ok:
  "trailsFromByteSlices H items s = (ts, r, s') \<Longrightarrow> trail_ok H items s ts r s'"
proof (induction H items s arbitrary: ts r s' rule: trailsFromByteSlices.induct)
  case (1 H items s)
  consider "length items = 0" | "length items = 1" | "\<not> length items = 0" "\<not> length items = 1" by blast
  then show ?case
  proof cases
    case 1
    with "1.prems" show ?thesis
      by (auto simp: trailsFromByteSlices.simps [of H items s] trail_ok_def HashFromByteSlices.simps)
  next
    case 2
    with "1.prems" show ?thesis
      by (auto simp: trailsFromByteSlices.simps [of H items s] trail_ok_def covers_def newProofNode_def
          HashFromByteSlices.simps [of H items] aunts_of.simps [of H items])
  next
    case 3
    let ?k = "split_point (length items)"
    obtain ls lr s1 where l: "trailsFromByteSlices H (take ?k items) s = (ls, lr, s1)"
      by (cases "trailsFromByteSlices H (take ?k items) s") auto
    obtain rs rr s2 where r: "trailsFromByteSlices H (drop ?k items) s1 = (rs, rr, s2)"
      by (cases "trailsFromByteSlices H (drop ?k items) s1") auto
    have L: "trail_ok H (take ?k items) s ls lr s1" by (rule "1.IH"(1) [OF 3 refl l])
    have R: "trail_ok H (drop ?k items) s1 rs rr s2"
      by (rule "1.IH"(2) [OF 3 refl l [symmetric] refl refl r])
    have "(ts, r, s') = (ls @ rs, length s2,
      (let s3 = s2 @ [newProofNode (innerHash H (pnHash (s2 ! lr)) (pnHash (s2 ! rr)))];
           s4 = s3[lr := (s3 ! lr)\<lparr>pnParent := Some (length s2), pnRight := Some rr\<rparr>]
       in s4[rr := (s4 ! rr)\<lparr>pnParent := Some (length s2), pnLeft := Some lr\<rparr>]))"
      using "1.prems" 3 l r by (auto simp: trailsFromByteSlices.simps [of H items s] Let_def)
    then show ?thesis
      using trail_ok_combine [OF 3 refl L R refl refl refl refl] by (simp add: Let_def)
  qed
qed

definition proof_for :: "(Bytes \<Rightarrow> Bytes) \<Rightarrow> Bytes list \<Rightarrow> nat \<Rightarrow> Proof" where
  "proof_for H items i =
     \<lparr>prTotal = int (length items), prIndex = int i, prLeafHash = leafHash H (items ! i),
      prAunts = aunts_of H items i\<rparr>"

lemma proofs_from_map:
  assumes "\<And>j. j < length ts \<Longrightarrow> FlattenAunts s (ts ! j) = Some (aunts_of H items (m + j))
      \<and> pnHash (s ! (ts ! j)) = leafHash H (items ! (m + j))"
  shows "proofs_from s (int (length items)) (int m) ts =
    Some (map (\<lambda>j. proof_for H items (m + j)) [0..<length ts])"
  using assms
proof (induction ts arbitrary: m)
  case Nil
  then show ?case by simp
next
  case (Cons t ts)
  have hd: "FlattenAunts s t = Some (aunts_of H items m)" "pnHash (s ! t) = leafHash H (items ! m)"
    using Cons.prems [of 0] by simp_all
  have "proofs_from s (int (length items)) (int (Suc m)) ts =
    Some (map (\<lambda>j. proof_for H items (Suc m + j)) [0..<length ts])"
    using Cons.prems [of "Suc _"] by (intro Cons.IH) simp
  then show ?case
    by (simp add: hd proof_for_def algebra_simps upt_conv_Cons map_Suc_upt [symmetric]
        del: upt_Suc map_Suc_upt)
qed

text \<open>The builder always returns, with the recursive root and the proof of every item.\<close>

lemma ProofsFromByteSlices_eq:
  "ProofsFromByteSlices H items =
    Some (HashFromByteSlices H items, map (proof_for H items) [0..<length items])"
proof -
  obtain ts r s where t: "trailsFromByteSlices H items [] = (ts, r, s)"
    by (cases "trailsFromByteSlices H items []") auto
  then have ok: "trail_ok H items [] ts r s" by (rule trailsFromByteSlices_ok)
  then have lt: "length ts = length items" and rh: "s ! r = newProofNode (HashFromByteSlices H items)"
    by (simp_all add: trail_ok_def)
  have cov: "covers s (length []) r s" by (simp add: covers_def)
  have "FlattenAunts s (ts ! j) = Some (aunts_of H items (0 + j))
      \<and> pnHash (s ! (ts ! j)) = leafHash H (items ! (0 + j))" if "j < length ts" for j
    using ok cov that lt rh
    by (simp add: trail_ok_def FlattenAunts_def flatten_loop_Some [of s r] flatten_loop_None
        node_aunt_def newProofNode_def)
  from proofs_from_map [of ts s H items 0, OF this] t lt rh show ?thesis
    by (simp add: ProofsFromByteSlices_def newProofNode_def)
qed

lemma proof_for_verifies:
  "i < length items \<Longrightarrow>
    ProofVerify H (proof_for H items i) (HashFromByteSlices H items) (items ! i) = None"
  by (simp add: ProofVerify_def proof_for_def ComputeRootHash_def computeHashFromAunts_aunts_of bytes_of_def)

subsection \<open>Verified proofs are sound up to a collision\<close>

text \<open>The strings hashed while the root is computed, and while a proof is verified.\<close>

function tree_inputs :: "(Bytes \<Rightarrow> Bytes) \<Rightarrow> Bytes list \<Rightarrow> Bytes list" where
  "tree_inputs H items =
     (if length items = 0 then [[]]
      else if length items = 1 then [0 # items ! 0]
      else let k = split_point (length items) in
        (1 # HashFromByteSlices H (take k items) @ HashFromByteSlices H (drop k items))
          # tree_inputs H (take k items) @ tree_inputs H (drop k items))"
  by pat_completeness auto
termination
  by (relation "measure (\<lambda>(H, items). length items)")
     (auto simp: split_point_length min_less_iff_disj diff_less)

declare tree_inputs.simps [simp del]

function proof_inputs :: "(Bytes \<Rightarrow> Bytes) \<Rightarrow> int \<Rightarrow> int \<Rightarrow> Bytes \<Rightarrow> Bytes list \<Rightarrow> Bytes list" where
  "proof_inputs H index tot leaf innerHashes =
     (if tot \<le> 1 \<or> innerHashes = [] then [0 # leaf]
      else let numLeft = int (split_point (nat tot)); hs = butlast innerHashes in
        if index < numLeft then
          (1 # bytes_of (computeHashFromAunts H index numLeft (leafHash H leaf) hs) @ last innerHashes)
            # proof_inputs H index numLeft leaf hs
        else
          (1 # last innerHashes
             @ bytes_of (computeHashFromAunts H (index - numLeft) (tot - numLeft) (leafHash H leaf) hs))
            # proof_inputs H (index - numLeft) (tot - numLeft) leaf hs)"
  by pat_completeness auto
termination
  by (relation "measure (\<lambda>(H, i, n, l, hs). length hs)") auto

declare proof_inputs.simps [simp del]

definition collision_between :: "(Bytes \<Rightarrow> Bytes) \<Rightarrow> Bytes list \<Rightarrow> Bytes list \<Rightarrow> bool" where
  "collision_between H xs ys \<longleftrightarrow> (\<exists>x\<in>set xs. \<exists>y\<in>set ys. x \<noteq> y \<and> H x = H y)"

lemma computeHashFromAunts_length:
  assumes "\<And>x. length (H x) = n"
  shows "computeHashFromAunts H i t (leafHash H leaf) hs = Some h \<Longrightarrow> length h = n"
  using assms
  by (subst (asm) computeHashFromAunts.simps)
     (auto simp: leafHash_def innerHash_def Let_def split: if_splits option.splits)

lemma HashFromByteSlices_length: "(\<And>x. length (H x) = n) \<Longrightarrow> length (HashFromByteSlices H items) = n"
  by (subst HashFromByteSlices.simps) (simp add: emptyHash_def leafHash_def innerHash_def Let_def)

lemma collision_between_mono:
  "collision_between H xs ys \<Longrightarrow> set xs \<subseteq> set xs' \<Longrightarrow> set ys \<subseteq> set ys' \<Longrightarrow> collision_between H xs' ys'"
  unfolding collision_between_def by blast

text \<open>One level of the verifier, read backwards.\<close>

lemma computeHashFromAunts_Some_range:
  "computeHashFromAunts H i n lh hs = Some r \<Longrightarrow> 0 \<le> i \<and> i < n"
  by (subst (asm) computeHashFromAunts.simps) (simp split: if_splits)

lemma computeHashFromAunts_Some_leaf:
  "computeHashFromAunts H i 1 lh hs = Some r \<Longrightarrow> hs = [] \<and> r = lh"
  by (subst (asm) computeHashFromAunts.simps) (simp split: if_splits)

lemma computeHashFromAunts_Some_left:
  assumes "computeHashFromAunts H i n lh hs = Some r" and "1 < n" and "i < int (split_point (nat n))"
  obtains c where "hs \<noteq> []" and "r = innerHash H c (last hs)"
    and "computeHashFromAunts H i (int (split_point (nat n))) lh (butlast hs) = Some c"
  using assms that
  by (auto simp: computeHashFromAunts.simps [of H i n lh hs] Let_def split: if_splits option.splits)

lemma computeHashFromAunts_Some_right:
  assumes "computeHashFromAunts H i n lh hs = Some r" and "1 < n" and "\<not> i < int (split_point (nat n))"
  obtains c where "hs \<noteq> []" and "r = innerHash H (last hs) c"
    and "computeHashFromAunts H (i - int (split_point (nat n))) (n - int (split_point (nat n))) lh
           (butlast hs) = Some c"
  using assms that
  by (auto simp: computeHashFromAunts.simps [of H i n lh hs] Let_def split: if_splits option.splits)

lemma collision_or_eq:
  assumes "H x = H y" and "x \<in> set xs" and "y \<in> set ys"
  shows "x = y \<or> collision_between H xs ys"
  using assms unfolding collision_between_def by blast

lemma proof_sound_aux:
  "\<forall>x. length (H x) = 32 \<Longrightarrow> computeHashFromAunts H (int i) (int (length items)) (leafHash H leaf) hs
      = Some (HashFromByteSlices H items) \<Longrightarrow> \<forall>a\<in>set hs. length a = 32 \<Longrightarrow>
    items ! i = leaf \<or>
    collision_between H (tree_inputs H items) (proof_inputs H (int i) (int (length items)) leaf hs)"
proof (induction H items i arbitrary: hs rule: aunts_of.induct)
  case (1 H items i)
  let ?n = "length items" and ?k = "split_point (length items)" and ?hs = "butlast hs"
  let ?L = "HashFromByteSlices H (take ?k items)" and ?R = "HashFromByteSlices H (drop ?k items)"
  let ?T = "tree_inputs H items" and ?P = "proof_inputs H (int i) (int (length items)) leaf hs"
  have i: "i < ?n" using computeHashFromAunts_Some_range [OF "1.prems"(2)] by simp
  show ?case
  proof (cases "?n = 1")
    case True
    with i obtain x where x: "items = [x]" "i = 0" by (auto simp: length_Suc_conv)
    with computeHashFromAunts_Some_leaf [of H 0 "leafHash H leaf" hs] "1.prems"(2)
    have "H (0 # x) = H (0 # leaf)"
      by (simp add: HashFromByteSlices.simps [of H "[x]"] leafHash_def)
    from collision_or_eq [where H = H and xs = ?T and ys = ?P, OF this] x show ?thesis
      by (simp add: tree_inputs.simps [of H "[x]"] proof_inputs.simps [of H 0 1])
  next
    case False
    with i have ne: "\<not> (?n = 0 \<or> ?n = 1)" "1 < int ?n" by auto
    have k: "0 < ?k" "?k < ?n" using split_point_length [of items] ne by auto
    have root: "HashFromByteSlices H items = H (1 # ?L @ ?R)"
      and inp: "set ?T = insert (1 # ?L @ ?R)
        (set (tree_inputs H (take ?k items)) \<union> set (tree_inputs H (drop ?k items)))"
      using ne by (auto simp: HashFromByteSlices.simps [of H items] tree_inputs.simps [of H items]
          innerHash_def Let_def)
    have lens: "length ?L = 32" "length ?R = 32" using HashFromByteSlices_length "1.prems"(1) by blast+
    show ?thesis
    proof (cases "i < ?k")
      case True
      then obtain c where c: "hs \<noteq> []" "H (1 # ?L @ ?R) = H (1 # c @ last hs)"
          "computeHashFromAunts H (int i) (int ?k) (leafHash H leaf) ?hs = Some c"
        using computeHashFromAunts_Some_left [OF "1.prems"(2) ne(2)] root by (auto simp: innerHash_def)
      have pin: "set ?P = insert (1 # c @ last hs) (set (proof_inputs H (int i) (int ?k) leaf ?hs))"
        using ne c True by (simp add: proof_inputs.simps [of H "int i" "int ?n"] Let_def bytes_of_def)
      from collision_or_eq [where H = H and xs = ?T and ys = ?P, OF c(2)] inp pin
      have "?L @ ?R = c @ last hs \<or> collision_between H ?T ?P" by auto
      moreover have "items ! i = leaf \<or> collision_between H ?T ?P" if "?L @ ?R = c @ last hs"
      proof -
        have "c = ?L" using that computeHashFromAunts_length [OF _ c(3)] "1.prems"(1) lens by simp
        with "1.IH"(1) [OF ne(1) refl True, of ?hs] c "1.prems" k True have "items ! i = leaf \<or>
          collision_between H (tree_inputs H (take ?k items)) (proof_inputs H (int i) (int ?k) leaf ?hs)"
          by (auto simp: min_absorb2 dest: in_set_butlastD)
        then show ?thesis using inp pin by (auto intro: collision_between_mono)
      qed
      ultimately show ?thesis by blast
    next
      case False
      then obtain c where c: "hs \<noteq> []" "H (1 # ?L @ ?R) = H (1 # last hs @ c)"
          "computeHashFromAunts H (int (i - ?k)) (int (?n - ?k)) (leafHash H leaf) ?hs = Some c"
        using computeHashFromAunts_Some_right [OF "1.prems"(2) ne(2)] root k
        by (auto simp: innerHash_def of_nat_diff)
      have pin: "set ?P = insert (1 # last hs @ c)
          (set (proof_inputs H (int (i - ?k)) (int (?n - ?k)) leaf ?hs))"
        using ne c False k
        by (simp add: proof_inputs.simps [of H "int i" "int ?n"] Let_def bytes_of_def of_nat_diff)
      from collision_or_eq [where H = H and xs = ?T and ys = ?P, OF c(2)] inp pin
      have "?L @ ?R = last hs @ c \<or> collision_between H ?T ?P" by auto
      moreover have "items ! i = leaf \<or> collision_between H ?T ?P" if "?L @ ?R = last hs @ c"
      proof -
        have "c = ?R" using that c(1) "1.prems"(3) lens by simp
        with "1.IH"(2) [OF ne(1) refl False, of ?hs] c "1.prems" k False i have "items ! i = leaf \<or>
          collision_between H (tree_inputs H (drop ?k items))
            (proof_inputs H (int (i - ?k)) (int (?n - ?k)) leaf ?hs)"
          by (auto dest: in_set_butlastD)
        then show ?thesis using inp pin by (auto intro: collision_between_mono)
      qed
      ultimately show ?thesis by blast
    qed
  qed
qed

lemma proof_verified_at:
  assumes "\<forall>x. length (H x) = tmhash_Size" and "ValidateBasic sp = None"
    and "prTotal sp = int (length items)"
    and "ProofVerify H sp (HashFromByteSlices H items) leaf = None"
  shows "0 \<le> prIndex sp \<and> prIndex sp < prTotal sp \<and>
    (items ! nat (prIndex sp) = leaf \<or>
     collision_between H (tree_inputs H items)
       (proof_inputs H (prIndex sp) (prTotal sp) leaf (prAunts sp)))"
proof -
  have l: "\<forall>x. length (H x) = 32" "\<forall>a\<in>set (prAunts sp). length a = 32"
    using assms(1,2) by (auto simp: ValidateBasic_def tmhash_Size_def split: if_splits)
  have "length (HashFromByteSlices H items) = 32" using HashFromByteSlices_length l by blast
  then have c: "computeHashFromAunts H (prIndex sp) (int (length items)) (leafHash H leaf) (prAunts sp)
      = Some (HashFromByteSlices H items)"
    using assms(3,4)
    by (auto simp: ProofVerify_def ComputeRootHash_def bytes_of_def Let_def split: if_splits option.splits)
  then have i: "0 \<le> prIndex sp" "prIndex sp < int (length items)"
    using computeHashFromAunts_Some_range by blast+
  with proof_sound_aux [of H "nat (prIndex sp)" items leaf "prAunts sp"] c l assms(3)
  show ?thesis by simp
qed

text \<open>When the total of the proof is not checked, the leaf is still one of the items: the leading byte tells a leaf from
  an inner node, so that the replay and the tree part ways only at a collision.\<close>

lemma tree_root_cases:
  obtains (empty) "items = []" and "[] \<in> set (tree_inputs H items)" and "HashFromByteSlices H items = H []"
  | (leaf) x where "items = [x]" and "0 # x \<in> set (tree_inputs H items)" and "HashFromByteSlices H items = H (0 # x)"
  | (inner) k where "k = split_point (length items)"
      and "1 # HashFromByteSlices H (take k items) @ HashFromByteSlices H (drop k items) \<in> set (tree_inputs H items)"
      and "HashFromByteSlices H items = H (1 # HashFromByteSlices H (take k items) @ HashFromByteSlices H (drop k items))"
      and "set (tree_inputs H (take k items)) \<subseteq> set (tree_inputs H items)"
      and "set (tree_inputs H (drop k items)) \<subseteq> set (tree_inputs H items)"
proof -
  consider "items = []" | x where "items = [x]" | "2 \<le> length items"
    by (cases items rule: list.exhaust; cases "tl items") auto
  then show ?thesis
  proof cases
    case 1
    then show ?thesis
      by (intro empty) (simp_all add: tree_inputs.simps [of H "[]"] HashFromByteSlices.simps [of H "[]"] emptyHash_def)
  next
    case (2 x)
    then show ?thesis
      by (intro leaf) (simp_all add: tree_inputs.simps [of H "[x]"] HashFromByteSlices.simps [of H "[x]"] leafHash_def)
  next
    case 3
    then have ne: "items \<noteq> []" "length items \<noteq> Suc 0" by auto
    show ?thesis
      using ne by (intro inner [OF refl])
        (auto simp: tree_inputs.simps [of H items] HashFromByteSlices.simps [of H items] innerHash_def Let_def)
  qed
qed

lemma inner_root_cases:
  assumes "\<forall>x. length (H x) = 32" and y: "HashFromByteSlices H items = H (1 # a @ b)" and "length a = 32"
  obtains (collides) x where "x \<in> set (tree_inputs H items)" and "x \<noteq> 1 # a @ b" and "H x = H (1 # a @ b)"
  | (same) xs ys where "a = HashFromByteSlices H xs" and "b = HashFromByteSlices H ys"
      and "set xs \<subseteq> set items" and "set ys \<subseteq> set items"
      and "set (tree_inputs H xs) \<subseteq> set (tree_inputs H items)" and "set (tree_inputs H ys) \<subseteq> set (tree_inputs H items)"
proof (rule tree_root_cases [of items H])
  assume "[] \<in> set (tree_inputs H items)" and "HashFromByteSlices H items = H []"
  with collides [of "[]"] y show thesis by simp
next
  fix x
  assume "0 # x \<in> set (tree_inputs H items)" and "HashFromByteSlices H items = H (0 # x)"
  with collides [of "0 # x"] y show thesis by simp
next
  fix k
  assume k: "1 # HashFromByteSlices H (take k items) @ HashFromByteSlices H (drop k items) \<in> set (tree_inputs H items)"
    "HashFromByteSlices H items = H (1 # HashFromByteSlices H (take k items) @ HashFromByteSlices H (drop k items))"
    "set (tree_inputs H (take k items)) \<subseteq> set (tree_inputs H items)"
    "set (tree_inputs H (drop k items)) \<subseteq> set (tree_inputs H items)"
  have l: "length (HashFromByteSlices H (take k items)) = 32" using HashFromByteSlices_length assms(1) by blast
  show thesis
  proof (cases "HashFromByteSlices H (take k items) @ HashFromByteSlices H (drop k items) = a @ b")
    case True
    with l assms(3) have "a = HashFromByteSlices H (take k items)" "b = HashFromByteSlices H (drop k items)" by simp_all
    from same [OF this set_take_subset set_drop_subset k(3,4)] show ?thesis .
  next
    case False
    with collides [OF k(1)] k(2) y show ?thesis by simp
  qed
qed

lemma proof_leaf_is_item:
  "\<forall>x. length (H x) = 32 \<Longrightarrow> \<forall>a\<in>set hs. length a = 32 \<Longrightarrow>
    computeHashFromAunts H i n (leafHash H leaf) hs = Some (HashFromByteSlices H items) \<Longrightarrow>
    leaf \<in> set items \<or> collision_between H (tree_inputs H items) (proof_inputs H i n leaf hs)"
proof (induction H i n leaf hs arbitrary: items rule: proof_inputs.induct)
  case (1 H i n leaf hs)
  let ?k = "int (split_point (nat n))" and ?T = "tree_inputs H items" and ?P = "proof_inputs H i n leaf hs"
  have n: "0 < n" using computeHashFromAunts_Some_range [OF "1.prems"(3)] by simp
  have coll: "collision_between H ?T ?P" if "x \<in> set ?T" "x \<noteq> y" "H x = H y" "y \<in> set ?P" for x y
    using that unfolding collision_between_def by blast
  have up: "leaf \<in> set items \<or> collision_between H ?T ?P"
    if "leaf \<in> set xs \<or> collision_between H (tree_inputs H xs) ps" "set xs \<subseteq> set items"
      "set (tree_inputs H xs) \<subseteq> set ?T" "set ps \<subseteq> set ?P" for xs ps
    using that collision_between_mono [of H "tree_inputs H xs" ps ?T ?P] by blast
  consider "n = 1" | "1 < n" "i < ?k" | "1 < n" "\<not> i < ?k" using n by linarith
  then show ?case
  proof cases
    case 1
    with "1.prems"(3) have y: "HashFromByteSlices H items = H (0 # leaf)" "0 # leaf \<in> set ?P"
      by (auto dest: computeHashFromAunts_Some_leaf simp: leafHash_def proof_inputs.simps [of H i 1])
    show ?thesis by (rule tree_root_cases [of items H]) (use y coll [OF _ _ _ y(2)] in force)+
  next
    case 2
    obtain c where c: "hs \<noteq> []" "HashFromByteSlices H items = H (1 # c @ last hs)"
      "computeHashFromAunts H i ?k (leafHash H leaf) (butlast hs) = Some c"
      using computeHashFromAunts_Some_left [OF "1.prems"(3) 2] by (auto simp: innerHash_def)
    have P: "set ?P = insert (1 # c @ last hs) (set (proof_inputs H i ?k leaf (butlast hs)))"
      using c 2 by (simp add: proof_inputs.simps [of H i n] Let_def bytes_of_def)
    have g: "\<not> (n \<le> 1 \<or> hs = [])" "\<forall>a\<in>set (butlast hs). length a = 32" "length c = 32"
      using 2 c(1) "1.prems"(1,2) computeHashFromAunts_length [OF _ c(3)] by (auto dest: in_set_butlastD)
    show ?thesis
    proof (rule inner_root_cases [OF "1.prems"(1) c(2) g(3)])
      fix xs ys
      assume same: "c = HashFromByteSlices H xs" "set xs \<subseteq> set items"
        "set (tree_inputs H xs) \<subseteq> set ?T"
      from same "1.IH"(1) [OF g(1) refl refl 2(2) "1.prems"(1) g(2), of xs] c(3) up [of xs] P show ?thesis by auto
    qed (use coll P in auto)
  next
    case 3
    obtain c where c: "hs \<noteq> []" "HashFromByteSlices H items = H (1 # last hs @ c)"
      "computeHashFromAunts H (i - ?k) (n - ?k) (leafHash H leaf) (butlast hs) = Some c"
      using computeHashFromAunts_Some_right [OF "1.prems"(3) 3] by (auto simp: innerHash_def)
    have P: "set ?P = insert (1 # last hs @ c) (set (proof_inputs H (i - ?k) (n - ?k) leaf (butlast hs)))"
      using c 3 by (simp add: proof_inputs.simps [of H i n] Let_def bytes_of_def)
    have g: "\<not> (n \<le> 1 \<or> hs = [])" "\<forall>a\<in>set (butlast hs). length a = 32" "length (last hs) = 32"
      using 3 c(1) "1.prems"(2) by (auto dest: in_set_butlastD)
    show ?thesis
    proof (rule inner_root_cases [OF "1.prems"(1) c(2) g(3)])
      fix xs ys
      assume same: "c = HashFromByteSlices H ys" "set ys \<subseteq> set items"
        "set (tree_inputs H ys) \<subseteq> set ?T"
      from same "1.IH"(2) [OF g(1) refl refl 3(2) "1.prems"(1) g(2), of ys] c(3) up [of ys] P show ?thesis by auto
    qed (use coll P in auto)
  qed
qed

lemma verified_replay:
  assumes "\<forall>x. length (H x) = tmhash_Size" and "ProofVerify H sp (HashFromByteSlices H items) leaf = None"
  shows "computeHashFromAunts H (prIndex sp) (prTotal sp) (leafHash H leaf) (prAunts sp)
      = Some (HashFromByteSlices H items)"
proof -
  have "length (HashFromByteSlices H items) = 32"
    using HashFromByteSlices_length [of H 32 items] assms(1) by (simp add: tmhash_Size_def)
  then show ?thesis using assms(2)
    by (auto simp: ProofVerify_def ComputeRootHash_def bytes_of_def Let_def split: if_splits option.splits)
qed

lemma proof_verified_any_total:
  assumes "\<forall>x. length (H x) = tmhash_Size" and "ValidateBasic sp = None"
    and "ProofVerify H sp (HashFromByteSlices H items) leaf = None"
  shows "leaf \<in> set items \<or>
    collision_between H (tree_inputs H items) (proof_inputs H (prIndex sp) (prTotal sp) leaf (prAunts sp))"
proof -
  have "\<forall>x. length (H x) = 32" "\<forall>a\<in>set (prAunts sp). length a = 32"
    using assms(1,2) by (auto simp: ValidateBasic_def tmhash_Size_def split: if_splits)
  then show ?thesis by (rule proof_leaf_is_item [OF _ _ verified_replay [OF assms(1,3)]])
qed

text \<open>C20 (proof soundness): if a well-formed proof with the right total verifies against the root of the items, its
  index is in range and its leaf is the item at that index, unless one of the strings hashed for the
  tree collides with a different one hashed for the proof.\<close>

theorem ProofVerify_sound:
  assumes "\<forall>x. length (H x) = tmhash_Size" and "ValidateBasic sp = None"
    and "prTotal sp = int (length items)"
    and "ProofVerify H sp (HashFromByteSlices H items) leaf = None"
  shows "0 \<le> prIndex sp \<and> prIndex sp < prTotal sp \<and>
    (items ! nat (prIndex sp) = leaf \<or>
     collision_between H (tree_inputs H items)
       (proof_inputs H (prIndex sp) (prTotal sp) leaf (prAunts sp)))"
  by (rule proof_verified_at [OF assms])

definition pad_hash :: "Bytes \<Rightarrow> Bytes" where
  "pad_hash x = take 32 (x @ replicate 32 0)"

theorem ProofVerify_sound_witness:
  "let sp = \<lparr>prTotal = 1, prIndex = 0, prLeafHash = leafHash pad_hash [5], prAunts = []\<rparr> in
     ProofVerify pad_hash sp (HashFromByteSlices pad_hash [[5]]) [5] = None \<and>
     prIndex sp < prTotal sp"
proof -
  let ?sp = "\<lparr>prTotal = 1, prIndex = 0, prLeafHash = leafHash pad_hash [5], prAunts = []\<rparr>"
  have len: "\<forall>x. length (pad_hash x) = tmhash_Size" by (auto simp: pad_hash_def tmhash_Size_def min_def)
  then have vb: "ValidateBasic ?sp = None" by (simp add: ValidateBasic_def MaxAunts_def leafHash_def)
  have v: "ProofVerify pad_hash ?sp (HashFromByteSlices pad_hash [[5]]) [5] = None"
    by (simp add: ProofVerify_def ComputeRootHash_def computeHashFromAunts.simps bytes_of_def
        HashFromByteSlices.simps)
  have "0 \<le> prIndex ?sp \<and> prIndex ?sp < prTotal ?sp"
    using ProofVerify_sound [OF len vb _ v] by simp
  with v show ?thesis by simp
qed

text \<open>C11 (proof round trip): building the proofs of a list of items always returns; it returns the recursive root
  and, for every item, a proof with that item's index and the number of items that verifies against the root.\<close>

theorem built_proofs_verify:
  "\<exists>proofs. ProofsFromByteSlices H items = Some (HashFromByteSlices H items, proofs) \<and>
     length proofs = length items \<and>
     (\<forall>i < length items. prIndex (proofs ! i) = int i \<and> prTotal (proofs ! i) = int (length items) \<and>
        ProofVerify H (proofs ! i) (HashFromByteSlices H items) (items ! i) = None)"
proof (intro exI conjI allI impI)
  show "ProofsFromByteSlices H items = Some (HashFromByteSlices H items, map (proof_for H items) [0..<length items])"
    by (rule ProofsFromByteSlices_eq)
qed (simp_all add: proof_for_verifies, simp_all add: proof_for_def)

theorem built_proofs_verify_witness:
  "\<exists>proofs. ProofsFromByteSlices pad_hash [[1], [2], [3]] = Some (HashFromByteSlices pad_hash [[1], [2], [3]], proofs) \<and>
     ProofVerify pad_hash (proofs ! 2) (HashFromByteSlices pad_hash [[1], [2], [3]]) [3] = None"
proof -
  obtain proofs where p: "ProofsFromByteSlices pad_hash [[1], [2], [3]] =
      Some (HashFromByteSlices pad_hash [[1], [2], [3]], proofs)"
    "\<forall>i < length [[1], [2], [3::8 word]]. prIndex (proofs ! i) = int i \<and>
        prTotal (proofs ! i) = int (length [[1], [2], [3::8 word]]) \<and>
        ProofVerify pad_hash (proofs ! i) (HashFromByteSlices pad_hash [[1], [2], [3]]) ([[1], [2], [3]] ! i) = None"
    using built_proofs_verify [of pad_hash "[[1], [2], [3]]"] by blast
  from p(2) [rule_format, of 2] p(1) show ?thesis by auto
qed

text \<open>Empty root accepted: \<open>Verify\<close> compares with \<open>bytes.Equal\<close>, for which the nil result of a malformed
  proof equals an empty root: against an empty root a proof with no items and a matching leaf hash verifies.\<close>

theorem ProofVerify_empty_root_accepts:
  "ProofVerify H \<lparr>prTotal = 0, prIndex = 7, prLeafHash = leafHash H leaf, prAunts = aunts\<rparr> [] leaf = None"
  by (simp add: ProofVerify_def ComputeRootHash_def computeHashFromAunts.simps bytes_of_def)

end
