(* ===== verification/Db.thy ===== *)
theory Db
  imports Crypto
begin

text \<open>
  The key-value store (src/db/db.go).  A nil \<open>Value\<close> is \<open>None\<close>; the store never holds one, so its
  data is a map to byte strings.  The lemmas show what the conflict test is for: commands, and
  batches of commands, that do not conflict give the same store and the same answers in either
  order.
\<close>

type_synonym Key = int
type_synonym Value = "Bytes option"

record Command =
  cmdKey :: Key
  cmdValue :: Value
  cmdClientID :: NodeID
  cmdCommandID :: int

definition Empty :: "Command \<Rightarrow> bool" where
  "Empty c \<longleftrightarrow> cmdKey c = 0 \<and> cmdValue c = None \<and> cmdClientID c = [] \<and> cmdCommandID c = 0"

definition IsRead :: "Command \<Rightarrow> bool" where
  "IsRead c \<longleftrightarrow> cmdValue c = None"

definition IsWrite :: "Command \<Rightarrow> bool" where
  "IsWrite c \<longleftrightarrow> cmdValue c \<noteq> None"

text \<open>\<open>bytes.Equal\<close> does not tell nil from the empty slice.\<close>

definition bytes_Equal :: "Value \<Rightarrow> Value \<Rightarrow> bool" where
  "bytes_Equal a b \<longleftrightarrow> case_option [] (\<lambda>x. x) a = case_option [] (\<lambda>x. x) b"

definition Equal :: "Command \<Rightarrow> Command \<Rightarrow> bool" where
  "Equal c a \<longleftrightarrow> cmdKey c = cmdKey a \<and> bytes_Equal (cmdValue c) (cmdValue a)
     \<and> cmdClientID c = cmdClientID a \<and> cmdCommandID c = cmdCommandID a"

record database =
  dbData :: "Key \<rightharpoonup> Bytes"
  dbVersion :: int
  multiversion :: bool
  dbHistory :: "Key \<rightharpoonup> Bytes list"

definition NewDatabase :: database where
  "NewDatabase = \<lparr>dbData = Map.empty, dbVersion = 0, multiversion = False, dbHistory = Map.empty\<rparr>"

definition Get :: "database \<Rightarrow> Key \<Rightarrow> Value" where
  "Get d k = dbData d k"

definition put :: "database \<Rightarrow> Key \<Rightarrow> Value \<Rightarrow> database" where
  "put d k v =
     (case v of
        None \<Rightarrow> d
      | Some b \<Rightarrow>
          let d1 = d\<lparr>dbData := (dbData d)(k \<mapsto> b), dbVersion := i64 (dbVersion d + 1)\<rparr> in
          if multiversion d1 then
            d1\<lparr>dbHistory := (dbHistory d1)(k \<mapsto> case_option [] (\<lambda>h. h) (dbHistory d1 k) @ [b])\<rparr>
          else d1)"

definition Put :: "database \<Rightarrow> Key \<Rightarrow> Value \<Rightarrow> database" where
  "Put d k v = put d k v"

definition Execute :: "database \<Rightarrow> Command \<Rightarrow> Value \<times> database" where
  "Execute d c = (let v = dbData d (cmdKey c) in (v, put d (cmdKey c) (cmdValue c)))"

definition Version :: "database \<Rightarrow> Key \<Rightarrow> int" where
  "Version d k = dbVersion d"

definition History :: "database \<Rightarrow> Key \<Rightarrow> Bytes list" where
  "History d k = case_option [] (\<lambda>h. h) (dbHistory d k)"

definition Conflict :: "Command \<Rightarrow> Command \<Rightarrow> bool" where
  "Conflict gamma delta =
     (if cmdKey gamma = cmdKey delta then
        (if \<not> IsRead gamma \<or> \<not> IsRead delta then True else False)
      else False)"

fun conflict_inner :: "Command \<Rightarrow> Command list \<Rightarrow> bool" where
  "conflict_inner c [] = False"
| "conflict_inner c (d # ds) = (if Conflict c d then True else conflict_inner c ds)"

fun ConflictBatch :: "Command list \<Rightarrow> Command list \<Rightarrow> bool" where
  "ConflictBatch [] batch2 = False"
| "ConflictBatch (c # cs) batch2 = (if conflict_inner c batch2 then True else ConflictBatch cs batch2)"

section \<open>The store between operations\<close>

lemma put_read_back: "Get (put d k (Some v)) k = Some v"
  by (simp add: put_def Get_def Let_def)

lemma put_other: "k \<noteq> k' \<Longrightarrow> Get (put d k v) k' = Get d k'"
  by (simp add: put_def Get_def Let_def split: option.splits)

lemma Execute_read_keeps: "IsRead c \<Longrightarrow> snd (Execute d c) = d"
  by (simp add: Execute_def IsRead_def put_def)

lemma put_None: "put d k None = d"
  by (simp add: put_def)

lemma put_commute: "k \<noteq> k' \<Longrightarrow> put (put d k v) k' v' = put (put d k' v') k v"
  by (cases v; cases v') (auto simp: put_def Let_def fun_upd_twist)

section \<open>Commands that do not conflict commute\<close>

fun ExecuteAll :: "database \<Rightarrow> Command list \<Rightarrow> Value list \<times> database" where
  "ExecuteAll d [] = ([], d)"
| "ExecuteAll d (c # cs) =
     (let (v, d1) = Execute d c; (vs, d2) = ExecuteAll d1 cs in (v # vs, d2))"

lemma ConflictBatch_iff:
  "ConflictBatch b1 b2 \<longleftrightarrow> (\<exists>c1\<in>set b1. \<exists>c2\<in>set b2. Conflict c1 c2)"
proof -
  have "conflict_inner c b2 \<longleftrightarrow> (\<exists>c2\<in>set b2. Conflict c c2)" for c
    by (induction b2) auto
  then show ?thesis by (induction b1) auto
qed

lemma Execute_commute:
  assumes "\<not> Conflict c1 c2"
  shows "snd (Execute (snd (Execute d c1)) c2) = snd (Execute (snd (Execute d c2)) c1)"
    and "fst (Execute (snd (Execute d c1)) c2) = fst (Execute d c2)"
proof -
  have *: "cmdKey c1 \<noteq> cmdKey c2 \<or> cmdValue c1 = None \<and> cmdValue c2 = None"
    using assms by (auto simp: Conflict_def IsRead_def split: if_splits)
  then show "snd (Execute (snd (Execute d c1)) c2) = snd (Execute (snd (Execute d c2)) c1)"
    by (auto simp: Execute_def put_commute put_None)
  from * show "fst (Execute (snd (Execute d c1)) c2) = fst (Execute d c2)"
    by (auto simp: Execute_def put_def Let_def split: option.splits)
qed

lemma Conflict_sym: "Conflict a b = Conflict b a"
  by (auto simp: Conflict_def)

lemma Execute_past_batch:
  assumes "\<forall>c2\<in>set cs. \<not> Conflict c c2"
  shows "ExecuteAll (snd (Execute d c)) cs =
    (fst (ExecuteAll d cs), snd (Execute (snd (ExecuteAll d cs)) c))"
    and "fst (Execute (snd (ExecuteAll d cs)) c) = fst (Execute d c)"
  using assms
proof (induction cs arbitrary: d)
  case (Cons a cs)
  {
    case 1
    then have a: "\<not> Conflict c a" and cs: "\<forall>c2\<in>set cs. \<not> Conflict c c2" by auto
    from Cons.IH(1) [OF cs] show ?case
      using Execute_commute [OF a, of d] by (simp add: Let_def case_prod_beta)
  next
    case 2
    then have a: "\<not> Conflict a c" and cs: "\<forall>c2\<in>set cs. \<not> Conflict c c2"
      by (auto simp: Conflict_sym)
    from Cons.IH(2) [OF cs, of "snd (Execute d a)"] show ?case
      using Execute_commute(2) [OF a, of d] by (simp add: Let_def case_prod_beta)
  }
qed simp_all

lemma ExecuteAll_commute:
  assumes "\<not> ConflictBatch b1 b2"
  shows "ExecuteAll (snd (ExecuteAll d b1)) b2 =
      (fst (ExecuteAll d b2), snd (ExecuteAll (snd (ExecuteAll d b2)) b1))"
    and "fst (ExecuteAll (snd (ExecuteAll d b2)) b1) = fst (ExecuteAll d b1)"
  using assms
proof (induction b1 arbitrary: d)
  case (Cons c b1)
  {
    case 1
    then have c: "\<forall>c2\<in>set b2. \<not> Conflict c c2" and b: "\<not> ConflictBatch b1 b2"
      by (auto simp: ConflictBatch_iff)
    from Cons.IH(1) [OF b, of "snd (Execute d c)"] Execute_past_batch [OF c, of d] show ?case
      by (simp add: Let_def case_prod_beta)
  next
    case 2
    then have c: "\<forall>c2\<in>set b2. \<not> Conflict c c2" and b: "\<not> ConflictBatch b1 b2"
      by (auto simp: ConflictBatch_iff)
    from Cons.IH(2) [OF b, of "snd (Execute d c)"] Execute_past_batch [OF c, of d] show ?case
      by (simp add: Let_def case_prod_beta)
  }
qed simp_all

lemma database_history_empty:
  "multiversion d = False \<Longrightarrow> dbHistory (snd (ExecuteAll d cs)) = dbHistory d \<and>
    multiversion (snd (ExecuteAll d cs)) = False"
  by (induction cs arbitrary: d)
     (simp_all add: Let_def case_prod_beta Execute_def put_def split: option.splits)

text \<open>Conflict test: two batches for which \<open>ConflictBatch\<close> is false can be executed in either order: the store
  ends in the same state and every command gets the same answer.\<close>

theorem batches_without_conflict_commute:
  assumes "\<not> ConflictBatch b1 b2"
  shows "snd (ExecuteAll (snd (ExecuteAll d b1)) b2) = snd (ExecuteAll (snd (ExecuteAll d b2)) b1) \<and>
    fst (ExecuteAll (snd (ExecuteAll d b1)) b2) = fst (ExecuteAll d b2) \<and>
    fst (ExecuteAll (snd (ExecuteAll d b2)) b1) = fst (ExecuteAll d b1)"
  using ExecuteAll_commute [OF assms, of d] by simp

theorem batches_without_conflict_commute_witness:
  "let b1 = [\<lparr>cmdKey = 1, cmdValue = Some [9], cmdClientID = ''1'', cmdCommandID = 1\<rparr>];
       b2 = [\<lparr>cmdKey = 2, cmdValue = None, cmdClientID = ''2'', cmdCommandID = 1\<rparr>] in
     \<not> ConflictBatch b1 b2 \<and>
     snd (ExecuteAll (snd (ExecuteAll NewDatabase b1)) b2) = snd (ExecuteAll (snd (ExecuteAll NewDatabase b2)) b1)"
proof -
  let ?b1 = "[\<lparr>cmdKey = 1, cmdValue = Some [9], cmdClientID = ''1'', cmdCommandID = 1\<rparr>]"
  let ?b2 = "[\<lparr>cmdKey = 2, cmdValue = None, cmdClientID = ''2'', cmdCommandID = 1\<rparr>]"
  have "\<not> ConflictBatch ?b1 ?b2" by (simp add: Conflict_def)
  with batches_without_conflict_commute [OF this, of NewDatabase] show ?thesis by simp
qed

end
