(* ===== verification/GroupMgr.thy ===== *)
theory GroupMgr
  imports Identity
begin

text \<open>
  Broadcast groups (src/group/group.go).  The configuration values \<open>GroupNum\<close>, \<open>MemberNum\<close> and
  \<open>N\<close> are arguments; a content map with empty values is a set.  The lemmas give the members of
  every group in closed form and what follows for size, range and coverage.
\<close>

record group =
  groupId :: int
  content :: "NodeID set"

record GroupManager =
  gmVersion :: int
  groupNum :: int
  memberNum :: int
  groupList :: "group list"
  myGroup :: "int set"

text \<open>The inner loop over the \<open>k\<close> members left, and the outer loop over the groups.\<close>

fun init_members ::
  "int \<Rightarrow> NodeID \<Rightarrow> int \<Rightarrow> nat \<Rightarrow> GroupManager \<times> group \<times> int \<Rightarrow> (GroupManager \<times> group \<times> int) option" where
  "init_members n myId i 0 st = Some st"
| "init_members n myId i (Suc k) (gm, g, start_num) =
     (if n = 0 then None
      else let member_id = NewNodeID (go_rem (i + start_num) n + 1);
               gm1 = (if member_id = myId then gm\<lparr>myGroup := insert i (myGroup gm)\<rparr> else gm)
           in init_members n myId i k (gm1, g\<lparr>content := insert member_id (content g)\<rparr>, start_num + 1))"

fun init_groups ::
  "int \<Rightarrow> NodeID \<Rightarrow> int \<Rightarrow> nat \<Rightarrow> GroupManager \<times> int \<Rightarrow> (GroupManager \<times> int) option" where
  "init_groups n myId i 0 st = Some st"
| "init_groups n myId i (Suc k) (gm, start_num) =
     do { (gm1, g, s1) \<leftarrow> init_members n myId i (nat (memberNum gm))
            (gm, \<lparr>groupId = i, content = {}\<rparr>, start_num);
          init_groups n myId (i + 1) k
            (gm1\<lparr>groupList := (groupList gm1)[nat i := g]\<rparr>, s1 - 1) }"

definition initGroup :: "int \<Rightarrow> NodeID \<Rightarrow> GroupManager \<Rightarrow> GroupManager option" where
  "initGroup n myId gm =
     do { (gm1, _) \<leftarrow> init_groups n myId 0 (nat (groupNum gm)) (gm, 0); Some gm1 }"

text \<open>
  The manager is a process-wide singleton: \<open>inst\<close> is the global variable.  \<open>make\<close> panics on a
  negative length.
\<close>

definition NewGroupManager ::
  "int \<Rightarrow> int \<Rightarrow> int \<Rightarrow> NodeID \<Rightarrow> GroupManager option \<Rightarrow> GroupManager option" where
  "NewGroupManager n gNum mNum myId inst =
     (case inst of
        Some gm \<Rightarrow> Some gm
      | None \<Rightarrow>
          if gNum < 0 then None
          else initGroup n myId
            \<lparr>gmVersion = 0, groupNum = gNum, memberNum = mNum,
             groupList = replicate (nat gNum) \<lparr>groupId = 0, content = {}\<rparr>, myGroup = {}\<rparr>)"

definition GetGroupListByGroupId :: "GroupManager \<Rightarrow> int \<Rightarrow> NodeID set option" where
  "GetGroupListByGroupId gm num = do { g \<leftarrow> go_index (groupList gm) num; Some (content g) }"

definition IsInMyGroup :: "GroupManager \<Rightarrow> int \<Rightarrow> bool" where
  "IsInMyGroup gm gid \<longleftrightarrow> gid \<in> myGroup gm"

definition IsInGroup :: "GroupManager \<Rightarrow> int \<Rightarrow> NodeID \<Rightarrow> bool option" where
  "IsInGroup gm gid node = do { g \<leftarrow> go_index (groupList gm) gid; Some (node \<in> content g) }"

fun nodes_loop :: "(NodeID \<Rightarrow> bool) \<Rightarrow> int \<Rightarrow> nat \<Rightarrow> NodeID list" where
  "nodes_loop keep i 0 = []"
| "nodes_loop keep i (Suc k) =
     (if keep (NewNodeID i) then NewNodeID i # nodes_loop keep (i + 1) k
      else nodes_loop keep (i + 1) k)"

definition NotInGroup :: "int \<Rightarrow> GroupManager \<Rightarrow> int \<Rightarrow> NodeID list option" where
  "NotInGroup n gm gid =
     (if n < 1 then Some []
      else do { g \<leftarrow> go_index (groupList gm) gid; Some (nodes_loop (\<lambda>x. x \<notin> content g) 1 (nat n)) })"

definition NodeInGroup :: "int \<Rightarrow> GroupManager \<Rightarrow> int \<Rightarrow> NodeID list option" where
  "NodeInGroup n gm gid =
     (if n < 1 then Some []
      else do { g \<leftarrow> go_index (groupList gm) gid; Some (nodes_loop (\<lambda>x. x \<in> content g) 1 (nat n)) })"

text \<open>\<open>rand.Intn\<close> panics when its argument is not positive; its choice is the argument \<open>r\<close>.\<close>

definition GenerateGroupIdByRand :: "(int \<Rightarrow> int) \<Rightarrow> int \<Rightarrow> int option" where
  "GenerateGroupIdByRand randIntn gNum = (if gNum \<le> 0 then None else Some (randIntn gNum))"

section \<open>Members in closed form\<close>

definition member_at :: "int \<Rightarrow> int \<Rightarrow> NodeID" where
  "member_at n p = NewNodeID (p mod n + 1)"

definition members_of :: "int \<Rightarrow> int \<Rightarrow> int \<Rightarrow> NodeID set" where
  "members_of n m i = member_at n ` {i * m ..< i * m + m}"

lemma init_members_eq:
  assumes "0 < n" and "0 \<le> i + start"
  shows "init_members n myId i k (gm, g, start) =
    Some (gm\<lparr>myGroup := myGroup gm \<union>
            (if myId \<in> member_at n ` {i + start ..< i + start + int k} then {i} else {})\<rparr>,
          g\<lparr>content := content g \<union> member_at n ` {i + start ..< i + start + int k}\<rparr>,
          start + int k)"
  using assms
proof (induction k arbitrary: gm g start)
  case 0
  then show ?case by simp
next
  case (Suc k)
  have "{i + start ..< i + start + int (Suc k)} =
    insert (i + start) {i + (start + 1) ..< i + (start + 1) + int k}" by auto
  then have im: "member_at n ` {i + start ..< i + start + int (Suc k)} =
    insert (member_at n (i + start)) (member_at n ` {i + (start + 1) ..< i + (start + 1) + int k})"
    by simp
  have m: "NewNodeID (go_rem (i + start) n + 1) = member_at n (i + start)"
    using Suc.prems by (simp add: member_at_def go_rem_nonneg)
  show ?case unfolding im
    using Suc.prems by (simp add: m Suc.IH Let_def)
qed

lemma init_groups_eq:
  assumes "0 < n" and "memberNum gm = int m" and "0 < m"
    and "start = int i * (int m - 1)" and "i + k \<le> length (groupList gm)"
  shows "\<exists>gm' s'. init_groups n myId (int i) k (gm, start) = Some (gm', s') \<and>
    length (groupList gm') = length (groupList gm) \<and>
    (\<forall>j < length (groupList gm). groupList gm' ! j =
      (if i \<le> j \<and> j < i + k then \<lparr>groupId = int j, content = members_of n (int m) (int j)\<rparr>
       else groupList gm ! j)) \<and>
    myGroup gm' = myGroup gm \<union> {int j | j. i \<le> j \<and> j < i + k \<and> myId \<in> members_of n (int m) (int j)}"
  using assms
proof (induction k arbitrary: i gm start)
  case 0
  then show ?case by auto
next
  case (Suc k)
  have st: "int i + start = int i * int m" using Suc.prems(4) by (simp add: algebra_simps)
  then have nn: "0 \<le> int i + start" by simp
  define gm1 where "gm1 = gm\<lparr>myGroup := myGroup gm \<union>
    (if myId \<in> members_of n (int m) (int i) then {int i} else {}),
    groupList := (groupList gm)[i := \<lparr>groupId = int i, content = members_of n (int m) (int i)\<rparr>]\<rparr>"
  have rest: "init_groups n myId (int i) (Suc k) (gm, start) =
      init_groups n myId (int (Suc i)) k (gm1, start + int m - 1)"
    using Suc.prems(2) init_members_eq [OF Suc.prems(1) nn, of myId m gm]
    by (simp add: gm1_def members_of_def st add.commute [of 1])
  have "start + int m - 1 = int (Suc i) * (int m - 1)" using Suc.prems(4) by (simp add: algebra_simps)
  from Suc.IH [OF Suc.prems(1) _ Suc.prems(3) this, of gm1] Suc.prems(2,5)
  obtain gm' s' where IH: "init_groups n myId (int (Suc i)) k (gm1, start + int m - 1) = Some (gm', s')"
    "length (groupList gm') = length (groupList gm)"
    "\<forall>j < length (groupList gm). groupList gm' ! j =
      (if Suc i \<le> j \<and> j < Suc i + k then \<lparr>groupId = int j, content = members_of n (int m) (int j)\<rparr>
       else groupList gm1 ! j)"
    "myGroup gm' = myGroup gm1 \<union>
      {int j | j. Suc i \<le> j \<and> j < Suc i + k \<and> myId \<in> members_of n (int m) (int j)}"
    by (auto simp: gm1_def)
  have "\<forall>j < length (groupList gm). groupList gm' ! j =
      (if i \<le> j \<and> j < i + Suc k then \<lparr>groupId = int j, content = members_of n (int m) (int j)\<rparr>
       else groupList gm ! j)"
    using IH(3) Suc.prems(5) by (auto simp: gm1_def nth_list_update)
  moreover have "myGroup gm' = myGroup gm \<union>
      {int j | j. i \<le> j \<and> j < i + Suc k \<and> myId \<in> members_of n (int m) (int j)}"
    unfolding IH(4) gm1_def by (auto simp: le_eq_less_or_eq Suc_le_eq)
  ultimately show ?case using IH(1,2) rest by auto
qed

lemma NewGroupManager_ok:
  assumes "0 < n" and "0 < m" and "0 \<le> gNum"
  shows "\<exists>gm. NewGroupManager n gNum m myId None = Some gm \<and> int (length (groupList gm)) = gNum \<and>
    (\<forall>i. 0 \<le> i \<and> i < gNum \<longrightarrow> GetGroupListByGroupId gm i = Some (members_of n m i)) \<and>
    (\<forall>i. IsInMyGroup gm i \<longleftrightarrow> 0 \<le> i \<and> i < gNum \<and> myId \<in> members_of n m i)"
proof -
  let ?gm0 = "\<lparr>gmVersion = 0, groupNum = gNum, memberNum = m,
    groupList = replicate (nat gNum) \<lparr>groupId = 0, content = {}\<rparr>, myGroup = {}\<rparr>"
  obtain gm s' where gm: "init_groups n myId (int 0) (nat gNum) (?gm0, 0) = Some (gm, s')"
    "length (groupList gm) = nat gNum"
    "\<forall>j < nat gNum. groupList gm ! j = \<lparr>groupId = int j, content = members_of n m (int j)\<rparr>"
    "myGroup gm = {int j | j. j < nat gNum \<and> myId \<in> members_of n m (int j)}"
    using init_groups_eq [of n ?gm0 "nat m" 0 0 "nat gNum" myId] assms by auto
  have my: "i \<in> myGroup gm \<longleftrightarrow> 0 \<le> i \<and> i < gNum \<and> myId \<in> members_of n m i" for i
  proof (cases "0 \<le> i")
    case True
    then obtain j where "i = int j" using nonneg_int_cases by blast
    with assms(3) gm(4) show ?thesis by auto
  qed (auto simp: gm(4))
  have "GetGroupListByGroupId gm i = Some (members_of n m i)" if "0 \<le> i" "i < gNum" for i
  proof -
    from that have "nat i < nat gNum" by linarith
    with that gm(2,3) show ?thesis by (simp add: GetGroupListByGroupId_def go_index_def)
  qed
  with gm my assms show ?thesis
    by (intro exI [of _ gm]) (simp add: NewGroupManager_def initGroup_def IsInMyGroup_def)
qed

lemma members_of_range:
  assumes "0 < n" and "x \<in> members_of n m i"
  shows "\<exists>v. 1 \<le> v \<and> v \<le> n \<and> x = NewNodeID v"
proof -
  from assms(2) obtain p where "x = NewNodeID (p mod n + 1)"
    by (auto simp: members_of_def member_at_def)
  moreover have "0 \<le> p mod n" "p mod n < n" using assms(1) by simp_all
  ultimately show ?thesis by (intro exI [of _ "p mod n + 1"]) simp
qed

lemma members_of_card:
  assumes "0 < n" and "n < 2 ^ 63" and "0 \<le> m" and "m \<le> n" and "0 \<le> i"
  shows "card (members_of n m i) = nat m"
proof -
  have "inj_on (member_at n) {i * m ..< i * m + m}"
  proof (rule inj_onI)
    fix p q assume p: "p \<in> {i * m ..< i * m + m}" and q: "q \<in> {i * m ..< i * m + m}"
      and e: "member_at n p = member_at n q"
    have r: "0 \<le> x mod n" "x mod n < n" for x using assms(1) by simp_all
    have "p mod n = q mod n"
    proof -
      have "p mod n + 1 < 2 ^ 63" "q mod n + 1 < 2 ^ 63" using r [of p] r [of q] assms(2) by linarith+
      then show ?thesis
        using e r [of p] r [of q] NewNodeID_inj [of "p mod n + 1" "q mod n + 1"] by (simp add: member_at_def)
    qed
    then have "n dvd p - q" by (simp add: mod_eq_dvd_iff)
    moreover have "\<bar>p - q\<bar> < n" using p q assms(4) by auto
    ultimately show "p = q" using zdvd_not_zless [of "\<bar>p - q\<bar>" n] by force
  qed
  then show ?thesis by (simp add: members_of_def card_image)
qed

lemma members_cover:
  assumes "0 < n" and "0 < m" and "n \<le> gNum * m" and "1 \<le> v" and "v \<le> n"
  shows "\<exists>i. 0 \<le> i \<and> i < gNum \<and> NewNodeID v \<in> members_of n m i"
proof (intro exI [of _ "(v - 1) div m"] conjI)
  show "0 \<le> (v - 1) div m" using assms by (simp add: pos_imp_zdiv_nonneg_iff)
  have "(v - 1) div m * m < gNum * m"
    using assms div_mult_mod_eq [of "v - 1" m] pos_mod_sign [of m "v - 1"] by linarith
  then show "(v - 1) div m < gNum" using assms(2) by simp
  have "(v - 1) div m * m \<le> v - 1" "v - 1 < (v - 1) div m * m + m"
    using assms(2) div_mult_mod_eq [of "v - 1" m] pos_mod_bound [of m "v - 1"] pos_mod_sign [of m "v - 1"]
    by linarith+
  moreover have "NewNodeID v = member_at n (v - 1)" using assms by (simp add: member_at_def)
  ultimately show "NewNodeID v \<in> members_of n m ((v - 1) div m)" by (auto simp: members_of_def)
qed

lemma set_nodes_loop: "set (nodes_loop keep i k) = {x \<in> NewNodeID ` {i ..< i + int k}. keep x}"
proof (induction k arbitrary: i)
  case (Suc k)
  have "{i ..< i + int (Suc k)} = insert i {i + 1 ..< i + 1 + int k}" by auto
  then show ?case using Suc.IH [of "i + 1"] by auto
qed auto

text \<open>C23 (groups): the first manager of a process builds \<open>gNum\<close> groups of exactly \<open>m\<close> distinct replicas each;
  \<open>IsInMyGroup\<close> agrees with membership; and when the groups have room for all replicas, every replica is in one.\<close>

theorem groups_well_formed:
  assumes "0 < n" and "n < 2 ^ 63" and "0 < m" and "m \<le> n" and "0 \<le> gNum"
  shows "\<exists>gm. NewGroupManager n gNum m myId None = Some gm \<and>
    (\<forall>i. 0 \<le> i \<and> i < gNum \<longrightarrow> (\<exists>ms. GetGroupListByGroupId gm i = Some ms \<and>
       card ms = nat m \<and> ms \<subseteq> NewNodeID ` {1 .. n} \<and> (IsInMyGroup gm i \<longleftrightarrow> myId \<in> ms))) \<and>
    (n \<le> gNum * m \<longrightarrow> (\<forall>v. 1 \<le> v \<and> v \<le> n \<longrightarrow>
       (\<exists>i ms. GetGroupListByGroupId gm i = Some ms \<and> NewNodeID v \<in> ms)))"
proof -
  obtain gm where gm: "NewGroupManager n gNum m myId None = Some gm"
    "\<And>i. 0 \<le> i \<Longrightarrow> i < gNum \<Longrightarrow> GetGroupListByGroupId gm i = Some (members_of n m i)"
    "\<And>i. IsInMyGroup gm i \<longleftrightarrow> 0 \<le> i \<and> i < gNum \<and> myId \<in> members_of n m i"
    using NewGroupManager_ok [OF assms(1,3,5), of myId] by auto
  have "members_of n m i \<subseteq> NewNodeID ` {1 .. n}" for i
    using members_of_range [OF assms(1)] by fastforce
  moreover have "card (members_of n m i) = nat m" if "0 \<le> i" for i
    using members_of_card assms that by simp
  moreover have "\<exists>i ms. GetGroupListByGroupId gm i = Some ms \<and> NewNodeID v \<in> ms"
    if "n \<le> gNum * m" "1 \<le> v" "v \<le> n" for v
    using members_cover [OF assms(1,3) that] gm(2) by blast
  ultimately show ?thesis using gm by (intro exI [of _ gm]) auto
qed

theorem groups_well_formed_witness:
  "\<exists>gm. NewGroupManager 4 2 3 (NewNodeID 1) None = Some gm \<and>
     (\<exists>ms. GetGroupListByGroupId gm 1 = Some ms \<and> card ms = 3)"
proof -
  obtain gm where gm: "NewGroupManager 4 2 3 (NewNodeID 1) None = Some gm"
    "\<forall>i. 0 \<le> i \<and> i < 2 \<longrightarrow> (\<exists>ms. GetGroupListByGroupId gm i = Some ms \<and> card ms = nat 3 \<and>
       ms \<subseteq> NewNodeID ` {1 .. 4} \<and> (IsInMyGroup gm i \<longleftrightarrow> NewNodeID 1 \<in> ms))"
    using groups_well_formed [of 4 3 2 "NewNodeID 1"] by (simp del: atLeastAtMost_iff) blast
  from gm(2) [rule_format, of 1] gm(1) show ?thesis by auto
qed

end
