(* ===== verification/Block.thy ===== *)
theory Block
  imports Merkle Db GroupMgr
begin

text \<open>
  Transactions, microblocks, proposals and blocks (src/message/message.go, src/types/types.go,
  src/types/route.go, src/blockchain/block.go; the certificate record of quorum.go).

  A \<open>time.Time\<close> is a number of nanoseconds.  The encoders, SHA-3, \<open>tmhash.Sum\<close> and the printing
  of a time are the fields of \<open>HashEnv\<close>; clock readings and the random group are arguments of
  \<open>NewMicroblock\<close>.  The bitmap package is represented by its two operations.
\<close>

section \<open>Data\<close>

type_synonym View = int
type_synonym Time = int
type_synonym Bitmap = "64 word list"

record Route =
  routeFrom :: string
  routeTo :: string

record Transaction =
  txCommand :: Command
  txTimestamp :: Time
  txNodeID :: NodeID
  txID :: string

record QC =
  qcLeader :: NodeID
  qcView :: View
  qcBlockID :: Identifier
  qcSigners :: "NodeID list"
  qcAggSig :: AggSig
  qcSignature :: Signature

record BlockHeader =
  hView :: View
  hQC :: "QC option"
  hProposer :: NodeID
  hTimestamp :: Time
  hPrevID :: Identifier
  hSig :: Signature
  hID :: Identifier
  hTs :: int

record MicroBlock =
  mbProposalID :: Identifier
  mbGroupId :: int
  mbHash :: Identifier
  mbTxns :: "Transaction list"
  mbTimestamp :: Time
  mbFutureTimestamp :: Time
  mbSender :: NodeID
  mbIsFake :: bool
  mbIsRequested :: bool
  mbIsForward :: bool
  mbBitmap :: Bitmap
  mbHops :: int
  mbCommittedNo :: int
  mbGenerateNodeList :: "NodeID set"
  mbCreateTimeStamp :: Time
  mbSendTimeStamp :: Time
  mbReceiveTimeStamp :: Time
  mbCommittedTimeStamp :: Time
  mbExecutStratTimeStamp :: Time
  mbExecuteEndTimeStamp :: Time
  mbRouteList :: "Route list"

record Payload =
  plMicroblockList :: "MicroBlock option list"
  plSigMap :: "Identifier \<rightharpoonup> (NodeID \<rightharpoonup> Signature)"
  plAckNode :: "NodeID set list"
  plTxNums :: "int list"

record Block =
  blkHeader :: BlockHeader
  blkPayload :: "Payload option"

record Proposal =
  ppHeader :: BlockHeader
  ppHashList :: "Identifier list"
  ppTxNums :: "int list"
  ppGroupList :: "int list"
  ppAckNode :: "NodeID set list"
  ppMbTime :: "Time list"

record PendingBlock =
  pdPayload :: Payload
  pdProposal :: Proposal
  pdMissingMap :: "Identifier set"

record rawProposal =
  rawView :: View
  rawQC :: "QC option"
  rawProposer :: NodeID
  rawPayload :: "Identifier list"
  rawPrevID :: Identifier

record HashEnv =
  heSha3 :: "Bytes \<Rightarrow> Bytes"
  heTmhash :: "Bytes \<Rightarrow> Bytes"
  heEncTx :: "Transaction \<Rightarrow> Bytes"
  heEncBytes :: "Bytes \<Rightarrow> Bytes"
  heEncRaw :: "rawProposal \<Rightarrow> Bytes"
  heTimeString :: "Time \<Rightarrow> Bytes"

abbreviation blkView :: "Block \<Rightarrow> View" where "blkView b \<equiv> hView (blkHeader b)"
abbreviation blkQC :: "Block \<Rightarrow> QC option" where "blkQC b \<equiv> hQC (blkHeader b)"
abbreviation blkID :: "Block \<Rightarrow> Identifier" where "blkID b \<equiv> hID (blkHeader b)"
abbreviation blkPrevID :: "Block \<Rightarrow> Identifier" where "blkPrevID b \<equiv> hPrevID (blkHeader b)"
abbreviation blkProposer :: "Block \<Rightarrow> NodeID" where "blkProposer b \<equiv> hProposer (blkHeader b)"

text \<open>The zero values of \<open>new(T)\<close>; the zero time is 0.\<close>

definition zeroHeader :: BlockHeader where
  "zeroHeader = \<lparr>hView = 0, hQC = None, hProposer = [], hTimestamp = 0, hPrevID = 0, hSig = [],
     hID = 0, hTs = 0\<rparr>"

definition zeroMicroBlock :: MicroBlock where
  "zeroMicroBlock = \<lparr>mbProposalID = 0, mbGroupId = 0, mbHash = 0, mbTxns = [], mbTimestamp = 0,
     mbFutureTimestamp = 0, mbSender = [], mbIsFake = False, mbIsRequested = False,
     mbIsForward = False, mbBitmap = [], mbHops = 0, mbCommittedNo = 0, mbGenerateNodeList = {},
     mbCreateTimeStamp = 0, mbSendTimeStamp = 0, mbReceiveTimeStamp = 0, mbCommittedTimeStamp = 0,
     mbExecutStratTimeStamp = 0, mbExecuteEndTimeStamp = 0, mbRouteList = []\<rparr>"

section \<open>Proposals\<close>

definition makeID :: "HashEnv \<Rightarrow> KeyRing \<Rightarrow> Proposal \<Rightarrow> NodeID \<Rightarrow> Proposal option" where
  "makeID he kr p nodeID =
     (let h = ppHeader p;
          raw = \<lparr>rawView = hView h, rawQC = hQC h, rawProposer = hProposer h,
                 rawPayload = ppHashList p, rawPrevID = hPrevID h\<rparr>;
          newID = MakeID (heEncRaw he) (heSha3 he) raw
      in do { (sig, _) \<leftarrow> PrivSign kr (IDToByte newID) nodeID;
              Some (p\<lparr>ppHeader := h\<lparr>hID := newID, hSig := sig\<rparr>\<rparr>) })"

definition BuildProposal ::
  "HashEnv \<Rightarrow> KeyRing \<Rightarrow> View \<Rightarrow> QC option \<Rightarrow> Identifier \<Rightarrow> Identifier list \<Rightarrow> int list \<Rightarrow>
   NodeID set list \<Rightarrow> Time list \<Rightarrow> NodeID \<Rightarrow> int list \<Rightarrow> Proposal option" where
  "BuildProposal he kr view qc prevID payload gList ackNodeList mbTime proposer txNums =
     do { p \<leftarrow> makeID he kr
            \<lparr>ppHeader = zeroHeader\<lparr>hView := view, hProposer := proposer, hQC := qc, hPrevID := prevID\<rparr>,
             ppHashList = payload, ppTxNums = [], ppGroupList = gList, ppAckNode = ackNodeList,
             ppMbTime = mbTime\<rparr> proposer;
          Some (p\<lparr>ppTxNums := txNums\<rparr>) }"

section \<open>Payloads and microblocks\<close>

definition NewPayload ::
  "MicroBlock option list \<Rightarrow> (Identifier \<rightharpoonup> (NodeID \<rightharpoonup> Signature)) \<Rightarrow> NodeID set list \<Rightarrow> int list \<Rightarrow> Payload" where
  "NewPayload microblockList sigs ackList txNums =
     \<lparr>plMicroblockList = microblockList, plSigMap = sigs, plAckNode = ackList, plTxNums = txNums\<rparr>"

definition MicroblockList :: "Block \<Rightarrow> MicroBlock option list option" where
  "MicroblockList b = do { pl \<leftarrow> blkPayload b; Some (plMicroblockList pl) }"

fun non_nil :: "MicroBlock option list \<Rightarrow> MicroBlock list" where
  "non_nil [] = []"
| "non_nil (None # ms) = non_nil ms"
| "non_nil (Some mb # ms) = mb # non_nil ms"

definition GenerateHashList :: "Payload \<Rightarrow> Identifier list" where
  "GenerateHashList pl = map mbHash (non_nil (plMicroblockList pl))"

definition GenerateGroupList :: "Payload \<Rightarrow> int list" where
  "GenerateGroupList pl = map mbGroupId (non_nil (plMicroblockList pl))"

definition GenerateTimeList :: "Payload \<Rightarrow> Time list" where
  "GenerateTimeList pl = map mbTimestamp (non_nil (plMicroblockList pl))"

definition addMicroblock :: "Payload \<Rightarrow> MicroBlock \<Rightarrow> Payload" where
  "addMicroblock pl mb = pl\<lparr>plMicroblockList := plMicroblockList pl @ [Some mb]\<rparr>"

definition LastItem :: "Payload \<Rightarrow> MicroBlock option" where
  "LastItem pl = (if plMicroblockList pl = [] then None else last (plMicroblockList pl))"

definition FindSentNodes :: "(Bitmap \<Rightarrow> nat list) \<Rightarrow> MicroBlock \<Rightarrow> NodeID list" where
  "FindSentNodes bmRange mb = map (\<lambda>x. Itoa (int x)) (bmRange (mbBitmap mb))"

definition AddSentNodes :: "(nat \<Rightarrow> Bitmap \<Rightarrow> Bitmap) \<Rightarrow> MicroBlock \<Rightarrow> NodeID list \<Rightarrow> MicroBlock" where
  "AddSentNodes bmSet mb nodes =
     mb\<lparr>mbBitmap := foldl (\<lambda>bm x. bmSet (nat (Node x mod 2 ^ 32)) bm) (mbBitmap mb) nodes\<rparr>"

definition BuildBlock :: "Proposal \<Rightarrow> Payload \<Rightarrow> Block" where
  "BuildBlock proposal payload = \<lparr>blkHeader = ppHeader proposal, blkPayload = Some payload\<rparr>"

definition mb_hash :: "HashEnv \<Rightarrow> MicroBlock \<Rightarrow> Identifier" where
  "mb_hash he mb =
     (let hashList = map (\<lambda>tx. IDToByte (MakeID (heEncTx he) (heSha3 he) tx)) (mbTxns mb)
                       @ [heTimeString he (mbTimestamp mb)]
      in MakeID (heEncBytes he) (heSha3 he) (HashFromByteSlices (heTmhash he) hashList))"

definition NewMicroblock ::
  "HashEnv \<Rightarrow> (int \<Rightarrow> int) \<Rightarrow> int \<Rightarrow> Time \<Rightarrow> Time \<Rightarrow> Identifier \<Rightarrow> Transaction list \<Rightarrow> MicroBlock option" where
  "NewMicroblock he randIntn gNum now1 now2 proposalID txnList =
     (let mb = zeroMicroBlock\<lparr>mbProposalID := proposalID, mbTxns := txnList, mbTimestamp := now1,
                 mbCreateTimeStamp := now2\<rparr>;
          mb1 = mb\<lparr>mbHash := mb_hash he mb\<rparr>
      in do { gid \<leftarrow> GenerateGroupIdByRand randIntn gNum;
              Some (mb1\<lparr>mbGroupId := gid, mbRouteList := []\<rparr>) })"

section \<open>Pending blocks\<close>

definition NewPendingBlock :: "Proposal \<Rightarrow> Identifier set \<Rightarrow> MicroBlock option list \<Rightarrow> PendingBlock" where
  "NewPendingBlock proposal missingMap microBlocks =
     \<lparr>pdPayload = NewPayload microBlocks Map.empty [] [], pdProposal = proposal,
      pdMissingMap = missingMap\<rparr>"

definition CompleteBlock :: "PendingBlock \<Rightarrow> Block option" where
  "CompleteBlock pd =
     (if pdMissingMap pd = {} then Some (BuildBlock (pdProposal pd) (pdPayload pd)) else None)"

definition PendingAddMicroblock :: "PendingBlock \<Rightarrow> MicroBlock \<Rightarrow> Block option \<times> PendingBlock" where
  "PendingAddMicroblock pd mb =
     (let pd1 = (if mbHash mb \<in> pdMissingMap pd then
                   pd\<lparr>pdPayload := addMicroblock (pdPayload pd) mb,
                      pdMissingMap := pdMissingMap pd - {mbHash mb}\<rparr>
                 else pd)
      in (if pdMissingMap pd1 = {} then Some (BuildBlock (pdProposal pd1) (pdPayload pd1)) else None,
          pd1))"

definition MissingCount :: "PendingBlock \<Rightarrow> nat" where
  "MissingCount pd = card (pdMissingMap pd)"

definition MissingMBList :: "(Identifier set \<Rightarrow> Identifier list) \<Rightarrow> PendingBlock \<Rightarrow> Identifier list" where
  "MissingMBList rng pd = rng (pdMissingMap pd)"

section \<open>Lemmas\<close>

lemma non_nil_append [simp]: "non_nil (xs @ ys) = non_nil xs @ non_nil ys"
  by (induction xs rule: non_nil.induct) auto

lemma non_nil_map_Some [simp]: "non_nil (map Some xs) = xs"
  by (induction xs) auto

lemma GenerateHashList_add [simp]:
  "GenerateHashList (addMicroblock pl mb) = GenerateHashList pl @ [mbHash mb]"
  by (simp add: GenerateHashList_def addMicroblock_def)

lemma length_GenerateLists:
  "length (GenerateGroupList pl) = length (GenerateHashList pl)"
  "length (GenerateTimeList pl) = length (GenerateHashList pl)"
  by (simp_all add: GenerateGroupList_def GenerateHashList_def GenerateTimeList_def)

text \<open>
  A pending block is consistent when the microblocks present and the missing ones together are
  those of the proposal.
\<close>

definition pd_ok :: "PendingBlock \<Rightarrow> bool" where
  "pd_ok pd \<longleftrightarrow> finite (pdMissingMap pd) \<and>
     set (GenerateHashList (pdPayload pd)) \<union> pdMissingMap pd = set (ppHashList (pdProposal pd)) \<and>
     set (GenerateHashList (pdPayload pd)) \<inter> pdMissingMap pd = {}"

lemma pd_ok_add [inv_intros]: "pd_ok pd \<Longrightarrow> pd_ok (snd (PendingAddMicroblock pd mb))"
  by (auto simp: pd_ok_def PendingAddMicroblock_def Let_def)

fun PendingAddAll :: "PendingBlock \<Rightarrow> MicroBlock list \<Rightarrow> Block option list \<times> PendingBlock" where
  "PendingAddAll pd [] = ([], pd)"
| "PendingAddAll pd (mb # mbs) =
     (let (b, pd1) = PendingAddMicroblock pd mb; (bs, pd2) = PendingAddAll pd1 mbs in (b # bs, pd2))"

lemma PendingAdd_missing:
  "pdMissingMap (snd (PendingAddMicroblock pd mb)) = pdMissingMap pd - {mbHash mb}"
  "pdProposal (snd (PendingAddMicroblock pd mb)) = pdProposal pd"
  by (auto simp: PendingAddMicroblock_def Let_def)

lemma PendingAddAll_missing:
  "pdMissingMap (snd (PendingAddAll pd mbs)) = pdMissingMap pd - mbHash ` set mbs \<and>
   pdProposal (snd (PendingAddAll pd mbs)) = pdProposal pd"
  by (induction mbs arbitrary: pd) (auto simp: Let_def case_prod_beta PendingAdd_missing)

lemma PendingAddAll_ok: "pd_ok pd \<Longrightarrow> pd_ok (snd (PendingAddAll pd mbs))"
  by (induction mbs arbitrary: pd) (auto simp: Let_def case_prod_beta intro: inv_intros)

lemma PendingAdd_result:
  "fst (PendingAddMicroblock pd mb) =
    (if pdMissingMap pd \<subseteq> {mbHash mb}
     then Some (BuildBlock (pdProposal pd) (pdPayload (snd (PendingAddMicroblock pd mb)))) else None)"
  by (auto simp: PendingAddMicroblock_def Let_def)

lemma pd_ok_complete:
  "pd_ok pd \<Longrightarrow> pdMissingMap pd = {} \<Longrightarrow>
    set (GenerateHashList (pdPayload pd)) = set (ppHashList (pdProposal pd))"
  by (simp add: pd_ok_def)

text \<open>The outcome of the last of a sequence of arrivals.\<close>

lemma PendingAddAll_nth:
  "i < length mbs \<Longrightarrow> fst (PendingAddAll pd mbs) ! i =
    (if pdMissingMap pd \<subseteq> mbHash ` set (take (Suc i) mbs)
     then Some (BuildBlock (pdProposal pd) (pdPayload (snd (PendingAddAll pd (take (Suc i) mbs)))))
     else None)"
proof (induction mbs arbitrary: pd i)
  case (Cons mb mbs)
  show ?case
  proof (cases i)
    case 0
    then show ?thesis by (simp add: Let_def case_prod_beta PendingAdd_result)
  next
    case (Suc j)
    with Cons show ?thesis
      by (auto simp: Let_def case_prod_beta PendingAdd_missing)
  qed
qed simp

lemma BuildProposal_fields:
  "BuildProposal he kr view qc prevID payload gl acks ts proposer txNums = Some p \<Longrightarrow>
    hView (ppHeader p) = view \<and> hQC (ppHeader p) = qc \<and> hPrevID (ppHeader p) = prevID \<and>
    hProposer (ppHeader p) = proposer \<and> ppHashList p = payload \<and> ppTxNums p = txNums \<and>
    hID (ppHeader p) = MakeID (heEncRaw he) (heSha3 he)
      \<lparr>rawView = view, rawQC = qc, rawProposer = proposer, rawPayload = payload, rawPrevID = prevID\<rparr> \<and>
    (\<exists>err. PrivSign kr (IDToByte (hID (ppHeader p))) proposer = Some (hSig (ppHeader p), err))"
  by (auto simp: BuildProposal_def makeID_def Let_def bind_Some_conv zeroHeader_def)

text \<open>Pending blocks: while the microblocks of a pending block arrive, in any order and with strangers and
  duplicates among them, the arrivals that return a block are exactly those after which nothing is
  missing; the block returned carries the header of the proposal and exactly the proposal's microblocks.\<close>

theorem pending_block_completes:
  assumes "pd_ok pd" and "i < length mbs"
  shows "(fst (PendingAddAll pd mbs) ! i \<noteq> None) = (pdMissingMap pd \<subseteq> mbHash ` set (take (Suc i) mbs)) \<and>
    (\<forall>b. fst (PendingAddAll pd mbs) ! i = Some b \<longrightarrow> blkHeader b = ppHeader (pdProposal pd) \<and>
       (\<exists>pl. blkPayload b = Some pl \<and> set (GenerateHashList pl) = set (ppHashList (pdProposal pd))))"
proof -
  let ?pd = "snd (PendingAddAll pd (take (Suc i) mbs))"
  have ok: "pd_ok ?pd" by (rule PendingAddAll_ok [OF assms(1)])
  have m: "pdMissingMap ?pd = pdMissingMap pd - mbHash ` set (take (Suc i) mbs)" "pdProposal ?pd = pdProposal pd"
    using PendingAddAll_missing by auto
  then have "pdMissingMap pd \<subseteq> mbHash ` set (take (Suc i) mbs) \<longrightarrow>
      set (GenerateHashList (pdPayload ?pd)) = set (ppHashList (pdProposal pd))"
    using pd_ok_complete [OF ok] by auto
  with PendingAddAll_nth [OF assms(2), of pd] show ?thesis by (auto simp: BuildBlock_def)
qed

definition sample_proposal :: "Identifier list \<Rightarrow> Proposal" where
  "sample_proposal hs = \<lparr>ppHeader = zeroHeader, ppHashList = hs, ppTxNums = [], ppGroupList = [],
     ppAckNode = [], ppMbTime = []\<rparr>"

definition sample_block :: "Identifier \<Rightarrow> View \<Rightarrow> Identifier \<Rightarrow> View \<Rightarrow> Block" where
  "sample_block i v p qv =
     \<lparr>blkHeader = zeroHeader\<lparr>hID := i, hView := v, hPrevID := p,
        hQC := Some \<lparr>qcLeader = [], qcView = qv, qcBlockID = p, qcSigners = [], qcAggSig = [], qcSignature = []\<rparr>\<rparr>,
      blkPayload = None\<rparr>"

lemma sample_block_simps [simp]:
  "blkID (sample_block i v p qv) = i" "blkView (sample_block i v p qv) = v"
  "blkPrevID (sample_block i v p qv) = p"
  "blkQC (sample_block i v p qv) =
     Some \<lparr>qcLeader = [], qcView = qv, qcBlockID = p, qcSigners = [], qcAggSig = [], qcSignature = []\<rparr>"
  by (simp_all add: sample_block_def)

lemma sample_block_eq:
  "sample_block i v p qv = sample_block i' v' p' qv' \<longleftrightarrow> i = i' \<and> v = v' \<and> p = p' \<and> qv = qv'"
  by (auto simp: sample_block_def zeroHeader_def)

theorem pending_block_completes_witness:
  "let pd = NewPendingBlock (sample_proposal [3, 4]) {3, 4} [];
       mbs = [zeroMicroBlock\<lparr>mbHash := 4\<rparr>, zeroMicroBlock\<lparr>mbHash := 9\<rparr>, zeroMicroBlock\<lparr>mbHash := 3\<rparr>] in
     fst (PendingAddAll pd mbs) ! 1 = None \<and> fst (PendingAddAll pd mbs) ! 2 \<noteq> None"
proof -
  let ?pd = "NewPendingBlock (sample_proposal [3, 4]) {3, 4} []"
  let ?mbs = "[zeroMicroBlock\<lparr>mbHash := 4\<rparr>, zeroMicroBlock\<lparr>mbHash := 9\<rparr>, zeroMicroBlock\<lparr>mbHash := 3\<rparr>]"
  have ok: "pd_ok ?pd"
    by (simp add: pd_ok_def NewPendingBlock_def sample_proposal_def GenerateHashList_def NewPayload_def insert_commute)
  have "pdMissingMap ?pd = {3, 4}" by (simp add: NewPendingBlock_def)
  then show ?thesis
    using pending_block_completes [OF ok, of 1 ?mbs, THEN conjunct1]
      pending_block_completes [OF ok, of 2 ?mbs, THEN conjunct1]
    by (simp del: PendingAddAll.simps)
qed

end
