(* ===== verification/Forest.thy ===== *)
theory Forest
  imports Block
begin

text \<open>
  The levelled forest of blocks (src/blockchain/leveled_forrest.go, vertex.go, container.go).

  Containers are shared through pointers: the \<open>vertices\<close> map, the level lists and the child lists
  hold addresses into a store of containers.  The only implementation of \<open>Vertex\<close> is
  \<open>BlockContainer\<close>, so a vertex is a block.  \<open>Parent\<close> reads the certificate of the block and panics
  when it is nil.
\<close>

section \<open>Vertices and containers\<close>

definition VertexID :: "Block \<Rightarrow> Identifier" where
  "VertexID b = blkID b"

definition Level :: "Block \<Rightarrow> nat" where
  "Level b = uint64 (blkView b)"

definition Parent :: "Block \<Rightarrow> (Identifier \<times> nat) option" where
  "Parent b = do { qc \<leftarrow> blkQC b; Some (blkPrevID b, uint64 (qcView qc)) }"

record vertexContainer =
  vcId :: Identifier
  vcLevel :: nat
  vcChildren :: "nat list"
  vcVertex :: "Block option"

record LevelledForest =
  store :: "vertexContainer list"
  vertices :: "Identifier \<rightharpoonup> nat"
  verticesAtLevel :: "nat \<Rightarrow> nat list"
  LowestLevel :: nat

definition NewLevelledForest :: LevelledForest where
  "NewLevelledForest =
     \<lparr>store = [], vertices = Map.empty, verticesAtLevel = (\<lambda>l. []), LowestLevel = 0\<rparr>"

definition isEmptyContainer :: "LevelledForest \<Rightarrow> nat \<Rightarrow> bool" where
  "isEmptyContainer f a \<longleftrightarrow> vcVertex (store f ! a) = None"

definition HasVertex :: "LevelledForest \<Rightarrow> Identifier \<Rightarrow> bool" where
  "HasVertex f x = (case vertices f x of None \<Rightarrow> False | Some a \<Rightarrow> \<not> isEmptyContainer f a)"

definition GetVertex :: "LevelledForest \<Rightarrow> Identifier \<Rightarrow> Block option" where
  "GetVertex f x =
     (case vertices f x of
        None \<Rightarrow> None
      | Some a \<Rightarrow> if isEmptyContainer f a then None else vcVertex (store f ! a))"

section \<open>Iterators (vertex.go)\<close>

record VertexIterator =
  itData :: "nat list"
  itIdx :: nat
  itNext :: "Block option"

function preLoad :: "LevelledForest \<Rightarrow> VertexIterator \<Rightarrow> VertexIterator" where
  "preLoad f it =
     (if itIdx it < length (itData it) then
        let v = vcVertex (store f ! (itData it ! itIdx it));
            it1 = it\<lparr>itIdx := itIdx it + 1\<rparr>
        in if v \<noteq> None then it1\<lparr>itNext := v\<rparr> else preLoad f it1
      else it\<lparr>itNext := None\<rparr>)"
  by pat_completeness auto
termination
  by (relation "measure (\<lambda>(f, it). length (itData it) - itIdx it)") auto

declare preLoad.simps [simp del]

definition NextVertex :: "LevelledForest \<Rightarrow> VertexIterator \<Rightarrow> Block option \<times> VertexIterator" where
  "NextVertex f it = (itNext it, preLoad f it)"

definition HasNext :: "VertexIterator \<Rightarrow> bool" where
  "HasNext it \<longleftrightarrow> itNext it \<noteq> None"

definition newVertexIterator :: "LevelledForest \<Rightarrow> nat list \<Rightarrow> VertexIterator" where
  "newVertexIterator f vertexList = preLoad f \<lparr>itData = vertexList, itIdx = 0, itNext = None\<rparr>"

section \<open>Queries\<close>

text \<open>For an unknown identifier the container is a nil pointer and reading its children panics.\<close>

definition GetChildren :: "LevelledForest \<Rightarrow> Identifier \<Rightarrow> VertexIterator option" where
  "GetChildren f x = do { a \<leftarrow> vertices f x; Some (newVertexIterator f (vcChildren (store f ! a))) }"

fun count_full :: "LevelledForest \<Rightarrow> nat list \<Rightarrow> nat" where
  "count_full f [] = 0"
| "count_full f (a # as) = (if vcVertex (store f ! a) \<noteq> None then Suc (count_full f as) else count_full f as)"

definition GetNumberOfChildren :: "LevelledForest \<Rightarrow> Identifier \<Rightarrow> nat option" where
  "GetNumberOfChildren f x = do { a \<leftarrow> vertices f x; Some (count_full f (vcChildren (store f ! a))) }"

definition GetVerticesAtLevel :: "LevelledForest \<Rightarrow> nat \<Rightarrow> VertexIterator" where
  "GetVerticesAtLevel f level = newVertexIterator f (verticesAtLevel f level)"

definition GetNumberOfVerticesAtLevel :: "LevelledForest \<Rightarrow> nat \<Rightarrow> nat" where
  "GetNumberOfVerticesAtLevel f level = count_full f (verticesAtLevel f level)"

section \<open>Insertion\<close>

definition getOrCreateVertexContainer ::
  "LevelledForest \<Rightarrow> Identifier \<Rightarrow> nat \<Rightarrow> nat \<times> LevelledForest" where
  "getOrCreateVertexContainer f x level =
     (case vertices f x of
        Some a \<Rightarrow> (a, f)
      | None \<Rightarrow>
          let a = length (store f);
              f1 = f\<lparr>store := store f @ [\<lparr>vcId = x, vcLevel = level, vcChildren = [], vcVertex = None\<rparr>],
                     vertices := (vertices f)(x \<mapsto> a)\<rparr>
          in (a, f1\<lparr>verticesAtLevel := (verticesAtLevel f1)(level := verticesAtLevel f1 level @ [a])\<rparr>))"

definition add_child :: "LevelledForest \<Rightarrow> nat \<Rightarrow> nat \<Rightarrow> LevelledForest" where
  "add_child f p a = f\<lparr>store := (store f)[p := (store f ! p)\<lparr>vcChildren := vcChildren (store f ! p) @ [a]\<rparr>]\<rparr>"

definition set_vertex :: "LevelledForest \<Rightarrow> nat \<Rightarrow> Block \<Rightarrow> LevelledForest" where
  "set_vertex f a b = f\<lparr>store := (store f)[a := (store f ! a)\<lparr>vcVertex := Some b\<rparr>]\<rparr>"

definition registerWithParent :: "LevelledForest \<Rightarrow> nat \<Rightarrow> LevelledForest option" where
  "registerWithParent f a =
     (if vcLevel (store f ! a) \<le> LowestLevel f then Some f
      else do {
        b \<leftarrow> vcVertex (store f ! a);
        (parentID, parentView) \<leftarrow> Parent b;
        if parentView < LowestLevel f then Some f
        else (case getOrCreateVertexContainer f parentID parentView of
                (p, f1) \<Rightarrow> Some (add_child f1 p a)) })"

definition AddVertex :: "LevelledForest \<Rightarrow> Block \<Rightarrow> LevelledForest option" where
  "AddVertex f b =
     (if Level b < LowestLevel f then Some f
      else case getOrCreateVertexContainer f (VertexID b) (Level b) of
        (a, f1) \<Rightarrow>
          if \<not> isEmptyContainer f1 a then Some f1
          else registerWithParent (set_vertex f1 a b) a)"

section \<open>Pruning\<close>

text \<open>
  The first loop follows parents from the new lowest level and collects their levels.  It takes
  the first container of each level, panics when a level is empty or its first container is, and
  has no bound of its own: \<open>None\<close> covers both.
\<close>

partial_function (option) committed_levels ::
  "LevelledForest \<Rightarrow> nat \<Rightarrow> nat set \<Rightarrow> nat set option" where
  "committed_levels f l committedLevels =
     (if LowestLevel f \<le> l \<and> 1 < l then
        (case verticesAtLevel f l of
           [] \<Rightarrow> None
         | a # _ \<Rightarrow>
             (case vcVertex (store f ! a) of
                None \<Rightarrow> None
              | Some vertex \<Rightarrow>
                  (case Parent vertex of
                     None \<Rightarrow> None
                   | Some (parentID, _) \<Rightarrow>
                       (case GetVertex f parentID of
                          None \<Rightarrow> Some committedLevels
                        | Some parentVertex \<Rightarrow>
                            if Level parentVertex < LowestLevel f then Some committedLevels
                            else committed_levels f (Level parentVertex)
                                   (insert (Level parentVertex) committedLevels)))))
      else Some committedLevels)"

fun prune_level ::
  "nat set \<Rightarrow> nat \<Rightarrow> nat list \<Rightarrow> LevelledForest \<Rightarrow> Block list \<Rightarrow> int \<Rightarrow> LevelledForest \<times> Block list \<times> int" where
  "prune_level com l [] f forked n = (f, forked, n)"
| "prune_level com l (a # as) f forked n =
     (let forked1 = (if l \<notin> com \<and> 1 < l then
                       (case vcVertex (store f ! a) of None \<Rightarrow> forked | Some b \<Rightarrow> forked @ [b])
                     else forked)
      in prune_level com l as (f\<lparr>vertices := (vertices f)(vcId (store f ! a) := None)\<rparr>) forked1 (n + 1))"

fun prune_levels ::
  "nat set \<Rightarrow> nat \<Rightarrow> nat \<Rightarrow> LevelledForest \<Rightarrow> Block list \<Rightarrow> int \<Rightarrow> LevelledForest \<times> Block list \<times> int" where
  "prune_levels com l 0 f forked n = (f, forked, n)"
| "prune_levels com l (Suc k) f forked n =
     (case prune_level com l (verticesAtLevel f l) f forked n of
        (f1, forked1, n1) \<Rightarrow>
          prune_levels com (Suc l) k (f1\<lparr>verticesAtLevel := (verticesAtLevel f1)(l := [])\<rparr>) forked1 n1)"

definition PruneUpToLevel ::
  "LevelledForest \<Rightarrow> nat \<Rightarrow> ((Block list \<times> int \<times> error option) \<times> LevelledForest) option" where
  "PruneUpToLevel f level =
     (if level < LowestLevel f then
        Some (([], 0, Some ''new lowest level cannot be smaller''), f)
      else do {
        com \<leftarrow> committed_levels f level {};
        case prune_levels com (LowestLevel f) (level - LowestLevel f) f [] 0 of
          (f1, forkedBlocks, prunedBlockNo) \<Rightarrow>
            Some ((forkedBlocks, prunedBlockNo, None), f1\<lparr>LowestLevel := level\<rparr>) })"

section \<open>Validity checks\<close>

definition isEquivalentToStoredVertex :: "LevelledForest \<Rightarrow> Block \<Rightarrow> (bool \<times> error option) option" where
  "isEquivalentToStoredVertex f b =
     (case GetVertex f (VertexID b) of
        None \<Rightarrow> Some (False, None)
      | Some stored \<Rightarrow>
          if Level b \<noteq> Level stored then Some (False, Some ''conflicting vertices'')
          else if Level b \<le> LowestLevel f then Some (True, None)
          else do {
            (newParentId, newParentView) \<leftarrow> Parent b;
            (storedParentId, storedParentView) \<leftarrow> Parent stored;
            if newParentId \<noteq> storedParentId then Some (False, Some ''conflicting vertices'')
            else if newParentView \<noteq> storedParentView then Some (False, Some ''conflicting vertices'')
            else Some (True, None) })"

definition verifyParent :: "LevelledForest \<Rightarrow> Block \<Rightarrow> (error option) option" where
  "verifyParent f b =
     do { (parentID, parentLevel) \<leftarrow> Parent b;
          if \<not> (Level b > parentLevel) then Some (Some ''parent level must be smaller'')
          else (case GetVertex f parentID of
                  None \<Rightarrow> Some None
                | Some parentVertex \<Rightarrow>
                    if Level parentVertex \<noteq> parentLevel then Some (Some ''parent has different level'')
                    else Some None) }"

definition VerifyVertex :: "LevelledForest \<Rightarrow> Block \<Rightarrow> (error option) option" where
  "VerifyVertex f b =
     (if Level b < LowestLevel f then Some None
      else do {
        (isKnownVertex, err) \<leftarrow> isEquivalentToStoredVertex f b;
        if err \<noteq> None then Some (Some ''invalid Vertex'')
        else if isKnownVertex then Some None
        else if Level b = LowestLevel f then Some None
        else verifyParent f b })"

section \<open>Invariant\<close>

definition ids_ok :: "LevelledForest \<Rightarrow> bool" where
  "ids_ok f \<longleftrightarrow> (\<forall>x a. vertices f x = Some a \<longrightarrow>
     a < length (store f) \<and> vcId (store f ! a) = x \<and> a \<in> set (verticesAtLevel f (vcLevel (store f ! a))))"

definition levels_ok :: "LevelledForest \<Rightarrow> bool" where
  "levels_ok f \<longleftrightarrow> (\<forall>l a. a \<in> set (verticesAtLevel f l) \<longrightarrow>
     a < length (store f) \<and> vcLevel (store f ! a) = l \<and> vertices f (vcId (store f ! a)) = Some a)"

definition lists_ok :: "LevelledForest \<Rightarrow> bool" where
  "lists_ok f \<longleftrightarrow> (\<forall>l. distinct (verticesAtLevel f l)) \<and> (\<forall>l < LowestLevel f. verticesAtLevel f l = [])"

definition blocks_ok :: "LevelledForest \<Rightarrow> bool" where
  "blocks_ok f \<longleftrightarrow> (\<forall>a b. a < length (store f) \<longrightarrow> vcVertex (store f ! a) = Some b \<longrightarrow>
     blkID b = vcId (store f ! a))"

definition forest_ok :: "LevelledForest \<Rightarrow> bool" where
  "forest_ok f \<longleftrightarrow> ids_ok f \<and> levels_ok f \<and> lists_ok f \<and> blocks_ok f"

lemma forest_ok_New [inv_intros]: "forest_ok NewLevelledForest"
  by (simp add: forest_ok_def ids_ok_def levels_ok_def lists_ok_def blocks_ok_def NewLevelledForest_def)

lemma GetVertex_alt:
  "GetVertex f x = (case vertices f x of None \<Rightarrow> None | Some a \<Rightarrow> vcVertex (store f ! a))"
  by (simp add: GetVertex_def isEmptyContainer_def split: option.splits)

lemma HasVertex_iff: "HasVertex f x \<longleftrightarrow> GetVertex f x \<noteq> None"
  by (simp add: HasVertex_def GetVertex_alt isEmptyContainer_def split: option.splits)

lemma GetVertex_id: "forest_ok f \<Longrightarrow> GetVertex f x = Some b \<Longrightarrow> blkID b = x"
  by (auto simp: forest_ok_def ids_ok_def blocks_ok_def GetVertex_alt split: option.splits)

subsection \<open>Insertion preserves it\<close>

text \<open>Writing children or a first vertex of a container keeps identifiers and levels.\<close>

lemma forest_ok_store_update:
  assumes "forest_ok f" and "a < length (store f)"
    and "vcId c = vcId (store f ! a)" and "vcLevel c = vcLevel (store f ! a)"
    and "\<And>b. vcVertex c = Some b \<Longrightarrow> blkID b = vcId c"
  shows "forest_ok (f\<lparr>store := (store f)[a := c]\<rparr>)"
proof -
  have i: "vcId ((store f)[a := c] ! x) = vcId (store f ! x)"
    and l: "vcLevel ((store f)[a := c] ! x) = vcLevel (store f ! x)" for x
    using assms(2-4) by (auto simp: nth_list_update)
  have "blkID b = vcId ((store f)[a := c] ! x)"
    if "x < length (store f)" "vcVertex ((store f)[a := c] ! x) = Some b" for x b
    using assms(1,2,5) that by (cases "x = a") (auto simp: forest_ok_def blocks_ok_def)
  then have "blocks_ok (f\<lparr>store := (store f)[a := c]\<rparr>)" by (simp add: blocks_ok_def)
  with assms(1) show ?thesis
    by (simp add: forest_ok_def ids_ok_def levels_ok_def lists_ok_def i l)
qed

definition fresh_container :: "LevelledForest \<Rightarrow> Identifier \<Rightarrow> nat \<Rightarrow> LevelledForest" where
  "fresh_container f x level =
     f\<lparr>store := store f @ [\<lparr>vcId = x, vcLevel = level, vcChildren = [], vcVertex = None\<rparr>],
       vertices := (vertices f)(x \<mapsto> length (store f)),
       verticesAtLevel := (verticesAtLevel f)(level := verticesAtLevel f level @ [length (store f)])\<rparr>"

lemma getOrCreate_cases:
  assumes "getOrCreateVertexContainer f x level = (a, f')"
  obtains (old) "vertices f x = Some a" and "f' = f"
  | (new) "vertices f x = None" and "a = length (store f)" and "f' = fresh_container f x level"
  using assms
  by (auto simp: getOrCreateVertexContainer_def fresh_container_def Let_def split: option.splits)

lemma fresh_container_ok:
  assumes ok: "forest_ok f" and "vertices f x = None" and "LowestLevel f \<le> level"
  shows "forest_ok (fresh_container f x level)"
proof -
  let ?f = "fresh_container f x level"
  have old: "a < length (store f) \<Longrightarrow> store ?f ! a = store f ! a" for a
    by (simp add: fresh_container_def nth_append)
  have bnd: "vertices f y = Some a \<Longrightarrow> a < length (store f)"
    "a \<in> set (verticesAtLevel f l) \<Longrightarrow> a < length (store f)" for y a l
    using ok by (auto simp: forest_ok_def ids_ok_def levels_ok_def)
  then have fresh: "length (store f) \<notin> set (verticesAtLevel f l)" for l by blast
  have "ids_ok ?f" unfolding ids_ok_def
  proof (intro allI impI)
    fix y a assume y: "vertices ?f y = Some a"
    show "a < length (store ?f) \<and> vcId (store ?f ! a) = y \<and>
        a \<in> set (verticesAtLevel ?f (vcLevel (store ?f ! a)))"
    proof (cases "y = x")
      case True
      with y have "a = length (store f)" by (simp add: fresh_container_def)
      with True show ?thesis by (simp add: fresh_container_def)
    next
      case False
      with y have "vertices f y = Some a" by (simp add: fresh_container_def)
      with bnd(1) old ok show ?thesis
        by (auto simp: forest_ok_def ids_ok_def fresh_container_def less_Suc_eq)
    qed
  qed
  moreover have "levels_ok ?f" unfolding levels_ok_def
  proof (intro allI impI)
    fix l a assume a: "a \<in> set (verticesAtLevel ?f l)"
    show "a < length (store ?f) \<and> vcLevel (store ?f ! a) = l \<and> vertices ?f (vcId (store ?f ! a)) = Some a"
    proof (cases "a = length (store f)")
      case True
      with a fresh have "l = level" by (auto simp: fresh_container_def split: if_splits)
      with True show ?thesis by (simp add: fresh_container_def)
    next
      case False
      with a have "a \<in> set (verticesAtLevel f l)" by (auto simp: fresh_container_def split: if_splits)
      then have "a < length (store f)" "vcLevel (store f ! a) = l" "vertices f (vcId (store f ! a)) = Some a"
        using ok by (auto simp: forest_ok_def levels_ok_def)
      with old assms(2) show ?thesis by (auto simp: fresh_container_def)
    qed
  qed
  moreover have "lists_ok ?f"
    using ok assms(3) fresh by (auto simp: forest_ok_def lists_ok_def fresh_container_def)
  moreover have "blocks_ok ?f"
    using ok by (auto simp: forest_ok_def blocks_ok_def fresh_container_def nth_append less_Suc_eq)
  ultimately show ?thesis by (simp add: forest_ok_def)
qed

lemma getOrCreate_facts:
  assumes ok: "forest_ok f" and lev: "LowestLevel f \<le> level"
    and get: "getOrCreateVertexContainer f x level = (a, f')"
  shows "forest_ok f'" and "a < length (store f')" and "vertices f' x = Some a"
    and "vcId (store f' ! a) = x" and "LowestLevel f' = LowestLevel f"
    and "GetVertex f' = GetVertex f" and "vcVertex (store f' ! a) = GetVertex f x"
proof -
  have bnd: "vertices f y = Some c \<Longrightarrow> c < length (store f) \<and> vcId (store f ! c) = y" for y c
    using ok by (auto simp: forest_ok_def ids_ok_def)
  show "forest_ok f'" using get
    by (cases rule: getOrCreate_cases) (auto simp: ok lev fresh_container_ok)
  show "a < length (store f')" "vertices f' x = Some a" "vcId (store f' ! a) = x"
    "LowestLevel f' = LowestLevel f" "vcVertex (store f' ! a) = GetVertex f x"
    using get by (cases rule: getOrCreate_cases; simp add: bnd fresh_container_def GetVertex_alt)+
  show "GetVertex f' = GetVertex f"
    using get
  proof (cases rule: getOrCreate_cases)
    case new
    show ?thesis
    proof
      fix y show "GetVertex f' y = GetVertex f y"
        using new bnd by (auto simp: GetVertex_alt fresh_container_def nth_append split: option.splits)
    qed
  qed simp
qed

lemma set_vertex_facts:
  assumes "forest_ok f" and "a < length (store f)" and "vcId (store f ! a) = blkID b"
    and "vertices f (blkID b) = Some a"
  shows "forest_ok (set_vertex f a b)"
    and "GetVertex (set_vertex f a b) = (GetVertex f)(blkID b \<mapsto> b)"
    and "LowestLevel (set_vertex f a b) = LowestLevel f"
    and "length (store (set_vertex f a b)) = length (store f)"
proof -
  show "forest_ok (set_vertex f a b)"
    using assms unfolding set_vertex_def by (intro forest_ok_store_update) auto
  show "GetVertex (set_vertex f a b) = (GetVertex f)(blkID b \<mapsto> b)"
  proof
    fix y
    show "GetVertex (set_vertex f a b) y = ((GetVertex f)(blkID b \<mapsto> b)) y"
    proof (cases "y = blkID b")
      case True
      with assms(2,4) show ?thesis by (simp add: GetVertex_alt set_vertex_def)
    next
      case False
      then have "vertices f y \<noteq> Some a" using assms(1,3) by (auto simp: forest_ok_def ids_ok_def)
      with False show ?thesis by (auto simp: GetVertex_alt set_vertex_def split: option.split)
    qed
  qed
qed (simp_all add: set_vertex_def)

lemma add_child_facts:
  assumes "forest_ok f" and "p < length (store f)"
  shows "forest_ok (add_child f p a)" and "GetVertex (add_child f p a) = GetVertex f"
    and "LowestLevel (add_child f p a) = LowestLevel f"
proof -
  show "forest_ok (add_child f p a)"
    using assms unfolding add_child_def
    by (intro forest_ok_store_update) (auto simp: forest_ok_def blocks_ok_def)
  show "GetVertex (add_child f p a) = GetVertex f"
  proof
    fix y show "GetVertex (add_child f p a) y = GetVertex f y"
      using assms(2) by (simp add: GetVertex_alt add_child_def nth_list_update split: option.split)
  qed
qed (simp add: add_child_def)

lemma registerWithParent_facts:
  assumes ok: "forest_ok f" and r: "registerWithParent f a = Some f'"
  shows "forest_ok f' \<and> GetVertex f' = GetVertex f \<and> LowestLevel f' = LowestLevel f"
proof (cases "vcLevel (store f ! a) \<le> LowestLevel f")
  case True
  with assms show ?thesis by (simp add: registerWithParent_def)
next
  case False
  then obtain b pid pv where b: "vcVertex (store f ! a) = Some b" "Parent b = Some (pid, pv)"
    and r': "(if pv < LowestLevel f then Some f
        else (case getOrCreateVertexContainer f pid pv of (p, f1) \<Rightarrow> Some (add_child f1 p a))) = Some f'"
    using r by (auto simp: registerWithParent_def bind_Some_conv)
  show ?thesis
  proof (cases "pv < LowestLevel f")
    case True
    with ok r' show ?thesis by simp
  next
    case False
    obtain p f1 where g: "getOrCreateVertexContainer f pid pv = (p, f1)" by force
    have "LowestLevel f \<le> pv" using False by simp
    note G = getOrCreate_facts [OF ok this g]
    from r' False g have "f' = add_child f1 p a" by simp
    then show ?thesis using add_child_facts [OF G(1,2)] G(5,6) by simp
  qed
qed

text \<open>Insertion as an operation on the map of known blocks: the first block of an identifier stays.\<close>

lemma AddVertex_facts:
  assumes ok: "forest_ok f" and add: "AddVertex f b = Some f'"
  shows "forest_ok f' \<and> LowestLevel f' = LowestLevel f \<and>
    GetVertex f' = (if Level b < LowestLevel f \<or> GetVertex f (blkID b) \<noteq> None then GetVertex f
                    else (GetVertex f)(blkID b \<mapsto> b))"
proof (cases "Level b < LowestLevel f")
  case True
  with assms show ?thesis by (simp add: AddVertex_def)
next
  case False
  obtain a f1 where g: "getOrCreateVertexContainer f (blkID b) (Level b) = (a, f1)" by force
  have "LowestLevel f \<le> Level b" using False by simp
  note G = getOrCreate_facts [OF ok this g]
  show ?thesis
  proof (cases "GetVertex f (blkID b)")
    case (Some c)
    with add False g G(7) have "f' = f1"
      by (auto simp: AddVertex_def VertexID_def isEmptyContainer_def)
    with Some False G show ?thesis by auto
  next
    case None
    with add False g G(7) have r: "registerWithParent (set_vertex f1 a b) a = Some f'"
      by (auto simp: AddVertex_def VertexID_def isEmptyContainer_def)
    note S = set_vertex_facts [OF G(1,2,4,3)]
    with registerWithParent_facts [OF S(1) r] None False G(5,6) show ?thesis by simp
  qed
qed

subsection \<open>Pruning preserves it\<close>

definition level_blocks :: "LevelledForest \<Rightarrow> nat \<Rightarrow> Block list" where
  "level_blocks f m = List.map_filter (\<lambda>a. vcVertex (store f ! a)) (verticesAtLevel f m)"

definition level_forks :: "LevelledForest \<Rightarrow> nat set \<Rightarrow> nat \<Rightarrow> Block list" where
  "level_forks f com m = (if m \<notin> com \<and> 1 < m then level_blocks f m else [])"

definition at_levels :: "LevelledForest \<Rightarrow> nat set \<Rightarrow> Identifier set" where
  "at_levels f ls = {vcId (store f ! a) | a m. m \<in> ls \<and> a \<in> set (verticesAtLevel f m)}"

lemma restrict_drop: "(\<lambda>b. if b = k then None else m b) |` (- S) = m |` (- insert k S)"
  by (auto simp: restrict_map_def fun_eq_iff)

lemma restrict_twice: "(m |` (- S)) |` (- T) = m |` (- (S \<union> T))"
  by (auto simp: restrict_map_def fun_eq_iff)

definition container_ids :: "LevelledForest \<Rightarrow> nat list \<Rightarrow> Identifier set" where
  "container_ids f as = (\<lambda>a. vcId (store f ! a)) ` set as"

lemma prune_level_eq:
  "prune_level com l as f forked n =
    (f\<lparr>vertices := vertices f |` (- container_ids f as)\<rparr>,
     forked @ (if l \<notin> com \<and> 1 < l then List.map_filter (\<lambda>a. vcVertex (store f ! a)) as else []),
     n + int (length as))"
proof (induction as arbitrary: f forked n)
  case Nil
  then show ?case by (simp add: map_filter_simps container_ids_def)
next
  case (Cons a as)
  then show ?case
    by (simp add: Let_def map_filter_simps fun_upd_def restrict_drop container_ids_def split: option.split)
qed

text \<open>Emptying a range of levels.\<close>

definition drop_levels :: "LevelledForest \<Rightarrow> nat \<Rightarrow> nat \<Rightarrow> LevelledForest" where
  "drop_levels f l m =
     f\<lparr>vertices := vertices f |` (- at_levels f {l ..< m}),
       verticesAtLevel := (\<lambda>i. if l \<le> i \<and> i < m then [] else verticesAtLevel f i)\<rparr>"

lemma drop_levels_none [simp]: "drop_levels f l l = f"
proof -
  have "(\<lambda>i. if l \<le> i \<and> i < l then [] else verticesAtLevel f i) = verticesAtLevel f"
    by (auto simp: fun_eq_iff)
  moreover have "vertices f |` UNIV = vertices f" by (simp add: restrict_map_def)
  ultimately show ?thesis by (simp add: drop_levels_def at_levels_def)
qed

lemma drop_levels_step:
  assumes "l < m"
  shows "drop_levels (f\<lparr>vertices := vertices f |` (- container_ids f (verticesAtLevel f l)),
      verticesAtLevel := (verticesAtLevel f)(l := [])\<rparr>) (Suc l) m = drop_levels f l m"
proof -
  let ?g = "f\<lparr>vertices := vertices f |` (- container_ids f (verticesAtLevel f l)),
      verticesAtLevel := (verticesAtLevel f)(l := [])\<rparr>"
  have "{l ..< m} = insert l {Suc l ..< m}" using assms by auto
  then have "at_levels f {l ..< m} = container_ids f (verticesAtLevel f l) \<union> at_levels f {Suc l ..< m}"
    by (auto simp: at_levels_def container_ids_def)
  moreover have "at_levels ?g {Suc l ..< m} = at_levels f {Suc l ..< m}"
  proof -
    have "verticesAtLevel ?g i = verticesAtLevel f i" if "i \<in> {Suc l ..< m}" for i using that by auto
    then show ?thesis unfolding at_levels_def by (auto cong: conj_cong)
  qed
  moreover have "(\<lambda>i. if Suc l \<le> i \<and> i < m then [] else verticesAtLevel ?g i) =
      (\<lambda>i. if l \<le> i \<and> i < m then [] else verticesAtLevel f i)"
    using assms by (auto simp: fun_eq_iff)
  ultimately show ?thesis by (simp add: drop_levels_def restrict_twice)
qed

lemma prune_levels_eq:
  "prune_levels com l k f forked n =
    (drop_levels f l (l + k), forked @ concat (map (level_forks f com) [l ..< l + k]),
     n + (\<Sum>m\<leftarrow>[l ..< l + k]. int (length (verticesAtLevel f m))))"
proof (induction k arbitrary: l f forked n)
  case 0
  then show ?case by simp
next
  case (Suc k)
  define g where "g = f\<lparr>vertices := vertices f |` (- container_ids f (verticesAtLevel f l)),
      verticesAtLevel := (verticesAtLevel f)(l := [])\<rparr>"
  have step: "prune_levels com l (Suc k) f forked n =
      prune_levels com (Suc l) k g (forked @ level_forks f com l) (n + int (length (verticesAtLevel f l)))"
    by (simp add: prune_level_eq g_def level_forks_def level_blocks_def)
  have "map (level_forks g com) [Suc l ..< Suc l + k] = map (level_forks f com) [Suc l ..< Suc l + k]"
    "map (\<lambda>m. int (length (verticesAtLevel g m))) [Suc l ..< Suc l + k] =
      map (\<lambda>m. int (length (verticesAtLevel f m))) [Suc l ..< Suc l + k]"
    by (auto simp: level_forks_def level_blocks_def g_def)
  moreover have "[l ..< l + Suc k] = l # [Suc l ..< Suc l + k]" by (simp add: upt_conv_Cons)
  moreover have "drop_levels g (Suc l) (Suc l + k) = drop_levels f l (l + Suc k)"
    using drop_levels_step [of l "l + Suc k" f] by (simp add: g_def)
  ultimately show ?case unfolding step Suc.IH by (simp only: concat.simps list.map sum_list.Cons append_assoc add.assoc)
qed

text \<open>Under the invariant, the identifiers of a range of levels are those of its containers.\<close>

lemma at_levels_iff:
  assumes "forest_ok f"
  shows "x \<in> at_levels f ls \<longleftrightarrow> (\<exists>a. vertices f x = Some a \<and> vcLevel (store f ! a) \<in> ls)"
proof -
  have i: "\<And>a. vertices f x = Some a \<Longrightarrow>
      vcId (store f ! a) = x \<and> a \<in> set (verticesAtLevel f (vcLevel (store f ! a)))"
    and l: "\<And>l a. a \<in> set (verticesAtLevel f l) \<Longrightarrow>
      vcLevel (store f ! a) = l \<and> vertices f (vcId (store f ! a)) = Some a"
    using assms by (simp_all add: forest_ok_def ids_ok_def levels_ok_def)
  show ?thesis
  proof
    assume "x \<in> at_levels f ls"
    then obtain a m where "m \<in> ls" "a \<in> set (verticesAtLevel f m)" "x = vcId (store f ! a)"
      by (auto simp: at_levels_def)
    with l [of a m] show "\<exists>a. vertices f x = Some a \<and> vcLevel (store f ! a) \<in> ls" by auto
  next
    assume "\<exists>a. vertices f x = Some a \<and> vcLevel (store f ! a) \<in> ls"
    then obtain a where a: "vertices f x = Some a" "vcLevel (store f ! a) \<in> ls" by blast
    with i [OF a(1)] show "x \<in> at_levels f ls" unfolding at_levels_def by blast
  qed
qed

lemma container_level_ge:
  assumes "forest_ok f" and "vertices f x = Some a"
  shows "LowestLevel f \<le> vcLevel (store f ! a)"
proof (rule ccontr)
  assume "\<not> ?thesis"
  then have "verticesAtLevel f (vcLevel (store f ! a)) = []"
    using assms(1) by (simp add: forest_ok_def lists_ok_def)
  then show False using assms by (fastforce simp: forest_ok_def ids_ok_def)
qed

definition pruned :: "LevelledForest \<Rightarrow> nat \<Rightarrow> LevelledForest" where
  "pruned f level = (drop_levels f (LowestLevel f) level)\<lparr>LowestLevel := level\<rparr>"

lemma PruneUpToLevel_eq:
  "LowestLevel f \<le> level \<Longrightarrow> PruneUpToLevel f level =
    (case committed_levels f level {} of
       None \<Rightarrow> None
     | Some com \<Rightarrow>
         Some ((concat (map (level_forks f com) [LowestLevel f ..< level]),
                (\<Sum>m\<leftarrow>[LowestLevel f ..< level]. int (length (verticesAtLevel f m))), None), pruned f level))"
  by (simp add: PruneUpToLevel_def prune_levels_eq pruned_def split: option.split)

lemma vertices_pruned:
  assumes "forest_ok f"
  shows "vertices (pruned f level) x =
    (case vertices f x of None \<Rightarrow> None
     | Some a \<Rightarrow> if vcLevel (store f ! a) < level then None else Some a)"
  using container_level_ge [OF assms, of x]
  by (auto simp: pruned_def drop_levels_def restrict_map_def at_levels_iff [OF assms] split: option.split)

lemma forest_ok_pruned:
  assumes ok: "forest_ok f" and lev: "LowestLevel f \<le> level"
  shows "forest_ok (pruned f level)"
proof -
  have st: "store (pruned f level) = store f" by (simp add: pruned_def drop_levels_def)
  have vl: "verticesAtLevel (pruned f level) m = (if m < level then [] else verticesAtLevel f m)" for m
    using ok lev by (auto simp: pruned_def drop_levels_def forest_ok_def lists_ok_def not_le)
  have "ids_ok (pruned f level)"
    using ok by (auto simp: ids_ok_def forest_ok_def st vl vertices_pruned [OF ok] split: option.splits if_splits)
  moreover have "levels_ok (pruned f level)"
    using ok by (auto simp: levels_ok_def forest_ok_def st vl vertices_pruned [OF ok] split: if_splits)
  moreover have "lists_ok (pruned f level)"
    using ok by (auto simp: lists_ok_def forest_ok_def vl) (simp add: pruned_def)
  moreover have "blocks_ok (pruned f level)"
    using ok by (simp add: blocks_ok_def forest_ok_def st)
  ultimately show ?thesis by (simp add: forest_ok_def)
qed

lemma GetVertex_pruned:
  assumes "forest_ok f"
  shows "GetVertex (pruned f level) x =
    (case vertices f x of None \<Rightarrow> None
     | Some a \<Rightarrow> if vcLevel (store f ! a) < level then None else vcVertex (store f ! a))"
proof -
  have "store (pruned f level) = store f" by (simp add: pruned_def drop_levels_def)
  then show ?thesis by (simp add: GetVertex_alt vertices_pruned [OF assms] split: option.split)
qed

lemma PruneUpToLevel_ok:
  assumes "forest_ok f" and "PruneUpToLevel f level = Some (r, f')"
  shows "forest_ok f' \<and> LowestLevel f' = max (LowestLevel f) level \<and> (\<forall>x. GetVertex f' x = None \<or> GetVertex f' x = GetVertex f x)"
proof (cases "level < LowestLevel f")
  case True
  with assms show ?thesis by (simp add: PruneUpToLevel_def)
next
  case False
  then have lev: "LowestLevel f \<le> level" by simp
  with assms(2) have "f' = pruned f level" by (simp add: PruneUpToLevel_eq split: option.splits)
  then show ?thesis
    using forest_ok_pruned [OF assms(1) lev] GetVertex_pruned [OF assms(1)] lev
    by (auto simp: GetVertex_alt [of f] pruned_def split: option.split)
qed

section \<open>The interface to the block chain\<close>

text \<open>
  What a client relies on: lookups after an insertion and after a prune.  The lemma proved in the
  interface is the one the client needs: what is known after any sequence of insertions.
\<close>

locale vertex_store =
  fixes lookup :: "'s \<Rightarrow> Identifier \<Rightarrow> Block option"
    and lowest :: "'s \<Rightarrow> nat"
    and insert_vertex :: "'s \<Rightarrow> Block \<Rightarrow> 's option"
    and prune :: "'s \<Rightarrow> nat \<Rightarrow> ('r \<times> 's) option"
    and ok :: "'s \<Rightarrow> bool"
  assumes insert_ok: "ok s \<Longrightarrow> insert_vertex s b = Some s' \<Longrightarrow> ok s'"
    and insert_lowest: "ok s \<Longrightarrow> insert_vertex s b = Some s' \<Longrightarrow> lowest s' = lowest s"
    and insert_lookup: "ok s \<Longrightarrow> insert_vertex s b = Some s' \<Longrightarrow> lookup s' =
      (if Level b < lowest s \<or> lookup s (blkID b) \<noteq> None then lookup s else (lookup s)(blkID b \<mapsto> b))"
    and lookup_id: "ok s \<Longrightarrow> lookup s x = Some b \<Longrightarrow> blkID b = x"
    and prune_ok: "ok s \<Longrightarrow> prune s l = Some (r, s') \<Longrightarrow> ok s'"
    and prune_lowest: "ok s \<Longrightarrow> prune s l = Some (r, s') \<Longrightarrow> lowest s' = max (lowest s) l"
    and prune_lookup: "ok s \<Longrightarrow> prune s l = Some (r, s') \<Longrightarrow> lookup s' x = None \<or> lookup s' x = lookup s x"
begin

fun insert_all :: "'s \<Rightarrow> Block list \<Rightarrow> 's option" where
  "insert_all s [] = Some s"
| "insert_all s (b # bs) = do { s1 \<leftarrow> insert_vertex s b; insert_all s1 bs }"

text \<open>The first block of an identifier at or above the lowest level is the one that is kept.\<close>

lemma insert_all_lookup:
  "ok s \<Longrightarrow> insert_all s bs = Some s' \<Longrightarrow> ok s' \<and> lowest s' = lowest s \<and>
    lookup s' x = (case lookup s x of
        Some b \<Rightarrow> Some b
      | None \<Rightarrow> List.find (\<lambda>b. blkID b = x \<and> lowest s \<le> Level b) bs)"
proof (induction bs arbitrary: s)
  case Nil
  then show ?case by (simp split: option.split)
next
  case (Cons b bs)
  then obtain s1 where s1: "insert_vertex s b = Some s1" "insert_all s1 bs = Some s'"
    by (auto simp: bind_Some_conv)
  from Cons.IH [OF insert_ok [OF Cons.prems(1) s1(1)] s1(2)]
  show ?case
    using insert_lookup [OF Cons.prems(1) s1(1)] insert_lowest [OF Cons.prems(1) s1(1)]
    by (auto split: option.splits)
qed

lemma known_sources:
  assumes "ok s" and "insert_vertex s b = Some s'" and "lookup s' x = Some c"
  shows "lookup s x = Some c \<or> c = b"
  using insert_lookup [OF assms(1,2)] assms(3) by (auto split: if_splits)

end

interpretation lf: vertex_store GetVertex LowestLevel AddVertex PruneUpToLevel forest_ok
  by unfold_locales (auto dest: AddVertex_facts GetVertex_id PruneUpToLevel_ok)

section \<open>Iterating over vertices\<close>

text \<open>The loop of every client of an iterator.\<close>

function iterate :: "LevelledForest \<Rightarrow> VertexIterator \<Rightarrow> Block list" where
  "iterate f it =
     (if HasNext it then
        (case NextVertex f it of (v, it1) \<Rightarrow> (case v of None \<Rightarrow> [] | Some b \<Rightarrow> b # iterate f it1))
      else [])"
  by pat_completeness auto

lemma preLoad_measure:
  assumes "itNext it \<noteq> None"
  shows "length (itData (preLoad f it)) - itIdx (preLoad f it) + (if itNext (preLoad f it) = None then 0 else 1)
    < length (itData it) - itIdx it + 1"
proof -
  have "itData (preLoad f it) = itData it \<and>
    (if itNext (preLoad f it) = None then itIdx it \<le> itIdx (preLoad f it)
     else itIdx it < itIdx (preLoad f it) \<and> itIdx (preLoad f it) \<le> length (itData it))" for it
  proof (induction f it rule: preLoad.induct)
    case (1 f it)
    show ?case
    proof (cases "itIdx it < length (itData it)")
      case True
      show ?thesis
      proof (cases "vcVertex (store f ! (itData it ! itIdx it))")
        case None
        with True "1" [OF True refl refl] show ?thesis
          by (simp add: preLoad.simps [of f it] Let_def split: if_splits)
      next
        case (Some b)
        with True show ?thesis by (simp add: preLoad.simps [of f it] Let_def)
      qed
    next
      case False
      then show ?thesis by (simp add: preLoad.simps [of f it])
    qed
  qed
  from this [of it] show ?thesis by (auto split: if_splits)
qed

termination iterate
  by (relation "measure (\<lambda>(f, it). length (itData it) - itIdx it + (if itNext it = None then 0 else 1))")
     (use preLoad_measure in \<open>auto simp: HasNext_def NextVertex_def\<close>)

declare iterate.simps [simp del]

definition full_vertices :: "LevelledForest \<Rightarrow> nat list \<Rightarrow> Block list" where
  "full_vertices f as = List.map_filter (\<lambda>a. vcVertex (store f ! a)) as"

lemma iterate_preLoad:
  "iterate f (preLoad f it) = full_vertices f (drop (itIdx it) (itData it))"
proof (induction "length (itData it) - itIdx it" arbitrary: it rule: less_induct)
  case less
  show ?case
  proof (cases "itIdx it < length (itData it)")
    case False
    then show ?thesis
      by (simp add: preLoad.simps [of f it] iterate.simps HasNext_def full_vertices_def map_filter_simps)
  next
    case True
    let ?it = "it\<lparr>itIdx := itIdx it + 1\<rparr>"
    let ?a = "itData it ! itIdx it"
    have d: "drop (itIdx it) (itData it) = ?a # drop (itIdx it + 1) (itData it)"
      using True by (simp add: Cons_nth_drop_Suc)
    have IH: "iterate f (preLoad f (?it\<lparr>itNext := v\<rparr>)) = full_vertices f (drop (itIdx it + 1) (itData it))" for v
      using less.hyps [of "?it\<lparr>itNext := v\<rparr>"] True by simp
    show ?thesis
    proof (cases "vcVertex (store f ! ?a)")
      case None
      with True have "preLoad f it = preLoad f (?it\<lparr>itNext := itNext it\<rparr>)"
        by (simp add: preLoad.simps [of f it])
      with IH [of "itNext it"] None d show ?thesis by (simp add: full_vertices_def map_filter_simps)
    next
      case (Some b)
      with True have "preLoad f it = ?it\<lparr>itNext := Some b\<rparr>"
        by (simp add: preLoad.simps [of f it] Let_def)
      with IH [of "Some b"] Some d show ?thesis
        by (simp add: iterate.simps [of f "it\<lparr>itIdx := Suc (itIdx it), itNext := Some b\<rparr>"] HasNext_def NextVertex_def
            full_vertices_def map_filter_simps)
    qed
  qed
qed

lemma iterate_new: "iterate f (newVertexIterator f as) = full_vertices f as"
  by (simp add: newVertexIterator_def iterate_preLoad)

lemma count_full_eq: "count_full f as = length (full_vertices f as)"
  by (induction as) (auto simp: full_vertices_def map_filter_simps)

end
