(* ===== verification/Collector.thy ===== *)
theory Collector
  imports Prelude
begin

text \<open>
  The contract shared by the vote quorum and the timeout controller: messages are filed under a
  key and a sender, and a certificate is announced when the senders of a key exceed two thirds of
  the network.  The interface is a locale; its two interpretations are in the theories of the
  providers.  The lemmas describe any run of additions by the senders seen so far only.
\<close>

definition threshold :: "int \<Rightarrow> int" where
  "threshold n = go_quot (n * 2) 3"

text \<open>Senders of key \<open>k\<close> in a sequence of messages.\<close>

definition senders :: "('m \<Rightarrow> 'k) \<Rightarrow> ('m \<Rightarrow> 'n) \<Rightarrow> 'k \<Rightarrow> 'm list \<Rightarrow> 'n set" where
  "senders key_of sender_of k ms = sender_of ` {m \<in> set ms. key_of m = k}"

lemma senders_Nil [simp]: "senders key_of sender_of k [] = {}"
  by (simp add: senders_def)

lemma senders_snoc:
  "senders key_of sender_of k (ms @ [m]) =
    (if key_of m = k then insert (sender_of m) (senders key_of sender_of k ms)
     else senders key_of sender_of k ms)"
  by (auto simp: senders_def)

lemma senders_Cons:
  "senders key_of sender_of k (m # ms) =
    (if key_of m = k then insert (sender_of m) (senders key_of sender_of k ms)
     else senders key_of sender_of k ms)"
  by (auto simp: senders_def)

lemma finite_senders [simp]: "finite (senders key_of sender_of k ms)"
  by (simp add: senders_def)

lemma senders_mono: "set ms \<subseteq> set ms' \<Longrightarrow> senders key_of sender_of k ms \<subseteq> senders key_of sender_of k ms'"
  by (auto simp: senders_def)

locale threshold_collector =
  fixes table :: "'s \<Rightarrow> 'k \<Rightarrow> ('n \<rightharpoonup> 'm)"
    and net_size :: "'s \<Rightarrow> int"
    and key_of :: "'m \<Rightarrow> 'k"
    and sender_of :: "'m \<Rightarrow> 'n"
    and add :: "'s \<Rightarrow> 'm \<Rightarrow> bool \<times> 's"
  assumes add_size: "net_size (snd (add s m)) = net_size s"
    and add_full: "int (maplen (table s (key_of m))) > threshold (net_size s) \<Longrightarrow> add s m = (False, s)"
    and add_table: "\<not> int (maplen (table s (key_of m))) > threshold (net_size s) \<Longrightarrow>
      table (snd (add s m)) =
        (table s)(key_of m := (table s (key_of m))(sender_of m \<mapsto> m))"
    and add_answer: "\<not> int (maplen (table s (key_of m))) > threshold (net_size s) \<Longrightarrow>
      fst (add s m) \<longleftrightarrow>
        int (maplen ((table s (key_of m))(sender_of m \<mapsto> m))) > threshold (net_size s)"
begin

fun run :: "'s \<Rightarrow> 'm list \<Rightarrow> bool list \<times> 's" where
  "run s [] = ([], s)"
| "run s (m # ms) = (let (b, s1) = add s m; (bs, s2) = run s1 ms in (b # bs, s2))"

lemma run_append:
  "run s (ms @ ms') = (fst (run s ms) @ fst (run (snd (run s ms)) ms'), snd (run (snd (run s ms)) ms'))"
  by (induction ms arbitrary: s) (auto simp: Let_def case_prod_beta)

lemma run_snoc: "run s (ms @ [m]) = (fst (run s ms) @ [fst (add (snd (run s ms)) m)], snd (add (snd (run s ms)) m))"
  by (simp add: run_append Let_def case_prod_beta)

lemma length_run: "length (fst (run s ms)) = length ms"
  by (induction ms arbitrary: s) (auto simp: Let_def case_prod_beta)

lemma run_size: "net_size (snd (run s ms)) = net_size s"
  by (induction ms arbitrary: s) (auto simp: Let_def case_prod_beta add_size)

text \<open>The table of a key during a run, compared with the senders seen.\<close>

definition tracks_key :: "'s \<Rightarrow> 'm list \<Rightarrow> 'k \<Rightarrow> bool" where
  "tracks_key s ms k \<longleftrightarrow> dom (table s k) \<subseteq> senders key_of sender_of k ms \<and>
     (\<forall>v m. table s k v = Some m \<longrightarrow> m \<in> set ms \<and> key_of m = k \<and> sender_of m = v) \<and>
     (if int (card (senders key_of sender_of k ms)) \<le> threshold (net_size s)
      then dom (table s k) = senders key_of sender_of k ms
      else int (maplen (table s k)) > threshold (net_size s))"

definition tracks :: "'s \<Rightarrow> 'm list \<Rightarrow> bool" where
  "tracks s ms \<longleftrightarrow> (\<forall>k. tracks_key s ms k)"

lemma tracks_full_iff:
  assumes "tracks s ms"
  shows "int (maplen (table s k)) > threshold (net_size s) \<longleftrightarrow>
    int (card (senders key_of sender_of k ms)) > threshold (net_size s)"
proof -
  have "tracks_key s ms k" using assms by (simp add: tracks_def)
  then show ?thesis by (simp add: tracks_key_def maplen_def not_le split: if_splits)
qed

lemma tracks_key_same:
  assumes t: "tracks_key s ms k" and "table s' k = table s k" and "net_size s' = net_size s"
    and "key_of m \<noteq> k \<or> int (maplen (table s k)) > threshold (net_size s)"
  shows "tracks_key s' (ms @ [m]) k"
proof (cases "key_of m = k")
  case False
  with assms show ?thesis by (simp add: tracks_key_def senders_snoc)
next
  case True
  let ?S = "senders key_of sender_of k ms" and ?S' = "senders key_of sender_of k (ms @ [m])"
  have "?S \<subseteq> ?S'" by (intro senders_mono) auto
  moreover from this have "card ?S \<le> card ?S'" by (intro card_mono) auto
  moreover have "int (maplen (table s k)) > threshold (net_size s)" using assms(4) True by simp
  moreover from this have "\<not> int (card ?S) \<le> threshold (net_size s)"
    using t by (simp add: tracks_key_def maplen_def split: if_splits)
  ultimately show ?thesis using t assms(2,3) unfolding tracks_key_def by auto
qed

lemma tracks_key_record:
  assumes t: "tracks_key s ms k" and "key_of m = k" and "net_size s' = net_size s"
    and "\<not> int (maplen (table s k)) > threshold (net_size s)"
    and tab: "table s' k = (table s k)(sender_of m \<mapsto> m)"
  shows "tracks_key s' (ms @ [m]) k"
proof -
  have "dom (table s k) = senders key_of sender_of k ms"
    using t assms(4) by (simp add: tracks_key_def split: if_splits)
  then have d: "dom (table s' k) = senders key_of sender_of k (ms @ [m])"
    using tab assms(2) by (simp add: senders_snoc)
  moreover have "\<forall>v m'. table s' k v = Some m' \<longrightarrow> m' \<in> set (ms @ [m]) \<and> key_of m' = k \<and> sender_of m' = v"
    using t tab assms(2) by (auto simp: tracks_key_def)
  ultimately show ?thesis by (simp add: tracks_key_def maplen_def)
qed

lemma tracks_add:
  assumes t: "tracks s ms"
  shows "tracks (snd (add s m)) (ms @ [m])"
  unfolding tracks_def
proof
  fix k
  have tk: "tracks_key s ms k" using t by (simp add: tracks_def)
  show "tracks_key (snd (add s m)) (ms @ [m]) k"
  proof (cases "int (maplen (table s (key_of m))) > threshold (net_size s)")
    case True
    then show ?thesis using add_full [OF True] by (intro tracks_key_same [OF tk]) auto
  next
    case False
    show ?thesis
    proof (cases "key_of m = k")
      case True
      with False show ?thesis
        by (intro tracks_key_record [OF tk]) (simp_all add: add_size add_table)
    next
      case k: False
      with False show ?thesis
        by (intro tracks_key_same [OF tk]) (simp_all add: add_size add_table)
    qed
  qed
qed

lemma tracks_run: "(\<And>k. table s k = Map.empty) \<Longrightarrow> tracks (snd (run s ms)) ms \<or> threshold (net_size s) < 0"
proof (induction ms rule: rev_induct)
  case Nil
  then show ?case by (auto simp: tracks_def tracks_key_def)
next
  case (snoc m ms)
  then show ?case using tracks_add by (auto simp: run_snoc)
qed

text \<open>
  Answer number \<open>i\<close> of a run from empty tables: it announces a certificate exactly when message
  \<open>i\<close> brings the senders of its key above the threshold.
\<close>

lemma run_nth:
  assumes empty: "\<And>k. table s k = Map.empty" and thr: "0 \<le> threshold (net_size s)" and i: "i < length ms"
  shows "fst (run s ms) ! i \<longleftrightarrow>
    int (card (senders key_of sender_of (key_of (ms ! i)) (take i ms))) \<le> threshold (net_size s) \<and>
    int (card (senders key_of sender_of (key_of (ms ! i)) (take (Suc i) ms))) > threshold (net_size s)"
proof -
  let ?s = "snd (run s (take i ms))" and ?m = "ms ! i"
  have t: "tracks ?s (take i ms)" using tracks_run [OF empty] thr by force
  have t': "tracks (snd (add ?s ?m)) (take i ms @ [?m])" by (rule tracks_add [OF t])
  have sz: "net_size ?s = net_size s" by (rule run_size)
  have "ms = (take i ms @ [?m]) @ drop (Suc i) ms"
    using i by (simp add: id_take_nth_drop [symmetric])
  then have "fst (run s ms) ! i = (fst (run s (take i ms @ [?m])) @ fst (run (snd (run s (take i ms @ [?m]))) (drop (Suc i) ms))) ! i"
    using run_append [of s "take i ms @ [?m]" "drop (Suc i) ms"] by simp
  also have "\<dots> = fst (add ?s ?m)"
    using i by (simp add: run_snoc nth_append length_run)
  finally have a: "fst (run s ms) ! i = fst (add ?s ?m)" .
  have tk: "take (Suc i) ms = take i ms @ [?m]" using i by (rule take_Suc_conv_app_nth)
  show ?thesis
  proof (cases "int (maplen (table ?s (key_of ?m))) > threshold (net_size ?s)")
    case True
    then show ?thesis using a add_full [OF True] tracks_full_iff [OF t] sz by simp
  next
    case False
    have "fst (add ?s ?m) \<longleftrightarrow> int (maplen (table (snd (add ?s ?m)) (key_of ?m))) > threshold (net_size s)"
      using add_answer [OF False] add_table [OF False] sz by simp
    also have "\<dots> \<longleftrightarrow> int (card (senders key_of sender_of (key_of ?m) (take i ms @ [?m]))) > threshold (net_size s)"
      using tracks_full_iff [OF t'] sz by (simp add: add_size)
    finally show ?thesis using a False tracks_full_iff [OF t] sz by (simp add: tk)
  qed
qed

lemma run_once:
  assumes empty: "\<And>k. table s k = Map.empty" and thr: "0 \<le> threshold (net_size s)"
    and "i < length ms" and "j < length ms" and "fst (run s ms) ! i" and "fst (run s ms) ! j"
    and "key_of (ms ! i) = key_of (ms ! j)"
  shows "i = j"
proof -
  have le: "\<not> (fst (run s ms) ! i \<and> fst (run s ms) ! j)"
    if "i < j" "j < length ms" "key_of (ms ! i) = key_of (ms ! j)" for i j
  proof -
    have "set (take (Suc i) ms) \<subseteq> set (take j ms)" using that(1) by (intro set_take_subset_set_take) simp
    from card_mono [OF finite_senders senders_mono [OF this]]
    have "card (senders key_of sender_of (key_of (ms ! j)) (take (Suc i) ms))
      \<le> card (senders key_of sender_of (key_of (ms ! j)) (take j ms))" .
    then show ?thesis using run_nth [OF empty thr, of i ms] run_nth [OF empty thr, of j ms] that by auto
  qed
  from assms le [of i j] le [of j i] show ?thesis by (metis linorder_neqE_nat)
qed

text \<open>A key whose senders exceed the threshold is announced.\<close>

lemma run_announces:
  assumes empty: "\<And>k. table s k = Map.empty" and thr: "0 \<le> threshold (net_size s)"
  shows "int (card (senders key_of sender_of k ms)) > threshold (net_size s) \<Longrightarrow>
    \<exists>i < length ms. key_of (ms ! i) = k \<and> fst (run s ms) ! i"
proof (induction ms rule: rev_induct)
  case Nil
  with thr show ?case by simp
next
  case (snoc m ms)
  show ?case
  proof (cases "int (card (senders key_of sender_of k ms)) > threshold (net_size s)")
    case True
    with snoc.IH obtain i where "i < length ms" "key_of (ms ! i) = k" "fst (run s ms) ! i" by blast
    then show ?thesis by (intro exI [of _ i]) (auto simp: run_snoc nth_append length_run)
  next
    case False
    with snoc.prems have "key_of m = k" by (auto simp: senders_snoc split: if_splits)
    with False snoc.prems run_nth [OF empty thr, of "length ms" "ms @ [m]"] show ?thesis
      by (intro exI [of _ "length ms"]) auto
  qed
qed

end

section \<open>Quorum intersection\<close>

text \<open>
  Two sender sets above the threshold of a network with fewer than a third of faulty members
  share a member that is not faulty.
\<close>

lemma threshold_nonneg: "0 \<le> n \<Longrightarrow> threshold n = n * 2 div 3"
  by (simp add: threshold_def go_quot_nonneg)

lemma quorum_intersection:
  assumes "finite nodes" and "A \<subseteq> nodes" and "B \<subseteq> nodes" and "F \<subseteq> nodes"
    and "3 * card F < card nodes"
    and "int (card A) > threshold (int (card nodes))" and "int (card B) > threshold (int (card nodes))"
  shows "\<exists>x. x \<in> A \<and> x \<in> B \<and> x \<notin> F"
proof (rule ccontr)
  assume "\<not> ?thesis"
  then have sub: "A \<inter> B \<subseteq> F" by blast
  have fin: "finite A" "finite B" "finite F" using assms(1-4) finite_subset by blast+
  have "card (A \<inter> B) \<le> card F" using sub fin by (intro card_mono) auto
  moreover have "card (A \<union> B) \<le> card nodes" using assms(1-3) by (intro card_mono) auto
  moreover have "card A + card B = card (A \<union> B) + card (A \<inter> B)" using fin by (intro card_Un_Int) auto
  ultimately show False using assms(5-7) by (simp add: threshold_nonneg)
qed

end
