(* ===== verification/Quorum.thy ===== *)
theory Quorum
  imports Block Collector
begin

text \<open>
  Votes, acknowledgements and the vote quorum (src/blockchain/quorum.go).  Votes are filed under
  the block and the voter; the certificate lists the signatures in the order in which the runtime
  ranges over the voters, the argument \<open>rng\<close>.
\<close>

record Vote =
  voteView :: View
  voteVoter :: NodeID
  voteBlockID :: Identifier
  voteTimestamp :: Time
  voteSignature :: Signature

record Stable =
  stAckInGroup :: "NodeID list"
  stAckOutGroup :: "NodeID list"
  stAckNodeList :: "NodeID set"
  stMicroblockID :: Identifier
  stSender :: NodeID
  stGroupId :: int
  stMbCreationTime :: Time
  stTxNums :: int

record Ack =
  ackReceiver :: NodeID
  ackMicroblockID :: Identifier
  ackSignature :: Signature
  ackOutGroup :: bool

record Quorum =
  qTotal :: int
  qVotes :: "Identifier \<rightharpoonup> (NodeID \<rightharpoonup> Vote)"

text \<open>A signing error ends the process: \<open>log.Fatalf\<close> exits.\<close>

definition MakeAck :: "KeyRing \<Rightarrow> NodeID \<Rightarrow> Identifier \<Rightarrow> Ack option" where
  "MakeAck kr receiver x =
     do { (sig, err) \<leftarrow> PrivSign kr (IDToByte x) receiver;
          if err \<noteq> None then None
          else Some \<lparr>ackReceiver = receiver, ackMicroblockID = x, ackSignature = sig, ackOutGroup = False\<rparr> }"

definition MakeVote :: "KeyRing \<Rightarrow> View \<Rightarrow> NodeID \<Rightarrow> Identifier \<Rightarrow> Vote option" where
  "MakeVote kr view voter x =
     do { (sig, err) \<leftarrow> PrivSign kr (IDToByte x) voter;
          if err \<noteq> None then None
          else Some \<lparr>voteView = view, voteVoter = voter, voteBlockID = x, voteTimestamp = 0,
                     voteSignature = sig\<rparr> }"

definition NewQuorum :: "int \<Rightarrow> Quorum" where
  "NewQuorum n = \<lparr>qTotal = n, qVotes = Map.empty\<rparr>"

text \<open>\<open>q.votes[blockID]\<close>: the nil map reads as the empty one.\<close>

definition votes_of :: "Quorum \<Rightarrow> Identifier \<Rightarrow> (NodeID \<rightharpoonup> Vote)" where
  "votes_of q blockID = (case qVotes q blockID of None \<Rightarrow> Map.empty | Some m \<Rightarrow> m)"

definition quorum_size :: "Quorum \<Rightarrow> Identifier \<Rightarrow> int" where
  "quorum_size q blockID = int (maplen (votes_of q blockID))"

definition superMajority :: "Quorum \<Rightarrow> Identifier \<Rightarrow> bool" where
  "superMajority q blockID \<longleftrightarrow> quorum_size q blockID > go_quot (qTotal q * 2) 3"

definition getSigs ::
  "(NodeID set \<Rightarrow> NodeID list) \<Rightarrow> Quorum \<Rightarrow> Identifier \<Rightarrow> AggSig \<times> NodeID list \<times> error option" where
  "getSigs rng q blockID =
     (case qVotes q blockID of
        None \<Rightarrow> ([], [], Some ''sigs does not exist'')
      | Some m \<Rightarrow>
          let vs = map (\<lambda>k. the (m k)) (rng (dom m))
          in (map voteSignature vs, map voteVoter vs, None))"

definition QuorumAdd ::
  "(NodeID set \<Rightarrow> NodeID list) \<Rightarrow> Quorum \<Rightarrow> Vote \<Rightarrow> (bool \<times> QC option) \<times> Quorum" where
  "QuorumAdd rng q vote =
     (let b = voteBlockID vote in
      if superMajority q b then ((False, None), q)
      else
        let q1 = (if qVotes q b = None then q\<lparr>qVotes := (qVotes q)(b \<mapsto> Map.empty)\<rparr> else q);
            q2 = q1\<lparr>qVotes := (qVotes q1)(b \<mapsto> (votes_of q1 b)(voteVoter vote \<mapsto> vote))\<rparr>
        in if superMajority q2 b then
             (case getSigs rng q2 b of
                (aggSig, signers, _) \<Rightarrow>
                  ((True, Some \<lparr>qcLeader = [], qcView = voteView vote, qcBlockID = b,
                                qcSigners = signers, qcAggSig = aggSig, qcSignature = []\<rparr>), q2))
           else ((False, None), q2))"

section \<open>The quorum is a threshold collector\<close>

lemma superMajority_threshold:
  "superMajority q b \<longleftrightarrow> int (maplen (votes_of q b)) > threshold (qTotal q)"
  by (simp add: superMajority_def quorum_size_def threshold_def)

lemma QuorumAdd_full: "superMajority q (voteBlockID v) \<Longrightarrow> QuorumAdd rng q v = ((False, None), q)"
  by (simp add: QuorumAdd_def)

lemma QuorumAdd_state:
  assumes "\<not> superMajority q (voteBlockID v)"
  shows "snd (QuorumAdd rng q v) =
    q\<lparr>qVotes := (qVotes q)(voteBlockID v \<mapsto> (votes_of q (voteBlockID v))(voteVoter v \<mapsto> v))\<rparr>"
  using assms by (auto simp: QuorumAdd_def Let_def votes_of_def case_prod_beta)

lemma QuorumAdd_answer:
  assumes "\<not> superMajority q (voteBlockID v)"
  shows "fst (QuorumAdd rng q v) =
    (if superMajority (snd (QuorumAdd rng q v)) (voteBlockID v) then
       (let m = (votes_of q (voteBlockID v))(voteVoter v \<mapsto> v); vs = map (\<lambda>k. the (m k)) (rng (dom m)) in
        (True, Some \<lparr>qcLeader = [], qcView = voteView v, qcBlockID = voteBlockID v,
           qcSigners = map voteVoter vs, qcAggSig = map voteSignature vs, qcSignature = []\<rparr>))
     else (False, None))"
  unfolding QuorumAdd_state [OF assms]
  using assms by (auto simp: QuorumAdd_def Let_def votes_of_def getSigs_def)

definition quorum_step :: "(NodeID set \<Rightarrow> NodeID list) \<Rightarrow> Quorum \<Rightarrow> Vote \<Rightarrow> bool \<times> Quorum" where
  "quorum_step rng q v = (fst (fst (QuorumAdd rng q v)), snd (QuorumAdd rng q v))"

interpretation vq: threshold_collector votes_of qTotal voteBlockID voteVoter "quorum_step rng" for rng
proof
  fix q :: Quorum and v :: Vote
  show "qTotal (snd (quorum_step rng q v)) = qTotal q"
    by (cases "superMajority q (voteBlockID v)")
       (simp_all add: quorum_step_def QuorumAdd_full QuorumAdd_state)
next
  fix q :: Quorum and v :: Vote
  assume "int (maplen (votes_of q (voteBlockID v))) > threshold (qTotal q)"
  then show "quorum_step rng q v = (False, q)"
    by (simp add: quorum_step_def QuorumAdd_full superMajority_threshold)
next
  fix q :: Quorum and v :: Vote
  assume "\<not> int (maplen (votes_of q (voteBlockID v))) > threshold (qTotal q)"
  then have n: "\<not> superMajority q (voteBlockID v)" by (simp add: superMajority_threshold)
  then show "votes_of (snd (quorum_step rng q v)) =
      (votes_of q)(voteBlockID v := (votes_of q (voteBlockID v))(voteVoter v \<mapsto> v))"
    by (auto simp: quorum_step_def QuorumAdd_state votes_of_def fun_eq_iff)
  from n show "fst (quorum_step rng q v) \<longleftrightarrow>
      int (maplen ((votes_of q (voteBlockID v))(voteVoter v \<mapsto> v))) > threshold (qTotal q)"
    by (simp add: quorum_step_def QuorumAdd_answer QuorumAdd_state superMajority_threshold
        votes_of_def Let_def)
qed

section \<open>Runs of the quorum\<close>

fun QuorumRun ::
  "(NodeID set \<Rightarrow> NodeID list) \<Rightarrow> Quorum \<Rightarrow> Vote list \<Rightarrow> (bool \<times> QC option) list \<times> Quorum" where
  "QuorumRun rng q [] = ([], q)"
| "QuorumRun rng q (v # vs) =
     (let (r, q1) = QuorumAdd rng q v; (rs, q2) = QuorumRun rng q1 vs in (r # rs, q2))"

abbreviation voters :: "Identifier \<Rightarrow> Vote list \<Rightarrow> NodeID set" where
  "voters b vs \<equiv> senders voteBlockID voteVoter b vs"

lemma QuorumRun_run:
  "map fst (fst (QuorumRun rng q vs)) = fst (vq.run rng q vs) \<and>
   snd (QuorumRun rng q vs) = snd (vq.run rng q vs)"
  by (induction vs arbitrary: q) (simp_all add: Let_def case_prod_beta quorum_step_def)

lemma length_QuorumRun: "length (fst (QuorumRun rng q vs)) = length vs"
  by (induction vs arbitrary: q) (simp_all add: Let_def case_prod_beta)

lemma QuorumRun_append:
  "QuorumRun rng q (vs @ ws) =
    (fst (QuorumRun rng q vs) @ fst (QuorumRun rng (snd (QuorumRun rng q vs)) ws),
     snd (QuorumRun rng (snd (QuorumRun rng q vs)) ws))"
  by (induction vs arbitrary: q) (simp_all add: Let_def case_prod_beta)

lemma QuorumRun_nth:
  assumes "i < length vs"
  shows "fst (QuorumRun rng q vs) ! i = fst (QuorumAdd rng (snd (QuorumRun rng q (take i vs))) (vs ! i))"
proof -
  have "vs = take i vs @ vs ! i # drop (Suc i) vs" using assms by (rule id_take_nth_drop)
  then have "fst (QuorumRun rng q vs) ! i =
    fst (QuorumRun rng q (take i vs @ vs ! i # drop (Suc i) vs)) ! i" by simp
  also have "\<dots> = fst (QuorumAdd rng (snd (QuorumRun rng q (take i vs))) (vs ! i))"
    using assms by (simp add: QuorumRun_append nth_append length_QuorumRun Let_def case_prod_beta)
  finally show ?thesis .
qed

lemma NewQuorum_simps [simp]:
  "votes_of (NewQuorum n) b = Map.empty" "qTotal (NewQuorum n) = n"
  by (simp_all add: NewQuorum_def votes_of_def)

lemma QuorumRun_run_nth:
  assumes "i < length vs"
  shows "fst (fst (QuorumRun rng q vs) ! i) = fst (vq.run rng q vs) ! i"
proof -
  have "map fst (fst (QuorumRun rng q vs)) ! i = fst (vq.run rng q vs) ! i"
    by (simp add: QuorumRun_run)
  then show ?thesis using assms by (simp add: length_QuorumRun)
qed

lemma QuorumRun_announce_iff:
  assumes "0 \<le> n" and "i < length vs"
  shows "fst (fst (QuorumRun rng (NewQuorum n) vs) ! i) \<longleftrightarrow>
    int (card (voters (voteBlockID (vs ! i)) (take i vs))) \<le> threshold n \<and>
    int (card (voters (voteBlockID (vs ! i)) (take (Suc i) vs))) > threshold n"
  using vq.run_nth [where s = "NewQuorum n" and ms = vs and i = i and rng = rng] assms
  by (simp add: threshold_nonneg QuorumRun_run_nth)

lemma QuorumRun_announce_once:
  assumes "0 \<le> n" and "i < length vs" and "j < length vs"
    and "fst (fst (QuorumRun rng (NewQuorum n) vs) ! i)" and "fst (fst (QuorumRun rng (NewQuorum n) vs) ! j)"
    and "voteBlockID (vs ! i) = voteBlockID (vs ! j)"
  shows "i = j"
  using vq.run_once [where s = "NewQuorum n" and ms = vs and i = i and j = j and rng = rng] assms
  by (simp add: threshold_nonneg QuorumRun_run_nth)

text \<open>What the certificate of an announcement holds.\<close>

lemma listing_of_votes:
  assumes "range_order rng" and "finite (dom m)" and "\<And>k v. m k = Some v \<Longrightarrow> P v \<and> voteVoter v = k"
    and "vs = map (\<lambda>k. the (m k)) (rng (dom m))"
  shows "distinct (map voteVoter vs) \<and> length vs = maplen m \<and> (\<forall>v\<in>set vs. P v)"
proof -
  note r = range_orderD [OF assms(1,2)]
  have "map voteVoter vs = rng (dom m)"
    unfolding assms(4) map_map using assms(3) r(1) by (intro map_idI) fastforce
  moreover have "\<forall>v\<in>set vs. P v" unfolding assms(4) using assms(3) r(1) by fastforce
  moreover have "length vs = maplen m" unfolding assms(4) maplen_def using r(3) by simp
  ultimately show ?thesis using r(2) by simp
qed

lemma QuorumAdd_certificate:
  assumes rng: "range_order rng" and tr: "vq.tracks q vs"
    and add: "fst (QuorumAdd rng q v) = (True, Some qc)"
  shows "\<exists>cs. qcBlockID qc = voteBlockID v \<and> qcView qc = voteView v \<and>
    qcSigners qc = map voteVoter cs \<and> qcAggSig qc = map voteSignature cs \<and>
    distinct (map voteVoter cs) \<and> int (length cs) > threshold (qTotal q) \<and>
    (\<forall>c\<in>set cs. c \<in> set (vs @ [v]) \<and> voteBlockID c = voteBlockID v)"
proof -
  let ?b = "voteBlockID v"
  have ns: "\<not> superMajority q ?b" using add by (auto simp: QuorumAdd_full)
  define m where "m = (votes_of q ?b)(voteVoter v \<mapsto> v)"
  define cs where "cs = map (\<lambda>k. the (m k)) (rng (dom m))"
  have "vq.tracks_key (snd (quorum_step rng q v)) (vs @ [v]) ?b"
    using vq.tracks_add [OF tr] by (simp add: vq.tracks_def)
  moreover have tab: "votes_of (snd (quorum_step rng q v)) ?b = m"
    by (simp add: quorum_step_def QuorumAdd_state [OF ns] votes_of_def m_def)
  ultimately have sub: "dom m \<subseteq> voters ?b (vs @ [v])"
    and mem: "m k = Some c \<Longrightarrow> c \<in> set (vs @ [v]) \<and> voteBlockID c = ?b \<and> voteVoter c = k" for k c
    unfolding vq.tracks_key_def by auto
  have fin: "finite (dom m)" by (rule finite_subset [OF sub finite_senders])
  have ans: "fst (QuorumAdd rng q v) =
      (if superMajority (snd (QuorumAdd rng q v)) ?b then
         (True, Some \<lparr>qcLeader = [], qcView = voteView v, qcBlockID = ?b,
           qcSigners = map voteVoter cs, qcAggSig = map voteSignature cs, qcSignature = []\<rparr>)
       else (False, None))"
    unfolding cs_def m_def by (simp only: QuorumAdd_answer [OF ns] Let_def)
  then have sm: "superMajority (snd (QuorumAdd rng q v)) ?b" using add by (simp split: if_splits)
  then have qc: "qc = \<lparr>qcLeader = [], qcView = voteView v, qcBlockID = ?b,
           qcSigners = map voteVoter cs, qcAggSig = map voteSignature cs, qcSignature = []\<rparr>"
    using add ans by simp
  have big: "int (maplen m) > threshold (qTotal q)"
    using sm tab by (simp add: superMajority_threshold quorum_step_def QuorumAdd_state [OF ns])
  from listing_of_votes [OF rng fin _ cs_def, of "\<lambda>c. c \<in> set (vs @ [v]) \<and> voteBlockID c = ?b"] mem
  have "distinct (map voteVoter cs) \<and> length cs = maplen m \<and>
      (\<forall>c\<in>set cs. c \<in> set (vs @ [v]) \<and> voteBlockID c = ?b)" by blast
  with qc big show ?thesis by (intro exI [of _ cs]) simp
qed

lemma QuorumRun_certificate:
  assumes rng: "range_order rng" and n: "0 \<le> n" and i: "i < length vs"
    and qc: "fst (QuorumRun rng (NewQuorum n) vs) ! i = (True, Some qc)"
  shows "\<exists>cs. qcBlockID qc = voteBlockID (vs ! i) \<and> qcView qc = voteView (vs ! i) \<and>
    qcSigners qc = map voteVoter cs \<and> qcAggSig qc = map voteSignature cs \<and>
    distinct (map voteVoter cs) \<and> int (length cs) > threshold n \<and>
    (\<forall>c\<in>set cs. c \<in> set (take (Suc i) vs) \<and> voteBlockID c = voteBlockID (vs ! i))"
proof -
  let ?q = "snd (QuorumRun rng (NewQuorum n) (take i vs))"
  have run: "?q = snd (vq.run rng (NewQuorum n) (take i vs))" by (simp add: QuorumRun_run)
  have "vq.tracks ?q (take i vs)" unfolding run
    using vq.tracks_run [where s = "NewQuorum n" and ms = "take i vs" and rng = rng] n
    by (auto simp: threshold_nonneg)
  moreover have "fst (QuorumAdd rng ?q (vs ! i)) = (True, Some qc)" using qc QuorumRun_nth [OF i] by simp
  moreover have "qTotal ?q = n" unfolding run
    by (simp add: vq.run_size [where s = "NewQuorum n" and ms = "take i vs" and rng = rng])
  ultimately show ?thesis
    using QuorumAdd_certificate [OF rng, of ?q "take i vs" "vs ! i" qc] i
    by (simp add: take_Suc_conv_app_nth)
qed

section \<open>Properties\<close>

text \<open>C5 (certificate at the threshold): in any sequence of votes, duplicates and several blocks included, the quorum
  announces a certificate for a block exactly at the vote that lifts the number of its distinct voters above
  two thirds of the network, and therefore at most once per block.\<close>

theorem quorum_announces_exactly_at_threshold:
  assumes "0 \<le> n" and "i < length vs"
  shows "(fst (fst (QuorumRun rng (NewQuorum n) vs) ! i) \<longleftrightarrow>
      int (card (voters (voteBlockID (vs ! i)) (take i vs))) \<le> n * 2 div 3 \<and>
      int (card (voters (voteBlockID (vs ! i)) (take (Suc i) vs))) > n * 2 div 3) \<and>
    (\<forall>j < length vs. fst (fst (QuorumRun rng (NewQuorum n) vs) ! i) \<longrightarrow>
       fst (fst (QuorumRun rng (NewQuorum n) vs) ! j) \<longrightarrow>
       voteBlockID (vs ! i) = voteBlockID (vs ! j) \<longrightarrow> i = j)"
  using QuorumRun_announce_iff [OF assms, of rng] QuorumRun_announce_once [OF assms(1), of i vs _ rng] assms
  by (auto simp: threshold_nonneg)

definition sample_vote :: "View \<Rightarrow> NodeID \<Rightarrow> Identifier \<Rightarrow> Vote" where
  "sample_vote view voter b =
     \<lparr>voteView = view, voteVoter = voter, voteBlockID = b, voteTimestamp = 0, voteSignature = []\<rparr>"

lemma sample_vote_simps [simp]:
  "voteView (sample_vote view voter b) = view" "voteVoter (sample_vote view voter b) = voter"
  "voteBlockID (sample_vote view voter b) = b"
  by (simp_all add: sample_vote_def)

definition sample_votes :: "Vote list" where
  "sample_votes = [sample_vote 5 ''1'' 7, sample_vote 5 ''1'' 7, sample_vote 5 ''2'' 7, sample_vote 9 ''3'' 7]"

lemma voters_sample_votes:
  "voters 7 (take 3 sample_votes) = {''1'', ''2''}" "voters 7 (take 4 sample_votes) = {''1'', ''2'', ''3''}"
  by (simp_all add: senders_Cons sample_votes_def)

theorem quorum_announces_exactly_at_threshold_witness:
  "fst (fst (QuorumRun sorted_list_of_set (NewQuorum 4) sample_votes) ! 3)"
proof -
  have "3 < length sample_votes" "voteBlockID (sample_votes ! 3) = 7" by (simp_all add: sample_votes_def)
  with quorum_announces_exactly_at_threshold [of 4 3 sample_votes sorted_list_of_set] voters_sample_votes
  show ?thesis by simp
qed

text \<open>Certificate contents: a certificate names the block voted for; its signers are distinct, more than two thirds
  of the network, and each of them has voted for that block with the signature listed at its position.\<close>

theorem certificate_holds_a_quorum:
  assumes "range_order rng" and "0 \<le> n" and "i < length vs"
    and "fst (QuorumRun rng (NewQuorum n) vs) ! i = (True, Some qc)"
  shows "qcBlockID qc = voteBlockID (vs ! i) \<and> distinct (qcSigners qc) \<and>
    int (length (qcSigners qc)) > n * 2 div 3 \<and> length (qcAggSig qc) = length (qcSigners qc) \<and>
    (\<forall>k < length (qcSigners qc). \<exists>v \<in> set (take (Suc i) vs). voteBlockID v = qcBlockID qc \<and>
       voteVoter v = qcSigners qc ! k \<and> voteSignature v = qcAggSig qc ! k)"
proof -
  obtain cs where cs: "qcBlockID qc = voteBlockID (vs ! i)" "qcSigners qc = map voteVoter cs"
    "qcAggSig qc = map voteSignature cs" "distinct (map voteVoter cs)" "int (length cs) > threshold n"
    "\<forall>c\<in>set cs. c \<in> set (take (Suc i) vs) \<and> voteBlockID c = voteBlockID (vs ! i)"
    using QuorumRun_certificate [OF assms] by blast
  have "\<exists>v \<in> set (take (Suc i) vs). voteBlockID v = qcBlockID qc \<and>
       voteVoter v = qcSigners qc ! k \<and> voteSignature v = qcAggSig qc ! k" if "k < length cs" for k
    using cs that by (intro bexI [of _ "cs ! k"]) auto
  with cs assms(2) show ?thesis by (simp add: threshold_nonneg)
qed

lemma QuorumAdd_answer_shape:
  "fst (fst (QuorumAdd rng q v)) \<Longrightarrow> \<exists>qc. fst (QuorumAdd rng q v) = (True, Some qc) \<and>
     qcView qc = voteView v \<and> qcBlockID qc = voteBlockID v"
  by (cases "superMajority q (voteBlockID v)")
     (auto simp: QuorumAdd_full QuorumAdd_answer Let_def split: if_splits)

lemma QuorumRun_answer_shape:
  "i < length vs \<Longrightarrow> fst (fst (QuorumRun rng q vs) ! i) \<Longrightarrow>
    \<exists>qc. fst (QuorumRun rng q vs) ! i = (True, Some qc) \<and> qcView qc = voteView (vs ! i) \<and>
      qcBlockID qc = voteBlockID (vs ! i)"
  using QuorumAdd_answer_shape by (simp add: QuorumRun_nth)

lemma sample_votes_announced:
  "\<exists>qc. fst (QuorumRun sorted_list_of_set (NewQuorum 4) sample_votes) ! 3 = (True, Some qc) \<and> qcView qc = 9"
proof -
  have l: "3 < length sample_votes" and v: "voteBlockID (sample_votes ! 3) = 7" "voteView (sample_votes ! 3) = 9"
    by (simp_all add: sample_votes_def)
  have "fst (fst (QuorumRun sorted_list_of_set (NewQuorum 4) sample_votes) ! 3)"
    using QuorumRun_announce_iff [of 4 3 sample_votes sorted_list_of_set] l v voters_sample_votes
    by (simp add: threshold_nonneg)
  from QuorumRun_answer_shape [OF l this] v show ?thesis by auto
qed

theorem certificate_holds_a_quorum_witness:
  "\<exists>qc. fst (QuorumRun sorted_list_of_set (NewQuorum 4) sample_votes) ! 3 = (True, Some qc) \<and>
     length (qcSigners qc) > 2"
proof -
  obtain qc where qc: "fst (QuorumRun sorted_list_of_set (NewQuorum 4) sample_votes) ! 3 = (True, Some qc)"
    using sample_votes_announced by blast
  from certificate_holds_a_quorum [OF range_order_sorted _ _ qc] have "int (length (qcSigners qc)) > 4 * 2 div 3"
    by (simp add: sample_votes_def)
  with qc show ?thesis by auto
qed

text \<open>C4 (quorum intersection): if two replicas, each from its own votes, hold certificates for blocks and fewer than a
  third of the network is faulty, then some replica that is not faulty voted for both blocks.  Hence
  replicas that never vote for two conflicting blocks make two such certificates impossible.\<close>

theorem certified_blocks_share_an_honest_voter:
  assumes "range_order rng" and "range_order rng'" and "finite nodes"
    and "voteVoter ` set vs \<subseteq> nodes" and "voteVoter ` set ws \<subseteq> nodes"
    and "faulty \<subseteq> nodes" and "3 * card faulty < card nodes"
    and "i < length vs" and "fst (QuorumRun rng (NewQuorum (int (card nodes))) vs) ! i = (True, Some qc)"
    and "j < length ws" and "fst (QuorumRun rng' (NewQuorum (int (card nodes))) ws) ! j = (True, Some qc')"
  shows "\<exists>v\<in>set vs. \<exists>w\<in>set ws. voteVoter v = voteVoter w \<and> voteVoter v \<notin> faulty \<and>
    voteBlockID v = qcBlockID qc \<and> voteBlockID w = qcBlockID qc'"
proof -
  obtain cs where cs: "qcBlockID qc = voteBlockID (vs ! i)" "distinct (map voteVoter cs)"
    "int (length cs) > threshold (int (card nodes))"
    "\<forall>c\<in>set cs. c \<in> set (take (Suc i) vs) \<and> voteBlockID c = voteBlockID (vs ! i)"
    using QuorumRun_certificate [OF assms(1) _ assms(8,9)] by auto
  obtain ds where ds: "qcBlockID qc' = voteBlockID (ws ! j)" "distinct (map voteVoter ds)"
    "int (length ds) > threshold (int (card nodes))"
    "\<forall>c\<in>set ds. c \<in> set (take (Suc j) ws) \<and> voteBlockID c = voteBlockID (ws ! j)"
    using QuorumRun_certificate [OF assms(2) _ assms(10,11)] by auto
  have in_vs: "set cs \<subseteq> set vs" "set ds \<subseteq> set ws" using cs(4) ds(4) by (auto dest: in_set_takeD)
  have card: "card (voteVoter ` set cs) = length cs" "card (voteVoter ` set ds) = length ds"
    using distinct_card [OF cs(2)] distinct_card [OF ds(2)] by simp_all
  have sub: "voteVoter ` set cs \<subseteq> nodes" "voteVoter ` set ds \<subseteq> nodes" using in_vs assms(4,5) by blast+
  obtain x where x: "x \<in> voteVoter ` set cs" "x \<in> voteVoter ` set ds" "x \<notin> faulty"
    using quorum_intersection [OF assms(3) sub assms(6,7)] cs(3) ds(3) card by auto
  then obtain v w where "v \<in> set cs" "w \<in> set ds" "voteVoter v = x" "voteVoter w = x" by (elim imageE) auto
  with x(3) cs(1,4) ds(1,4) in_vs show ?thesis by (intro bexI [of _ v] bexI [of _ w]) auto
qed

theorem certified_blocks_share_an_honest_voter_witness:
  "\<exists>qc. fst (QuorumRun sorted_list_of_set (NewQuorum (int (card {''1'', ''2'', ''3'', ''4''}))) sample_votes) ! 3
       = (True, Some qc) \<and>
     (\<exists>v\<in>set sample_votes. voteVoter v \<notin> {''1''} \<and> voteBlockID v = qcBlockID qc)"
proof -
  let ?nodes = "{''1'', ''2'', ''3'', ''4''}"
  have c: "card ?nodes = 4" by simp
  obtain qc where qc: "fst (QuorumRun sorted_list_of_set (NewQuorum (int (card ?nodes))) sample_votes) ! 3 = (True, Some qc)"
    using sample_votes_announced c by auto
  have v: "voteVoter ` set sample_votes \<subseteq> ?nodes" "3 < length sample_votes" by (auto simp: sample_votes_def)
  have "3 * card {''1''} < card ?nodes" using c by simp
  from certified_blocks_share_an_honest_voter [OF range_order_sorted range_order_sorted _ v(1,1) _ this v(2) qc v(2) qc] qc
  show ?thesis by blast
qed

text \<open>Certificate view: the view of a certificate is that of the last vote alone.  Votes are filed by block only, so
  one voter that states a different view decides the view of the certificate the others contributed to.\<close>

theorem certificate_view_is_last_vote_view:
  "fst (fst (QuorumRun rng (NewQuorum 4) [sample_vote v ''1'' b, sample_vote v ''2'' b, sample_vote w ''3'' b]) ! 2) \<and>
   map_option qcView (snd (fst (QuorumRun rng (NewQuorum 4)
      [sample_vote v ''1'' b, sample_vote v ''2'' b, sample_vote w ''3'' b]) ! 2)) = Some w"
proof -
  let ?vs = "[sample_vote v ''1'' b, sample_vote v ''2'' b, sample_vote w ''3'' b]"
  have V: "voters b (take 2 ?vs) = {''1'', ''2''}" "voters b (take 3 ?vs) = {''1'', ''2'', ''3''}"
    by (simp_all add: senders_Cons)
  have a: "fst (fst (QuorumRun rng (NewQuorum 4) ?vs) ! 2)"
    using QuorumRun_announce_iff [of 4 2 ?vs rng] V by (simp add: threshold_nonneg del: QuorumRun.simps)
  with QuorumRun_answer_shape [of 2 ?vs rng "NewQuorum 4"] show ?thesis
    by (auto simp del: QuorumRun.simps)
qed

end
