(* ===== verification/Blockchain.thy ===== *)
theory Blockchain
  imports Forest Quorum
begin

text \<open>
  The block chain over the forest and the quorum (src/blockchain/blockchain.go).  The two
  measurements that divide floating-point numbers are left out.  The commit walk follows parents
  with no bound of its own, so it is a partial function; the lemmas show that it returns, and what,
  when parents lie below their children.
\<close>

record BlockChain =
  forrest :: LevelledForest
  quorum :: Quorum
  longestTailBlock :: "Block option"
  highestComitted :: int
  committedBlockNo :: int
  totalBlockIntervals :: int
  prunedBlockNo :: int

definition NewBlockchain :: "int \<Rightarrow> BlockChain" where
  "NewBlockchain n =
     \<lparr>forrest = NewLevelledForest, quorum = NewQuorum n, longestTailBlock = None,
      highestComitted = 0, committedBlockNo = 0, totalBlockIntervals = 0, prunedBlockNo = 0\<rparr>"

definition Exists :: "BlockChain \<Rightarrow> Identifier \<Rightarrow> bool" where
  "Exists bc x = HasVertex (forrest bc) x"

definition AddBlock :: "BlockChain \<Rightarrow> Block \<Rightarrow> BlockChain option" where
  "AddBlock bc b = do { f \<leftarrow> AddVertex (forrest bc) b; Some (bc\<lparr>forrest := f\<rparr>) }"

definition AddVote ::
  "(NodeID set \<Rightarrow> NodeID list) \<Rightarrow> BlockChain \<Rightarrow> Vote \<Rightarrow> (bool \<times> QC option) \<times> BlockChain" where
  "AddVote rng bc vote =
     (case QuorumAdd rng (quorum bc) vote of (r, q) \<Rightarrow> (r, bc\<lparr>quorum := q\<rparr>))"

definition GetBlockByID :: "BlockChain \<Rightarrow> Identifier \<Rightarrow> error + Block" where
  "GetBlockByID bc x =
     (case GetVertex (forrest bc) x of
        None \<Rightarrow> Inl ''the block does not exist''
      | Some b \<Rightarrow> Inr b)"

definition GetParentBlock :: "BlockChain \<Rightarrow> Identifier \<Rightarrow> (error + Block) option" where
  "GetParentBlock bc x =
     (case GetVertex (forrest bc) x of
        None \<Rightarrow> Some (Inl ''the block does not exist'')
      | Some b \<Rightarrow>
          do { (parentID, _) \<leftarrow> Parent b;
               Some (case GetVertex (forrest bc) parentID of
                       None \<Rightarrow> Inl ''parent block does not exist''
                     | Some p \<Rightarrow> Inr p) })"

definition GetGrandParentBlock :: "BlockChain \<Rightarrow> Identifier \<Rightarrow> (error + Block) option" where
  "GetGrandParentBlock bc x =
     do { r \<leftarrow> GetParentBlock bc x;
          case r of
            Inl e \<Rightarrow> Some (Inl ''cannot get parent block'')
          | Inr p \<Rightarrow> GetParentBlock bc (blkID p) }"

text \<open>One iteration of the commit loop, and the loop.\<close>

definition count_committed :: "BlockChain \<Rightarrow> View \<Rightarrow> Block \<Rightarrow> BlockChain" where
  "count_committed bc view block =
     bc\<lparr>quorum := (quorum bc)\<lparr>qVotes := (qVotes (quorum bc))(blkID block := None)\<rparr>,
        committedBlockNo := i64 (committedBlockNo bc + 1),
        totalBlockIntervals := i64 (totalBlockIntervals bc + i64 (view - blkView block))\<rparr>"

partial_function (option) commit_walk ::
  "BlockChain \<Rightarrow> View \<Rightarrow> Block \<Rightarrow> Block list \<Rightarrow> (Block list \<times> BlockChain) option" where
  "commit_walk bc view block committedBlocks =
     (if LowestLevel (forrest bc) < uint64 (blkView block) then
        (case GetVertex (forrest bc) (blkPrevID block) of
           None \<Rightarrow> Some (committedBlocks @ [block], count_committed bc view block)
         | Some parent \<Rightarrow>
             commit_walk (count_committed bc view block) view parent (committedBlocks @ [block]))
      else Some (committedBlocks, bc))"

definition CommitBlock ::
  "BlockChain \<Rightarrow> Identifier \<Rightarrow> View \<Rightarrow> ((Block list \<times> Block list \<times> error option) \<times> BlockChain) option" where
  "CommitBlock bc x view =
     (case GetVertex (forrest bc) x of
        None \<Rightarrow> Some (([], [], Some ''cannot find the block''), bc)
      | Some block \<Rightarrow>
          let committedView = blkView block in
          do { (committedBlocks, bc1) \<leftarrow> commit_walk (bc\<lparr>highestComitted := blkView block\<rparr>) view block [];
               ((forkedBlocks, prunedNo, err), f) \<leftarrow> PruneUpToLevel (forrest bc1) (uint64 committedView);
               let bc2 = bc1\<lparr>forrest := f\<rparr> in
               if err \<noteq> None then
                 Some (([], [], Some ''cannot prune the blockchain to the committed block''), bc2)
               else
                 Some ((committedBlocks, forkedBlocks, None),
                       bc2\<lparr>prunedBlockNo := i64 (prunedBlockNo bc2 + prunedNo)\<rparr>) })"

definition GetChildrenBlocks :: "BlockChain \<Rightarrow> Identifier \<Rightarrow> Block list option" where
  "GetChildrenBlocks bc x =
     do { it \<leftarrow> GetChildren (forrest bc) x; Some (iterate (forrest bc) it) }"

definition GetHighestCommitted :: "BlockChain \<Rightarrow> int" where
  "GetHighestCommitted bc = highestComitted bc"

definition GetCommittedBlocks :: "BlockChain \<Rightarrow> int" where
  "GetCommittedBlocks bc = committedBlockNo bc"

definition GetBlockByView :: "BlockChain \<Rightarrow> View \<Rightarrow> Block option" where
  "GetBlockByView bc view = itNext (GetVerticesAtLevel (forrest bc) (uint64 view))"

section \<open>Reading the chain\<close>

abbreviation known :: "BlockChain \<Rightarrow> Identifier \<Rightarrow> Block option" where
  "known bc \<equiv> GetVertex (forrest bc)"

abbreviation lowest :: "BlockChain \<Rightarrow> nat" where
  "lowest bc \<equiv> LowestLevel (forrest bc)"

definition bc_ok :: "BlockChain \<Rightarrow> bool" where
  "bc_ok bc \<longleftrightarrow> forest_ok (forrest bc)"

lemma bc_ok_New [inv_intros]: "bc_ok (NewBlockchain n)"
  by (simp add: bc_ok_def NewBlockchain_def inv_intros)

lemma GetBlockByID_Inr_iff: "GetBlockByID bc x = Inr b \<longleftrightarrow> known bc x = Some b"
  by (simp add: GetBlockByID_def split: option.split)

lemma GetBlockByID_ID: "bc_ok bc \<Longrightarrow> GetBlockByID bc x = Inr b \<Longrightarrow> blkID b = x"
  by (simp add: GetBlockByID_Inr_iff bc_ok_def GetVertex_id)

lemma GetParentBlock_Inr:
  "GetParentBlock bc x = Some (Inr p) \<longleftrightarrow>
    (\<exists>b qc. known bc x = Some b \<and> blkQC b = Some qc \<and> known bc (blkPrevID b) = Some p)"
  by (auto simp: GetParentBlock_def Parent_def bind_Some_conv split: option.splits)

lemma GetChildrenBlocks_eq:
  "GetChildrenBlocks bc x =
    (case vertices (forrest bc) x of None \<Rightarrow> None
     | Some a \<Rightarrow> Some (full_vertices (forrest bc) (vcChildren (store (forrest bc) ! a))))"
  by (simp add: GetChildrenBlocks_def GetChildren_def iterate_new split: option.split)

section \<open>The committed chain\<close>

text \<open>
  The blocks a commit returns, as a relation on what is known: from the block down its parents
  while they are known and above the lowest level.
\<close>

inductive ancestry :: "(Identifier \<rightharpoonup> Block) \<Rightarrow> nat \<Rightarrow> Block \<Rightarrow> Block list \<Rightarrow> bool"
  for g :: "Identifier \<rightharpoonup> Block" and lo :: nat where
  at_bottom: "Level b \<le> lo \<Longrightarrow> ancestry g lo b []"
| no_parent: "lo < Level b \<Longrightarrow> g (blkPrevID b) = None \<Longrightarrow> ancestry g lo b [b]"
| to_parent: "lo < Level b \<Longrightarrow> g (blkPrevID b) = Some p \<Longrightarrow> ancestry g lo p bs \<Longrightarrow> ancestry g lo b (b # bs)"

inductive_simps ancestry_simps: "ancestry g lo b bs"

definition descending :: "(Identifier \<rightharpoonup> Block) \<Rightarrow> bool" where
  "descending g \<longleftrightarrow> (\<forall>x b p. g x = Some b \<longrightarrow> g (blkPrevID b) = Some p \<longrightarrow> Level p < Level b)"

lemma ancestry_exists:
  assumes "descending g" and "g x = Some b"
  shows "\<exists>bs. ancestry g lo b bs"
  using assms(2)
proof (induction "Level b" arbitrary: x b rule: less_induct)
  case less
  show ?case
  proof (cases "lo < Level b")
    case False
    then show ?thesis using at_bottom by (metis not_less)
  next
    case True
    show ?thesis
    proof (cases "g (blkPrevID b)")
      case None
      with True show ?thesis using no_parent by blast
    next
      case (Some p)
      with assms(1) less.prems have "Level p < Level b" by (auto simp: descending_def)
      from less.hyps [OF this Some] True Some show ?thesis using to_parent by blast
    qed
  qed
qed

lemma ancestry_unique: "ancestry g lo b bs \<Longrightarrow> ancestry g lo b cs \<Longrightarrow> bs = cs"
proof (induction arbitrary: cs rule: ancestry.induct)
  case (at_bottom b)
  then show ?case by (auto simp: ancestry_simps [of g lo b cs])
next
  case (no_parent b)
  then show ?case by (auto simp: ancestry_simps [of g lo b cs])
next
  case (to_parent b p bs)
  from to_parent.prems show ?case
  proof (cases rule: ancestry.cases)
    case (to_parent p' bs')
    with \<open>g (blkPrevID b) = Some p\<close> to_parent.IH show ?thesis by simp
  qed (use to_parent.hyps in simp_all)
qed

lemma ancestry_above: "ancestry g lo b bs \<Longrightarrow> \<forall>c\<in>set bs. lo < Level c"
  by (induction rule: ancestry.induct) auto

lemma ancestry_hd: "ancestry g lo b bs \<Longrightarrow> bs = [] \<or> hd bs = b"
  by (cases rule: ancestry.cases) auto

lemma ancestry_known: "ancestry g lo b bs \<Longrightarrow> \<forall>c\<in>set (tl bs). \<exists>x. g x = Some c"
proof (induction rule: ancestry.induct)
  case (to_parent b p bs)
  then show ?case using ancestry_hd [OF to_parent.hyps(3)] by (cases bs) auto
qed auto

lemma ancestry_descends:
  assumes "descending g"
  shows "ancestry g lo b bs \<Longrightarrow> g x = Some b \<Longrightarrow> sorted_wrt (\<lambda>c d. Level d < Level c) bs \<and> (\<forall>c\<in>set bs. Level c \<le> Level b)"
proof (induction arbitrary: x rule: ancestry.induct)
  case (to_parent b p bs)
  then have "Level p < Level b" using assms by (auto simp: descending_def)
  with to_parent.IH [OF to_parent.hyps(2)] show ?case by force
qed auto

subsection \<open>The loop computes it\<close>

lemma count_committed_simps [simp, frame_simps]:
  "forrest (count_committed bc view b) = forrest bc"
  "prunedBlockNo (count_committed bc view b) = prunedBlockNo bc"
  "highestComitted (count_committed bc view b) = highestComitted bc"
  by (simp_all add: count_committed_def)

lemma commit_walk_ancestry_aux:
  "ancestry (GetVertex f) (LowestLevel f) b bs \<Longrightarrow> forrest bc = f \<Longrightarrow>
    commit_walk bc view b acc = Some (acc @ bs, foldl (\<lambda>s c. count_committed s view c) bc bs)"
proof (induction arbitrary: bc acc rule: ancestry.induct)
  case (at_bottom b)
  then show ?case by (subst commit_walk.simps) (simp add: Level_def)
next
  case (no_parent b)
  then show ?case by (subst commit_walk.simps) (simp add: Level_def)
next
  case (to_parent b p bs)
  then show ?case by (subst commit_walk.simps) (simp add: Level_def)
qed

lemmas commit_walk_ancestry = commit_walk_ancestry_aux [OF _ refl]

lemma foldl_count_simps [simp, frame_simps]:
  "forrest (foldl (\<lambda>s c. count_committed s view c) bc bs) = forrest bc"
  "prunedBlockNo (foldl (\<lambda>s c. count_committed s view c) bc bs) = prunedBlockNo bc"
  by (induction bs arbitrary: bc) auto

lemma commit_walk_sound:
  assumes "commit_walk bc view b acc = Some r"
  shows "\<exists>bs. ancestry (known bc) (lowest bc) b bs \<and> fst r = acc @ bs \<and> forrest (snd r) = forrest bc"
  using assms
proof (rule commit_walk.raw_induct [rotated], goal_cases)
  case (1 walk bc view b acc r)
  note IH = "1"(1) and body = "1"(2)
  show ?case
  proof (cases "lowest bc < Level b")
    case False
    then have "ancestry (known bc) (lowest bc) b []" by (intro at_bottom) simp
    with False body show ?thesis by (intro exI [of _ "[]"]) (auto simp: Level_def)
  next
    case True
    show ?thesis
    proof (cases "known bc (blkPrevID b)")
      case None
      with True have "ancestry (known bc) (lowest bc) b [b]" by (intro no_parent)
      with True None body show ?thesis by (intro exI [of _ "[b]"]) (auto simp: Level_def)
    next
      case (Some p)
      with True body have "walk (count_committed bc view b) view p (acc @ [b]) = Some r"
        by (simp add: Level_def)
      from IH [OF this] obtain bs where "ancestry (known bc) (lowest bc) p bs"
        "fst r = (acc @ [b]) @ bs" "forrest (snd r) = forrest bc" by auto
      with to_parent [where g = "known bc", OF True Some] show ?thesis by (intro exI [of _ "b # bs"]) simp
    qed
  qed
qed

section \<open>Commits on a tidy forest\<close>

text \<open>
  What the pruning code takes for granted: containers at the level of their block, one container
  per level, a certificate above level 1, and parents below their children.
\<close>

definition tidy :: "LevelledForest \<Rightarrow> bool" where
  "tidy f \<longleftrightarrow>
     (\<forall>x a b. vertices f x = Some a \<longrightarrow> vcVertex (store f ! a) = Some b \<longrightarrow> vcLevel (store f ! a) = Level b) \<and>
     (\<forall>l. length (verticesAtLevel f l) \<le> 1) \<and>
     (\<forall>x b. GetVertex f x = Some b \<longrightarrow> 1 < Level b \<longrightarrow> blkQC b \<noteq> None) \<and>
     descending (GetVertex f)"

lemma tidyD:
  assumes "tidy f"
  shows "vertices f x = Some a \<Longrightarrow> vcVertex (store f ! a) = Some b \<Longrightarrow> vcLevel (store f ! a) = Level b"
    and "length (verticesAtLevel f l) \<le> 1"
    and "GetVertex f x = Some b \<Longrightarrow> 1 < Level b \<Longrightarrow> \<exists>qc. blkQC b = Some qc"
    and "GetVertex f x = Some b \<Longrightarrow> GetVertex f (blkPrevID b) = Some p \<Longrightarrow> Level p < Level b"
  using assms by (simp_all add: tidy_def descending_def)

lemma ids_okD:
  assumes "forest_ok f" and "vertices f x = Some a"
  shows "a < length (store f)" and "vcId (store f ! a) = x"
    and "a \<in> set (verticesAtLevel f (vcLevel (store f ! a)))"
  using assms by (simp_all add: forest_ok_def ids_ok_def)

lemma tidy_level:
  assumes ok: "forest_ok f" and t: "tidy f" and b: "GetVertex f x = Some b"
  obtains a where "verticesAtLevel f (Level b) = [a]" and "vcVertex (store f ! a) = Some b"
    and "vertices f x = Some a"
proof -
  from b obtain a where a: "vertices f x = Some a" "vcVertex (store f ! a) = Some b"
    by (auto simp: GetVertex_alt split: option.splits)
  have "a \<in> set (verticesAtLevel f (Level b))"
    using ids_okD(3) [OF ok a(1)] tidyD(1) [OF t a] by simp
  moreover have "length (verticesAtLevel f (Level b)) \<le> 1" by (rule tidyD(2) [OF t])
  ultimately have "verticesAtLevel f (Level b) = [a]"
    by (cases "verticesAtLevel f (Level b)") auto
  with a that show ?thesis by blast
qed

lemma committed_levels_step:
  assumes ok: "forest_ok f" and t: "tidy f" and b: "GetVertex f x = Some b"
  shows "committed_levels f (Level b) com =
    (if LowestLevel f \<le> Level b \<and> 1 < Level b then
       (case GetVertex f (blkPrevID b) of
          None \<Rightarrow> Some com
        | Some p \<Rightarrow> if Level p < LowestLevel f then Some com
            else committed_levels f (Level p) (insert (Level p) com))
     else Some com)"
proof (cases "LowestLevel f \<le> Level b \<and> 1 < Level b")
  case False
  then show ?thesis by (subst committed_levels.simps) auto
next
  case True
  obtain a where a: "verticesAtLevel f (Level b) = [a]" "vcVertex (store f ! a) = Some b"
    using tidy_level [OF ok t b] .
  obtain qc where "blkQC b = Some qc" using tidyD(3) [OF t b] True by blast
  with True a show ?thesis
    by (subst committed_levels.simps) (simp add: Parent_def split: option.split)
qed

lemma committed_levels_ancestry:
  assumes ok: "forest_ok f" and t: "tidy f"
  shows "ancestry (GetVertex f) (LowestLevel f) b bs \<Longrightarrow> GetVertex f x = Some b \<Longrightarrow> LowestLevel f < Level b \<Longrightarrow>
    \<exists>E. E \<subseteq> {LowestLevel f} \<and> committed_levels f (Level b) com = Some (com \<union> Level ` set (tl bs) \<union> E)"
proof (induction arbitrary: x com rule: ancestry.induct)
  case (at_bottom b)
  then show ?case by simp
next
  case (no_parent b)
  then show ?case by (auto simp: committed_levels_step [OF ok t no_parent.prems(1)])
next
  case (to_parent b p bs)
  note b = committed_levels_step [OF ok t to_parent.prems(1)]
    and p = committed_levels_step [OF ok t to_parent.hyps(2)]
  have desc: "Level p < Level b" by (rule tidyD(4) [OF t to_parent.prems(1) to_parent.hyps(2)])
  consider "Level p < LowestLevel f" | "Level p = LowestLevel f" | "LowestLevel f < Level p" by linarith
  then show ?case
  proof cases
    case 1
    then have "bs = []" using to_parent.hyps(3) ancestry_above ancestry_hd by (metis hd_in_set less_asym)
    with 1 b to_parent show ?thesis by (intro exI [of _ "{}"]) simp
  next
    case 2
    then have bs: "bs = []" using to_parent.hyps(3) ancestry_above ancestry_hd by (metis hd_in_set less_irrefl)
    have "committed_levels f (Level p) c = Some c" for c
    proof (cases "GetVertex f (blkPrevID p)")
      case None
      then show ?thesis using p by simp
    next
      case (Some q)
      then have "Level q < LowestLevel f" using tidyD(4) [OF t to_parent.hyps(2) Some] 2 by simp
      with Some show ?thesis using p by simp
    qed
    with 2 b bs to_parent show ?thesis
      by (intro exI [of _ "if 1 < Level b then {LowestLevel f} else {}"]) simp
  next
    case 3
    then have "1 < Level b" using desc by simp
    with 3 b to_parent have e: "committed_levels f (Level b) com = committed_levels f (Level p) (insert (Level p) com)"
      by simp
    obtain E where E: "E \<subseteq> {LowestLevel f}"
      "committed_levels f (Level p) (insert (Level p) com) = Some (insert (Level p) com \<union> Level ` set (tl bs) \<union> E)"
      using to_parent.IH [OF to_parent.hyps(2) 3] by blast
    have "bs \<noteq> []" using to_parent.hyps(3) 3 by (auto elim: ancestry.cases)
    then have "bs = p # tl bs" using ancestry_hd [OF to_parent.hyps(3)] by (cases bs) auto
    then have "set (tl (b # bs)) = insert p (set (tl bs))" by (metis list.sel(3) list.set(2))
    with E e show ?thesis by (intro exI [of _ E]) auto
  qed
qed

text \<open>A commit on a tidy forest returns, and splits the pruned blocks into committed and forked.\<close>

lemma level_blocks_tidy:
  assumes ok: "forest_ok f" and t: "tidy f"
  shows "b \<in> set (level_blocks f l) \<longleftrightarrow> GetVertex f (blkID b) = Some b \<and> Level b = l"
proof
  assume "b \<in> set (level_blocks f l)"
  then obtain a where a: "a \<in> set (verticesAtLevel f l)" "vcVertex (store f ! a) = Some b"
    by (auto simp: level_blocks_def map_filter_def)
  then have v: "a < length (store f)" "vcLevel (store f ! a) = l" "vertices f (vcId (store f ! a)) = Some a"
    using ok by (auto simp: forest_ok_def levels_ok_def)
  moreover from this a have "blkID b = vcId (store f ! a)" using ok by (auto simp: forest_ok_def blocks_ok_def)
  ultimately show "GetVertex f (blkID b) = Some b \<and> Level b = l"
    using a(2) tidyD(1) [OF t v(3) a(2)] by (simp add: GetVertex_alt)
next
  assume "GetVertex f (blkID b) = Some b \<and> Level b = l"
  then obtain a where "verticesAtLevel f l = [a]" "vcVertex (store f ! a) = Some b"
    using tidy_level [OF ok t] by metis
  then show "b \<in> set (level_blocks f l)" by (simp add: level_blocks_def map_filter_simps)
qed

lemma CommitBlock_shape:
  assumes "known bc x = Some b" and "ancestry (known bc) (lowest bc) b cs" and "lowest bc \<le> Level b"
    and "committed_levels (forrest bc) (Level b) {} = Some com"
  shows "\<exists>bc'. CommitBlock bc x view =
      Some ((cs, concat (map (level_forks (forrest bc) com) [lowest bc ..< Level b]), None), bc') \<and>
    forrest bc' = pruned (forrest bc) (Level b)"
proof -
  have "ancestry (known (bc\<lparr>highestComitted := blkView b\<rparr>)) (lowest (bc\<lparr>highestComitted := blkView b\<rparr>)) b cs"
    using assms(2) by simp
  from commit_walk_ancestry [OF this, of view "[]"] assms show ?thesis
    by (simp add: CommitBlock_def Let_def Level_def [symmetric] PruneUpToLevel_eq)
qed

text \<open>C3 (commit): on a forest as the pruning code takes it for granted (one container per level, at the level of its
  block, parents below children), committing a known block above the lowest level returns without
  error.  It returns the chain of known ancestors from the block down to the lowest level and moves the
  lowest level to the block.  The blocks it reports as forked are known blocks outside that chain, above level 1, not
  below the old lowest level and below the committed block; and every known block above the old lowest level, above
  level 1 and below the committed block is either committed or forked.\<close>

theorem CommitBlock_splits:
  assumes ok: "bc_ok bc" and t: "tidy (forrest bc)" and b: "known bc x = Some b" and above: "lowest bc < Level b"
  shows "\<exists>cs fs bc'. CommitBlock bc x view = Some ((cs, fs, None), bc') \<and>
    ancestry (known bc) (lowest bc) b cs \<and> lowest bc' = Level b \<and>
    set cs \<inter> set fs = {} \<and>
    (\<forall>c\<in>set fs. known bc (blkID c) = Some c \<and> lowest bc \<le> Level c \<and> 1 < Level c \<and> Level c < Level b) \<and>
    (\<forall>c. known bc (blkID c) = Some c \<longrightarrow> lowest bc < Level c \<longrightarrow> 1 < Level c \<longrightarrow> Level c < Level b \<longrightarrow>
       c \<in> set cs \<union> set fs)"
proof -
  have ok': "forest_ok (forrest bc)" using ok by (simp add: bc_ok_def)
  obtain cs where cs: "ancestry (known bc) (lowest bc) b cs"
    using ancestry_exists t b by (metis tidy_def)
  obtain E where E: "E \<subseteq> {lowest bc}"
    "committed_levels (forrest bc) (Level b) {} = Some ({} \<union> Level ` set (tl cs) \<union> E)"
    using committed_levels_ancestry [OF ok' t cs b above] by blast
  let ?com = "{} \<union> Level ` set (tl cs) \<union> E"
  let ?fs = "concat (map (level_forks (forrest bc) ?com) [lowest bc ..< Level b])"
  have fs: "c \<in> set ?fs \<longleftrightarrow> known bc (blkID c) = Some c \<and> lowest bc \<le> Level c \<and> Level c < Level b \<and>
      1 < Level c \<and> Level c \<notin> ?com" for c
    by (auto simp: level_forks_def level_blocks_tidy [OF ok' t])
  have hd: "cs = b # tl cs" using cs above by (auto elim: ancestry.cases)
  have disj: "set cs \<inter> set ?fs = {}"
  proof -
    have "c \<notin> set ?fs" if "c \<in> set cs" for c
    proof (cases "c = b")
      case True
      then show ?thesis using fs by simp
    next
      case False
      with that hd have "c \<in> set (tl cs)" by (metis set_ConsD)
      then show ?thesis using fs by auto
    qed
    then show ?thesis by blast
  qed
  have cover: "c \<in> set cs \<union> set ?fs"
    if c: "known bc (blkID c) = Some c" "lowest bc < Level c" "1 < Level c" "Level c < Level b" for c
  proof (cases "Level c \<in> ?com")
    case False
    then show ?thesis using fs c by auto
  next
    case True
    with E(1) c(2) obtain d where d: "d \<in> set (tl cs)" "Level d = Level c" by auto
    then obtain y where y: "known bc y = Some d" using ancestry_known [OF cs] by blast
    have "known bc (blkID d) = Some d" using GetVertex_id [OF ok' y] y by simp
    then obtain a where "verticesAtLevel (forrest bc) (Level c) = [a]" "vcVertex (store (forrest bc) ! a) = Some d"
      using tidy_level [OF ok' t] d(2) by metis
    moreover obtain a' where "verticesAtLevel (forrest bc) (Level c) = [a']" "vcVertex (store (forrest bc) ! a') = Some c"
      using tidy_level [OF ok' t c(1)] .
    ultimately have "c = d" by simp
    with d show ?thesis by (metis UnI1 list.set_sel(2) tl_Nil)
  qed
  obtain bc' where bc': "CommitBlock bc x view = Some ((cs, ?fs, None), bc')"
    "forrest bc' = pruned (forrest bc) (Level b)"
    using CommitBlock_shape [OF b cs _ E(2)] above by (meson less_imp_le)
  have "lowest bc' = Level b" using bc'(2) by (simp add: pruned_def)
  moreover have "\<forall>c\<in>set ?fs. known bc (blkID c) = Some c \<and> lowest bc \<le> Level c \<and> 1 < Level c \<and> Level c < Level b"
    using fs by blast
  ultimately show ?thesis using bc'(1) cs disj cover by blast
qed

section \<open>Sequences of operations\<close>

text \<open>The committed blocks, oldest first, of a sequence of operations.\<close>

datatype bc_event = EvAdd Block | EvVote Vote | EvCommit Identifier View

fun bc_step ::
  "(NodeID set \<Rightarrow> NodeID list) \<Rightarrow> BlockChain \<times> Block list \<Rightarrow> bc_event \<Rightarrow> (BlockChain \<times> Block list) option" where
  "bc_step rng (bc, log) (EvAdd b) = do { bc1 \<leftarrow> AddBlock bc b; Some (bc1, log) }"
| "bc_step rng (bc, log) (EvVote v) = Some (snd (AddVote rng bc v), log)"
| "bc_step rng (bc, log) (EvCommit x view) =
     do { ((cs, fs, err), bc1) \<leftarrow> CommitBlock bc x view; Some (bc1, log @ rev cs) }"

fun bc_run ::
  "(NodeID set \<Rightarrow> NodeID list) \<Rightarrow> BlockChain \<times> Block list \<Rightarrow> bc_event list \<Rightarrow> (BlockChain \<times> Block list) option" where
  "bc_run rng s [] = Some s"
| "bc_run rng s (e # es) = do { s1 \<leftarrow> bc_step rng s e; bc_run rng s1 es }"

definition parents_below :: "Block set \<Rightarrow> bool" where
  "parents_below U \<longleftrightarrow> (\<forall>b\<in>U. \<forall>p\<in>U. blkPrevID b = blkID p \<longrightarrow> Level p < Level b)"

definition added :: "bc_event list \<Rightarrow> Block set" where
  "added es = {b. EvAdd b \<in> set es}"

definition log_ok :: "Block set \<Rightarrow> BlockChain \<times> Block list \<Rightarrow> bool" where
  "log_ok U s \<longleftrightarrow> bc_ok (fst s) \<and> (\<forall>x b. known (fst s) x = Some b \<longrightarrow> b \<in> U) \<and>
     sorted_wrt (\<lambda>c d. Level c < Level d) (snd s) \<and> (\<forall>c\<in>set (snd s). Level c \<le> lowest (fst s))"

lemma descending_parents_below:
  assumes "bc_ok bc" and "parents_below U" and "\<forall>x b. known bc x = Some b \<longrightarrow> b \<in> U"
  shows "descending (known bc)"
  unfolding descending_def
proof (intro allI impI)
  fix x b p assume b: "known bc x = Some b" and p: "known bc (blkPrevID b) = Some p"
  have "blkID p = blkPrevID b" using GetVertex_id p assms(1) by (simp add: bc_ok_def)
  then show "Level p < Level b" using assms(2,3) b p by (auto simp: parents_below_def)
qed

lemma AddBlock_facts:
  assumes "bc_ok bc" and "AddBlock bc b = Some bc'"
  shows "bc_ok bc' \<and> lowest bc' = lowest bc \<and> quorum bc' = quorum bc \<and>
    known bc' = (if Level b < lowest bc \<or> known bc (blkID b) \<noteq> None then known bc
                 else (known bc)(blkID b \<mapsto> b))"
  using assms AddVertex_facts [of "forrest bc" b] by (auto simp: AddBlock_def bc_ok_def bind_Some_conv)

lemma AddVote_frame [simp, frame_simps]: "forrest (snd (AddVote rng bc v)) = forrest bc"
  by (simp add: AddVote_def split: prod.split)

lemma CommitBlock_facts:
  assumes ok: "bc_ok bc" and d: "descending (known bc)" and c: "CommitBlock bc x view = Some ((cs, fs, err), bc')"
  shows "bc_ok bc' \<and> lowest bc \<le> lowest bc' \<and> sorted_wrt (\<lambda>c d. Level d < Level c) cs \<and>
    (\<forall>c\<in>set cs. lowest bc < Level c \<and> Level c \<le> lowest bc') \<and>
    (\<forall>y. known bc' y = None \<or> known bc' y = known bc y)"
proof (cases "known bc x")
  case None
  with assms show ?thesis by (auto simp: CommitBlock_def)
next
  case (Some b)
  from c Some obtain cs1 bc1 fs1 n1 err1 f where
    w: "commit_walk (bc\<lparr>highestComitted := blkView b\<rparr>) view b [] = Some (cs1, bc1)"
    and pr: "PruneUpToLevel (forrest bc1) (Level b) = Some ((fs1, n1, err1), f)"
    and f: "forrest bc' = f" and cs: "cs = [] \<or> cs = cs1"
    by (auto simp: CommitBlock_def Let_def bind_Some_conv Level_def split: if_splits)
  from commit_walk_sound [OF w] have a: "ancestry (known bc) (lowest bc) b cs1"
    and f1: "forrest bc1 = forrest bc" by auto
  have P: "forest_ok f \<and> LowestLevel f = max (lowest bc) (Level b) \<and>
      (\<forall>y. GetVertex f y = None \<or> GetVertex f y = known bc y)"
    using PruneUpToLevel_ok [OF _ pr] ok f1 by (simp add: bc_ok_def)
  show ?thesis
    using P f cs ancestry_above [OF a] ancestry_descends [OF d a Some] by (auto simp: bc_ok_def)
qed

lemma CommitBlock_bc_ok:
  assumes "bc_ok bc" and "CommitBlock bc x view = Some (r, bc')"
  shows "bc_ok bc'"
proof (cases "known bc x")
  case None
  with assms show ?thesis by (auto simp: CommitBlock_def)
next
  case (Some b)
  with assms(2) obtain cs1 bc1 r1 f where
    w: "commit_walk (bc\<lparr>highestComitted := blkView b\<rparr>) view b [] = Some (cs1, bc1)"
    and pr: "PruneUpToLevel (forrest bc1) (uint64 (blkView b)) = Some (r1, f)" and f: "forrest bc' = f"
    by (auto simp: CommitBlock_def Let_def bind_Some_conv split: if_splits)
  from commit_walk_sound [OF w] have "forrest bc1 = forrest bc" by auto
  with PruneUpToLevel_ok [OF _ pr] assms(1) f show ?thesis by (simp add: bc_ok_def)
qed

lemma CommitBlock_ancestry:
  assumes "known bc x = Some b" and "CommitBlock bc x view = Some ((cs, fs, None), bc')"
  shows "ancestry (known bc) (lowest bc) b cs"
proof -
  from assms obtain bc1 where "commit_walk (bc\<lparr>highestComitted := blkView b\<rparr>) view b [] = Some (cs, bc1)"
    by (auto simp: CommitBlock_def Let_def bind_Some_conv split: if_splits)
  from commit_walk_sound [OF this] show ?thesis by simp
qed

text \<open>The blocks committed together are returned from the newest to the oldest.\<close>

lemma CommitBlock_newest_first:
  assumes "descending (known bc)" and "known bc x = Some b" and "CommitBlock bc x view = Some ((cs, fs, None), bc')"
  shows "sorted_wrt (\<lambda>c d. Level d < Level c) cs"
  using ancestry_descends [OF assms(1) CommitBlock_ancestry [OF assms(2,3)] assms(2)] by simp

lemma bc_step_log_ok:
  assumes U: "parents_below U" and s: "log_ok U s" and e: "\<And>b. e = EvAdd b \<Longrightarrow> b \<in> U"
    and st: "bc_step rng s e = Some s'"
  shows "log_ok U s'"
proof -
  obtain bc log where bc: "s = (bc, log)" by (cases s)
  with s have ok: "bc_ok bc" and kn: "\<forall>x b. known bc x = Some b \<longrightarrow> b \<in> U"
    and srt: "sorted_wrt (\<lambda>c d. Level c < Level d) log" and le: "\<forall>c\<in>set log. Level c \<le> lowest bc"
    by (auto simp: log_ok_def)
  show ?thesis
  proof (cases e)
    case (EvAdd b)
    with st bc obtain bc1 where bc1: "AddBlock bc b = Some bc1" "s' = (bc1, log)" by (auto simp: bind_Some_conv)
    from AddBlock_facts [OF ok bc1(1)] bc1(2) kn srt le e [OF EvAdd] show ?thesis
      by (auto simp: log_ok_def split: if_splits)
  next
    case (EvVote v)
    with st bc have "s' = (snd (AddVote rng bc v), log)" by simp
    with ok kn srt le show ?thesis by (simp add: log_ok_def bc_ok_def)
  next
    case (EvCommit x view)
    with st bc obtain cs fs err bc1 where c: "CommitBlock bc x view = Some ((cs, fs, err), bc1)"
      "s' = (bc1, log @ rev cs)" by (auto simp: bind_Some_conv)
    from CommitBlock_facts [OF ok descending_parents_below [OF ok U kn] c(1)]
    have F: "bc_ok bc1" "lowest bc \<le> lowest bc1" "sorted_wrt (\<lambda>c d. Level d < Level c) cs"
      "\<forall>c\<in>set cs. lowest bc < Level c \<and> Level c \<le> lowest bc1"
      "\<forall>y. known bc1 y = None \<or> known bc1 y = known bc y" by auto
    have "\<forall>x b. known bc1 x = Some b \<longrightarrow> b \<in> U" using F(5) kn by (metis option.distinct(1))
    moreover have "sorted_wrt (\<lambda>c d. Level c < Level d) (log @ rev cs)"
      using srt le F(3,4) by (fastforce simp: sorted_wrt_append sorted_wrt_rev)
    moreover have "\<forall>c\<in>set (log @ rev cs). Level c \<le> lowest bc1"
      using le F(2,4) by (auto intro: order_trans)
    ultimately show ?thesis using F(1) c(2) by (simp add: log_ok_def)
  qed
qed

lemma bc_run_log_ok:
  assumes "parents_below U"
  shows "log_ok U s \<Longrightarrow> added es \<subseteq> U \<Longrightarrow> bc_run rng s es = Some s' \<Longrightarrow> log_ok U s'"
proof (induction es arbitrary: s)
  case (Cons e es)
  then obtain s1 where s1: "bc_step rng s e = Some s1" "bc_run rng s1 es = Some s'"
    by (auto simp: bind_Some_conv)
  have "log_ok U s1"
    using Cons.prems(2) by (intro bc_step_log_ok [OF assms Cons.prems(1) _ s1(1)]) (auto simp: added_def)
  moreover have "added es \<subseteq> U" using Cons.prems(2) by (auto simp: added_def)
  ultimately show ?case using Cons.IH s1(2) by blast
qed simp

lemma log_ok_New: "log_ok U (NewBlockchain n, [])"
  by (simp add: log_ok_def inv_intros) (simp add: NewBlockchain_def NewLevelledForest_def GetVertex_alt)

section \<open>Properties\<close>

lemma Level_sample [simp]: "0 \<le> v \<Longrightarrow> v < 2 ^ 64 \<Longrightarrow> Level (sample_block i v p qv) = nat v"
  by (simp add: Level_def uint64_nonneg)

lemma Parent_sample [simp]:
  "Parent (sample_block i v p qv) = Some (p, uint64 qv)"
  by (simp add: Parent_def)

fun AddBlocks :: "BlockChain \<Rightarrow> Block list \<Rightarrow> BlockChain option" where
  "AddBlocks bc [] = Some bc"
| "AddBlocks bc (b # bs) = do { bc1 \<leftarrow> AddBlock bc b; AddBlocks bc1 bs }"

lemma AddBlocks_forrest:
  "AddBlocks bc bs = Some bc' \<Longrightarrow> lf.insert_all (forrest bc) bs = Some (forrest bc')"
proof (induction bs arbitrary: bc)
  case (Cons b bs)
  then obtain f where "AddVertex (forrest bc) b = Some f" "AddBlocks (bc\<lparr>forrest := f\<rparr>) bs = Some bc'"
    by (auto simp: AddBlock_def bind_Some_conv)
  with Cons.IH [of "bc\<lparr>forrest := f\<rparr>"] show ?case by simp
qed simp

text \<open>Block lookup: after any sequence of insertions into a new chain, looking up an identifier returns the first
  inserted block with that identifier, and the not-found error exactly when there is none; \<open>Exists\<close> agrees.\<close>

theorem lookup_after_insertions:
  assumes "AddBlocks (NewBlockchain n) bs = Some bc"
  shows "GetBlockByID bc x =
      (case List.find (\<lambda>b. blkID b = x) bs of None \<Rightarrow> Inl ''the block does not exist'' | Some b \<Rightarrow> Inr b) \<and>
    (Exists bc x \<longleftrightarrow> x \<in> blkID ` set bs)"
proof -
  have "known bc x = List.find (\<lambda>b. blkID b = x) bs"
    using lf.insert_all_lookup [OF forest_ok_New, of bs "forrest bc" x] AddBlocks_forrest [OF assms]
    by (simp add: NewBlockchain_def) (simp add: NewLevelledForest_def GetVertex_alt)
  moreover have "List.find (\<lambda>b. blkID b = x) bs = None \<longleftrightarrow> x \<notin> blkID ` set bs"
    by (auto simp: find_None_iff)
  ultimately show ?thesis by (simp add: GetBlockByID_def Exists_def HasVertex_iff)
qed

definition chain3 :: "Block list" where
  "chain3 = [sample_block 1 1 0 0, sample_block 2 2 1 1, sample_block 3 3 2 2]"

definition chain3_forest :: LevelledForest where
  "chain3_forest =
     \<lparr>store = [\<lparr>vcId = 1, vcLevel = 1, vcChildren = [2], vcVertex = Some (sample_block 1 1 0 0)\<rparr>,
               \<lparr>vcId = 0, vcLevel = 0, vcChildren = [0], vcVertex = None\<rparr>,
               \<lparr>vcId = 2, vcLevel = 2, vcChildren = [3], vcVertex = Some (sample_block 2 2 1 1)\<rparr>,
               \<lparr>vcId = 3, vcLevel = 3, vcChildren = [], vcVertex = Some (sample_block 3 3 2 2)\<rparr>],
      vertices = [1 \<mapsto> 0, 0 \<mapsto> Suc 0, 2 \<mapsto> Suc (Suc 0), 3 \<mapsto> Suc (Suc (Suc 0))],
      verticesAtLevel = (\<lambda>l. [])(1 := [0], 0 := [Suc 0], 2 := [Suc (Suc 0)], 3 := [Suc (Suc (Suc 0))]),
      LowestLevel = 0\<rparr>"

lemma chain3_added: "\<exists>bc. AddBlocks (NewBlockchain 4) chain3 = Some bc \<and> forrest bc = chain3_forest"
  by (simp add: chain3_def chain3_forest_def AddBlock_def AddVertex_def VertexID_def NewBlockchain_def
      NewLevelledForest_def getOrCreateVertexContainer_def isEmptyContainer_def set_vertex_def
      registerWithParent_def add_child_def uint64_nonneg Let_def)

theorem lookup_after_insertions_witness:
  "\<exists>bc. AddBlocks (NewBlockchain 4) chain3 = Some bc \<and> GetBlockByID bc 2 = Inr (sample_block 2 2 1 1)"
proof -
  obtain bc where bc: "AddBlocks (NewBlockchain 4) chain3 = Some bc" using chain3_added by blast
  from lookup_after_insertions [OF bc, of 2] bc show ?thesis by (simp add: chain3_def)
qed


lemma chain3_known:
  "GetVertex chain3_forest x = Some b \<longleftrightarrow>
    x = 1 \<and> b = sample_block 1 1 0 0 \<or> x = 2 \<and> b = sample_block 2 2 1 1 \<or> x = 3 \<and> b = sample_block 3 3 2 2"
  by (auto simp: chain3_forest_def GetVertex_alt)

lemma chain3_tidy: "tidy chain3_forest"
  unfolding tidy_def descending_def
proof (intro conjI allI impI)
  fix x a b assume "vertices chain3_forest x = Some a" "vcVertex (store chain3_forest ! a) = Some b"
  then show "vcLevel (store chain3_forest ! a) = Level b"
    by (auto simp: chain3_forest_def split: if_splits)
next
  fix l show "length (verticesAtLevel chain3_forest l) \<le> 1" by (simp add: chain3_forest_def)
next
  fix x b assume "GetVertex chain3_forest x = Some b" then show "blkQC b \<noteq> None"
    by (auto simp: chain3_known)
next
  fix x b p assume "GetVertex chain3_forest x = Some b" "GetVertex chain3_forest (blkPrevID b) = Some p"
  then show "Level p < Level b" by (auto simp: chain3_known)
qed

theorem CommitBlock_splits_witness:
  "\<exists>bc. AddBlocks (NewBlockchain 4) chain3 = Some bc \<and>
     (\<exists>cs fs bc'. CommitBlock bc 3 9 = Some ((cs, fs, None), bc') \<and> lowest bc' = 3)"
proof -
  obtain bc where bc: "AddBlocks (NewBlockchain 4) chain3 = Some bc" "forrest bc = chain3_forest"
    using chain3_added by blast
  have ok: "bc_ok bc"
    using lf.insert_all_lookup [OF forest_ok_New] AddBlocks_forrest [OF bc(1)]
    by (auto simp: bc_ok_def NewBlockchain_def)
  have t: "tidy (forrest bc)" using bc(2) chain3_tidy by simp
  have b: "known bc 3 = Some (sample_block 3 3 2 2)" using bc(2) by (simp add: chain3_known)
  have "lowest bc < Level (sample_block 3 3 2 2)" using bc(2) by (simp add: chain3_forest_def)
  from CommitBlock_splits [OF ok t b this, of 9] bc(1) show ?thesis by auto
qed

text \<open>Committed log: whatever the sequence of insertions, votes and commits on a new chain, the blocks committed
  along it, oldest first, have strictly increasing levels, so no block and no level is committed twice.
  The one hypothesis is that an inserted block lies above the inserted block it names as parent.\<close>

theorem committed_log_increases:
  assumes "parents_below (added es)" and "bc_run rng (NewBlockchain n, []) es = Some (bc, log)"
  shows "sorted_wrt (\<lambda>c d. Level c < Level d) log \<and> distinct log \<and> (\<forall>c\<in>set log. Level c \<le> lowest bc)"
proof -
  have ok: "log_ok (added es) (bc, log)"
    using bc_run_log_ok [OF assms(1) log_ok_New _ assms(2)] by simp
  then have s: "sorted_wrt (\<lambda>c d. Level c < Level d) log" by (simp add: log_ok_def)
  then have "sorted_wrt (<) (map Level log)" by (simp add: sorted_wrt_map)
  then have "distinct log" by (simp add: strict_sorted_iff distinct_map)
  with ok s show ?thesis by (simp add: log_ok_def)
qed

lemma prune_levels_numeral:
  "prune_levels com l (numeral k) f forked n =
     (case prune_level com l (verticesAtLevel f l) f forked n of
        (f1, forked1, n1) \<Rightarrow>
          prune_levels com (Suc l) (pred_numeral k) (f1\<lparr>verticesAtLevel := (verticesAtLevel f1)(l := [])\<rparr>) forked1 n1)"
  by (simp add: numeral_eq_Suc)

lemmas chain_eval = prune_levels_numeral
  AddBlock_def AddVertex_def VertexID_def NewBlockchain_def NewLevelledForest_def
  getOrCreateVertexContainer_def isEmptyContainer_def set_vertex_def registerWithParent_def add_child_def
  uint64_nonneg Let_def CommitBlock_def GetVertex_alt commit_walk.simps committed_levels.simps
  PruneUpToLevel_def count_committed_def

lemma chain3_run:
  "\<exists>bc. bc_run sorted_list_of_set (NewBlockchain 4, []) (map EvAdd chain3 @ [EvCommit 1 2, EvCommit 3 4]) =
    Some (bc, chain3)"
  by (simp add: chain3_def chain_eval)

theorem committed_log_increases_witness:
  "\<exists>bc log. bc_run sorted_list_of_set (NewBlockchain 4, []) (map EvAdd chain3 @ [EvCommit 1 2, EvCommit 3 4]) =
     Some (bc, log) \<and> distinct log \<and> log = chain3"
proof -
  let ?es = "map EvAdd chain3 @ [EvCommit 1 2, EvCommit 3 4]"
  have U: "parents_below (added ?es)"
    by (auto simp: parents_below_def added_def chain3_def)
  obtain bc where bc: "bc_run sorted_list_of_set (NewBlockchain 4, []) ?es = Some (bc, chain3)"
    using chain3_run by blast
  from committed_log_increases [OF U bc] bc show ?thesis by blast
qed

text \<open>Forks: when two blocks share a level, the pruning code follows the first container of that level whether or
  not it is the ancestor.  In this run a committed block is returned as forked as well, and the two
  blocks of the abandoned branch are not.\<close>

theorem fork_misclassified:
  "\<exists>bc cs fs bc'. AddBlocks (NewBlockchain 4)
       [sample_block 1 1 0 0, sample_block 2 2 1 1, sample_block 3 3 1 1, sample_block 4 4 3 3,
        sample_block 5 4 2 2, sample_block 6 5 5 4] = Some bc \<and>
     CommitBlock bc 6 7 = Some ((cs, fs, None), bc') \<and>
     sample_block 2 2 1 1 \<in> set cs \<inter> set fs \<and>
     sample_block 3 3 1 1 \<notin> set cs \<union> set fs \<and> sample_block 4 4 3 3 \<notin> set cs \<union> set fs"
  by (simp add: chain_eval sample_block_eq)

text \<open>Children of an unknown block: \<open>GetChildrenBlocks\<close> does not return for an identifier the chain does not
  know: the missing container is a nil pointer, not the zero container its comment speaks of.\<close>

theorem children_of_unknown_panics:
  "GetChildrenBlocks (NewBlockchain n) x = None"
  by (simp add: GetChildrenBlocks_def GetChildren_def NewBlockchain_def NewLevelledForest_def)

end
