(* ===== verification/Pacemaker.thy ===== *)
theory Pacemaker
  imports Quorum
begin

text \<open>
  The pacemaker and its timeout controller (src/pacemaker/pacemaker.go, timeoutController.go,
  model.go).  The view channel is the list of the views sent on it.
\<close>

record TMO =
  tmoView :: View
  tmoNodeID :: NodeID
  tmoHighQC :: "QC option"

record TC =
  tcView :: View
  tcAggSig :: AggSig
  tcSignature :: Signature

record TimeoutController =
  tclN :: int
  timeouts :: "View \<rightharpoonup> (NodeID \<rightharpoonup> TMO)"

record Pacemaker =
  curView :: View
  newViewChan :: "View list"
  timeoutController :: TimeoutController

definition NewTC :: "View \<Rightarrow> (NodeID \<rightharpoonup> TMO) \<Rightarrow> TC" where
  "NewTC view requesters = \<lparr>tcView = view, tcAggSig = [], tcSignature = []\<rparr>"

definition NewTimeoutController :: "int \<Rightarrow> TimeoutController" where
  "NewTimeoutController n = \<lparr>tclN = n, timeouts = Map.empty\<rparr>"

definition timeouts_of :: "TimeoutController \<Rightarrow> View \<Rightarrow> (NodeID \<rightharpoonup> TMO)" where
  "timeouts_of tcl view = (case timeouts tcl view of None \<Rightarrow> Map.empty | Some m \<Rightarrow> m)"

definition tmo_total :: "TimeoutController \<Rightarrow> View \<Rightarrow> int" where
  "tmo_total tcl view = int (maplen (timeouts_of tcl view))"

definition tmo_superMajority :: "TimeoutController \<Rightarrow> View \<Rightarrow> bool" where
  "tmo_superMajority tcl view \<longleftrightarrow> tmo_total tcl view > go_quot (tclN tcl * 2) 3"

definition AddTmo :: "TimeoutController \<Rightarrow> TMO \<Rightarrow> (bool \<times> TC option) \<times> TimeoutController" where
  "AddTmo tcl tmo =
     (let v = tmoView tmo in
      if tmo_superMajority tcl v then ((False, None), tcl)
      else
        let t1 = (if timeouts tcl v = None then tcl\<lparr>timeouts := (timeouts tcl)(v \<mapsto> Map.empty)\<rparr> else tcl);
            t2 = t1\<lparr>timeouts := (timeouts t1)(v \<mapsto> (timeouts_of t1 v)(tmoNodeID tmo \<mapsto> tmo))\<rparr>
        in if tmo_superMajority t2 v then ((True, Some (NewTC v (timeouts_of t2 v))), t2)
           else ((False, None), t2))"

definition NewPacemaker :: "int \<Rightarrow> Pacemaker" where
  "NewPacemaker n = \<lparr>curView = 0, newViewChan = [], timeoutController = NewTimeoutController n\<rparr>"

definition ProcessRemoteTmo :: "Pacemaker \<Rightarrow> TMO \<Rightarrow> (bool \<times> TC option) \<times> Pacemaker" where
  "ProcessRemoteTmo p tmo =
     (if tmoView tmo < curView p then ((False, None), p)
      else case AddTmo (timeoutController p) tmo of
        (r, tcl) \<Rightarrow> (r, p\<lparr>timeoutController := tcl\<rparr>))"

definition AdvanceView :: "Pacemaker \<Rightarrow> View \<Rightarrow> Pacemaker" where
  "AdvanceView p view =
     (if view < curView p then p
      else p\<lparr>curView := i64 (view + 1), newViewChan := newViewChan p @ [i64 (view + 1)]\<rparr>)"

definition GetCurView :: "Pacemaker \<Rightarrow> View" where
  "GetCurView p = curView p"

definition GetTimerForView :: "int \<Rightarrow> int" where
  "GetTimerForView timeout = i64 (timeout * 1000000)"

section \<open>The timeout controller is a threshold collector\<close>

lemma tmo_superMajority_threshold:
  "tmo_superMajority t v \<longleftrightarrow> int (maplen (timeouts_of t v)) > threshold (tclN t)"
  by (simp add: tmo_superMajority_def tmo_total_def threshold_def)

lemma AddTmo_full: "tmo_superMajority t (tmoView m) \<Longrightarrow> AddTmo t m = ((False, None), t)"
  by (simp add: AddTmo_def)

lemma AddTmo_state:
  "\<not> tmo_superMajority t (tmoView m) \<Longrightarrow> snd (AddTmo t m) =
    t\<lparr>timeouts := (timeouts t)(tmoView m \<mapsto> (timeouts_of t (tmoView m))(tmoNodeID m \<mapsto> m))\<rparr>"
  by (auto simp: AddTmo_def Let_def timeouts_of_def)

lemma AddTmo_answer:
  assumes "\<not> tmo_superMajority t (tmoView m)"
  shows "fst (AddTmo t m) =
    (if tmo_superMajority (snd (AddTmo t m)) (tmoView m)
     then (True, Some \<lparr>tcView = tmoView m, tcAggSig = [], tcSignature = []\<rparr>) else (False, None))"
  unfolding AddTmo_state [OF assms]
  using assms by (auto simp: AddTmo_def Let_def timeouts_of_def NewTC_def)

definition tmo_step :: "TimeoutController \<Rightarrow> TMO \<Rightarrow> bool \<times> TimeoutController" where
  "tmo_step t m = (fst (fst (AddTmo t m)), snd (AddTmo t m))"

interpretation tq: threshold_collector timeouts_of tclN tmoView tmoNodeID tmo_step
proof
  fix t :: TimeoutController and m :: TMO
  show "tclN (snd (tmo_step t m)) = tclN t"
    by (cases "tmo_superMajority t (tmoView m)") (simp_all add: tmo_step_def AddTmo_full AddTmo_state)
next
  fix t :: TimeoutController and m :: TMO
  assume "int (maplen (timeouts_of t (tmoView m))) > threshold (tclN t)"
  then show "tmo_step t m = (False, t)"
    by (simp add: tmo_step_def AddTmo_full tmo_superMajority_threshold)
next
  fix t :: TimeoutController and m :: TMO
  assume "\<not> int (maplen (timeouts_of t (tmoView m))) > threshold (tclN t)"
  then have n: "\<not> tmo_superMajority t (tmoView m)" by (simp add: tmo_superMajority_threshold)
  then show "timeouts_of (snd (tmo_step t m)) =
      (timeouts_of t)(tmoView m := (timeouts_of t (tmoView m))(tmoNodeID m \<mapsto> m))"
    by (auto simp: tmo_step_def AddTmo_state timeouts_of_def fun_eq_iff)
  from n show "fst (tmo_step t m) \<longleftrightarrow>
      int (maplen ((timeouts_of t (tmoView m))(tmoNodeID m \<mapsto> m))) > threshold (tclN t)"
    by (simp add: tmo_step_def AddTmo_answer AddTmo_state tmo_superMajority_threshold timeouts_of_def)
qed

section \<open>Sequences of pacemaker events\<close>

datatype pm_event = RemoteTmo TMO | Advance View

fun pm_step :: "Pacemaker \<Rightarrow> pm_event \<Rightarrow> (bool \<times> TC option) \<times> Pacemaker" where
  "pm_step p (RemoteTmo tmo) = ProcessRemoteTmo p tmo"
| "pm_step p (Advance v) = ((False, None), AdvanceView p v)"

fun pm_run :: "Pacemaker \<Rightarrow> pm_event list \<Rightarrow> (bool \<times> TC option) list \<times> Pacemaker" where
  "pm_run p [] = ([], p)"
| "pm_run p (e # es) = (let (r, p1) = pm_step p e; (rs, p2) = pm_run p1 es in (r # rs, p2))"

text \<open>Views below the largest one: the only views whose successor does not wrap.\<close>

fun event_ok :: "pm_event \<Rightarrow> bool" where
  "event_ok (RemoteTmo tmo) = True"
| "event_ok (Advance v) = (in_i64 v \<and> v < 2 ^ 63 - 1)"

text \<open>The channel carries exactly the views entered, in increasing order, the last being current.\<close>

definition pm_ok :: "Pacemaker \<Rightarrow> bool" where
  "pm_ok p \<longleftrightarrow> in_i64 (curView p) \<and> sorted_wrt (<) (newViewChan p) \<and>
     (\<forall>v\<in>set (newViewChan p). v \<le> curView p)"

lemma AdvanceView_cases:
  assumes "event_ok (Advance v)"
  shows "AdvanceView p v = (if v < curView p then p
    else p\<lparr>curView := v + 1, newViewChan := newViewChan p @ [v + 1]\<rparr>)"
proof -
  have "i64 (v + 1) = v + 1" using assms by (intro i64_succ) auto
  then show ?thesis by (simp add: AdvanceView_def)
qed

lemma pm_step_view_mono: "event_ok e \<Longrightarrow> curView p \<le> curView (snd (pm_step p e))"
  by (cases e) (auto simp: AdvanceView_cases ProcessRemoteTmo_def split: prod.splits)

lemma pm_step_ok [inv_intros]:
  assumes "event_ok e" and "pm_ok p"
  shows "pm_ok (snd (pm_step p e))"
proof (cases e)
  case (RemoteTmo tmo)
  with assms show ?thesis by (auto simp: ProcessRemoteTmo_def pm_ok_def split: prod.splits)
next
  case (Advance v)
  with assms show ?thesis
    by (auto simp: AdvanceView_cases pm_ok_def sorted_wrt_append in_i64_def)
qed

lemma pm_run_ok:
  "(\<forall>e\<in>set es. event_ok e) \<Longrightarrow> pm_ok p \<Longrightarrow>
    pm_ok (snd (pm_run p es)) \<and> curView p \<le> curView (snd (pm_run p es))"
proof (induction es arbitrary: p)
  case (Cons e es)
  have "pm_ok (snd (pm_step p e))" "curView p \<le> curView (snd (pm_step p e))"
    using Cons.prems by (auto intro: inv_intros pm_step_view_mono)
  with Cons show ?case by (fastforce simp: Let_def case_prod_beta)
qed simp

lemma pm_ok_NewPacemaker: "pm_ok (NewPacemaker n)"
  by (simp add: pm_ok_def NewPacemaker_def in_i64_def)

text \<open>A remote timeout never moves the view, and only timeouts of the current or later views count.\<close>

lemma ProcessRemoteTmo_view: "curView (snd (ProcessRemoteTmo p tmo)) = curView p"
  by (auto simp: ProcessRemoteTmo_def split: prod.splits)

section \<open>Properties\<close>

text \<open>C10 (view progress): along any sequence of remote timeouts and view advances below the largest representable view,
  the current view never decreases, stays in range, and the views sent to the view channel are
  strictly increasing and never above the current view.\<close>

theorem pacemaker_views_increase:
  assumes "\<forall>e\<in>set es. event_ok e" and "\<forall>e\<in>set es'. event_ok e"
  shows "let p = snd (pm_run (NewPacemaker n) es); p' = snd (pm_run p es') in
    curView p \<le> curView p' \<and> in_i64 (curView p') \<and> sorted_wrt (<) (newViewChan p') \<and>
    (\<forall>v\<in>set (newViewChan p'). v \<le> curView p')"
proof -
  have "pm_ok (snd (pm_run (NewPacemaker n) es))"
    using pm_run_ok [OF assms(1) pm_ok_NewPacemaker] by simp
  from pm_run_ok [OF assms(2) this] show ?thesis by (simp add: pm_ok_def Let_def)
qed

theorem pacemaker_views_increase_witness:
  "curView (snd (pm_run (NewPacemaker 4) [Advance 3, Advance 1, Advance 7])) = 8 \<and>
   sorted_wrt (<) (newViewChan (snd (pm_run (NewPacemaker 4) [Advance 3, Advance 1, Advance 7])))"
proof -
  have "\<forall>e\<in>set [Advance 3, Advance 1, Advance 7]. event_ok e" by (simp add: in_i64_def)
  from pacemaker_views_increase [of "[]", OF _ this, of 4] show ?thesis
    by (simp add: NewPacemaker_def AdvanceView_def i64_def Let_def)
qed

text \<open>View wrap-around: \<open>AdvanceView\<close> has no guard at the largest view: its successor is the smallest
  representable view, after which every view, past ones included, is accepted again.\<close>

theorem AdvanceView_wraps_at_max:
  "curView (AdvanceView (NewPacemaker n) (2 ^ 63 - 1)) = - (2 ^ 63)"
  by (simp add: AdvanceView_def NewPacemaker_def i64_def)

fun TmoRun :: "TimeoutController \<Rightarrow> TMO list \<Rightarrow> (bool \<times> TC option) list \<times> TimeoutController" where
  "TmoRun t [] = ([], t)"
| "TmoRun t (m # ms) = (let (r, t1) = AddTmo t m; (rs, t2) = TmoRun t1 ms in (r # rs, t2))"

lemma TmoRun_run:
  "map fst (fst (TmoRun t ms)) = fst (tq.run t ms) \<and> length (fst (TmoRun t ms)) = length ms"
  by (induction ms arbitrary: t) (simp_all add: Let_def case_prod_beta tmo_step_def)

lemma TmoRun_run_nth: "i < length ms \<Longrightarrow> fst (fst (TmoRun t ms) ! i) = fst (tq.run t ms) ! i"
  using TmoRun_run [of t ms] by (metis nth_map)

text \<open>Timeout certificates: the timeout controller issues a certificate for a view exactly at the timeout message that
  lifts the distinct senders for that view above two thirds of the network, so once per view at most.\<close>

theorem timeout_certificate_exactly_at_threshold:
  assumes "0 \<le> n" and "i < length ms"
  shows "(fst (fst (TmoRun (NewTimeoutController n) ms) ! i) \<longleftrightarrow>
      int (card (senders tmoView tmoNodeID (tmoView (ms ! i)) (take i ms))) \<le> n * 2 div 3 \<and>
      int (card (senders tmoView tmoNodeID (tmoView (ms ! i)) (take (Suc i) ms))) > n * 2 div 3) \<and>
    (\<forall>j < length ms. fst (fst (TmoRun (NewTimeoutController n) ms) ! i) \<longrightarrow>
       fst (fst (TmoRun (NewTimeoutController n) ms) ! j) \<longrightarrow>
       tmoView (ms ! i) = tmoView (ms ! j) \<longrightarrow> i = j)"
proof -
  have e: "timeouts_of (NewTimeoutController n) v = Map.empty" "tclN (NewTimeoutController n) = n" for v
    by (simp_all add: NewTimeoutController_def timeouts_of_def)
  have t: "0 \<le> threshold (tclN (NewTimeoutController n))" using assms(1) by (simp add: e threshold_nonneg)
  show ?thesis
  proof (intro conjI allI impI)
    show "fst (fst (TmoRun (NewTimeoutController n) ms) ! i) \<longleftrightarrow>
        int (card (senders tmoView tmoNodeID (tmoView (ms ! i)) (take i ms))) \<le> n * 2 div 3 \<and>
        int (card (senders tmoView tmoNodeID (tmoView (ms ! i)) (take (Suc i) ms))) > n * 2 div 3"
      using tq.run_nth [OF e(1) t assms(2)] assms by (simp add: e threshold_nonneg TmoRun_run_nth)
  next
    fix j assume "j < length ms" "fst (fst (TmoRun (NewTimeoutController n) ms) ! i)"
      "fst (fst (TmoRun (NewTimeoutController n) ms) ! j)" "tmoView (ms ! i) = tmoView (ms ! j)"
    then show "i = j"
      using tq.run_once [OF e(1) t assms(2)] assms(2) by (simp add: TmoRun_run_nth)
  qed
qed

theorem timeout_certificate_exactly_at_threshold_witness:
  "let ms = map (\<lambda>x. \<lparr>tmoView = 6, tmoNodeID = x, tmoHighQC = None\<rparr>) [''1'', ''2'', ''3'', ''4''] in
     fst (fst (TmoRun (NewTimeoutController 4) ms) ! 2)"
proof -
  let ?ms = "map (\<lambda>x. \<lparr>tmoView = 6, tmoNodeID = x, tmoHighQC = None\<rparr>) [''1'', ''2'', ''3'', ''4'']"
  have "senders tmoView tmoNodeID 6 (take 2 ?ms) = {''1'', ''2''}"
    "senders tmoView tmoNodeID 6 (take 3 ?ms) = {''1'', ''2'', ''3''}"
    by (simp_all add: senders_Cons)
  with timeout_certificate_exactly_at_threshold [of 4 2 ?ms] show ?thesis
    by (simp del: TmoRun.simps)
qed

end
