(* ===== verification/Safety.thy ===== *)
theory Safety
  imports Blockchain Pacemaker
begin

text \<open>
  The interface between a replica and its consensus protocol (src/replica/safety.go).

  \<open>Safety\<close> holds the handlers of a protocol over its state; a handler that panics or never returns is
  \<open>None\<close>.  The locale \<open>safety\<close> states what the replica relies on: a protocol's view never goes back, and
  the blocks it hands over for commitment are only ever appended, at most one per level.  The protocol
  theories interpret it with their own handlers.
\<close>

record 's Safety =
  sfProcessBlock :: "'s \<Rightarrow> Block \<Rightarrow> (error option \<times> 's) option"
  sfProcessVote :: "'s \<Rightarrow> Vote \<Rightarrow> 's option"
  sfProcessRemoteTmo :: "'s \<Rightarrow> TMO \<Rightarrow> 's option"
  sfProcessLocalTmo :: "'s \<Rightarrow> View \<Rightarrow> 's option"

datatype sf_event = SfBlock Block | SfVote Vote | SfTmo TMO | SfLocal View

fun sf_step :: "'s Safety \<Rightarrow> 's \<Rightarrow> sf_event \<Rightarrow> 's option" where
  "sf_step sf s (SfBlock b) = do { (err, s1) \<leftarrow> sfProcessBlock sf s b; Some s1 }"
| "sf_step sf s (SfVote v) = sfProcessVote sf s v"
| "sf_step sf s (SfTmo t) = sfProcessRemoteTmo sf s t"
| "sf_step sf s (SfLocal v) = sfProcessLocalTmo sf s v"

fun sf_run :: "'s Safety \<Rightarrow> 's \<Rightarrow> sf_event list \<Rightarrow> 's option" where
  "sf_run sf s [] = Some s"
| "sf_run sf s (ev # evs) = do { s1 \<leftarrow> sf_step sf s ev; sf_run sf s1 evs }"

lemma sf_run_append: "sf_run sf s (xs @ ys) = do { s1 \<leftarrow> sf_run sf s xs; sf_run sf s1 ys }"
  by (induction xs arbitrary: s) (auto simp: bind_assoc)

text \<open>\<open>grows\<close>: a later log extends an earlier one.\<close>

definition grows :: "'a list \<Rightarrow> 'a list \<Rightarrow> bool" where
  "grows xs ys \<longleftrightarrow> (\<exists>zs. ys = xs @ zs)"

lemma grows_refl [simp, intro]: "grows xs xs"
  by (simp add: grows_def)

lemma grows_append [simp, intro]: "grows xs (xs @ ys)"
  by (simp add: grows_def)

lemma grows_trans [trans]: "grows xs ys \<Longrightarrow> grows ys zs \<Longrightarrow> grows xs zs"
  by (auto simp: grows_def)

locale safety =
  fixes sf :: "'s Safety"
    and ok :: "'s \<Rightarrow> bool"
    and legal :: "sf_event \<Rightarrow> bool"
    and view :: "'s \<Rightarrow> View"
    and log :: "'s \<Rightarrow> Block list"
  assumes step_ok: "ok s \<Longrightarrow> legal ev \<Longrightarrow> sf_step sf s ev = Some s' \<Longrightarrow> ok s'"
    and step_view: "ok s \<Longrightarrow> legal ev \<Longrightarrow> sf_step sf s ev = Some s' \<Longrightarrow> view s \<le> view s'"
    and step_log: "ok s \<Longrightarrow> legal ev \<Longrightarrow> sf_step sf s ev = Some s' \<Longrightarrow> grows (log s) (log s')"
    and ok_log: "ok s \<Longrightarrow> distinct (map Level (log s))"
begin

lemma run_ok:
  assumes "ok s" and "list_all legal evs" and "sf_run sf s evs = Some s'"
  shows "ok s' \<and> view s \<le> view s' \<and> grows (log s) (log s')"
  using assms
proof (induction evs arbitrary: s)
  case Nil
  then show ?case by simp
next
  case (Cons ev evs)
  then obtain s1 where s1: "sf_step sf s ev = Some s1" and r: "sf_run sf s1 evs = Some s'"
    by (auto simp: bind_Some_conv)
  have "legal ev" using Cons.prems(2) by simp
  from step_ok [OF Cons.prems(1) this s1] step_view [OF Cons.prems(1) this s1] step_log [OF Cons.prems(1) this s1]
  have 1: "ok s1" "view s \<le> view s1" "grows (log s) (log s1)" .
  from Cons.IH [OF 1(1) _ r] Cons.prems(2) have "ok s' \<and> view s1 \<le> view s' \<and> grows (log s1) (log s')" by simp
  with 1 show ?case using grows_trans order_trans by blast
qed

lemma run_log_distinct:
  assumes "ok s" and "list_all legal evs" and "sf_run sf s evs = Some s'"
  shows "distinct (map Level (log s'))"
  using run_ok [OF assms] ok_log by blast

text \<open>Two commits at one level are the same block, whenever they are observed.\<close>

lemma run_agrees:
  assumes "ok s" and "list_all legal (xs @ ys)" and "sf_run sf s xs = Some s1" and "sf_run sf s1 ys = Some s2"
    and "b \<in> set (log s1)" and "c \<in> set (log s2)" and "Level b = Level c"
  shows "b = c"
proof -
  from run_ok [OF assms(1) _ assms(3)] assms(2) have 1: "ok s1" by simp
  from run_ok [OF 1 _ assms(4)] assms(2) have g: "grows (log s1) (log s2)" and o2: "ok s2" by auto
  then have "b \<in> set (log s2)" using assms(5) by (auto simp: grows_def)
  with ok_log [OF o2] assms(6,7) show ?thesis by (auto simp: distinct_map dest: inj_onD)
qed

end

end
