(* ===== verification/Election.thy ===== *)
theory Election
  imports Block
begin

text \<open>
  Leader election (src/election/election.go, rotation.go, static.go).  SHA-1 is the argument
  \<open>sha1\<close>.  The interface of election.go is a locale whose law is the agreement of its two methods
  on the members of the network; both implementations are interpretations.
\<close>

record Rotation =
  peerNo :: int

record Static =
  master :: NodeID

definition NewRotation :: "int \<Rightarrow> Rotation" where
  "NewRotation n = \<lparr>peerNo = n\<rparr>"

definition NewStatic :: "NodeID \<Rightarrow> Static" where
  "NewStatic m = \<lparr>master = m\<rparr>"

text \<open>\<open>binary.BigEndian.Uint64\<close> reads eight bytes and panics on a shorter slice.\<close>

definition BigEndian_Uint64 :: "Bytes \<Rightarrow> nat option" where
  "BigEndian_Uint64 bs =
     (if length bs < 8 then None
      else Some (foldl (\<lambda>acc b. acc * 256 + unat b) 0 (take 8 bs)))"

definition ascii_bytes :: "string \<Rightarrow> Bytes" where
  "ascii_bytes s = map (\<lambda>c. of_nat (of_char c)) s"

text \<open>The remainder by \<open>uint64(r.peerNo)\<close> panics when that is zero.\<close>

definition leader_index :: "(Bytes \<Rightarrow> Bytes) \<Rightarrow> Rotation \<Rightarrow> View \<Rightarrow> nat option" where
  "leader_index sha1 r view =
     do { data \<leftarrow> BigEndian_Uint64 (sha1 (ascii_bytes (Itoa (i64 (view + 1)))));
          if uint64 (peerNo r) = 0 then None else Some (data mod uint64 (peerNo r)) }"

definition RotationIsLeader :: "(Bytes \<Rightarrow> Bytes) \<Rightarrow> Rotation \<Rightarrow> NodeID \<Rightarrow> View \<Rightarrow> bool option" where
  "RotationIsLeader sha1 r nid view =
     (if view \<le> 3 then
        (if Node nid < peerNo r then Some False else Some True)
      else do { d \<leftarrow> leader_index sha1 r view; Some (d = uint64 (Node nid - 1)) })"

definition RotationFindLeaderFor :: "(Bytes \<Rightarrow> Bytes) \<Rightarrow> Rotation \<Rightarrow> View \<Rightarrow> NodeID option" where
  "RotationFindLeaderFor sha1 r view =
     (if view \<le> 3 then Some (NewNodeID (peerNo r))
      else do { d \<leftarrow> leader_index sha1 r view; Some (NewNodeID (i64 (int (d + 1)))) })"

definition StaticIsLeader :: "Static \<Rightarrow> NodeID \<Rightarrow> View \<Rightarrow> bool option" where
  "StaticIsLeader st nid view = Some (nid = master st)"

definition StaticFindLeaderFor :: "Static \<Rightarrow> View \<Rightarrow> NodeID option" where
  "StaticFindLeaderFor st view = Some (master st)"

section \<open>The interface\<close>

locale election =
  fixes isLeader :: "'e \<Rightarrow> NodeID \<Rightarrow> View \<Rightarrow> bool option"
    and findLeaderFor :: "'e \<Rightarrow> View \<Rightarrow> NodeID option"
    and valid :: "'e \<Rightarrow> bool"
    and members :: "'e \<Rightarrow> NodeID set"
  assumes leader_exists: "valid e \<Longrightarrow> \<exists>l. findLeaderFor e v = Some l \<and> l \<in> members e"
    and leader_agrees: "valid e \<Longrightarrow> findLeaderFor e v = Some l \<Longrightarrow> x \<in> members e \<Longrightarrow>
      isLeader e x v = Some (x = l)"
begin

lemma unique_leader:
  assumes "valid e"
  shows "\<exists>!l. l \<in> members e \<and> isLeader e l v = Some True"
proof -
  obtain l where l: "findLeaderFor e v = Some l" "l \<in> members e" using leader_exists assms by blast
  then show ?thesis using leader_agrees [OF assms l(1)] by (intro ex1I [of _ l]) auto
qed

lemma found_is_leader: "valid e \<Longrightarrow> findLeaderFor e v = Some l \<Longrightarrow> isLeader e l v = Some True"
  using leader_exists [of e v] leader_agrees [of e v l l] by auto

end

interpretation sel: election StaticIsLeader StaticFindLeaderFor "\<lambda>st. True" "\<lambda>st. UNIV"
  by unfold_locales (auto simp: StaticIsLeader_def StaticFindLeaderFor_def)

definition rotation_valid :: "Rotation \<Rightarrow> bool" where
  "rotation_valid r \<longleftrightarrow> 0 < peerNo r \<and> peerNo r < 2 ^ 63"

definition rotation_members :: "Rotation \<Rightarrow> NodeID set" where
  "rotation_members r = NewNodeID ` {1 .. peerNo r}"

lemma leader_index_ok:
  assumes "\<And>x. length (sha1 x) = 20" and "rotation_valid r"
  obtains d where "leader_index sha1 r view = Some d" and "int d < peerNo r"
proof -
  let ?bs = "sha1 (ascii_bytes (Itoa (i64 (view + 1))))"
  obtain w where w: "BigEndian_Uint64 ?bs = Some w" by (simp add: BigEndian_Uint64_def assms(1))
  have u: "uint64 (peerNo r) = nat (peerNo r)" using assms(2) by (simp add: rotation_valid_def uint64_nonneg)
  have pos: "0 < nat (peerNo r)" using assms(2) by (simp add: rotation_valid_def)
  with w u have "leader_index sha1 r view = Some (w mod nat (peerNo r))"
    by (simp add: leader_index_def)
  moreover have "int (w mod nat (peerNo r)) < peerNo r"
    using mod_less_divisor [OF pos, of w] assms(2) by (simp add: rotation_valid_def zless_nat_eq_int_zless)
  ultimately show ?thesis by (rule that)
qed

lemma rotation_leader:
  assumes len: "\<And>x. length (sha1 x) = 20" and "rotation_valid r"
  shows "\<exists>v. 1 \<le> v \<and> v \<le> peerNo r \<and>
    RotationFindLeaderFor sha1 r view = Some (NewNodeID v) \<and>
    (\<forall>x. 1 \<le> x \<and> x \<le> peerNo r \<longrightarrow>
      RotationIsLeader sha1 r (NewNodeID x) view = Some (x = v))"
proof (cases "view \<le> 3")
  case True
  with assms show ?thesis
    by (intro exI [of _ "peerNo r"])
       (auto simp: RotationFindLeaderFor_def RotationIsLeader_def rotation_valid_def)
next
  case False
  obtain d where d: "leader_index sha1 r view = Some d" "int d < peerNo r"
    using leader_index_ok [OF assms] .
  have "i64 (int (d + 1)) = int d + 1"
    using d(2) assms by (subst i64_id) (auto simp: rotation_valid_def in_i64_def)
  moreover have "d = uint64 (Node (NewNodeID x) - 1) \<longleftrightarrow> x = int d + 1"
    if "1 \<le> x" "x \<le> peerNo r" for x
    using that assms(2) by (auto simp: rotation_valid_def uint64_nonneg)
  ultimately show ?thesis
    using False d by (intro exI [of _ "int d + 1"])
      (auto simp: RotationFindLeaderFor_def RotationIsLeader_def)
qed

interpretation rel: election
  "\<lambda>(sha1, r). RotationIsLeader sha1 r" "\<lambda>(sha1, r). RotationFindLeaderFor sha1 r"
  "\<lambda>(sha1, r). (\<forall>x. length (sha1 x) = 20) \<and> rotation_valid r" "\<lambda>(sha1, r). rotation_members r"
proof (unfold_locales, goal_cases)
  case (1 e view)
  then show ?case
    using rotation_leader [where ?sha1.0 = "fst e" and r = "snd e" and view = view] by (cases e) (auto simp: rotation_members_def)
next
  case (2 e view l x)
  obtain sha1 r where e: "e = (sha1, r)" by (cases e)
  with 2 have len: "\<And>x. length (sha1 x) = 20" and v: "rotation_valid r" by auto
  obtain a where a: "1 \<le> a" "a \<le> peerNo r" "l = NewNodeID a"
    "\<And>x. 1 \<le> x \<Longrightarrow> x \<le> peerNo r \<Longrightarrow> RotationIsLeader sha1 r (NewNodeID x) view = Some (x = a)"
    using rotation_leader [where ?sha1.0 = sha1 and r = r and view = view] len v 2(2) e by auto
  obtain b where b: "1 \<le> b" "b \<le> peerNo r" "x = NewNodeID b"
    using 2(3) e by (auto simp: rotation_members_def)
  have "NewNodeID b = NewNodeID a \<longleftrightarrow> b = a"
    using NewNodeID_inj [of b a] a b v by (auto simp: rotation_valid_def)
  then show ?case using a b e by simp
qed

text \<open>One leader per view: for every view, the rotation elects exactly one of the replicas 1 to n, \<open>FindLeaderFor\<close>
  names it, and \<open>IsLeader\<close> is true of it and of no other replica.  SHA-1 enters by its digest length only.\<close>

theorem rotation_elects_one_leader:
  assumes "\<forall>x. length (sha1 x) = 20" and "0 < n" and "n < 2 ^ 63"
  shows "\<exists>l. RotationFindLeaderFor sha1 (NewRotation n) view = Some l \<and> l \<in> NewNodeID ` {1 .. n} \<and>
    (\<forall>x \<in> NewNodeID ` {1 .. n}. RotationIsLeader sha1 (NewRotation n) x view = Some (x = l))"
proof -
  let ?e = "(sha1, NewRotation n)"
  have v: "case ?e of (sha1, r) \<Rightarrow> (\<forall>x. length (sha1 x) = 20) \<and> rotation_valid r"
    using assms by (simp add: rotation_valid_def NewRotation_def)
  from rel.leader_exists [OF v, of view] rel.leader_agrees [OF v, of view] show ?thesis
    by (fastforce simp: rotation_members_def NewRotation_def)
qed

theorem rotation_elects_one_leader_witness:
  "\<exists>l. RotationFindLeaderFor (\<lambda>x. replicate 20 3) (NewRotation 4) 9 = Some l \<and> l \<in> NewNodeID ` {1 .. 4}"
  using rotation_elects_one_leader [of "\<lambda>x. replicate 20 3" 4 9] by auto

end
