(* ===== verification/HotStuff.thy ===== *)
theory HotStuff
  imports Safety Election
begin

text \<open>
  The HotStuff replica logic (src/hotstuff/hotstuff.go) behind the interface of
  src/replica/safety.go.

  \<open>HsEnv\<close> holds what a replica is built from: its identity, whether it is configured as Byzantine
  and with which strategy, the keys, the election, the order in which the runtime ranges over a
  map, and the clock reading stored in a vote before it is sent.  The channels \<open>committedBlocks\<close> and
  \<open>forkedBlocks\<close> are the lists of the blocks sent on them, and \<open>outbox\<close> the list of messages sent.
  Certificates are values: the one write through a shared certificate, in the attack branch of
  \<open>forkChoice\<close>, is written back to \<open>highQC\<close> only.
\<close>

section \<open>State\<close>

definition FORK :: string where "FORK = ''fork''"

datatype hs_msg = MsgVote NodeID Vote | MsgTMO TMO

record HsEnv =
  hsID :: NodeID
  hsIsByz :: bool
  hsStrategy :: string
  hsKeys :: KeyRing
  hsHash :: HashEnv
  hsIsLeader :: "NodeID \<Rightarrow> View \<Rightarrow> bool option"
  hsFindLeaderFor :: "View \<Rightarrow> NodeID option"
  hsRange :: "NodeID set \<Rightarrow> NodeID list"
  hsClock :: "Vote \<Rightarrow> Time"

record HotStuff =
  pm :: Pacemaker
  lastVotedView :: View
  preferredView :: View
  highQC :: QC
  bc :: BlockChain
  committedBlocks :: "Block list"
  forkedBlocks :: "Block list"
  bufferedQCs :: "Identifier \<rightharpoonup> QC"
  bufferedBlocks :: "View \<rightharpoonup> Block"
  outbox :: "hs_msg list"

definition zeroQC :: QC where
  "zeroQC = \<lparr>qcLeader = [], qcView = 0, qcBlockID = 0, qcSigners = [], qcAggSig = [], qcSignature = []\<rparr>"

definition NewHotStuff :: "int \<Rightarrow> Pacemaker \<Rightarrow> HotStuff" where
  "NewHotStuff n p =
     \<lparr>pm = p, lastVotedView = 0, preferredView = 0, highQC = zeroQC, bc = NewBlockchain n,
      committedBlocks = [], forkedBlocks = [], bufferedQCs = Map.empty, bufferedBlocks = Map.empty,
      outbox = []\<rparr>"

section \<open>Rules\<close>

definition GetHighQC :: "HotStuff \<Rightarrow> QC" where
  "GetHighQC hs = highQC hs"

definition updateHighQC :: "HotStuff \<Rightarrow> QC \<Rightarrow> HotStuff" where
  "updateHighQC hs qc = (if qcView qc > qcView (highQC hs) then hs\<lparr>highQC := qc\<rparr> else hs)"

definition updateLastVotedView :: "HotStuff \<Rightarrow> View \<Rightarrow> error option \<times> HotStuff" where
  "updateLastVotedView hs targetView =
     (if targetView < lastVotedView hs then (Some ''target view is lower than the last voted view'', hs)
      else (None, hs\<lparr>lastVotedView := targetView\<rparr>))"

definition updatePreferredView :: "HotStuff \<Rightarrow> QC \<Rightarrow> (error option \<times> HotStuff) option" where
  "updatePreferredView hs qc =
     (if qcView qc \<le> 2 then Some (None, hs)
      else case GetBlockByID (bc hs) (qcBlockID qc) of
        Inl e \<Rightarrow> Some (Some ''cannot update preferred view'', hs)
      | Inr _ \<Rightarrow>
          do { r \<leftarrow> GetParentBlock (bc hs) (qcBlockID qc);
               case r of
                 Inl e \<Rightarrow> Some (Some ''cannot update preferred view'', hs)
               | Inr grandParentBlock \<Rightarrow>
                   if blkView grandParentBlock > preferredView hs
                   then Some (None, hs\<lparr>preferredView := blkView grandParentBlock\<rparr>)
                   else Some (None, hs) })"

definition votingRule :: "HotStuff \<Rightarrow> Block \<Rightarrow> (error + bool) option" where
  "votingRule hs block =
     (if blkView block \<le> 2 then Some (Inr True)
      else do { r \<leftarrow> GetParentBlock (bc hs) (blkID block);
                case r of
                  Inl e \<Rightarrow> Some (Inl ''cannot vote for block'')
                | Inr parentBlock \<Rightarrow>
                    if blkView block \<le> lastVotedView hs \<or> blkView parentBlock < preferredView hs
                    then Some (Inr False) else Some (Inr True) })"

definition commitRule :: "HotStuff \<Rightarrow> QC \<Rightarrow> (error + Block option) option" where
  "commitRule hs qc =
     do { r \<leftarrow> GetParentBlock (bc hs) (qcBlockID qc);
          case r of
            Inl e \<Rightarrow> Some (Inl ''cannot commit any block'')
          | Inr parentBlock \<Rightarrow>
              do { r2 \<leftarrow> GetParentBlock (bc hs) (blkID parentBlock);
                   case r2 of
                     Inl e \<Rightarrow> Some (Inl ''cannot commit any block'')
                   | Inr grandParentBlock \<Rightarrow>
                       if i64 (blkView grandParentBlock + 1) = blkView parentBlock
                          \<and> i64 (blkView parentBlock + 1) = qcView qc
                       then Some (Inr (Some grandParentBlock)) else Some (Inr None) } }"

section \<open>Certificates, timeouts and votes\<close>

text \<open>The two guards of \<open>processCertificate\<close>: the signatures, and the attack that withholds a certificate.\<close>

definition certificate_verified :: "HsEnv \<Rightarrow> QC \<Rightarrow> bool option" where
  "certificate_verified e qc =
     (if qcLeader qc = hsID e then Some True
      else do { (quorumIsVerified, _) \<leftarrow> VerifyQuorumSignature (hsKeys e) (qcAggSig qc) (qcBlockID qc) (qcSigners qc);
                Some quorumIsVerified })"

definition withholds :: "HsEnv \<Rightarrow> QC \<Rightarrow> bool option" where
  "withholds e qc =
     (if hsIsByz e \<and> hsStrategy e = FORK then hsIsLeader e (hsID e) (i64 (qcView qc + 1)) else Some False)"

definition commit_certified :: "HotStuff \<Rightarrow> QC \<Rightarrow> HotStuff option" where
  "commit_certified hs qc =
     do { r \<leftarrow> commitRule hs qc;
          case r of
            Inl e \<Rightarrow> Some hs
          | Inr None \<Rightarrow> Some hs
          | Inr (Some block) \<Rightarrow>
              do { ((committed, forked, err), bc1) \<leftarrow> CommitBlock (bc hs) (blkID block) (GetCurView (pm hs));
                   if err \<noteq> None then Some (hs\<lparr>bc := bc1\<rparr>)
                   else Some (hs\<lparr>bc := bc1, committedBlocks := committedBlocks hs @ committed,
                                 forkedBlocks := forkedBlocks hs @ forked\<rparr>) } }"

definition processCertificate :: "HsEnv \<Rightarrow> HotStuff \<Rightarrow> QC \<Rightarrow> HotStuff option" where
  "processCertificate e hs qc =
     (if qcView qc < GetCurView (pm hs) then Some hs
      else do {
        ok \<leftarrow> certificate_verified e qc;
        if \<not> ok then Some hs
        else do {
          w \<leftarrow> withholds e qc;
          if w then Some (hs\<lparr>pm := AdvanceView (pm hs) (qcView qc)\<rparr>)
          else do {
            (err, hs1) \<leftarrow> updatePreferredView hs qc;
            if err \<noteq> None then Some (hs1\<lparr>bufferedQCs := (bufferedQCs hs1)(qcBlockID qc \<mapsto> qc)\<rparr>)
            else
              let hs2 = updateHighQC (hs1\<lparr>pm := AdvanceView (pm hs1) (qcView qc)\<rparr>) qc in
              if qcView qc < 3 then Some hs2 else commit_certified hs2 qc } } })"

definition vote_verified :: "HsEnv \<Rightarrow> Vote \<Rightarrow> bool option" where
  "vote_verified e vote =
     (if voteVoter vote = hsID e then Some True
      else do { (voteIsVerified, err) \<leftarrow>
                  PubVerify (hsKeys e) (voteSignature vote) (IDToByte (voteBlockID vote)) (voteVoter vote);
                Some (err = None \<and> voteIsVerified) })"

definition ProcessVote :: "HsEnv \<Rightarrow> HotStuff \<Rightarrow> Vote \<Rightarrow> HotStuff option" where
  "ProcessVote e hs vote =
     do { ok \<leftarrow> vote_verified e vote;
          if \<not> ok then Some hs
          else case AddVote (hsRange e) (bc hs) vote of
            ((isBuilt, qco), bc1) \<Rightarrow>
              let hs1 = hs\<lparr>bc := bc1\<rparr> in
              if \<not> isBuilt then Some hs1
              else do {
                qc0 \<leftarrow> qco;
                let qc = qc0\<lparr>qcLeader := hsID e\<rparr> in
                case GetBlockByID (bc hs1) (qcBlockID qc) of
                  Inl err \<Rightarrow> Some (hs1\<lparr>bufferedQCs := (bufferedQCs hs1)(qcBlockID qc \<mapsto> qc)\<rparr>)
                | Inr _ \<Rightarrow> processCertificate e hs1 qc } }"

definition processTC :: "HotStuff \<Rightarrow> TC \<Rightarrow> HotStuff" where
  "processTC hs tc =
     (if tcView tc < GetCurView (pm hs) then hs else hs\<lparr>pm := AdvanceView (pm hs) (tcView tc)\<rparr>)"

text \<open>\<open>processCertificate(tmo.HighQC)\<close> reads the certificate and panics when it is nil.\<close>

definition HsProcessRemoteTmo :: "HsEnv \<Rightarrow> HotStuff \<Rightarrow> TMO \<Rightarrow> HotStuff option" where
  "HsProcessRemoteTmo e hs tmo =
     do { qc \<leftarrow> tmoHighQC tmo;
          hs1 \<leftarrow> processCertificate e hs qc;
          case ProcessRemoteTmo (pm hs1) tmo of
            ((isBuilt, tco), p) \<Rightarrow>
              let hs2 = hs1\<lparr>pm := p\<rparr> in
              if \<not> isBuilt then Some hs2 else do { tc \<leftarrow> tco; Some (processTC hs2 tc) } }"

definition ProcessLocalTmo :: "HsEnv \<Rightarrow> HotStuff \<Rightarrow> View \<Rightarrow> HotStuff option" where
  "ProcessLocalTmo e hs view =
     (let hs1 = hs\<lparr>pm := AdvanceView (pm hs) view\<rparr>;
          tmo = \<lparr>tmoView = i64 (view + 1), tmoNodeID = hsID e, tmoHighQC = Some (GetHighQC hs1)\<rparr>
      in HsProcessRemoteTmo e (hs1\<lparr>outbox := outbox hs1 @ [MsgTMO tmo]\<rparr>) tmo)"

section \<open>Proposals\<close>

definition forkChoice :: "HsEnv \<Rightarrow> HotStuff \<Rightarrow> (QC \<times> HotStuff) option" where
  "forkChoice e hs =
     (if \<not> hsIsByz e \<or> hsStrategy e \<noteq> FORK then Some (GetHighQC hs, hs)
      else case GetBlockByID (bc hs) (qcBlockID (GetHighQC hs)) of
        Inl err \<Rightarrow> None
      | Inr parBlock \<Rightarrow>
          do { parQC \<leftarrow> blkQC parBlock;
               let v = i64 (GetCurView (pm hs) - 1) in
               if qcView parQC < preferredView hs
               then Some ((GetHighQC hs)\<lparr>qcView := v\<rparr>, hs\<lparr>highQC := (GetHighQC hs)\<lparr>qcView := v\<rparr>\<rparr>)
               else Some (parQC\<lparr>qcView := v\<rparr>, hs) })"

definition MakeProposal ::
  "HsEnv \<Rightarrow> HotStuff \<Rightarrow> View \<Rightarrow> Identifier list \<Rightarrow> int list \<Rightarrow> NodeID set list \<Rightarrow> Time list \<Rightarrow> int list \<Rightarrow>
   (Proposal \<times> HotStuff) option" where
  "MakeProposal e hs view payload gList ackNodeList mbTime txNums =
     do { (qc, hs1) \<leftarrow> forkChoice e hs;
          p \<leftarrow> BuildProposal (hsHash e) (hsKeys e) view (Some qc) (qcBlockID qc) payload gList ackNodeList
                 mbTime (hsID e) txNums;
          Some (p, hs1) }"

section \<open>Blocks\<close>

text \<open>A block from another proposer has its signature checked; the outcome is only logged.\<close>

definition check_block_sig :: "HsEnv \<Rightarrow> Block \<Rightarrow> unit option" where
  "check_block_sig e block =
     (if blkProposer block = hsID e then Some ()
      else do { _ \<leftarrow> PubVerify (hsKeys e) (hSig (blkHeader block)) (IDToByte (blkID block)) (blkProposer block);
                Some () })"

definition send_vote :: "HsEnv \<Rightarrow> HotStuff \<Rightarrow> Block \<Rightarrow> HotStuff option" where
  "send_vote e hs block =
     do { vote \<leftarrow> MakeVote (hsKeys e) (blkView block) (hsID e) (blkID block);
          voteAggregator \<leftarrow> hsFindLeaderFor e (i64 (blkView block + 1));
          if voteAggregator = hsID e then ProcessVote e hs vote
          else Some (hs\<lparr>outbox := outbox hs @ [MsgVote voteAggregator (vote\<lparr>voteTimestamp := hsClock e vote\<rparr>)]\<rparr>) }"

text \<open>
  \<open>ProcessBlock\<close> up to the look at the buffered blocks.  The first component is the early return,
  \<open>None\<close> when the handler goes on to the buffered block of the view.
\<close>

definition accept_block :: "HsEnv \<Rightarrow> HotStuff \<Rightarrow> Block \<Rightarrow> (error option option \<times> HotStuff) option" where
  "accept_block e hs block =
     do { bc1 \<leftarrow> AddBlock (bc hs) block;
          let hs1 = hs\<lparr>bc := bc1\<rparr> in
          do { hs2 \<leftarrow> (case bufferedQCs hs1 (blkID block) of
                         None \<Rightarrow> Some hs1
                       | Some qc \<Rightarrow>
                           do { h \<leftarrow> processCertificate e hs1 qc;
                                Some (h\<lparr>bufferedQCs := (bufferedQCs h)(blkID block := None)\<rparr>) });
               v \<leftarrow> votingRule hs2 block;
               case v of
                 Inl err \<Rightarrow> Some (Some (Some err), hs2)
               | Inr shouldVote \<Rightarrow>
                   if \<not> shouldVote then Some (Some None, hs2)
                   else do { hs3 \<leftarrow> send_vote e hs2 block; Some (None, hs3) } } }"

definition block_body :: "HsEnv \<Rightarrow> HotStuff \<Rightarrow> Block \<Rightarrow> (error option option \<times> HotStuff) option" where
  "block_body e hs block =
     do { _ \<leftarrow> check_block_sig e block;
          if blkView block > i64 (GetCurView (pm hs) + 1) then
            Some (Some None, hs\<lparr>bufferedBlocks := (bufferedBlocks hs)(i64 (blkView block - 1) \<mapsto> block)\<rparr>)
          else case blkQC block of
            None \<Rightarrow> Some (Some (Some ''the block should contain a QC''), hs)
          | Some qc \<Rightarrow>
              let hs1 = updateHighQC hs qc in
              do { hs2 \<leftarrow> (if blkProposer block \<noteq> hsID e then processCertificate e hs1 qc else Some hs1);
                   if blkView block < GetCurView (pm hs2) then Some (Some None, hs2)
                   else do {
                     leader \<leftarrow> hsIsLeader e (blkProposer block) (blkView block);
                     if \<not> leader then Some (Some (Some ''received a proposal from an invalid leader''), hs2)
                     else accept_block e hs2 block } } }"

partial_function (option) ProcessBlock :: "HsEnv \<Rightarrow> HotStuff \<Rightarrow> Block \<Rightarrow> (error option \<times> HotStuff) option" where
  "ProcessBlock e hs block =
     (case block_body e hs block of
        None \<Rightarrow> None
      | Some (Some r, hs1) \<Rightarrow> Some (r, hs1)
      | Some (None, hs1) \<Rightarrow>
          (case bufferedBlocks hs1 (blkView block) of
             None \<Rightarrow> Some (None, hs1)
           | Some b \<Rightarrow>
               do { r \<leftarrow> ProcessBlock e hs1 b;
                    Some (None, (snd r)\<lparr>bufferedBlocks := (bufferedBlocks (snd r))(blkView block := None)\<rparr>) }))"

section \<open>Invariant and progress\<close>

text \<open>
  Views whose successor does not wrap.  The invariant keeps this of every view that is stored,
  relates the buffered blocks to their keys, and keeps the committed blocks apart by level.  \<open>U\<close> is
  the set of the blocks that may ever arrive.
\<close>

definition small :: "View \<Rightarrow> bool" where
  "small v \<longleftrightarrow> in_i64 v \<and> v < 2 ^ 63 - 2"

definition block_small :: "Block \<Rightarrow> bool" where
  "block_small b \<longleftrightarrow> small (blkView b) \<and> (\<forall>qc. blkQC b = Some qc \<longrightarrow> small (qcView qc))"

definition hs_ok :: "Block set \<Rightarrow> HotStuff \<Rightarrow> bool" where
  "hs_ok U hs \<longleftrightarrow> bc_ok (bc hs) \<and> in_i64 (curView (pm hs)) \<and> small (qcView (highQC hs)) \<and>
     (\<forall>x qc. bufferedQCs hs x = Some qc \<longrightarrow> small (qcView qc)) \<and>
     (\<forall>k b. bufferedBlocks hs k = Some b \<longrightarrow> b \<in> U \<and> blkView b = k + 1) \<and>
     finite (dom (bufferedBlocks hs)) \<and>
     (\<forall>x b. known (bc hs) x = Some b \<longrightarrow> b \<in> U) \<and>
     distinct (map Level (committedBlocks hs)) \<and>
     (\<forall>c\<in>set (committedBlocks hs). Level c \<le> lowest (bc hs))"

definition universe_ok :: "Block set \<Rightarrow> bool" where
  "universe_ok U \<longleftrightarrow> parents_below U \<and> (\<forall>b\<in>U. block_small b)"

definition advances :: "HotStuff \<Rightarrow> HotStuff \<Rightarrow> bool" where
  "advances hs hs' \<longleftrightarrow> curView (pm hs) \<le> curView (pm hs') \<and> preferredView hs \<le> preferredView hs' \<and>
     qcView (highQC hs) \<le> qcView (highQC hs') \<and> lastVotedView hs' = lastVotedView hs \<and>
     (\<exists>cs. committedBlocks hs' = committedBlocks hs @ cs) \<and> (\<exists>fs. forkedBlocks hs' = forkedBlocks hs @ fs) \<and>
     (\<exists>ms. outbox hs' = outbox hs @ ms)"

lemma advances_refl [simp, intro]: "advances hs hs"
  by (simp add: advances_def)

lemma advances_trans [trans]: "advances hs hs1 \<Longrightarrow> advances hs1 hs2 \<Longrightarrow> advances hs hs2"
  unfolding advances_def by (elim conjE exE) (simp add: order_trans)

lemma smallD: "small v \<Longrightarrow> in_i64 v" "small v \<Longrightarrow> v < 2 ^ 63 - 1" "small v \<Longrightarrow> i64 (v + 1) = v + 1"
  by (auto simp: small_def i64_succ)

lemma AdvanceView_small:
  assumes "small v"
  shows "AdvanceView p v = (if v < curView p then p
    else p\<lparr>curView := v + 1, newViewChan := newViewChan p @ [v + 1]\<rparr>)"
  using AdvanceView_cases [of v p] smallD [OF assms] by simp

lemma AdvanceView_progress:
  "small v \<Longrightarrow> curView p \<le> curView (AdvanceView p v)"
  "small v \<Longrightarrow> in_i64 (curView p) \<Longrightarrow> in_i64 (curView (AdvanceView p v))"
  by (auto simp: AdvanceView_small small_def in_i64_def)

subsection \<open>Certificates\<close>

lemma updateHighQC_facts:
  assumes "hs_ok U hs" and "small (qcView qc)"
  shows "hs_ok U (updateHighQC hs qc) \<and> advances hs (updateHighQC hs qc) \<and>
    bufferedBlocks (updateHighQC hs qc) = bufferedBlocks hs"
  using assms by (simp add: updateHighQC_def hs_ok_def advances_def)

lemma bufferQC_facts:
  assumes "hs_ok U hs" and "small (qcView qc)"
  shows "hs_ok U (hs\<lparr>bufferedQCs := (bufferedQCs hs)(x \<mapsto> qc)\<rparr>)"
    and "advances hs (hs\<lparr>bufferedQCs := f\<rparr>)"
  using assms by (simp_all add: hs_ok_def advances_def)

lemma updatePreferredView_cases:
  assumes "updatePreferredView hs qc = Some (err, hs')"
  obtains (same) "hs' = hs"
  | (raised) p where "err = None" and "GetParentBlock (bc hs) (qcBlockID qc) = Some (Inr p)"
      and "preferredView hs < blkView p" and "hs' = hs\<lparr>preferredView := blkView p\<rparr>"
proof (cases "qcView qc \<le> 2 \<or> isl (GetBlockByID (bc hs) (qcBlockID qc))")
  case True
  with assms same show ?thesis by (auto simp: updatePreferredView_def isl_def split: if_splits)
next
  case False
  then obtain b where "GetBlockByID (bc hs) (qcBlockID qc) = Inr b"
    by (cases "GetBlockByID (bc hs) (qcBlockID qc)") auto
  with False assms obtain r where r: "GetParentBlock (bc hs) (qcBlockID qc) = Some r"
    and e: "(case r of Inl e \<Rightarrow> Some (Some ''cannot update preferred view'', hs)
       | Inr p \<Rightarrow> if blkView p > preferredView hs then Some (None, hs\<lparr>preferredView := blkView p\<rparr>)
                  else Some (None, hs)) = Some (err, hs')"
    by (auto simp: updatePreferredView_def bind_Some_conv)
  show ?thesis
  proof (cases r)
    case (Inl x)
    with e same show ?thesis by simp
  next
    case (Inr p)
    with e have x: "err = None \<and> hs' = (if blkView p > preferredView hs then hs\<lparr>preferredView := blkView p\<rparr> else hs)"
      by (simp split: if_splits)
    show ?thesis
    proof (cases "blkView p > preferredView hs")
      case True
      with x r Inr show ?thesis by (intro raised) simp_all
    next
      case False
      with x show ?thesis by (intro same) simp
    qed
  qed
qed

lemma updatePreferredView_facts:
  assumes "hs_ok U hs" and "updatePreferredView hs qc = Some (err, hs')"
  shows "hs_ok U hs' \<and> advances hs hs' \<and> bufferedBlocks hs' = bufferedBlocks hs"
  using assms(2) by (cases rule: updatePreferredView_cases) (use assms(1) in \<open>simp_all add: hs_ok_def advances_def\<close>)

lemma commitRule_cases:
  assumes "commitRule hs qc = Some (Inr (Some g))"
  obtains p where "GetParentBlock (bc hs) (qcBlockID qc) = Some (Inr p)"
    and "GetParentBlock (bc hs) (blkID p) = Some (Inr g)"
    and "i64 (blkView g + 1) = blkView p" and "i64 (blkView p + 1) = qcView qc"
proof -
  obtain r where r: "GetParentBlock (bc hs) (qcBlockID qc) = Some r"
    using assms by (auto simp: commitRule_def bind_Some_conv)
  with assms obtain p where p: "r = Inr p" by (cases r) (auto simp: commitRule_def)
  obtain r2 where r2: "GetParentBlock (bc hs) (blkID p) = Some r2"
    using assms r p by (auto simp: commitRule_def bind_Some_conv)
  with assms r p obtain g' where "r2 = Inr g'" by (cases r2) (auto simp: commitRule_def)
  with assms r p r2 that show ?thesis by (auto simp: commitRule_def split: if_splits)
qed

lemma commit_certified_cases:
  assumes "commit_certified hs qc = Some hs'"
  obtains (nothing) "hs' = hs"
  | (commit) b cs fs err bc1 where "commitRule hs qc = Some (Inr (Some b))"
      and "CommitBlock (bc hs) (blkID b) (curView (pm hs)) = Some ((cs, fs, err), bc1)"
      and "hs' = (if err \<noteq> None then hs\<lparr>bc := bc1\<rparr> else hs\<lparr>bc := bc1,
         committedBlocks := committedBlocks hs @ cs, forkedBlocks := forkedBlocks hs @ fs\<rparr>)"
proof -
  obtain r where r: "commitRule hs qc = Some r" using assms by (auto simp: commit_certified_def bind_Some_conv)
  consider "isl r \<or> r = Inr None" | b where "r = Inr (Some b)" by (cases r) auto
  then show ?thesis
  proof cases
    case 1
    with assms r have "hs' = hs" by (auto simp: commit_certified_def isl_def)
    then show ?thesis by (rule nothing)
  next
    case 2
    with assms r obtain cs fs err bc1 where
      c: "CommitBlock (bc hs) (blkID b) (curView (pm hs)) = Some ((cs, fs, err), bc1)"
      and "(if err \<noteq> None then Some (hs\<lparr>bc := bc1\<rparr>) else Some (hs\<lparr>bc := bc1,
         committedBlocks := committedBlocks hs @ cs, forkedBlocks := forkedBlocks hs @ fs\<rparr>)) = Some hs'"
      by (auto simp: commit_certified_def bind_Some_conv GetCurView_def)
    then have "hs' = (if err \<noteq> None then hs\<lparr>bc := bc1\<rparr> else hs\<lparr>bc := bc1,
         committedBlocks := committedBlocks hs @ cs, forkedBlocks := forkedBlocks hs @ fs\<rparr>)"
      by (cases err) simp_all
    with r 2 c show ?thesis by (intro commit) simp_all
  qed
qed

lemma advance_facts:
  assumes "hs_ok U hs" and "small v"
  shows "hs_ok U (hs\<lparr>pm := AdvanceView (pm hs) v\<rparr>) \<and> advances hs (hs\<lparr>pm := AdvanceView (pm hs) v\<rparr>)"
  using assms AdvanceView_progress [OF assms(2)] by (simp add: hs_ok_def advances_def)

abbreviation keeps :: "Block set \<Rightarrow> HotStuff \<Rightarrow> HotStuff \<Rightarrow> bool" where
  "keeps U hs hs' \<equiv> hs_ok U hs' \<and> advances hs hs' \<and> bufferedBlocks hs' = bufferedBlocks hs"

text \<open>What a commit keeps of a log of blocks of different levels.\<close>

lemma commit_levels:
  assumes bok: "bc_ok b0" and U: "parents_below U" and kn: "\<forall>x b. known b0 x = Some b \<longrightarrow> b \<in> U"
    and ds: "distinct (map Level log)" and le: "\<forall>c\<in>set log. Level c \<le> lowest b0"
    and c: "CommitBlock b0 x v = Some ((cs, fs, err), bc1)"
  shows "bc_ok bc1 \<and> (\<forall>x b. known bc1 x = Some b \<longrightarrow> b \<in> U) \<and> distinct (map Level (log @ cs)) \<and>
    (\<forall>c\<in>set (log @ cs). Level c \<le> lowest bc1)"
proof -
  from CommitBlock_facts [OF bok descending_parents_below [OF bok U kn] c]
  have F: "bc_ok bc1" "lowest b0 \<le> lowest bc1" "sorted_wrt (\<lambda>c d. Level d < Level c) cs"
    "\<forall>c\<in>set cs. lowest b0 < Level c \<and> Level c \<le> lowest bc1"
    "\<forall>y. known bc1 y = None \<or> known bc1 y = known b0 y" by auto
  have kn1: "\<forall>x b. known bc1 x = Some b \<longrightarrow> b \<in> U" using F(5) kn by (metis option.distinct(1))
  have "sorted_wrt (<) (map Level (rev cs))" using F(3) by (simp add: sorted_wrt_map sorted_wrt_rev)
  then have "distinct (map Level cs)" by (simp add: strict_sorted_iff rev_map [symmetric])
  moreover have "Level ` set log \<inter> Level ` set cs = {}" using le F(4) by fastforce
  ultimately have "distinct (map Level (log @ cs))" using ds by simp
  then show ?thesis using F(1,2,4) kn1 le by (simp add: ball_Un) (meson order_trans)
qed

lemma commit_store_facts:
  assumes U: "parents_below U" and ok: "hs_ok U hs"
    and c: "CommitBlock (bc hs) x v = Some ((cs, fs, err), bc1)"
    and h: "hs' = (if err \<noteq> None then hs\<lparr>bc := bc1\<rparr> else hs\<lparr>bc := bc1,
         committedBlocks := committedBlocks hs @ cs, forkedBlocks := forkedBlocks hs @ fs\<rparr>)"
  shows "keeps U hs hs'"
proof -
  have bok: "bc_ok (bc hs)" and kn: "\<forall>x b. known (bc hs) x = Some b \<longrightarrow> b \<in> U"
    and ds: "distinct (map Level (committedBlocks hs))"
    and le: "\<forall>c\<in>set (committedBlocks hs). Level c \<le> lowest (bc hs)"
    using ok by (auto simp: hs_ok_def)
  note F = commit_levels [OF bok U kn ds le c]
  from CommitBlock_facts [OF bok descending_parents_below [OF bok U kn] c] have "lowest (bc hs) \<le> lowest bc1" by simp
  with h ok F le show ?thesis by (auto simp: hs_ok_def advances_def)
qed

lemma commit_certified_facts:
  assumes U: "parents_below U" and ok: "hs_ok U hs" and c: "commit_certified hs qc = Some hs'"
  shows "keeps U hs hs'"
  using c
proof (cases rule: commit_certified_cases)
  case nothing
  with ok show ?thesis by simp
next
  case (commit b cs fs err bc1)
  from commit_store_facts [OF U ok commit(2,3)] show ?thesis .
qed

lemma processCertificate_cases:
  assumes "processCertificate e hs qc = Some hs'"
  obtains (skip) "hs' = hs"
  | (withheld) "hs' = hs\<lparr>pm := AdvanceView (pm hs) (qcView qc)\<rparr>"
  | (buffered) err hs1 where "updatePreferredView hs qc = Some (Some err, hs1)"
      and "hs' = hs1\<lparr>bufferedQCs := (bufferedQCs hs1)(qcBlockID qc \<mapsto> qc)\<rparr>"
  | (accepted) hs1 hs2 where "certificate_verified e qc = Some True" and "curView (pm hs) \<le> qcView qc"
      and "updatePreferredView hs qc = Some (None, hs1)"
      and "hs2 = updateHighQC (hs1\<lparr>pm := AdvanceView (pm hs1) (qcView qc)\<rparr>) qc"
      and "(if qcView qc < 3 then Some hs2 else commit_certified hs2 qc) = Some hs'"
proof (cases "qcView qc < GetCurView (pm hs)")
  case True
  with assms skip show ?thesis by (simp add: processCertificate_def)
next
  case fresh: False
  with assms obtain ok where ok: "certificate_verified e qc = Some ok"
    by (auto simp: processCertificate_def bind_Some_conv)
  show ?thesis
  proof (cases ok)
    case False
    with assms fresh ok skip show ?thesis by (simp add: processCertificate_def)
  next
    case True
    with assms fresh ok obtain w where w: "withholds e qc = Some w"
      by (auto simp: processCertificate_def bind_Some_conv)
    show ?thesis
    proof (cases w)
      case True
      with assms fresh ok \<open>ok\<close> w withheld show ?thesis by (simp add: processCertificate_def)
    next
      case False
      with assms fresh ok \<open>ok\<close> w obtain err hs1 where u: "updatePreferredView hs qc = Some (err, hs1)"
        by (auto simp: processCertificate_def bind_Some_conv)
      show ?thesis
      proof (cases err)
        case None
        with assms fresh ok \<open>ok\<close> w False u accepted show ?thesis
          by (simp add: processCertificate_def GetCurView_def Let_def)
      next
        case (Some x)
        with assms fresh ok \<open>ok\<close> w False u buffered show ?thesis by (simp add: processCertificate_def)
      qed
    qed
  qed
qed

lemma processCertificate_facts:
  assumes U: "parents_below U" and ok: "hs_ok U hs" and s: "small (qcView qc)"
    and p: "processCertificate e hs qc = Some hs'"
  shows "hs_ok U hs' \<and> advances hs hs' \<and> bufferedBlocks hs' = bufferedBlocks hs"
proof -
  note adv = advance_facts [OF ok s]
  show ?thesis using p
  proof (cases rule: processCertificate_cases)
    case buf: (buffered err hs1)
    from updatePreferredView_facts [OF ok buf(1)] have 1: "hs_ok U hs1" "advances hs hs1"
      "bufferedBlocks hs1 = bufferedBlocks hs" by auto
    show ?thesis using bufferQC_facts [OF 1(1) s] advances_trans [OF 1(2)] 1(3) buf(2) by simp
  next
    case acc: (accepted hs1 hs2)
    note go = acc(3,4)
    from acc(5) have go3: "hs' = hs2 \<or> commit_certified hs2 qc = Some hs'" by (simp split: if_splits)
    from updatePreferredView_facts [OF ok go(1)]
    have 1: "hs_ok U hs1" "advances hs hs1" "bufferedBlocks hs1 = bufferedBlocks hs" by auto
    from advance_facts [OF 1(1) s]
    have 2: "hs_ok U (hs1\<lparr>pm := AdvanceView (pm hs1) (qcView qc)\<rparr>)"
      "advances hs1 (hs1\<lparr>pm := AdvanceView (pm hs1) (qcView qc)\<rparr>)" by auto
    from updateHighQC_facts [OF 2(1) s] go(2) 1(3)
    have 3: "hs_ok U hs2" "advances (hs1\<lparr>pm := AdvanceView (pm hs1) (qcView qc)\<rparr>) hs2"
      "bufferedBlocks hs2 = bufferedBlocks hs" by auto
    have a: "advances hs hs2" using 1(2) 2(2) 3(2) advances_trans by blast
    from go3 show ?thesis
    proof
      assume "hs' = hs2" with 3 a show ?thesis by simp
    next
      assume "commit_certified hs2 qc = Some hs'"
      from commit_certified_facts [OF U 3(1) this] 3(3) advances_trans [OF a] show ?thesis by simp
    qed
  next
    case skip
    with ok show ?thesis by simp
  next
    case withheld
    with adv show ?thesis by simp
  qed
qed

subsection \<open>Votes and timeouts\<close>

lemma keeps_trans: "keeps U hs hs1 \<Longrightarrow> keeps U hs1 hs2 \<Longrightarrow> keeps U hs hs2"
  using advances_trans by metis

lemma hs_ok_frames:
  assumes "hs_ok U hs"
  shows "forrest bc1 = forrest (bc hs) \<Longrightarrow> keeps U hs (hs\<lparr>bc := bc1\<rparr>)"
    and "curView p = curView (pm hs) \<Longrightarrow> keeps U hs (hs\<lparr>pm := p\<rparr>)"
    and "keeps U hs (hs\<lparr>outbox := outbox hs @ ms\<rparr>)"
    and "keeps U hs (hs\<lparr>bufferedQCs := (bufferedQCs hs)(x := None)\<rparr>)"
  using assms by (simp_all add: hs_ok_def advances_def bc_ok_def)

lemma AddVote_built:
  assumes "AddVote rng b vote = ((True, qco), b1)"
  obtains qc where "qco = Some qc" and "qcView qc = voteView vote" and "qcBlockID qc = voteBlockID vote"
  using assms by (auto simp: AddVote_def QuorumAdd_def Let_def split: prod.splits if_splits)

lemma ProcessVote_cases:
  assumes "ProcessVote e hs vote = Some hs'"
  obtains (skip) "hs' = hs"
  | (counted) r where "AddVote (hsRange e) (bc hs) vote = (r, bc hs')" and "hs' = hs\<lparr>bc := bc hs'\<rparr>"
  | (built) qc bc1 where "vote_verified e vote = Some True"
      and "forrest bc1 = forrest (bc hs)" and "qcView qc = voteView vote" and "qcBlockID qc = voteBlockID vote"
      and "hs' = hs\<lparr>bc := bc1, bufferedQCs := (bufferedQCs hs)(qcBlockID qc \<mapsto> qc)\<rparr> \<or>
           processCertificate e (hs\<lparr>bc := bc1\<rparr>) qc = Some hs'"
proof -
  obtain ok where ok: "vote_verified e vote = Some ok" using assms by (auto simp: ProcessVote_def bind_Some_conv)
  obtain b qco bc1 where a: "AddVote (hsRange e) (bc hs) vote = ((b, qco), bc1)" by (metis surj_pair)
  consider "\<not> ok" | "ok" "\<not> b" | "ok" "b" by blast
  then show ?thesis
  proof cases
    case 1
    with assms ok skip show ?thesis by (simp add: ProcessVote_def)
  next
    case 2
    with assms ok a have "hs' = hs\<lparr>bc := bc1\<rparr>" by (simp add: ProcessVote_def)
    with a counted show ?thesis by simp
  next
    case 3
    from a 3 obtain qc where qc: "qco = Some qc" "qcView qc = voteView vote" "qcBlockID qc = voteBlockID vote"
      using AddVote_built by (metis (full_types))
    have fr: "forrest bc1 = forrest (bc hs)" using AddVote_frame [of "hsRange e" "bc hs" vote] a by simp
    show ?thesis
      by (rule built [of bc1 "qc\<lparr>qcLeader := hsID e\<rparr>"])
        (use assms ok a 3 qc fr in \<open>simp_all add: ProcessVote_def Let_def split: sum.splits\<close>)
  qed
qed

lemma ProcessVote_facts:
  assumes U: "parents_below U" and ok: "hs_ok U hs" and s: "small (voteView vote)"
    and p: "ProcessVote e hs vote = Some hs'"
  shows "keeps U hs hs'"
  using p
proof (cases rule: ProcessVote_cases)
  case skip
  with ok show ?thesis by simp
next
  case (counted r)
  have "forrest (bc hs') = forrest (bc hs)"
    using AddVote_frame [of "hsRange e" "bc hs" vote] counted(1) by simp
  from hs_ok_frames(1) [OF ok this] counted(2) show ?thesis by simp
next
  case (built qc bc1)
  note 1 = hs_ok_frames(1) [OF ok built(2)]
  have s': "small (qcView qc)" using s built(3) by simp
  from built(5) show ?thesis
  proof
    assume "hs' = hs\<lparr>bc := bc1, bufferedQCs := (bufferedQCs hs)(qcBlockID qc \<mapsto> qc)\<rparr>"
    with 1 bufferQC_facts [OF conjunct1 [OF 1] s'] show ?thesis using advances_trans by fastforce
  next
    assume "processCertificate e (hs\<lparr>bc := bc1\<rparr>) qc = Some hs'"
    from keeps_trans [OF 1 processCertificate_facts [OF U conjunct1 [OF 1] s' this]] show ?thesis .
  qed
qed

lemma processTC_facts:
  assumes "hs_ok U hs" and "small (tcView tc)"
  shows "keeps U hs (processTC hs tc)"
  using assms advance_facts [OF assms] by (simp add: processTC_def)

lemma ProcessRemoteTmo_frame:
  assumes "ProcessRemoteTmo p tmo = ((b, tco), p')"
  shows "curView p' = curView p" and "b \<Longrightarrow> \<exists>tc. tco = Some tc \<and> tcView tc = tmoView tmo"
  using assms
  by (auto simp: ProcessRemoteTmo_def AddTmo_def Let_def NewTC_def split: prod.splits if_splits)

lemma HsProcessRemoteTmo_facts:
  assumes U: "parents_below U" and ok: "hs_ok U hs" and s: "small (tmoView tmo)"
    and q: "tmoHighQC tmo = Some qc" "small (qcView qc)" and p: "HsProcessRemoteTmo e hs tmo = Some hs'"
  shows "keeps U hs hs'"
proof -
  from p q obtain hs1 where c: "processCertificate e hs qc = Some hs1"
    by (auto simp: HsProcessRemoteTmo_def bind_Some_conv)
  obtain b tco pm1 where t: "ProcessRemoteTmo (pm hs1) tmo = ((b, tco), pm1)" by (metis surj_pair)
  note 1 = processCertificate_facts [OF U ok q(2) c]
  note 2 = hs_ok_frames(2) [OF conjunct1 [OF 1] ProcessRemoteTmo_frame(1) [OF t]]
  note 3 = keeps_trans [OF 1 2]
  show ?thesis
  proof (cases b)
    case False
    with p q c t have "hs' = hs1\<lparr>pm := pm1\<rparr>" by (simp add: HsProcessRemoteTmo_def)
    with 3 show ?thesis by simp
  next
    case True
    then obtain tc where tc: "tco = Some tc" "tcView tc = tmoView tmo"
      using ProcessRemoteTmo_frame(2) [OF t] by blast
    with True p q c t have "hs' = processTC (hs1\<lparr>pm := pm1\<rparr>) tc" by (simp add: HsProcessRemoteTmo_def)
    with keeps_trans [OF 3 processTC_facts [OF conjunct1 [OF 3]]] tc(2) s show ?thesis by simp
  qed
qed

lemma ProcessLocalTmo_facts:
  assumes U: "parents_below U" and ok: "hs_ok U hs" and s: "small view" "small (view + 1)"
    and p: "ProcessLocalTmo e hs view = Some hs'"
  shows "keeps U hs hs'"
proof -
  define hs1 where "hs1 = hs\<lparr>pm := AdvanceView (pm hs) view\<rparr>"
  define tmo where "tmo = \<lparr>tmoView = i64 (view + 1), tmoNodeID = hsID e, tmoHighQC = Some (GetHighQC hs1)\<rparr>"
  have 1: "keeps U hs hs1" using advance_facts [OF ok s(1)] by (simp add: hs1_def)
  note 2 = keeps_trans [OF 1 hs_ok_frames(3) [OF conjunct1 [OF 1], of "[MsgTMO tmo]"]]
  have "small (qcView (highQC hs1))" using 1 by (simp add: hs_ok_def)
  moreover have "HsProcessRemoteTmo e (hs1\<lparr>outbox := outbox hs1 @ [MsgTMO tmo]\<rparr>) tmo = Some hs'"
    using p by (simp add: ProcessLocalTmo_def Let_def hs1_def tmo_def)
  ultimately show ?thesis
    using HsProcessRemoteTmo_facts [OF U conjunct1 [OF 2], of tmo "highQC hs1" e hs'] keeps_trans [OF 2]
      s(2) smallD(3) [OF s(1)] by (simp add: tmo_def GetHighQC_def)
qed

subsection \<open>Blocks\<close>

lemma send_vote_facts:
  assumes U: "parents_below U" and ok: "hs_ok U hs" and s: "small (blkView block)"
    and p: "send_vote e hs block = Some hs'"
  shows "keeps U hs hs'"
proof -
  obtain vote agg where v: "MakeVote (hsKeys e) (blkView block) (hsID e) (blkID block) = Some vote"
    and a: "hsFindLeaderFor e (i64 (blkView block + 1)) = Some agg"
    using p by (auto simp: send_vote_def bind_Some_conv)
  have vw: "voteView vote = blkView block" using v by (auto simp: MakeVote_def bind_Some_conv split: if_splits)
  show ?thesis
  proof (cases "agg = hsID e")
    case True
    with p v a have "ProcessVote e hs vote = Some hs'" by (simp add: send_vote_def)
    from ProcessVote_facts [OF U ok _ this] vw s show ?thesis by simp
  next
    case False
    with p v a have "hs' = hs\<lparr>outbox := outbox hs @ [MsgVote agg (vote\<lparr>voteTimestamp := hsClock e vote\<rparr>)]\<rparr>"
      by (simp add: send_vote_def)
    with hs_ok_frames(3) [OF ok] show ?thesis by simp
  qed
qed

lemma AddBlock_keeps:
  assumes ok: "hs_ok U hs" and b: "block \<in> U" and a: "AddBlock (bc hs) block = Some bc1"
  shows "keeps U hs (hs\<lparr>bc := bc1\<rparr>)"
proof -
  have "bc_ok (bc hs)" using ok by (simp add: hs_ok_def)
  from AddBlock_facts [OF this a] have F: "bc_ok bc1" "lowest bc1 = lowest (bc hs)"
    "\<forall>x. known bc1 x = known (bc hs) x \<or> known bc1 x = Some block" by auto
  have "\<forall>x b. known bc1 x = Some b \<longrightarrow> b \<in> U"
  proof (intro allI impI)
    fix x c assume "known bc1 x = Some c"
    then have "known (bc hs) x = Some c \<or> c = block" using F(3) [rule_format, of x] by auto
    with ok b show "c \<in> U" by (auto simp: hs_ok_def)
  qed
  with ok F(1,2) show ?thesis by (simp add: hs_ok_def advances_def)
qed

text \<open>The block is added, and a certificate that waited for it is processed.\<close>

lemma accept_block_cases:
  assumes "accept_block e hs block = Some (r, hs')"
  obtains bc1 hs2 v where "AddBlock (bc hs) block = Some bc1"
    and "bufferedQCs hs (blkID block) = None \<and> hs2 = hs\<lparr>bc := bc1\<rparr> \<or>
      (\<exists>qc h. bufferedQCs hs (blkID block) = Some qc \<and> processCertificate e (hs\<lparr>bc := bc1\<rparr>) qc = Some h \<and>
         hs2 = h\<lparr>bufferedQCs := (bufferedQCs h)(blkID block := None)\<rparr>)"
    and "votingRule hs2 block = Some v"
    and "hs' = hs2 \<and> r \<noteq> None \<and> v \<noteq> Inr True \<or> send_vote e hs2 block = Some hs' \<and> r = None \<and> v = Inr True"
proof -
  obtain bc1 where a: "AddBlock (bc hs) block = Some bc1"
    using assms by (auto simp: accept_block_def bind_Some_conv)
  obtain hs2 where h: "(case bufferedQCs (hs\<lparr>bc := bc1\<rparr>) (blkID block) of None \<Rightarrow> Some (hs\<lparr>bc := bc1\<rparr>)
      | Some qc \<Rightarrow> do { h \<leftarrow> processCertificate e (hs\<lparr>bc := bc1\<rparr>) qc;
                        Some (h\<lparr>bufferedQCs := (bufferedQCs h)(blkID block := None)\<rparr>) }) = Some hs2"
    using assms a unfolding accept_block_def by (simp add: bind_Some_conv Let_def) blast
  obtain v where v: "votingRule hs2 block = Some v"
    using assms a h unfolding accept_block_def by (simp add: bind_Some_conv Let_def) blast
  have "bufferedQCs hs (blkID block) = None \<and> hs2 = hs\<lparr>bc := bc1\<rparr> \<or>
      (\<exists>qc h. bufferedQCs hs (blkID block) = Some qc \<and> processCertificate e (hs\<lparr>bc := bc1\<rparr>) qc = Some h \<and>
         hs2 = h\<lparr>bufferedQCs := (bufferedQCs h)(blkID block := None)\<rparr>)"
    using h by (cases "bufferedQCs hs (blkID block)") (auto simp: bind_Some_conv)
  moreover have "hs' = hs2 \<and> r \<noteq> None \<and> v \<noteq> Inr True \<or> send_vote e hs2 block = Some hs' \<and> r = None \<and> v = Inr True"
    using assms a h v unfolding accept_block_def
    by (auto simp: bind_Some_conv split: sum.splits if_splits)
  ultimately show ?thesis using a v that by blast
qed

lemma accept_block_facts:
  assumes U: "universe_ok U" and ok: "hs_ok U hs" and b: "block \<in> U"
    and p: "accept_block e hs block = Some (r, hs')"
  shows "keeps U hs hs'"
  using p
proof (cases rule: accept_block_cases)
  case (1 bc1 hs2 v)
  have pb: "parents_below U" and s: "small (blkView block)" using U b by (auto simp: universe_ok_def block_small_def)
  note A = AddBlock_keeps [OF ok b 1(1)]
  have B: "keeps U hs hs2"
  proof (cases "bufferedQCs hs (blkID block)")
    case None
    with 1(2) A show ?thesis by simp
  next
    case (Some qc)
    with 1(2) obtain h where h: "processCertificate e (hs\<lparr>bc := bc1\<rparr>) qc = Some h"
      "hs2 = h\<lparr>bufferedQCs := (bufferedQCs h)(blkID block := None)\<rparr>" by auto
    have "small (qcView qc)" using ok Some by (simp add: hs_ok_def)
    note C = keeps_trans [OF A processCertificate_facts [OF pb conjunct1 [OF A] this h(1)]]
    show ?thesis using keeps_trans [OF C hs_ok_frames(4) [OF conjunct1 [OF C]]] h(2) by simp
  qed
  from 1(4) show ?thesis
  proof
    assume "hs' = hs2 \<and> r \<noteq> None \<and> v \<noteq> Inr True"
    with B show ?thesis by simp
  next
    assume "send_vote e hs2 block = Some hs' \<and> r = None \<and> v = Inr True"
    with keeps_trans [OF B send_vote_facts [OF pb conjunct1 [OF B] s]] show ?thesis by blast
  qed
qed

lemma block_body_cases:
  assumes "block_body e hs block = Some (r, hs')"
  obtains (buffered) "r = Some None" and "i64 (curView (pm hs) + 1) < blkView block"
      and "hs' = hs\<lparr>bufferedBlocks := (bufferedBlocks hs)(i64 (blkView block - 1) \<mapsto> block)\<rparr>"
  | (noqc) "r \<noteq> None" and "blkQC block = None" and "hs' = hs"
  | (go) qc hs2 where "blkView block \<le> i64 (curView (pm hs) + 1)" and "blkQC block = Some qc"
      and "(if blkProposer block \<noteq> hsID e then processCertificate e (updateHighQC hs qc) qc
            else Some (updateHighQC hs qc)) = Some hs2"
      and "r \<noteq> None \<and> hs' = hs2 \<or>
           curView (pm hs2) \<le> blkView block \<and> hsIsLeader e (blkProposer block) (blkView block) = Some True \<and>
           accept_block e hs2 block = Some (r, hs')"
proof -
  have c: "check_block_sig e block = Some ()"
    using assms by (cases "check_block_sig e block") (simp_all add: block_body_def)
  consider "i64 (curView (pm hs) + 1) < blkView block" | "blkView block \<le> i64 (curView (pm hs) + 1)" "blkQC block = None"
    | qc where "blkView block \<le> i64 (curView (pm hs) + 1)" "blkQC block = Some qc" by fastforce
  then show ?thesis
  proof cases
    case 1
    with assms c buffered show ?thesis by (simp add: block_body_def GetCurView_def)
  next
    case 2
    with assms c have "r = Some (Some ''the block should contain a QC'') \<and> hs' = hs"
      by (auto simp: block_body_def GetCurView_def)
    with 2 noqc show ?thesis by simp
  next
    case (3 qc)
    then obtain hs2 where h: "(if blkProposer block \<noteq> hsID e then processCertificate e (updateHighQC hs qc) qc
            else Some (updateHighQC hs qc)) = Some hs2"
      using assms c unfolding block_body_def by (simp add: GetCurView_def bind_Some_conv Let_def) blast
    have "(if blkView block < curView (pm hs2) then Some (Some None, hs2)
       else do { leader \<leftarrow> hsIsLeader e (blkProposer block) (blkView block);
              if \<not> leader then Some (Some (Some ''received a proposal from an invalid leader''), hs2)
              else accept_block e hs2 block }) = Some (r, hs')"
      using assms c 3 h unfolding block_body_def by (simp add: GetCurView_def Let_def)
    then have "r \<noteq> None \<and> hs' = hs2 \<or>
           curView (pm hs2) \<le> blkView block \<and> hsIsLeader e (blkProposer block) (blkView block) = Some True \<and>
           accept_block e hs2 block = Some (r, hs')"
      by (auto simp: bind_Some_conv split: if_splits)
    with 3 h go show ?thesis by blast
  qed
qed

lemma buffered_key:
  assumes "i64 (v + 1) < w" and "in_i64 v" and "in_i64 w"
  shows "i64 (w - 1) = w - 1"
  using assms i64_in_i64 [of "v + 1"] by (intro i64_id) (simp add: in_i64_def)

lemma buffer_block_facts:
  assumes ok: "hs_ok U hs" and b: "block \<in> U" "in_i64 (blkView block)" and v: "i64 (curView (pm hs) + 1) < blkView block"
  shows "hs_ok U (hs\<lparr>bufferedBlocks := (bufferedBlocks hs)(i64 (blkView block - 1) \<mapsto> block)\<rparr>) \<and>
    advances hs (hs\<lparr>bufferedBlocks := f\<rparr>)"
proof -
  have "in_i64 (curView (pm hs))" using ok by (simp add: hs_ok_def)
  then have "i64 (blkView block - 1) = blkView block - 1" by (rule buffered_key [OF v _ b(2)])
  with ok b(1) show ?thesis by (simp add: hs_ok_def advances_def)
qed

lemma universe_block:
  assumes "universe_ok U" and "block \<in> U"
  shows "parents_below U" and "small (blkView block)" and "in_i64 (blkView block)"
    and "blkQC block = Some qc \<Longrightarrow> small (qcView qc)"
  using assms smallD(1) by (auto simp: universe_ok_def block_small_def)

lemma block_body_facts:
  assumes U: "universe_ok U" and ok: "hs_ok U hs" and b: "block \<in> U"
    and p: "block_body e hs block = Some (r, hs')"
  shows "hs_ok U hs' \<and> advances hs hs' \<and> (r = None \<longrightarrow> bufferedBlocks hs' = bufferedBlocks hs)"
  using p
proof (cases rule: block_body_cases)
  case buffered
  with buffer_block_facts [OF ok b universe_block(3) [OF U b]] show ?thesis by simp
next
  case noqc
  with ok show ?thesis by simp
next
  case (go qc hs2)
  note s = universe_block(4) [OF U b go(2)]
  note 1 = updateHighQC_facts [OF ok s]
  have 2: "keeps U hs hs2"
  proof (cases "blkProposer block = hsID e")
    case True
    with go(3) 1 show ?thesis by simp
  next
    case False
    with go(3) have "processCertificate e (updateHighQC hs qc) qc = Some hs2" by simp
    from keeps_trans [OF 1 processCertificate_facts [OF universe_block(1) [OF U b] conjunct1 [OF 1] s this]]
    show ?thesis .
  qed
  from go(4) show ?thesis
  proof
    assume "r \<noteq> None \<and> hs' = hs2"
    with 2 show ?thesis by simp
  next
    assume "curView (pm hs2) \<le> blkView block \<and> hsIsLeader e (blkProposer block) (blkView block) = Some True \<and>
           accept_block e hs2 block = Some (r, hs')"
    then have "accept_block e hs2 block = Some (r, hs')" by simp
    from keeps_trans [OF 2 accept_block_facts [OF U conjunct1 [OF 2] b this]] show ?thesis by simp
  qed
qed

lemma drop_buffered_facts:
  assumes "hs_ok U hs"
  shows "hs_ok U (hs\<lparr>bufferedBlocks := (bufferedBlocks hs)(v := None)\<rparr>) \<and>
    advances hs (hs\<lparr>bufferedBlocks := (bufferedBlocks hs)(v := None)\<rparr>)"
  using assms by (simp add: hs_ok_def advances_def)

lemma ProcessBlock_cases:
  assumes "ProcessBlock e hs block = Some (err, hs')"
  obtains (stop) r where "block_body e hs block = Some (r, hs')"
  | (next_block) hs1 b r hs2 where "block_body e hs block = Some (None, hs1)"
      and "bufferedBlocks hs1 (blkView block) = Some b" and "ProcessBlock e hs1 b = Some (r, hs2)"
      and "err = None" and "hs' = hs2\<lparr>bufferedBlocks := (bufferedBlocks hs2)(blkView block := None)\<rparr>"
proof -
  from assms have p: "(case block_body e hs block of None \<Rightarrow> None
      | Some (Some r, hs1) \<Rightarrow> Some (r, hs1)
      | Some (None, hs1) \<Rightarrow> (case bufferedBlocks hs1 (blkView block) of None \<Rightarrow> Some (None, hs1)
           | Some b \<Rightarrow> do { r \<leftarrow> ProcessBlock e hs1 b;
               Some (None, (snd r)\<lparr>bufferedBlocks := (bufferedBlocks (snd r))(blkView block := None)\<rparr>) }))
      = Some (err, hs')" by (subst (asm) ProcessBlock.simps)
  then obtain r hs1 where b: "block_body e hs block = Some (r, hs1)"
    by (cases "block_body e hs block") auto
  show ?thesis
  proof (cases "r = None \<and> bufferedBlocks hs1 (blkView block) \<noteq> None")
    case False
    with p b have "hs' = hs1" by (auto split: option.splits)
    with b stop show ?thesis by blast
  next
    case True
    with p b next_block show ?thesis by (auto simp: bind_Some_conv)
  qed
qed

text \<open>
  The recursion of \<open>ProcessBlock\<close> through the buffered blocks.  A buffered block has the view after
  its key, so each call leaves fewer buffered blocks ahead.
\<close>

definition buffered_above :: "HotStuff \<Rightarrow> View \<Rightarrow> nat" where
  "buffered_above hs v = card {k \<in> dom (bufferedBlocks hs). v \<le> k}"

lemma buffered_above_decreases:
  assumes "hs_ok U hs" and "bufferedBlocks hs v = Some b"
  shows "buffered_above hs (blkView b) < buffered_above hs v"
proof -
  have f: "finite (dom (bufferedBlocks hs))" and k: "blkView b = v + 1" using assms by (auto simp: hs_ok_def)
  let ?A = "\<lambda>v. {k \<in> dom (bufferedBlocks hs). v \<le> k}"
  have "?A (blkView b) \<subseteq> ?A v" and "v \<in> ?A v" and "v \<notin> ?A (blkView b)" using assms(2) k by auto
  then have "?A (blkView b) \<subset> ?A v" by blast
  with f show ?thesis unfolding buffered_above_def by (intro psubset_card_mono) auto
qed

lemma next_buffered:
  assumes U: "universe_ok U" and ok: "hs_ok U hs" and b: "block \<in> U"
    and p: "block_body e hs block = Some (None, hs1)" and n: "bufferedBlocks hs1 (blkView block) = Some c"
  shows "hs_ok U hs1" and "advances hs hs1" and "c \<in> U"
    and "buffered_above hs1 (blkView c) < buffered_above hs (blkView block)"
proof -
  from block_body_facts [OF U ok b p] show 1: "hs_ok U hs1" "advances hs hs1" by auto
  from 1(1) n show "c \<in> U" by (auto simp: hs_ok_def)
  have "bufferedBlocks hs1 = bufferedBlocks hs" using block_body_facts [OF U ok b p] by simp
  then show "buffered_above hs1 (blkView c) < buffered_above hs (blkView block)"
    using buffered_above_decreases [OF 1(1) n] by (simp add: buffered_above_def)
qed

lemma ProcessBlock_facts:
  assumes U: "universe_ok U" and ok: "hs_ok U hs" and b: "block \<in> U"
    and p: "ProcessBlock e hs block = Some (err, hs')"
  shows "hs_ok U hs' \<and> advances hs hs'"
  using ok b p
proof (induction "buffered_above hs (blkView block)" arbitrary: hs block err hs' rule: less_induct)
  case less
  from less.prems(3) show ?case
  proof (cases rule: ProcessBlock_cases)
    case (stop r)
    with block_body_facts [OF U less.prems(1,2)] show ?thesis by blast
  next
    case (next_block hs1 c r hs2)
    note n = next_buffered [OF U less.prems(1,2) next_block(1,2)]
    from less.hyps [OF n(4) n(1,3) next_block(3)] have 2: "hs_ok U hs2" "advances hs1 hs2" by auto
    from drop_buffered_facts [OF 2(1)] next_block(5) advances_trans [OF n(2) 2(2)] show ?thesis
      using advances_trans by blast
  qed
qed

fun process_fuel :: "nat \<Rightarrow> HsEnv \<Rightarrow> HotStuff \<Rightarrow> Block \<Rightarrow> (error option \<times> HotStuff) option option" where
  "process_fuel 0 e hs block = None"
| "process_fuel (Suc n) e hs block =
     (case block_body e hs block of
        None \<Rightarrow> Some None
      | Some (Some r, hs1) \<Rightarrow> Some (Some (r, hs1))
      | Some (None, hs1) \<Rightarrow>
          (case bufferedBlocks hs1 (blkView block) of
             None \<Rightarrow> Some (Some (None, hs1))
           | Some b \<Rightarrow>
               map_option (map_option (\<lambda>r.
                   (None, (snd r)\<lparr>bufferedBlocks := (bufferedBlocks (snd r))(blkView block := None)\<rparr>)))
                 (process_fuel n e hs1 b)))"

lemma process_fuel_enough:
  assumes U: "universe_ok U" and ok: "hs_ok U hs" and b: "block \<in> U" and n: "buffered_above hs (blkView block) < n"
  shows "process_fuel n e hs block = Some (ProcessBlock e hs block)"
  using ok b n
proof (induction n arbitrary: hs block)
  case 0
  then show ?case by simp
next
  case (Suc n)
  show ?case
  proof (cases "\<exists>hs1 c. block_body e hs block = Some (None, hs1) \<and> bufferedBlocks hs1 (blkView block) = Some c")
    case True
    then obtain hs1 c where c: "block_body e hs block = Some (None, hs1)" "bufferedBlocks hs1 (blkView block) = Some c"
      by blast
    note x = next_buffered [OF U Suc.prems(1,2) c]
    have "process_fuel n e hs1 c = Some (ProcessBlock e hs1 c)" using Suc.IH [OF x(1,3)] x(4) Suc.prems(3) by simp
    with c show ?thesis
      by (subst ProcessBlock.simps) (cases "ProcessBlock e hs1 c"; simp)
  next
    case False
    then show ?thesis
      by (subst ProcessBlock.simps) (auto split: option.splits)
  qed
qed

section \<open>The protocol behind the interface\<close>

definition hotstuff_safety :: "HsEnv \<Rightarrow> HotStuff Safety" where
  "hotstuff_safety e =
     \<lparr>sfProcessBlock = ProcessBlock e, sfProcessVote = ProcessVote e,
      sfProcessRemoteTmo = HsProcessRemoteTmo e, sfProcessLocalTmo = ProcessLocalTmo e\<rparr>"

text \<open>Messages whose views do not wrap; the blocks are those of \<open>U\<close>.\<close>

fun legal_event :: "Block set \<Rightarrow> sf_event \<Rightarrow> bool" where
  "legal_event U (SfBlock b) \<longleftrightarrow> b \<in> U"
| "legal_event U (SfVote v) \<longleftrightarrow> small (voteView v)"
| "legal_event U (SfTmo t) \<longleftrightarrow> small (tmoView t) \<and> (\<forall>qc. tmoHighQC t = Some qc \<longrightarrow> small (qcView qc))"
| "legal_event U (SfLocal v) \<longleftrightarrow> small v \<and> small (v + 1)"

definition hs_inv :: "Block set \<Rightarrow> HotStuff \<Rightarrow> bool" where
  "hs_inv U hs \<longleftrightarrow> universe_ok U \<and> hs_ok U hs"

lemma hotstuff_step:
  assumes i: "hs_inv U hs" and l: "legal_event U ev" and p: "sf_step (hotstuff_safety e) hs ev = Some hs'"
  shows "hs_inv U hs' \<and> advances hs hs'"
proof -
  from i have U: "universe_ok U" and ok: "hs_ok U hs" by (auto simp: hs_inv_def)
  have pb: "parents_below U" using U by (simp add: universe_ok_def)
  have "hs_ok U hs' \<and> advances hs hs'"
  proof (cases ev)
    case (SfBlock b)
    with p obtain err where "ProcessBlock e hs b = Some (err, hs')"
      by (auto simp: hotstuff_safety_def bind_Some_conv)
    from ProcessBlock_facts [OF U ok _ this] l SfBlock show ?thesis by simp
  next
    case (SfVote v)
    with p have "ProcessVote e hs v = Some hs'" by (simp add: hotstuff_safety_def)
    from ProcessVote_facts [OF pb ok _ this] l SfVote show ?thesis by simp
  next
    case (SfTmo t)
    with p have h: "HsProcessRemoteTmo e hs t = Some hs'" by (simp add: hotstuff_safety_def)
    then obtain qc where "tmoHighQC t = Some qc" by (auto simp: HsProcessRemoteTmo_def bind_Some_conv)
    with HsProcessRemoteTmo_facts [OF pb ok _ this _ h] l SfTmo show ?thesis by simp
  next
    case (SfLocal v)
    with p have "ProcessLocalTmo e hs v = Some hs'" by (simp add: hotstuff_safety_def)
    from ProcessLocalTmo_facts [OF pb ok _ _ this] l SfLocal show ?thesis by simp
  qed
  with U show ?thesis by (simp add: hs_inv_def)
qed

interpretation hsf: safety "hotstuff_safety e" "hs_inv U" "legal_event U" "\<lambda>hs. curView (pm hs)" committedBlocks
  for e U
proof
  fix s ev s'
  assume a: "hs_inv U s" "legal_event U ev" "sf_step (hotstuff_safety e) s ev = Some s'"
  note h = hotstuff_step [OF a]
  from h show "hs_inv U s'" by simp
  from h show "curView (pm s) \<le> curView (pm s')" by (simp add: advances_def)
  from h show "grows (committedBlocks s) (committedBlocks s')" by (simp add: advances_def grows_def)
next
  fix s assume "hs_inv U s"
  then show "distinct (map Level (committedBlocks s))" by (simp add: hs_inv_def hs_ok_def)
qed

lemma hotstuff_run_advances:
  assumes "hs_inv U hs" and "list_all (legal_event U) evs" and "sf_run (hotstuff_safety e) hs evs = Some hs'"
  shows "hs_inv U hs' \<and> advances hs hs'"
  using assms
proof (induction evs arbitrary: hs)
  case Nil
  then show ?case by simp
next
  case (Cons ev evs)
  then obtain h1 where h1: "sf_step (hotstuff_safety e) hs ev = Some h1" "sf_run (hotstuff_safety e) h1 evs = Some hs'"
    by (auto simp: bind_Some_conv)
  from hotstuff_step [OF Cons.prems(1) _ h1(1)] Cons.prems(2) have 1: "hs_inv U h1" "advances hs h1" by auto
  from Cons.IH [OF 1(1) _ h1(2)] Cons.prems(2) advances_trans [OF 1(2)] show ?case by simp
qed

lemma hs_ok_New: "hs_ok U (NewHotStuff n (NewPacemaker n))"
  using bc_ok_New [of n] by (simp add: hs_ok_def NewHotStuff_def NewPacemaker_def zeroQC_def small_def in_i64_def
      NewBlockchain_def GetVertex_def NewLevelledForest_def)

section \<open>Properties\<close>

lemma commit_certified_commits:
  assumes ok: "bc_ok (bc hs)" and c: "commit_certified hs qc = Some hs'"
    and new: "committedBlocks hs' \<noteq> committedBlocks hs"
  obtains p g cs where "committedBlocks hs' = committedBlocks hs @ cs"
    and "GetParentBlock (bc hs) (qcBlockID qc) = Some (Inr p)" and "GetParentBlock (bc hs) (blkID p) = Some (Inr g)"
    and "i64 (blkView g + 1) = blkView p" and "i64 (blkView p + 1) = qcView qc"
    and "ancestry (known (bc hs)) (lowest (bc hs)) g cs"
  using c
proof (cases rule: commit_certified_cases)
  case nothing
  with new show ?thesis by simp
next
  case (commit g cs fs err bc1)
  with new have e: "err = None" by (auto split: if_splits)
  from commit(1) obtain p where p: "GetParentBlock (bc hs) (qcBlockID qc) = Some (Inr p)"
    "GetParentBlock (bc hs) (blkID p) = Some (Inr g)"
    "i64 (blkView g + 1) = blkView p" "i64 (blkView p + 1) = qcView qc" by (rule commitRule_cases)
  from p(2) obtain x where x: "known (bc hs) x = Some g" by (auto simp: GetParentBlock_Inr)
  with ok have "known (bc hs) (blkID g) = Some g" using GetVertex_id by (auto simp: bc_ok_def)
  from CommitBlock_ancestry [OF this] commit(2) e have "ancestry (known (bc hs)) (lowest (bc hs)) g cs" by simp
  with that p e commit(3) show ?thesis by simp
qed

text \<open>C2 (three-chain commit): whenever processing a certificate commits blocks, the certificate has passed the
  signature check (or names the replica itself as its leader) and is not stale, the block it names and that block's
  parent and grandparent are known, the views of the grandparent, of the parent and the view that the certificate
  states are consecutive, and what is committed is the chain of known ancestors of the grandparent down to the lowest
  level.  The view of the named block itself is not compared with the certificate.\<close>

theorem commits_need_three_chain:
  assumes "bc_ok (bc hs)" and "processCertificate e hs qc = Some hs'"
    and "committedBlocks hs' \<noteq> committedBlocks hs"
  shows "certificate_verified e qc = Some True \<and> curView (pm hs) \<le> qcView qc \<and>
    (\<exists>b p g cs. committedBlocks hs' = committedBlocks hs @ cs \<and> known (bc hs) (qcBlockID qc) = Some b \<and>
       GetParentBlock (bc hs) (qcBlockID qc) = Some (Inr p) \<and> GetParentBlock (bc hs) (blkID p) = Some (Inr g) \<and>
       i64 (blkView g + 1) = blkView p \<and> i64 (blkView p + 1) = qcView qc \<and>
       ancestry (known (bc hs)) (lowest (bc hs)) g cs)"
  using assms(2)
proof (cases rule: processCertificate_cases)
  case (accepted hs1 hs2)
  have same: "bc hs1 = bc hs \<and> committedBlocks hs1 = committedBlocks hs"
    using accepted(3) by (cases rule: updatePreferredView_cases) simp_all
  then have same2: "bc hs2 = bc hs" "committedBlocks hs2 = committedBlocks hs"
    using accepted(4) by (simp_all add: updateHighQC_def)
  with accepted(5) assms(3) have "commit_certified hs2 qc = Some hs'" by (simp split: if_splits)
  with assms(1,3) same2 obtain p g cs where c: "committedBlocks hs' = committedBlocks hs @ cs"
    "GetParentBlock (bc hs) (qcBlockID qc) = Some (Inr p)" "GetParentBlock (bc hs) (blkID p) = Some (Inr g)"
    "i64 (blkView g + 1) = blkView p" "i64 (blkView p + 1) = qcView qc" "ancestry (known (bc hs)) (lowest (bc hs)) g cs"
    using commit_certified_commits [of hs2 qc hs'] by metis
  moreover from c(2) obtain b where "known (bc hs) (qcBlockID qc) = Some b" by (auto simp: GetParentBlock_Inr)
  ultimately show ?thesis using accepted(1,2) by blast
next
  case (buffered err hs1)
  have "committedBlocks hs1 = committedBlocks hs"
    using buffered(1) by (cases rule: updatePreferredView_cases) simp_all
  with buffered(2) assms(3) show ?thesis by simp
qed (use assms(3) in simp_all)

subsection \<open>A replica to evaluate\<close>

definition ring4 :: KeyRing where
  "ring4 = \<lparr>scheme = toy_ecdsa, keys = [Some [1], Some [2], Some [3], Some [4]],
     pubKeys = [Some [1], Some [2], Some [3], Some [4]]\<rparr>"

definition plain_hash :: HashEnv where
  "plain_hash = \<lparr>heSha3 = (\<lambda>b. b), heTmhash = (\<lambda>b. b), heEncTx = (\<lambda>_. []), heEncBytes = (\<lambda>b. b),
     heEncRaw = (\<lambda>_. []), heTimeString = (\<lambda>_. [])\<rparr>"

definition sample_env :: HsEnv where
  "sample_env = \<lparr>hsID = NewNodeID 2, hsIsByz = False, hsStrategy = [], hsKeys = ring4, hsHash = plain_hash,
     hsIsLeader = StaticIsLeader (NewStatic (NewNodeID 4)),
     hsFindLeaderFor = StaticFindLeaderFor (NewStatic (NewNodeID 4)),
     hsRange = sorted_list_of_set, hsClock = (\<lambda>_. 0)\<rparr>"

text \<open>A block of replica 4, with a certificate for its parent that lists no signer.\<close>

definition led_qc :: "Identifier \<Rightarrow> View \<Rightarrow> QC" where
  "led_qc p qv = \<lparr>qcLeader = NewNodeID 4, qcView = qv, qcBlockID = p, qcSigners = [], qcAggSig = [], qcSignature = []\<rparr>"

definition led_block :: "Identifier \<Rightarrow> View \<Rightarrow> Identifier \<Rightarrow> View \<Rightarrow> Block" where
  "led_block i v p qv =
     \<lparr>blkHeader = zeroHeader\<lparr>hID := i, hView := v, hPrevID := p, hProposer := NewNodeID 4,
        hSig := [[4], IDToByte i], hQC := Some (led_qc p qv)\<rparr>, blkPayload = None\<rparr>"

definition led_vote :: "Identifier \<Rightarrow> View \<Rightarrow> Vote" where
  "led_vote b v = \<lparr>voteView = v, voteVoter = NewNodeID 2, voteBlockID = b, voteTimestamp = 0,
     voteSignature = [[2], IDToByte b]\<rparr>"

lemma led_simps [simp]:
  "blkID (led_block i v p qv) = i" "blkView (led_block i v p qv) = v"
  "blkPrevID (led_block i v p qv) = p" "blkProposer (led_block i v p qv) = NewNodeID 4"
  "hSig (blkHeader (led_block i v p qv)) = [[4], IDToByte i]"
  "blkQC (led_block i v p qv) = Some (led_qc p qv)" "qcView (led_qc p qv) = qv" "qcBlockID (led_qc p qv) = p"
  "Level (led_block i v p qv) = uint64 v" "Parent (led_block i v p qv) = Some (p, uint64 qv)"
  "voteView (led_vote i v) = v" "voteBlockID (led_vote i v) = i"
  by (simp_all add: led_block_def led_qc_def led_vote_def Level_def Parent_def)

lemma ids_differ: "NewNodeID 4 \<noteq> NewNodeID 2"
  using NewNodeID_inj [of 4 2] by auto

lemma led_sig: "check_block_sig sample_env (led_block i v p qv) = Some ()"
  using ids_differ
  by (simp add: check_block_sig_def sample_env_def PubVerify_def Verify_def ring4_def toy_ecdsa_def go_index_def i64_def)

lemma env_send:
  "send_vote sample_env hs b = Some (hs\<lparr>outbox := outbox hs @ [MsgVote (NewNodeID 4) (led_vote (blkID b) (blkView b))]\<rparr>)"
proof -
  have "MakeVote (hsKeys sample_env) v (hsID sample_env) x = Some (led_vote x v)" for v x
    by (simp add: MakeVote_def sample_env_def PrivSign_def Sign_def ring4_def toy_ecdsa_def go_index_def i64_def led_vote_def)
  then show ?thesis
    using ids_differ
    by (simp add: send_vote_def) (simp add: sample_env_def StaticFindLeaderFor_def NewStatic_def led_vote_def)
qed

lemma env_certificate: "certificate_verified sample_env (led_qc p qv) = Some True"
  using ids_differ by (simp add: certificate_verified_def sample_env_def VerifyQuorumSignature_def led_qc_def)

lemma env_plain:
  "withholds sample_env qc = Some False" "hsIsLeader sample_env (NewNodeID 4) v = Some True"
  "NewNodeID 4 \<noteq> hsID sample_env" "hsIsByz sample_env = False"
  using ids_differ by (simp_all add: withholds_def sample_env_def StaticIsLeader_def NewStatic_def)

lemmas hs_eval = hotstuff_safety_def ProcessBlock.simps chain_eval led_sig env_send env_certificate env_plain
  block_body_def processCertificate_def updateHighQC_def accept_block_def votingRule_def updatePreferredView_def
  commit_certified_def commitRule_def GetParentBlock_def GetBlockByID_def GetCurView_def AdvanceView_def
  NewHotStuff_def NewPacemaker_def zeroQC_def i64_def

definition hs0 :: HotStuff where "hs0 = NewHotStuff 4 (NewPacemaker 4)"

definition led_chain :: "Block list" where
  "led_chain = [led_block 1 1 0 0, led_block 2 2 1 1, led_block 3 3 2 2, led_block 4 4 3 3]"

lemma led_chain_universe: "universe_ok (set led_chain)"
  by (auto simp: universe_ok_def parents_below_def led_chain_def uint64_nonneg block_small_def small_def in_i64_def)

lemma led_chain_run:
  "\<exists>hs'. sf_run (hotstuff_safety sample_env) hs0 (map SfBlock led_chain) = Some hs' \<and>
     committedBlocks hs' = [led_block 1 1 0 0] \<and> curView (pm hs') = 4"
  by (simp add: led_chain_def hs0_def hs_eval)

theorem commits_need_three_chain_witness:
  "\<exists>hs hs' cs. sf_run (hotstuff_safety sample_env) hs0 (map SfBlock (take 3 led_chain)) = Some hs \<and>
     processCertificate sample_env hs (led_qc 3 3) = Some hs' \<and> committedBlocks hs' = committedBlocks hs @ cs \<and>
     cs = [led_block 1 1 0 0]"
proof -
  obtain hs hs' where r: "sf_run (hotstuff_safety sample_env) hs0 (map SfBlock (take 3 led_chain)) = Some hs"
    and p: "processCertificate sample_env hs (led_qc 3 3) = Some hs'"
    and c: "committedBlocks hs = []" "committedBlocks hs' = [led_block 1 1 0 0]"
    by (simp add: led_chain_def hs0_def hs_eval)
  have "hs_inv (set led_chain) hs"
    using hotstuff_run_advances [of "set led_chain" hs0 "map SfBlock (take 3 led_chain)" sample_env hs] r
      led_chain_universe hs_ok_New
    by (simp add: hs_inv_def hs0_def list_all_iff) (auto dest: in_set_takeD)
  then have "bc_ok (bc hs)" by (simp add: hs_inv_def hs_ok_def)
  from commits_need_three_chain [OF this p] r p c show ?thesis by auto
qed

text \<open>C1 (log): from a new replica, over any sequence of blocks, votes and timeouts whose views do not wrap and
  whose blocks lie above their parents, a HotStuff replica's view never goes back, the blocks it has
  handed over for commitment are only ever extended, and no two of them have the same level.\<close>

theorem hotstuff_log_append_only:
  assumes "universe_ok U" and "list_all (legal_event U) (xs @ ys)"
    and "sf_run (hotstuff_safety e) (NewHotStuff n (NewPacemaker n)) xs = Some hs1"
    and "sf_run (hotstuff_safety e) hs1 ys = Some hs2"
  shows "curView (pm hs1) \<le> curView (pm hs2) \<and> grows (committedBlocks hs1) (committedBlocks hs2) \<and>
    distinct (map Level (committedBlocks hs2))"
proof -
  have i: "hs_inv U (NewHotStuff n (NewPacemaker n))" using assms(1) hs_ok_New by (simp add: hs_inv_def)
  have l: "list_all (legal_event U) xs" "list_all (legal_event U) ys" using assms(2) by simp_all
  have "hs_inv U hs1" using hsf.run_ok [OF i l(1) assms(3)] by simp
  from hsf.run_ok [OF this l(2) assms(4)] hsf.run_log_distinct [OF this l(2) assms(4)] show ?thesis by simp
qed

theorem hotstuff_log_append_only_witness:
  "\<exists>hs. sf_run (hotstuff_safety sample_env) (NewHotStuff 4 (NewPacemaker 4)) (map SfBlock led_chain) = Some hs \<and>
     distinct (map Level (committedBlocks hs)) \<and> committedBlocks hs = [led_block 1 1 0 0]"
proof -
  obtain hs where r: "sf_run (hotstuff_safety sample_env) (NewHotStuff 4 (NewPacemaker 4)) (map SfBlock led_chain) = Some hs"
    and c: "committedBlocks hs = [led_block 1 1 0 0]" using led_chain_run by (auto simp: hs0_def)
  have l: "list_all (legal_event (set led_chain)) (map SfBlock led_chain @ [])" by (simp add: list_all_iff)
  have "sf_run (hotstuff_safety sample_env) hs [] = Some hs" by simp
  from hotstuff_log_append_only [OF led_chain_universe l r this] r c show ?thesis by simp
qed

text \<open>C9 (buffered blocks): \<open>ProcessBlock\<close> does not recurse for ever through the buffered blocks.  With one call
  more than the number of blocks buffered at or above the block's view, the bounded handler comes to an
  end, and its outcome, a result or a panic, is that of \<open>ProcessBlock\<close>.\<close>

theorem ProcessBlock_ends:
  assumes "universe_ok U" and "hs_ok U hs" and "block \<in> U"
  shows "process_fuel (Suc (buffered_above hs (blkView block))) e hs block = Some (ProcessBlock e hs block)"
  by (rule process_fuel_enough [OF assms]) simp

theorem ProcessBlock_ends_witness:
  "process_fuel (Suc (buffered_above hs0 1)) sample_env hs0 (led_block 1 1 0 0) =
     Some (ProcessBlock sample_env hs0 (led_block 1 1 0 0)) \<and> buffered_above hs0 1 = 0"
proof -
  have "led_block 1 1 0 0 \<in> set led_chain" by (simp add: led_chain_def)
  from ProcessBlock_ends [OF led_chain_universe hs_ok_New this, of 4 sample_env]
  show ?thesis by (simp add: hs0_def NewHotStuff_def buffered_above_def del: process_fuel.simps)
qed

lemma updatePreferredView_outbox: "updatePreferredView hs qc = Some (err, hs') \<Longrightarrow> outbox hs' = outbox hs"
  by (erule updatePreferredView_cases) simp_all

lemma commit_certified_outbox: "commit_certified hs qc = Some hs' \<Longrightarrow> outbox hs' = outbox hs"
  by (erule commit_certified_cases) simp_all

lemma processCertificate_outbox:
  assumes "processCertificate e hs qc = Some hs'"
  shows "outbox hs' = outbox hs"
  using assms
proof (cases rule: processCertificate_cases)
  case (buffered err hs1)
  with updatePreferredView_outbox [OF buffered(1)] show ?thesis by simp
next
  case (accepted hs1 hs2)
  have "outbox hs2 = outbox hs" using updatePreferredView_outbox [OF accepted(3)] accepted(4) by (simp add: updateHighQC_def)
  with accepted(5) show ?thesis using commit_certified_outbox by (fastforce split: if_splits)
qed simp_all

lemma ProcessVote_outbox:
  assumes "ProcessVote e hs vote = Some hs'"
  shows "outbox hs' = outbox hs"
  using assms
proof (cases rule: ProcessVote_cases)
  case (counted r)
  then show ?thesis by (metis HotStuff.select_convs(10) HotStuff.surjective HotStuff.update_convs(5))
next
  case (built qc bc1)
  then show ?thesis using processCertificate_outbox by fastforce
qed simp

lemma send_vote_outbox:
  assumes "send_vote e hs block = Some hs'" and "m \<in> set (outbox hs')" and "m \<notin> set (outbox hs)"
  obtains agg v where "m = MsgVote agg v" and "hs' = hs\<lparr>outbox := outbox hs @ [m]\<rparr>"
    and "voteBlockID v = blkID block" and "voteView v = blkView block" and "voteVoter v = hsID e"
    and "hsFindLeaderFor e (i64 (blkView block + 1)) = Some agg" and "agg \<noteq> hsID e"
proof -
  obtain vote agg where v: "MakeVote (hsKeys e) (blkView block) (hsID e) (blkID block) = Some vote"
    and a: "hsFindLeaderFor e (i64 (blkView block + 1)) = Some agg"
    using assms(1) by (auto simp: send_vote_def bind_Some_conv)
  have n: "agg \<noteq> hsID e" using assms v a ProcessVote_outbox by (auto simp: send_vote_def)
  with assms(1) v a have h: "hs' = hs\<lparr>outbox := outbox hs @ [MsgVote agg (vote\<lparr>voteTimestamp := hsClock e vote\<rparr>)]\<rparr>"
    by (simp add: send_vote_def)
  with assms(2,3) have m: "m = MsgVote agg (vote\<lparr>voteTimestamp := hsClock e vote\<rparr>)" by auto
  have "voteBlockID vote = blkID block \<and> voteView vote = blkView block \<and> voteVoter vote = hsID e"
    using v by (auto simp: MakeVote_def bind_Some_conv split: if_splits)
  with that m h a n show ?thesis by simp
qed

lemma votingRule_True:
  assumes "votingRule hs block = Some (Inr True)" and "2 < blkView block"
  shows "\<exists>parent. GetParentBlock (bc hs) (blkID block) = Some (Inr parent) \<and>
       preferredView hs \<le> blkView parent \<and> lastVotedView hs < blkView block"
proof -
  from assms obtain r where r: "GetParentBlock (bc hs) (blkID block) = Some r"
    by (auto simp: votingRule_def bind_Some_conv)
  with assms show ?thesis by (cases r) (auto simp: votingRule_def split: if_splits)
qed

lemma accept_block_vote:
  assumes p: "accept_block e hs block = Some (r, hs')" and m: "m \<in> set (outbox hs')" "m \<notin> set (outbox hs)"
  obtains hs2 where "send_vote e hs2 block = Some hs'" and "m \<notin> set (outbox hs2)" and "votingRule hs2 block = Some (Inr True)"
  using p
proof (cases rule: accept_block_cases)
  case (1 bc1 hs2 v)
  have "outbox hs2 = outbox hs"
    using 1(2) processCertificate_outbox [of e "hs\<lparr>bc := bc1\<rparr>"] by fastforce
  with 1(3,4) m that show ?thesis by auto
qed

text \<open>C8 (votes): when the handling of a block sends a vote, it is the replica's own vote for that block in that
  block's view, addressed to the leader of the next view.  The block was proposed by the leader of its
  view and is at most one view ahead, and unless it is of one of the first two views its parent is known
  and not below the preferred view.\<close>

theorem votes_obey_rules:
  assumes "block_body e hs block = Some (r, hs')"
    and "MsgVote agg v \<in> set (outbox hs')" and "MsgVote agg v \<notin> set (outbox hs)"
  shows "voteBlockID v = blkID block \<and> voteView v = blkView block \<and> voteVoter v = hsID e \<and>
    hsFindLeaderFor e (i64 (blkView block + 1)) = Some agg \<and> agg \<noteq> hsID e \<and>
    hsIsLeader e (blkProposer block) (blkView block) = Some True \<and>
    blkView block \<le> i64 (curView (pm hs) + 1) \<and>
    (2 < blkView block \<longrightarrow> (\<exists>parent. GetParentBlock (bc hs') (blkID block) = Some (Inr parent) \<and>
       preferredView hs' \<le> blkView parent \<and> lastVotedView hs' < blkView block))"
  using assms(1)
proof (cases rule: block_body_cases)
  case (go qc hs2)
  have "outbox (updateHighQC hs qc) = outbox hs" by (simp add: updateHighQC_def)
  with go(3) have "outbox hs2 = outbox hs" using processCertificate_outbox by (fastforce split: if_splits)
  with assms(2,3) go(4) have l: "hsIsLeader e (blkProposer block) (blkView block) = Some True"
    and a: "accept_block e hs2 block = Some (r, hs')" and n: "MsgVote agg v \<notin> set (outbox hs2)" by auto
  obtain hs3 where s: "send_vote e hs3 block = Some hs'" and m: "MsgVote agg v \<notin> set (outbox hs3)"
    and vr: "votingRule hs3 block = Some (Inr True)" by (rule accept_block_vote [OF a assms(2) n])
  obtain h: "hs' = hs3\<lparr>outbox := outbox hs3 @ [MsgVote agg v]\<rparr>" and v: "voteBlockID v = blkID block"
    "voteView v = blkView block" "voteVoter v = hsID e" "hsFindLeaderFor e (i64 (blkView block + 1)) = Some agg"
    "agg \<noteq> hsID e" using send_vote_outbox [OF s assms(2) m] by (metis hs_msg.inject(1))
  have "2 < blkView block \<longrightarrow> (\<exists>parent. GetParentBlock (bc hs3) (blkID block) = Some (Inr parent) \<and>
       preferredView hs3 \<le> blkView parent \<and> lastVotedView hs3 < blkView block)"
    using votingRule_True [OF vr] by blast
  with h v l go(1) show ?thesis by simp
qed (use assms(2,3) in simp_all)

theorem votes_obey_rules_witness:
  "\<exists>r hs'. block_body sample_env hs0 (led_block 1 1 0 0) = Some (r, hs') \<and>
     outbox hs' = [MsgVote (NewNodeID 4) (led_vote 1 1)] \<and>
     hsIsLeader sample_env (blkProposer (led_block 1 1 0 0)) 1 = Some True"
proof -
  obtain r hs' where b: "block_body sample_env hs0 (led_block 1 1 0 0) = Some (r, hs')"
    and o: "outbox hs' = [MsgVote (NewNodeID 4) (led_vote 1 1)]"
    by (simp add: hs0_def hs_eval)
  have "MsgVote (NewNodeID 4) (led_vote 1 1) \<in> set (outbox hs')" "MsgVote (NewNodeID 4) (led_vote 1 1) \<notin> set (outbox hs0)"
    using o by (simp_all add: hs0_def NewHotStuff_def)
  from votes_obey_rules [OF b this] b o show ?thesis by simp
qed

text \<open>Double votes: nothing stores the view of the last vote: along every run from a new replica
  \<open>lastVotedView\<close> stays zero, and a replica sends votes for two different blocks of the same view.\<close>

theorem last_vote_is_forgotten:
  assumes "universe_ok U" and "list_all (legal_event U) evs"
    and "sf_run (hotstuff_safety e) (NewHotStuff n (NewPacemaker n)) evs = Some hs"
  shows "lastVotedView hs = 0"
proof -
  have "hs_inv U (NewHotStuff n (NewPacemaker n))" using assms(1) hs_ok_New by (simp add: hs_inv_def)
  from hotstuff_run_advances [OF this assms(2,3)] show ?thesis by (simp add: advances_def NewHotStuff_def)
qed

theorem last_vote_is_forgotten_witness:
  "\<exists>hs. sf_run (hotstuff_safety sample_env) (NewHotStuff 4 (NewPacemaker 4))
       (map SfBlock [led_block 1 1 0 0, led_block 2 1 0 0]) = Some hs \<and>
     outbox hs = [MsgVote (NewNodeID 4) (led_vote 1 1), MsgVote (NewNodeID 4) (led_vote 2 1)] \<and>
     lastVotedView hs = 0"
proof -
  let ?bs = "[led_block 1 1 0 0, led_block 2 1 0 0]"
  have U: "universe_ok (set ?bs)"
    by (auto simp: universe_ok_def parents_below_def uint64_nonneg block_small_def small_def in_i64_def)
  have l: "list_all (legal_event (set ?bs)) (map SfBlock ?bs)" by simp
  obtain hs where r: "sf_run (hotstuff_safety sample_env) (NewHotStuff 4 (NewPacemaker 4)) (map SfBlock ?bs) = Some hs"
    and o: "outbox hs = [MsgVote (NewNodeID 4) (led_vote 1 1), MsgVote (NewNodeID 4) (led_vote 2 1)]"
    by (simp add: hs_eval)
  from last_vote_is_forgotten [OF U l r] r o show ?thesis by blast
qed

lemma own_certificate: "qcLeader qc = hsID e \<Longrightarrow> certificate_verified e qc = Some True"
  by (simp add: certificate_verified_def)

text \<open>Certificate views: the view a certificate states is not compared with that of the block it names.  Here the chain has the
  views 1, 2 and 4, and a certificate that states view 3 for the block of view 4 commits the first block.\<close>

lemma certificate_view_unchecked:
  "\<exists>bc1 hs'. do { b1 \<leftarrow> AddBlock (bc hs0) (led_block 1 1 0 0); b2 \<leftarrow> AddBlock b1 (led_block 2 2 1 1);
       AddBlock b2 (led_block 4 4 2 2) } = Some bc1 \<and>
     processCertificate sample_env (hs0\<lparr>bc := bc1\<rparr>) \<lparr>qcLeader = hsID sample_env, qcView = 3, qcBlockID = 4, qcSigners = [],
       qcAggSig = [], qcSignature = []\<rparr> = Some hs' \<and> committedBlocks hs' = [led_block 1 1 0 0]"
  by (simp add: hs0_def hs_eval own_certificate)

text \<open>Forged certificates: a certificate that names the receiving replica as its leader is taken without any
  signature.  Here such a certificate, with no signer, makes a replica that knows the chain commit.\<close>

lemma forged_certificate_commits:
  "\<exists>hs hs'. sf_run (hotstuff_safety sample_env) hs0 (map SfBlock (take 3 led_chain)) = Some hs \<and>
     processCertificate sample_env hs \<lparr>qcLeader = hsID sample_env, qcView = 3, qcBlockID = 3, qcSigners = [],
       qcAggSig = [], qcSignature = []\<rparr> = Some hs' \<and>
     committedBlocks hs = [] \<and> committedBlocks hs' = [led_block 1 1 0 0]"
  by (simp add: led_chain_def hs0_def hs_eval own_certificate)

text \<open>Unverified certificates: the certificate of a stale block becomes the highest certificate before it is
  verified: when its signatures are refused the handler returns without error, and an honest replica's
  next proposal extends that certificate.\<close>

theorem refused_certificate_is_proposed:
  assumes "check_block_sig e block = Some ()" and "blkQC block = Some qc" and "certificate_verified e qc = Some False"
    and "blkView block \<le> i64 (curView (pm hs) + 1)" and "blkView block < curView (pm hs)"
    and "qcView (highQC hs) < qcView qc" and "\<not> hsIsByz e"
  shows "\<exists>hs'. ProcessBlock e hs block = Some (None, hs') \<and> forkChoice e hs' = Some (qc, hs')"
proof -
  have p: "processCertificate e (updateHighQC hs qc) qc = Some (updateHighQC hs qc)"
    using assms(3) by (simp add: processCertificate_def)
  have u: "pm (updateHighQC hs qc) = pm hs" "highQC (updateHighQC hs qc) = qc"
    using assms(6) by (simp_all add: updateHighQC_def)
  have "block_body e hs block = Some (Some None, updateHighQC hs qc)"
    using assms(1,2,4,5) p u by (simp add: block_body_def GetCurView_def Let_def)
  then have "ProcessBlock e hs block = Some (None, updateHighQC hs qc)" by (simp add: ProcessBlock.simps)
  with u assms(7) show ?thesis by (simp add: forkChoice_def GetHighQC_def)
qed

theorem refused_certificate_is_proposed_witness:
  "let qc = (led_qc 7 9)\<lparr>qcSigners := [NewNodeID 1], qcAggSig := [[[0], [0]]]\<rparr>;
       block = (led_block 5 1 7 9)\<lparr>blkHeader := (blkHeader (led_block 5 1 7 9))\<lparr>hQC := Some qc\<rparr>\<rparr>;
       hs = hs0\<lparr>pm := (pm hs0)\<lparr>curView := 3\<rparr>\<rparr> in
     \<exists>hs'. ProcessBlock sample_env hs block = Some (None, hs') \<and> forkChoice sample_env hs' = Some (qc, hs')"
proof -
  let ?qc = "(led_qc 7 9)\<lparr>qcSigners := [NewNodeID 1], qcAggSig := [[[0], [0]]]\<rparr>"
  let ?block = "(led_block 5 1 7 9)\<lparr>blkHeader := (blkHeader (led_block 5 1 7 9))\<lparr>hQC := Some ?qc\<rparr>\<rparr>"
  let ?hs = "hs0\<lparr>pm := (pm hs0)\<lparr>curView := 3\<rparr>\<rparr>"
  have s: "check_block_sig sample_env ?block = Some ()" using ids_differ
    by (simp add: check_block_sig_def sample_env_def PubVerify_def Verify_def ring4_def toy_ecdsa_def go_index_def i64_def)
  have c: "certificate_verified sample_env ?qc = Some False"
    using ids_differ by (simp add: certificate_verified_def sample_env_def VerifyQuorumSignature_def led_qc_def
        ring4_def go_index_def PubVerify_def Verify_def toy_ecdsa_def i64_def)
  show ?thesis
    using refused_certificate_is_proposed [OF s _ c, of ?hs]
    by (simp add: hs0_def NewHotStuff_def zeroQC_def i64_def env_plain)
qed

end
