(* ===== verification/Tchs.thy ===== *)
theory Tchs
  imports HotStuff
begin

text \<open>
  The two-chain HotStuff logic (src/tchs/tchs.go).

  The replica has the fields of a HotStuff replica and is built from the same parts, so state and environment are
  those of \<open>HotStuff\<close>.  The rules and handlers of the package are translated here, and where one agrees with that of
  hotstuff.go the collection \<open>th_shared\<close> says so.  \<open>MakeProposal\<close> calls
  \<open>BuildProposal\<close> with arguments it no longer has and is left out; \<open>forkChoice\<close>, which it starts with, is here.
  A certificate that \<open>forkChoice\<close> changes may also be the one of a stored block, whose certificate no handler reads
  again.
\<close>

section \<open>Rules\<close>

type_synonym Tchs = HotStuff

definition NewTchs :: "int \<Rightarrow> Pacemaker \<Rightarrow> Tchs" where
  "NewTchs n p =
     \<lparr>pm = p, lastVotedView = 0, preferredView = 0, highQC = zeroQC, bc = NewBlockchain n,
      committedBlocks = [], forkedBlocks = [], bufferedQCs = Map.empty, bufferedBlocks = Map.empty,
      outbox = []\<rparr>"

definition thGetHighQC :: "Tchs \<Rightarrow> QC" where
  "thGetHighQC th = highQC th"

definition thUpdateHighQC :: "Tchs \<Rightarrow> QC \<Rightarrow> Tchs" where
  "thUpdateHighQC th qc = (if qcView qc > qcView (highQC th) then th\<lparr>highQC := qc\<rparr> else th)"

definition thUpdateLastVotedView :: "Tchs \<Rightarrow> View \<Rightarrow> error option \<times> Tchs" where
  "thUpdateLastVotedView th targetView =
     (if targetView < lastVotedView th then (Some ''target view is lower than the last voted view'', th)
      else (None, th\<lparr>lastVotedView := targetView\<rparr>))"

definition thVotingRule :: "Tchs \<Rightarrow> Block \<Rightarrow> (error + bool) option" where
  "thVotingRule th block =
     (if blkView block \<le> 2 then Some (Inr True)
      else do { r \<leftarrow> GetParentBlock (bc th) (blkID block);
                case r of
                  Inl e \<Rightarrow> Some (Inl ''cannot vote for block'')
                | Inr parentBlock \<Rightarrow>
                    if blkView block \<le> lastVotedView th \<or> blkView parentBlock < preferredView th
                    then Some (Inr False) else Some (Inr True) })"

definition thUpdatePreferredView :: "Tchs \<Rightarrow> QC \<Rightarrow> error option \<times> Tchs" where
  "thUpdatePreferredView th qc =
     (if qcView qc < 2 then (None, th)
      else case GetBlockByID (bc th) (qcBlockID qc) of
        Inl e \<Rightarrow> (Some ''cannot update preferred view'', th)
      | Inr _ \<Rightarrow> if qcView qc > preferredView th then (None, th\<lparr>preferredView := qcView qc\<rparr>) else (None, th))"

definition thCommitRule :: "Tchs \<Rightarrow> Block \<Rightarrow> (error + Block option) option" where
  "thCommitRule th block =
     do { qc \<leftarrow> blkQC block;
          r \<leftarrow> GetParentBlock (bc th) (qcBlockID qc);
          case r of
            Inl e \<Rightarrow> Some (Inl ''cannot commit any block'')
          | Inr parentBlock \<Rightarrow>
              if i64 (blkView parentBlock + 1) = qcView qc then Some (Inr (Some parentBlock)) else Some (Inr None) }"

definition thForkChoice :: "Tchs \<Rightarrow> QC \<times> Tchs" where
  "thForkChoice th =
     (let choice = (thGetHighQC th)\<lparr>qcView := i64 (GetCurView (pm th) - 1)\<rparr> in (choice, th\<lparr>highQC := choice\<rparr>))"

section \<open>Certificates, timeouts and votes\<close>

definition th_certificate_verified :: "HsEnv \<Rightarrow> QC \<Rightarrow> bool option" where
  "th_certificate_verified e qc =
     (if qcLeader qc = hsID e then Some True
      else do { (quorumIsVerified, _) \<leftarrow> VerifyQuorumSignature (hsKeys e) (qcAggSig qc) (qcBlockID qc) (qcSigners qc);
                Some quorumIsVerified })"

definition th_withholds :: "HsEnv \<Rightarrow> QC \<Rightarrow> bool option" where
  "th_withholds e qc =
     (if hsIsByz e \<and> hsStrategy e = FORK then hsIsLeader e (hsID e) (i64 (qcView qc + 1)) else Some False)"

definition th_check_block_sig :: "HsEnv \<Rightarrow> Block \<Rightarrow> unit option" where
  "th_check_block_sig e block =
     (if blkProposer block = hsID e then Some ()
      else do { _ \<leftarrow> PubVerify (hsKeys e) (hSig (blkHeader block)) (IDToByte (blkID block)) (blkProposer block);
                Some () })"

text \<open>These rules and checks are those of hotstuff.go.\<close>

named_theorems th_shared \<open>a rule of the two-chain package is the one of hotstuff.go\<close>

lemma thGetHighQC_eq [th_shared]: "thGetHighQC = GetHighQC"
  by (intro ext) (simp only: thGetHighQC_def GetHighQC_def)

lemma thUpdateHighQC_eq [th_shared]: "thUpdateHighQC = updateHighQC"
  by (intro ext) (simp only: thUpdateHighQC_def updateHighQC_def)

lemma thUpdateLastVotedView_eq [th_shared]: "thUpdateLastVotedView = updateLastVotedView"
  by (intro ext) (simp only: thUpdateLastVotedView_def updateLastVotedView_def)

lemma thVotingRule_eq [th_shared]: "thVotingRule = votingRule"
  by (intro ext) (simp only: thVotingRule_def votingRule_def)

lemma th_certificate_verified_eq [th_shared]: "th_certificate_verified = certificate_verified"
  by (intro ext) (simp only: th_certificate_verified_def certificate_verified_def)

lemma th_withholds_eq [th_shared]: "th_withholds = withholds"
  by (intro ext) (simp only: th_withholds_def withholds_def)

lemma th_check_block_sig_eq [th_shared]: "th_check_block_sig = check_block_sig"
  by (intro ext) (simp only: th_check_block_sig_def check_block_sig_def)

definition thProcessCertificate :: "HsEnv \<Rightarrow> Tchs \<Rightarrow> QC \<Rightarrow> Tchs option" where
  "thProcessCertificate e th qc =
     (if qcView qc < GetCurView (pm th) then Some th
      else do {
        ok \<leftarrow> th_certificate_verified e qc;
        if \<not> ok then Some th
        else do {
          w \<leftarrow> th_withholds e qc;
          if w then Some (th\<lparr>pm := AdvanceView (pm th) (qcView qc)\<rparr>)
          else case thUpdatePreferredView th qc of
            (Some err, th1) \<Rightarrow> Some (th1\<lparr>bufferedQCs := (bufferedQCs th1)(qcBlockID qc \<mapsto> qc)\<rparr>)
          | (None, th1) \<Rightarrow>
              let th2 = thUpdateHighQC th1 qc in Some (th2\<lparr>pm := AdvanceView (pm th2) (qcView qc)\<rparr>) } })"

lemmas thProcessCertificate_unfold = thProcessCertificate_def [unfolded th_shared]

text \<open>A signature that cannot be checked ends the process.\<close>

definition th_vote_verified :: "HsEnv \<Rightarrow> Vote \<Rightarrow> bool option" where
  "th_vote_verified e vote =
     (if hsID e = voteVoter vote then Some True
      else do { (voteIsVerified, err) \<leftarrow>
                  PubVerify (hsKeys e) (voteSignature vote) (IDToByte (voteBlockID vote)) (voteVoter vote);
                if err \<noteq> None then None else Some voteIsVerified })"

definition thProcessVote :: "HsEnv \<Rightarrow> Tchs \<Rightarrow> Vote \<Rightarrow> Tchs option" where
  "thProcessVote e th vote =
     do { ok \<leftarrow> th_vote_verified e vote;
          if \<not> ok then Some th
          else case AddVote (hsRange e) (bc th) vote of
            ((isBuilt, qco), bc1) \<Rightarrow>
              let th1 = th\<lparr>bc := bc1\<rparr> in
              if \<not> isBuilt then Some th1
              else do {
                qc0 \<leftarrow> qco;
                let qc = qc0\<lparr>qcLeader := hsID e\<rparr> in
                case GetBlockByID (bc th1) (qcBlockID qc) of
                  Inl err \<Rightarrow> Some (th1\<lparr>bufferedQCs := (bufferedQCs th1)(qcBlockID qc \<mapsto> qc)\<rparr>)
                | Inr _ \<Rightarrow> thProcessCertificate e th1 qc } }"

definition thProcessTC :: "Tchs \<Rightarrow> TC \<Rightarrow> Tchs" where
  "thProcessTC th tc =
     (if tcView tc < GetCurView (pm th) then th else th\<lparr>pm := AdvanceView (pm th) (tcView tc)\<rparr>)"

definition thProcessRemoteTmo :: "Tchs \<Rightarrow> TMO \<Rightarrow> Tchs option" where
  "thProcessRemoteTmo th tmo =
     (if tmoView tmo < GetCurView (pm th) then Some th
      else case ProcessRemoteTmo (pm th) tmo of
        ((isBuilt, tco), p) \<Rightarrow>
          let th1 = th\<lparr>pm := p\<rparr> in
          if \<not> isBuilt then Some th1 else do { tc \<leftarrow> tco; Some (thProcessTC th1 tc) })"

definition thProcessLocalTmo :: "HsEnv \<Rightarrow> Tchs \<Rightarrow> View \<Rightarrow> Tchs option" where
  "thProcessLocalTmo e th view =
     (let th1 = th\<lparr>pm := AdvanceView (pm th) (i64 (view + 1))\<rparr>;
          tmo = \<lparr>tmoView = i64 (view + 1), tmoNodeID = hsID e, tmoHighQC = Some (thGetHighQC th1)\<rparr>
      in thProcessRemoteTmo (th1\<lparr>outbox := outbox th1 @ [MsgTMO tmo]\<rparr>) tmo)"

section \<open>Blocks\<close>

definition th_send_vote :: "HsEnv \<Rightarrow> Tchs \<Rightarrow> Block \<Rightarrow> Tchs option" where
  "th_send_vote e th block =
     do { vote \<leftarrow> MakeVote (hsKeys e) (blkView block) (hsID e) (blkID block);
          voteAggregator \<leftarrow> hsFindLeaderFor e (i64 (blkView block + 1));
          if voteAggregator = hsID e then thProcessVote e th vote
          else Some (th\<lparr>outbox := outbox th @ [MsgVote voteAggregator vote]\<rparr>) }"

text \<open>
  The check of the commit rule inside \<open>ProcessBlock\<close>.  As below, the first component is the early return of the
  handler, \<open>None\<close> when it goes on.
\<close>

definition th_commit :: "Tchs \<Rightarrow> Block \<Rightarrow> QC \<Rightarrow> (error option option \<times> Tchs) option" where
  "th_commit th block qc =
     (if \<not> (qcView qc \<ge> 2 \<and> i64 (qcView qc + 1) = blkView block) then Some (None, th)
      else do {
        r \<leftarrow> thCommitRule th block;
        case r of
          Inl e \<Rightarrow> Some (Some None, th)
        | Inr None \<Rightarrow> Some (Some None, th)
        | Inr (Some b) \<Rightarrow>
            do { ((committed, forked, err), bc1) \<leftarrow> CommitBlock (bc th) (blkID b) (GetCurView (pm th));
                 if err \<noteq> None then Some (Some (Some ''cannot commit blocks''), th\<lparr>bc := bc1\<rparr>)
                 else Some (None, th\<lparr>bc := bc1, committedBlocks := committedBlocks th @ committed,
                                     forkedBlocks := forkedBlocks th @ forked\<rparr>) } })"

definition th_take_qc :: "HsEnv \<Rightarrow> Tchs \<Rightarrow> Block \<Rightarrow> Tchs option" where
  "th_take_qc e th block =
     (case bufferedQCs th (blkID block) of
        None \<Rightarrow> Some th
      | Some qc \<Rightarrow>
          do { h \<leftarrow> thProcessCertificate e th qc;
               Some (h\<lparr>bufferedQCs := (bufferedQCs h)(blkID block := None)\<rparr>) })"

definition th_accept_block :: "HsEnv \<Rightarrow> Tchs \<Rightarrow> Block \<Rightarrow> QC \<Rightarrow> (error option option \<times> Tchs) option" where
  "th_accept_block e th block qc =
     do { bc1 \<leftarrow> AddBlock (bc th) block;
          (ret, th1) \<leftarrow> th_commit (th\<lparr>bc := bc1\<rparr>) block qc;
          if ret \<noteq> None then Some (ret, th1)
          else do {
            th2 \<leftarrow> th_take_qc e th1 block;
            v \<leftarrow> thVotingRule th2 block;
            case v of
              Inl err \<Rightarrow> Some (Some (Some err), th2)
            | Inr shouldVote \<Rightarrow>
                if \<not> shouldVote then Some (Some None, th2)
                else do { th3 \<leftarrow> th_send_vote e th2 block; Some (None, th3) } } }"

lemmas th_accept_block_unfold = th_accept_block_def [unfolded th_shared]

definition th_block_body :: "HsEnv \<Rightarrow> Tchs \<Rightarrow> Block \<Rightarrow> (error option option \<times> Tchs) option" where
  "th_block_body e th block =
     do { _ \<leftarrow> th_check_block_sig e block;
          if blkView block > i64 (GetCurView (pm th) + 1) then
            Some (Some None, th\<lparr>bufferedBlocks := (bufferedBlocks th)(i64 (blkView block - 1) \<mapsto> block)\<rparr>)
          else case blkQC block of
            None \<Rightarrow> Some (Some (Some ''the block should contain a QC''), th)
          | Some qc \<Rightarrow>
              let th1 = thUpdateHighQC th qc in
              do { th2 \<leftarrow> (if blkProposer block \<noteq> hsID e then thProcessCertificate e th1 qc else Some th1);
                   if blkView block < GetCurView (pm th2) then Some (Some None, th2)
                   else do {
                     leader \<leftarrow> hsIsLeader e (blkProposer block) (blkView block);
                     if \<not> leader then Some (Some (Some ''received a proposal from an invalid leader''), th2)
                     else th_accept_block e th2 block qc } } }"

lemmas th_block_body_unfold = th_block_body_def [unfolded th_shared]

partial_function (option) thProcessBlock :: "HsEnv \<Rightarrow> Tchs \<Rightarrow> Block \<Rightarrow> (error option \<times> Tchs) option" where
  "thProcessBlock e th block =
     (case th_block_body e th block of
        None \<Rightarrow> None
      | Some (Some r, th1) \<Rightarrow> Some (r, th1)
      | Some (None, th1) \<Rightarrow>
          (case bufferedBlocks th1 (blkView block) of
             None \<Rightarrow> Some (None, th1)
           | Some b \<Rightarrow> thProcessBlock e th1 b))"

section \<open>Invariant and progress\<close>

lemma thUpdatePreferredView_facts:
  assumes "hs_ok U th" and "thUpdatePreferredView th qc = (err, th')"
  shows "keeps U th th' \<and> bc th' = bc th \<and> committedBlocks th' = committedBlocks th"
  using assms by (auto simp: thUpdatePreferredView_def hs_ok_def advances_def split: if_splits sum.splits)

lemma thProcessCertificate_cases:
  assumes "thProcessCertificate e th qc = Some th'"
  obtains (skip) "th' = th"
  | (withheld) "th' = th\<lparr>pm := AdvanceView (pm th) (qcView qc)\<rparr>"
  | (buffered) err th1 where "thUpdatePreferredView th qc = (Some err, th1)"
      and "th' = th1\<lparr>bufferedQCs := (bufferedQCs th1)(qcBlockID qc \<mapsto> qc)\<rparr>"
  | (accepted) th1 where "certificate_verified e qc = Some True" and "thUpdatePreferredView th qc = (None, th1)"
      and "th' = (updateHighQC th1 qc)\<lparr>pm := AdvanceView (pm (updateHighQC th1 qc)) (qcView qc)\<rparr>"
proof -
  obtain err th1 where u: "thUpdatePreferredView th qc = (err, th1)" by fastforce
  show ?thesis
  proof (cases "qcView qc < GetCurView (pm th)")
    case True
    with assms skip show ?thesis by (simp add: thProcessCertificate_unfold)
  next
    case fresh: False
    with assms obtain ok where ok: "certificate_verified e qc = Some ok"
      by (auto simp: thProcessCertificate_unfold bind_Some_conv)
    show ?thesis
    proof (cases ok)
      case False
      with assms fresh ok skip show ?thesis by (simp add: thProcessCertificate_unfold)
    next
      case True
      with assms fresh ok obtain w where w: "withholds e qc = Some w"
        by (auto simp: thProcessCertificate_unfold bind_Some_conv)
      consider w | "\<not> w" "err = None" | x where "\<not> w" "err = Some x" by (cases err) auto
      then show ?thesis
      proof cases
        case 1
        with assms fresh ok True w withheld show ?thesis by (simp add: thProcessCertificate_unfold)
      next
        case 2
        with assms fresh ok True w u accepted show ?thesis by (simp add: thProcessCertificate_unfold Let_def)
      next
        case (3 x)
        with assms fresh ok True w u buffered show ?thesis by (simp add: thProcessCertificate_unfold)
      qed
    qed
  qed
qed

lemma thProcessCertificate_facts:
  assumes ok: "hs_ok U th" and s: "small (qcView qc)" and p: "thProcessCertificate e th qc = Some th'"
  shows "keeps U th th' \<and> bc th' = bc th \<and> committedBlocks th' = committedBlocks th"
  using p
proof (cases rule: thProcessCertificate_cases)
  case skip
  with ok show ?thesis by simp
next
  case withheld
  with advance_facts [OF ok s] show ?thesis by simp
next
  case (buffered err th1)
  note 1 = thUpdatePreferredView_facts [OF ok buffered(1)]
  from bufferQC_facts [OF _ s, of U th1] 1 buffered(2) show ?thesis using advances_trans by fastforce
next
  case (accepted th1)
  note 1 = thUpdatePreferredView_facts [OF ok accepted(2)]
  note 2 = updateHighQC_facts [OF conjunct1 [OF conjunct1 [OF 1]] s]
  note 3 = advance_facts [OF conjunct1 [OF 2] s]
  have "keeps U (updateHighQC th1 qc) th'" using 3 accepted(3) by simp
  note 4 = keeps_trans [OF keeps_trans [OF conjunct1 [OF 1] 2] this]
  have "bc (updateHighQC th1 qc) = bc th1" "committedBlocks (updateHighQC th1 qc) = committedBlocks th1"
    by (simp_all add: updateHighQC_def)
  with 1 4 accepted(3) show ?thesis by simp
qed

lemma thProcessVote_facts:
  assumes ok: "hs_ok U th" and s: "small (voteView vote)" and p: "thProcessVote e th vote = Some th'"
  shows "keeps U th th' \<and> committedBlocks th' = committedBlocks th"
proof -
  obtain v where v: "th_vote_verified e vote = Some v" using p by (auto simp: thProcessVote_def bind_Some_conv)
  obtain b qco bc1 where a: "AddVote (hsRange e) (bc th) vote = ((b, qco), bc1)" by (metis surj_pair)
  have fr: "forrest bc1 = forrest (bc th)" using AddVote_frame [of "hsRange e" "bc th" vote] a by simp
  note 1 = hs_ok_frames(1) [OF ok fr]
  consider "\<not> v" | "v" "\<not> b" | "v" "b" by blast
  then show ?thesis
  proof cases
    case 1
    with p v ok show ?thesis by (simp add: thProcessVote_def)
  next
    case 2
    with p v a have "th' = th\<lparr>bc := bc1\<rparr>" by (simp add: thProcessVote_def)
    with 1 show ?thesis by simp
  next
    case 3
    from a 3 obtain qc0 where qc0: "qco = Some qc0" "qcView qc0 = voteView vote"
      using AddVote_built by (metis (full_types))
    let ?qc = "qc0\<lparr>qcLeader := hsID e\<rparr>"
    have s': "small (qcView ?qc)" using s qc0(2) by simp
    consider "th' = th\<lparr>bc := bc1, bufferedQCs := (bufferedQCs th)(qcBlockID ?qc \<mapsto> ?qc)\<rparr>"
      | "thProcessCertificate e (th\<lparr>bc := bc1\<rparr>) ?qc = Some th'"
      using p v a 3 qc0(1) by (auto simp: thProcessVote_def Let_def split: sum.splits)
    then show ?thesis
    proof cases
      case 1
      with \<open>keeps U th (th\<lparr>bc := bc1\<rparr>)\<close> bufferQC_facts [OF conjunct1 [OF \<open>keeps U th (th\<lparr>bc := bc1\<rparr>)\<close>] s']
      show ?thesis using advances_trans by fastforce
    next
      case 2
      from thProcessCertificate_facts [OF conjunct1 [OF \<open>keeps U th (th\<lparr>bc := bc1\<rparr>)\<close>] s' 2]
        \<open>keeps U th (th\<lparr>bc := bc1\<rparr>)\<close> show ?thesis using advances_trans by fastforce
    qed
  qed
qed

lemma thProcessRemoteTmo_facts:
  assumes ok: "hs_ok U th" and s: "small (tmoView tmo)" and p: "thProcessRemoteTmo th tmo = Some th'"
  shows "keeps U th th'"
proof -
  obtain b tco p1 where t: "ProcessRemoteTmo (pm th) tmo = ((b, tco), p1)" by (metis surj_pair)
  note 1 = hs_ok_frames(2) [OF ok ProcessRemoteTmo_frame(1) [OF t]]
  consider "th' = th" | "\<not> b" "th' = th\<lparr>pm := p1\<rparr>" | tc where "b" "tco = Some tc" "th' = thProcessTC (th\<lparr>pm := p1\<rparr>) tc"
    using p t by (auto simp: thProcessRemoteTmo_def Let_def bind_Some_conv split: if_splits)
  then show ?thesis
  proof cases
    case 1
    with ok show ?thesis by simp
  next
    case 2
    with 1 show ?thesis by simp
  next
    case (3 tc)
    then have "small (tcView tc)" using ProcessRemoteTmo_frame(2) [OF t] s by auto
    from advance_facts [OF conjunct1 [OF 1] this] 1 3(3) advances_trans [of th "th\<lparr>pm := p1\<rparr>"] show ?thesis
      by (simp add: thProcessTC_def)
  qed
qed

lemma thProcessLocalTmo_facts:
  assumes ok: "hs_ok U th" and s: "small view" "small (view + 1)" and p: "thProcessLocalTmo e th view = Some th'"
  shows "keeps U th th'"
proof -
  define th1 where "th1 = th\<lparr>pm := AdvanceView (pm th) (view + 1)\<rparr>"
  define tmo where "tmo = \<lparr>tmoView = view + 1, tmoNodeID = hsID e, tmoHighQC = Some (thGetHighQC th1)\<rparr>"
  have 1: "keeps U th th1" using advance_facts [OF ok s(2)] by (simp add: th1_def)
  note 2 = keeps_trans [OF 1 hs_ok_frames(3) [OF conjunct1 [OF 1], of "[MsgTMO tmo]"]]
  have "thProcessRemoteTmo (th1\<lparr>outbox := outbox th1 @ [MsgTMO tmo]\<rparr>) tmo = Some th'"
    using p smallD(3) [OF s(1)] by (simp add: thProcessLocalTmo_def Let_def th1_def tmo_def)
  from thProcessRemoteTmo_facts [OF conjunct1 [OF 2] _ this] s(2) keeps_trans [OF 2] show ?thesis by (simp add: tmo_def)
qed

subsection \<open>Blocks\<close>

lemma th_send_vote_facts:
  assumes ok: "hs_ok U th" and s: "small (blkView block)" and p: "th_send_vote e th block = Some th'"
  shows "keeps U th th' \<and> committedBlocks th' = committedBlocks th"
proof -
  obtain vote agg where v: "MakeVote (hsKeys e) (blkView block) (hsID e) (blkID block) = Some vote"
    and a: "hsFindLeaderFor e (i64 (blkView block + 1)) = Some agg"
    using p by (auto simp: th_send_vote_def bind_Some_conv)
  have vw: "voteView vote = blkView block" using v by (auto simp: MakeVote_def bind_Some_conv split: if_splits)
  show ?thesis
  proof (cases "agg = hsID e")
    case True
    with p v a have "thProcessVote e th vote = Some th'" by (simp add: th_send_vote_def)
    from thProcessVote_facts [OF ok _ this] vw s show ?thesis by simp
  next
    case False
    with p v a have "th' = th\<lparr>outbox := outbox th @ [MsgVote agg vote]\<rparr>" by (simp add: th_send_vote_def)
    with hs_ok_frames(3) [OF ok] show ?thesis by simp
  qed
qed

lemma thCommitRule_cases:
  assumes "thCommitRule th block = Some (Inr (Some p))" and "blkQC block = Some qc"
  shows "GetParentBlock (bc th) (qcBlockID qc) = Some (Inr p)" and "i64 (blkView p + 1) = qcView qc"
proof -
  from assms obtain r where r: "GetParentBlock (bc th) (qcBlockID qc) = Some r"
    by (auto simp: thCommitRule_def bind_Some_conv)
  with assms show "GetParentBlock (bc th) (qcBlockID qc) = Some (Inr p)" "i64 (blkView p + 1) = qcView qc"
    by (auto simp: thCommitRule_def split: sum.splits if_splits)
qed

lemma th_commit_cases:
  assumes "th_commit th block qc = Some (ret, th')"
  obtains (nothing) "th' = th"
  | (commit) p cs fs err bc1 where "2 \<le> qcView qc" and "i64 (qcView qc + 1) = blkView block"
      and "thCommitRule th block = Some (Inr (Some p))"
      and "CommitBlock (bc th) (blkID p) (curView (pm th)) = Some ((cs, fs, err), bc1)"
      and "th' = (if err \<noteq> None then th\<lparr>bc := bc1\<rparr> else th\<lparr>bc := bc1,
         committedBlocks := committedBlocks th @ cs, forkedBlocks := forkedBlocks th @ fs\<rparr>)"
proof (cases "2 \<le> qcView qc \<and> i64 (qcView qc + 1) = blkView block")
  case False
  then have "th_commit th block qc = Some (None, th)" unfolding th_commit_def by (simp only: if_True not_False_eq_True)
  with assms have "th' = th" by simp
  then show ?thesis by (rule nothing)
next
  case True
  then obtain r where r: "thCommitRule th block = Some r" using assms by (auto simp: th_commit_def bind_Some_conv)
  consider "isl r \<or> r = Inr None" | p where "r = Inr (Some p)" by (cases r) auto
  then show ?thesis
  proof cases
    case 1
    with assms True r have "th' = th" by (auto simp: th_commit_def isl_def)
    then show ?thesis by (rule nothing)
  next
    case (2 p)
    with assms True r obtain cs fs err bc1 where
      c: "CommitBlock (bc th) (blkID p) (curView (pm th)) = Some ((cs, fs, err), bc1)"
      by (auto simp: th_commit_def bind_Some_conv GetCurView_def)
    with assms True r 2 have "th' = (if err \<noteq> None then th\<lparr>bc := bc1\<rparr> else th\<lparr>bc := bc1,
         committedBlocks := committedBlocks th @ cs, forkedBlocks := forkedBlocks th @ fs\<rparr>)"
      by (cases err) (simp_all add: th_commit_def GetCurView_def)
    with True r 2 c show ?thesis by (intro commit) simp_all
  qed
qed

lemma th_commit_facts:
  assumes U: "parents_below U" and ok: "hs_ok U th" and c: "th_commit th block qc = Some (ret, th')"
  shows "keeps U th th'"
  using c
proof (cases rule: th_commit_cases)
  case nothing
  with ok show ?thesis by simp
next
  case (commit p cs fs err bc1)
  from commit_store_facts [OF U ok commit(4,5)] show ?thesis .
qed

lemma th_take_qc_facts:
  assumes ok: "hs_ok U th" and p: "th_take_qc e th block = Some th'"
  shows "keeps U th th' \<and> committedBlocks th' = committedBlocks th"
proof (cases "bufferedQCs th (blkID block)")
  case None
  with p ok show ?thesis by (simp add: th_take_qc_def)
next
  case (Some qc)
  with p obtain h where h: "thProcessCertificate e th qc = Some h"
    "th' = h\<lparr>bufferedQCs := (bufferedQCs h)(blkID block := None)\<rparr>" by (auto simp: th_take_qc_def bind_Some_conv)
  have "small (qcView qc)" using ok Some by (simp add: hs_ok_def)
  note 1 = thProcessCertificate_facts [OF ok this h(1)]
  from keeps_trans [OF conjunct1 [OF 1] hs_ok_frames(4) [of U h "blkID block"]] 1 h(2) show ?thesis by simp
qed

lemma th_accept_block_cases:
  assumes "th_accept_block e th block qc = Some (r, th')"
  obtains bc1 ret th1 where "AddBlock (bc th) block = Some bc1"
    and "th_commit (th\<lparr>bc := bc1\<rparr>) block qc = Some (ret, th1)"
    and "th' = th1 \<and> r \<noteq> None \<or>
      (\<exists>th2. th_take_qc e th1 block = Some th2 \<and> (th' = th2 \<and> r \<noteq> None \<or>
         th_send_vote e th2 block = Some th' \<and> r = None \<and> votingRule th2 block = Some (Inr True)))"
proof -
  obtain bc1 ret th1 where a: "AddBlock (bc th) block = Some bc1"
    "th_commit (th\<lparr>bc := bc1\<rparr>) block qc = Some (ret, th1)"
    using assms by (auto simp: th_accept_block_unfold bind_Some_conv)
  show ?thesis
  proof (cases ret)
    case (Some x)
    with assms a have "r = Some x \<and> th' = th1" by (simp add: th_accept_block_unfold)
    with a that show ?thesis by blast
  next
    case None
    with assms a obtain th2 v where t: "th_take_qc e th1 block = Some th2" "votingRule th2 block = Some v"
      by (auto simp: th_accept_block_unfold bind_Some_conv)
    have "th' = th2 \<and> r \<noteq> None \<or> th_send_vote e th2 block = Some th' \<and> r = None \<and> v = Inr True"
      using assms a t None by (auto simp: th_accept_block_unfold bind_Some_conv split: sum.splits if_splits)
    with a t that show ?thesis by blast
  qed
qed

lemma th_accept_block_facts:
  assumes U: "universe_ok U" and ok: "hs_ok U th" and b: "block \<in> U"
    and p: "th_accept_block e th block qc = Some (r, th')"
  shows "keeps U th th'"
  using p
proof (cases rule: th_accept_block_cases)
  case (1 bc1 ret th1)
  note A = AddBlock_keeps [OF ok b 1(1)]
  note B = keeps_trans [OF A th_commit_facts [OF universe_block(1) [OF U b] conjunct1 [OF A] 1(2)]]
  from 1(3) show ?thesis
  proof (elim disjE conjE exE)
    assume "th' = th1"
    with B show ?thesis by simp
  next
    fix th2 assume t: "th_take_qc e th1 block = Some th2" and "th' = th2"
    from keeps_trans [OF B conjunct1 [OF th_take_qc_facts [OF conjunct1 [OF B] t]]] \<open>th' = th2\<close> show ?thesis by simp
  next
    fix th2 assume t: "th_take_qc e th1 block = Some th2" and v: "th_send_vote e th2 block = Some th'"
    note C = keeps_trans [OF B conjunct1 [OF th_take_qc_facts [OF conjunct1 [OF B] t]]]
    from keeps_trans [OF C conjunct1 [OF th_send_vote_facts [OF conjunct1 [OF C] universe_block(2) [OF U b] v]]]
    show ?thesis .
  qed
qed

lemma th_block_body_cases:
  assumes "th_block_body e th block = Some (r, th')"
  obtains (buffered) "r = Some None" and "i64 (curView (pm th) + 1) < blkView block"
      and "th' = th\<lparr>bufferedBlocks := (bufferedBlocks th)(i64 (blkView block - 1) \<mapsto> block)\<rparr>"
  | (noqc) "r \<noteq> None" and "th' = th"
  | (go) qc th2 where "blkQC block = Some qc"
      and "(if blkProposer block \<noteq> hsID e then thProcessCertificate e (updateHighQC th qc) qc
            else Some (updateHighQC th qc)) = Some th2"
      and "r \<noteq> None \<and> th' = th2 \<or>
           curView (pm th2) \<le> blkView block \<and> hsIsLeader e (blkProposer block) (blkView block) = Some True \<and>
           th_accept_block e th2 block qc = Some (r, th')"
proof -
  have c: "check_block_sig e block = Some ()"
    using assms by (cases "check_block_sig e block") (simp_all add: th_block_body_unfold)
  consider "i64 (curView (pm th) + 1) < blkView block" | "blkView block \<le> i64 (curView (pm th) + 1)" "blkQC block = None"
    | qc where "blkView block \<le> i64 (curView (pm th) + 1)" "blkQC block = Some qc" by fastforce
  then show ?thesis
  proof cases
    case 1
    with assms c buffered show ?thesis by (simp add: th_block_body_unfold GetCurView_def)
  next
    case 2
    with assms c have "r = Some (Some ''the block should contain a QC'') \<and> th' = th"
      by (auto simp: th_block_body_unfold GetCurView_def)
    with noqc show ?thesis by simp
  next
    case (3 qc)
    then obtain th2 where h: "(if blkProposer block \<noteq> hsID e then thProcessCertificate e (updateHighQC th qc) qc
            else Some (updateHighQC th qc)) = Some th2"
      using assms c unfolding th_block_body_unfold by (simp add: GetCurView_def bind_Some_conv Let_def) blast
    have "(if blkView block < curView (pm th2) then Some (Some None, th2)
       else do { leader \<leftarrow> hsIsLeader e (blkProposer block) (blkView block);
              if \<not> leader then Some (Some (Some ''received a proposal from an invalid leader''), th2)
              else th_accept_block e th2 block qc }) = Some (r, th')"
      using assms c 3 h unfolding th_block_body_unfold by (simp add: GetCurView_def Let_def)
    then have "r \<noteq> None \<and> th' = th2 \<or>
           curView (pm th2) \<le> blkView block \<and> hsIsLeader e (blkProposer block) (blkView block) = Some True \<and>
           th_accept_block e th2 block qc = Some (r, th')"
      by (auto simp: bind_Some_conv split: if_splits)
    with 3 h go show ?thesis by blast
  qed
qed

lemma th_own_qc_facts:
  assumes ok: "hs_ok U th" and s: "small (qcView qc)"
    and p: "(if blkProposer block \<noteq> hsID e then thProcessCertificate e (updateHighQC th qc) qc
            else Some (updateHighQC th qc)) = Some th2"
  shows "keeps U th th2 \<and> bc th2 = bc th \<and> committedBlocks th2 = committedBlocks th"
proof -
  note 1 = updateHighQC_facts [OF ok s]
  have u: "bc (updateHighQC th qc) = bc th" "committedBlocks (updateHighQC th qc) = committedBlocks th"
    by (simp_all add: updateHighQC_def)
  show ?thesis
  proof (cases "blkProposer block = hsID e")
    case True
    with p 1 u show ?thesis by simp
  next
    case False
    with p have "thProcessCertificate e (updateHighQC th qc) qc = Some th2" by simp
    note 2 = thProcessCertificate_facts [OF conjunct1 [OF 1] s this]
    from keeps_trans [OF 1 conjunct1 [OF 2]] 2 u show ?thesis by simp
  qed
qed

lemma th_block_body_facts:
  assumes U: "universe_ok U" and ok: "hs_ok U th" and b: "block \<in> U"
    and p: "th_block_body e th block = Some (r, th')"
  shows "hs_ok U th' \<and> advances th th' \<and> (r = None \<longrightarrow> bufferedBlocks th' = bufferedBlocks th)"
  using p
proof (cases rule: th_block_body_cases)
  case buffered
  with buffer_block_facts [OF ok b universe_block(3) [OF U b]] show ?thesis by simp
next
  case noqc
  with ok show ?thesis by simp
next
  case (go qc th2)
  note 2 = th_own_qc_facts [OF ok universe_block(4) [OF U b go(1)] go(2)]
  from go(3) show ?thesis
  proof (elim disjE conjE)
    assume "th_accept_block e th2 block qc = Some (r, th')"
    from keeps_trans [OF conjunct1 [OF 2] th_accept_block_facts [OF U conjunct1 [OF conjunct1 [OF 2]] b this]]
    show ?thesis by simp
  qed (use 2 in simp)
qed

lemma th_next_buffered:
  assumes U: "universe_ok U" and ok: "hs_ok U th" and b: "block \<in> U"
    and p: "th_block_body e th block = Some (None, th1)" and n: "bufferedBlocks th1 (blkView block) = Some c"
  shows "hs_ok U th1" and "advances th th1" and "c \<in> U"
    and "buffered_above th1 (blkView c) < buffered_above th (blkView block)"
proof -
  note B = th_block_body_facts [OF U ok b p]
  from B show 1: "hs_ok U th1" "advances th th1" by auto
  from 1(1) n show "c \<in> U" by (auto simp: hs_ok_def)
  show "buffered_above th1 (blkView c) < buffered_above th (blkView block)"
    using buffered_above_decreases [OF 1(1) n] B by (simp add: buffered_above_def)
qed

lemma thProcessBlock_cases:
  assumes "thProcessBlock e th block = Some (err, th')"
  obtains (stop) r where "th_block_body e th block = Some (r, th')"
  | (next_block) th1 b where "th_block_body e th block = Some (None, th1)"
      and "bufferedBlocks th1 (blkView block) = Some b" and "thProcessBlock e th1 b = Some (err, th')"
proof -
  from assms have p: "(case th_block_body e th block of None \<Rightarrow> None
      | Some (Some r, th1) \<Rightarrow> Some (r, th1)
      | Some (None, th1) \<Rightarrow> (case bufferedBlocks th1 (blkView block) of None \<Rightarrow> Some (None, th1)
           | Some b \<Rightarrow> thProcessBlock e th1 b)) = Some (err, th')" by (subst (asm) thProcessBlock.simps)
  then obtain r th1 where b: "th_block_body e th block = Some (r, th1)"
    by (cases "th_block_body e th block") auto
  show ?thesis
  proof (cases "r = None \<and> bufferedBlocks th1 (blkView block) \<noteq> None")
    case False
    with p b have "th' = th1" by (auto split: option.splits)
    with b stop show ?thesis by blast
  next
    case True
    with p b next_block show ?thesis by auto
  qed
qed

lemma thProcessBlock_facts:
  assumes U: "universe_ok U" and ok: "hs_ok U th" and b: "block \<in> U"
    and p: "thProcessBlock e th block = Some (err, th')"
  shows "hs_ok U th' \<and> advances th th'"
  using ok b p
proof (induction "buffered_above th (blkView block)" arbitrary: th block rule: less_induct)
  case less
  from less.prems(3) show ?case
  proof (cases rule: thProcessBlock_cases)
    case (stop r)
    with th_block_body_facts [OF U less.prems(1,2)] show ?thesis by blast
  next
    case (next_block th1 c)
    note n = th_next_buffered [OF U less.prems(1,2) next_block(1,2)]
    from less.hyps [OF n(4) n(1,3) next_block(3)] advances_trans [OF n(2)] show ?thesis by blast
  qed
qed

fun th_fuel :: "nat \<Rightarrow> HsEnv \<Rightarrow> Tchs \<Rightarrow> Block \<Rightarrow> (error option \<times> Tchs) option option" where
  "th_fuel 0 e th block = None"
| "th_fuel (Suc n) e th block =
     (case th_block_body e th block of
        None \<Rightarrow> Some None
      | Some (Some r, th1) \<Rightarrow> Some (Some (r, th1))
      | Some (None, th1) \<Rightarrow>
          (case bufferedBlocks th1 (blkView block) of
             None \<Rightarrow> Some (Some (None, th1))
           | Some b \<Rightarrow> th_fuel n e th1 b))"

lemma th_fuel_enough:
  assumes U: "universe_ok U" and ok: "hs_ok U th" and b: "block \<in> U" and n: "buffered_above th (blkView block) < n"
  shows "th_fuel n e th block = Some (thProcessBlock e th block)"
  using ok b n
proof (induction n arbitrary: th block)
  case 0
  then show ?case by simp
next
  case (Suc n)
  show ?case
  proof (cases "\<exists>th1 c. th_block_body e th block = Some (None, th1) \<and> bufferedBlocks th1 (blkView block) = Some c")
    case True
    then obtain th1 c where c: "th_block_body e th block = Some (None, th1)" "bufferedBlocks th1 (blkView block) = Some c"
      by blast
    note x = th_next_buffered [OF U Suc.prems(1,2) c]
    have "th_fuel n e th1 c = Some (thProcessBlock e th1 c)" using Suc.IH [OF x(1,3)] x(4) Suc.prems(3) by simp
    with c show ?thesis by (subst thProcessBlock.simps) simp
  next
    case False
    then show ?thesis by (subst thProcessBlock.simps) (auto split: option.splits)
  qed
qed

section \<open>The protocol behind the interface\<close>

definition tchs_safety :: "HsEnv \<Rightarrow> Tchs Safety" where
  "tchs_safety e =
     \<lparr>sfProcessBlock = thProcessBlock e, sfProcessVote = thProcessVote e,
      sfProcessRemoteTmo = thProcessRemoteTmo, sfProcessLocalTmo = thProcessLocalTmo e\<rparr>"

lemma tchs_step:
  assumes i: "hs_inv U th" and l: "legal_event U ev" and p: "sf_step (tchs_safety e) th ev = Some th'"
  shows "hs_inv U th' \<and> advances th th'"
proof -
  from i have U: "universe_ok U" and ok: "hs_ok U th" by (auto simp: hs_inv_def)
  have "hs_ok U th' \<and> advances th th'"
  proof (cases ev)
    case (SfBlock b)
    with p obtain err where "thProcessBlock e th b = Some (err, th')"
      by (auto simp: tchs_safety_def bind_Some_conv)
    from thProcessBlock_facts [OF U ok _ this] l SfBlock show ?thesis by simp
  next
    case (SfVote v)
    with p have "thProcessVote e th v = Some th'" by (simp add: tchs_safety_def)
    from thProcessVote_facts [OF ok _ this] l SfVote show ?thesis by simp
  next
    case (SfTmo t)
    with p have h: "thProcessRemoteTmo th t = Some th'" by (simp add: tchs_safety_def)
    from thProcessRemoteTmo_facts [OF ok _ h] l SfTmo show ?thesis by simp
  next
    case (SfLocal v)
    with p have "thProcessLocalTmo e th v = Some th'" by (simp add: tchs_safety_def)
    from thProcessLocalTmo_facts [OF ok _ _ this] l SfLocal show ?thesis by simp
  qed
  with U show ?thesis by (simp add: hs_inv_def)
qed

interpretation tsf: safety "tchs_safety e" "hs_inv U" "legal_event U" "\<lambda>th. curView (pm th)" committedBlocks
  for e U
proof
  fix s ev s'
  assume a: "hs_inv U s" "legal_event U ev" "sf_step (tchs_safety e) s ev = Some s'"
  note h = tchs_step [OF a]
  from h show "hs_inv U s'" by simp
  from h show "curView (pm s) \<le> curView (pm s')" by (simp add: advances_def)
  from h show "grows (committedBlocks s) (committedBlocks s')" by (simp add: advances_def grows_def)
next
  fix s assume "hs_inv U s"
  then show "distinct (map Level (committedBlocks s))" by (simp add: hs_inv_def hs_ok_def)
qed

lemma NewTchs_eq: "NewTchs n p = NewHotStuff n p"
  by (simp add: NewTchs_def NewHotStuff_def)

section \<open>Properties\<close>

text \<open>C12 (log): from a new replica, over any sequence of blocks, votes and timeouts whose views do not wrap and
  whose blocks lie above their parents, a two-chain replica's view never goes back, the blocks it has handed over for
  commitment are only ever extended, and no two of them have the same level.\<close>

theorem tchs_log_append_only:
  assumes "universe_ok U" and "list_all (legal_event U) (xs @ ys)"
    and "sf_run (tchs_safety e) (NewTchs n (NewPacemaker n)) xs = Some th1"
    and "sf_run (tchs_safety e) th1 ys = Some th2"
  shows "curView (pm th1) \<le> curView (pm th2) \<and> grows (committedBlocks th1) (committedBlocks th2) \<and>
    distinct (map Level (committedBlocks th2))"
proof -
  have i: "hs_inv U (NewTchs n (NewPacemaker n))" using assms(1) hs_ok_New by (simp add: hs_inv_def NewTchs_eq)
  have l: "list_all (legal_event U) xs" "list_all (legal_event U) ys" using assms(2) by simp_all
  have "hs_inv U th1" using tsf.run_ok [OF i l(1) assms(3)] by simp
  from tsf.run_ok [OF this l(2) assms(4)] tsf.run_log_distinct [OF this l(2) assms(4)] show ?thesis by simp
qed

lemma th_env_send:
  "th_send_vote sample_env th b = Some (th\<lparr>outbox := outbox th @ [MsgVote (NewNodeID 4) (led_vote (blkID b) (blkView b))]\<rparr>)"
proof -
  have "MakeVote (hsKeys sample_env) v (hsID sample_env) x = Some (led_vote x v)" for v x
    by (simp add: MakeVote_def sample_env_def PrivSign_def Sign_def ring4_def toy_ecdsa_def go_index_def i64_def led_vote_def)
  then show ?thesis
    using ids_differ
    by (simp add: th_send_vote_def) (simp add: sample_env_def StaticFindLeaderFor_def NewStatic_def)
qed

lemmas th_eval = tchs_safety_def thProcessBlock.simps chain_eval led_sig th_env_send env_certificate env_plain
  th_block_body_unfold thProcessCertificate_unfold updateHighQC_def th_accept_block_unfold th_commit_def th_take_qc_def votingRule_def
  thUpdatePreferredView_def thCommitRule_def GetParentBlock_def GetBlockByID_def GetCurView_def AdvanceView_def
  NewTchs_def NewPacemaker_def zeroQC_def i64_def

lemma th_chain_run:
  "\<exists>th. sf_run (tchs_safety sample_env) (NewTchs 4 (NewPacemaker 4)) (map SfBlock (take 3 led_chain)) = Some th \<and>
     committedBlocks th = [led_block 1 1 0 0] \<and> curView (pm th) = 3"
  by (simp add: led_chain_def th_eval)

theorem tchs_log_append_only_witness:
  "\<exists>th. sf_run (tchs_safety sample_env) (NewTchs 4 (NewPacemaker 4)) (map SfBlock (take 3 led_chain)) = Some th \<and>
     distinct (map Level (committedBlocks th)) \<and> committedBlocks th = [led_block 1 1 0 0]"
proof -
  obtain th where r: "sf_run (tchs_safety sample_env) (NewTchs 4 (NewPacemaker 4)) (map SfBlock (take 3 led_chain)) = Some th"
    and c: "committedBlocks th = [led_block 1 1 0 0]" using th_chain_run by auto
  have l: "list_all (legal_event (set led_chain)) (map SfBlock (take 3 led_chain) @ [])"
    by (simp add: list_all_iff) (auto dest: in_set_takeD)
  have "sf_run (tchs_safety sample_env) th [] = Some th" by simp
  from tchs_log_append_only [OF led_chain_universe l r this] r c show ?thesis by simp
qed

text \<open>C13 (two-chain commit): when handling a block, apart from the blocks buffered for later views, commits blocks, the block's certificate states the
  view just before the block's and at least 2, the parent of the block that the certificate names is known and of the view just before the
  one the certificate states, and what is committed is the chain of known ancestors of that parent down to the lowest
  level.  The view of the named block itself is not compared with the certificate.\<close>

theorem tchs_commits_need_two_chain:
  assumes "universe_ok U" and "hs_ok U th" and "block \<in> U" and "th_block_body e th block = Some (r, th')"
    and "committedBlocks th' \<noteq> committedBlocks th"
  shows "\<exists>qc bc1 p cs. blkQC block = Some qc \<and> 2 \<le> qcView qc \<and> i64 (qcView qc + 1) = blkView block \<and>
    AddBlock (bc th) block = Some bc1 \<and> GetParentBlock bc1 (qcBlockID qc) = Some (Inr p) \<and>
    i64 (blkView p + 1) = qcView qc \<and> committedBlocks th' = committedBlocks th @ cs \<and>
    ancestry (known bc1) (lowest bc1) p cs"
  using assms(4)
proof (cases rule: th_block_body_cases)
  case (go qc th2)
  note s = universe_block(4) [OF assms(1,3) go(1)]
  note Q = th_own_qc_facts [OF assms(2) s go(2)]
  from go(3) Q assms(5) have "th_accept_block e th2 block qc = Some (r, th')" by auto
  then show ?thesis
  proof (cases rule: th_accept_block_cases)
    case (1 bc1 ret th1)
    have ok1: "hs_ok U (th2\<lparr>bc := bc1\<rparr>)" using AddBlock_keeps [OF _ assms(3) 1(1)] Q by simp
    note ok2 = th_commit_facts [OF universe_block(1) [OF assms(1,3)] ok1 1(2)]
    have same: "committedBlocks th' = committedBlocks th1"
      using 1(3)
    proof (elim disjE conjE exE)
      fix th3 assume t: "th_take_qc e th1 block = Some th3" and v: "th_send_vote e th3 block = Some th'"
      note T = th_take_qc_facts [OF conjunct1 [OF ok2] t]
      from th_send_vote_facts [OF conjunct1 [OF conjunct1 [OF T]] universe_block(2) [OF assms(1,3)] v] T
      show ?thesis by simp
    qed (use th_take_qc_facts [OF conjunct1 [OF ok2]] in auto)
    from 1(2) show ?thesis
    proof (cases rule: th_commit_cases)
      case nothing
      with same Q assms(5) show ?thesis by simp
    next
      case (commit p cs fs err bc2)
      with same Q assms(5) have e: "err = None" by (auto split: if_splits)
      note r = thCommitRule_cases [OF commit(3) go(1)]
      from r(1) obtain x where "known bc1 x = Some p" by (auto simp: GetParentBlock_Inr)
      then have "known bc1 (blkID p) = Some p" using ok1 GetVertex_id by (auto simp: hs_ok_def bc_ok_def)
      from CommitBlock_ancestry [OF this] commit(4) e have "ancestry (known bc1) (lowest bc1) p cs" by simp
      moreover have "committedBlocks th' = committedBlocks th @ cs" using same commit(5) e Q by simp
      ultimately show ?thesis using go(1) commit(1,2) 1(1) r Q by auto
    qed
  qed
qed (use assms(5) in simp_all)

theorem tchs_commits_need_two_chain_witness:
  "\<exists>th r th' cs. sf_run (tchs_safety sample_env) (NewTchs 4 (NewPacemaker 4)) (map SfBlock (take 2 led_chain)) = Some th \<and>
     th_block_body sample_env th (led_block 3 3 2 2) = Some (r, th') \<and>
     committedBlocks th' = committedBlocks th @ cs \<and> cs = [led_block 1 1 0 0]"
proof -
  obtain th r th' where r: "sf_run (tchs_safety sample_env) (NewTchs 4 (NewPacemaker 4)) (map SfBlock (take 2 led_chain)) = Some th"
    and p: "th_block_body sample_env th (led_block 3 3 2 2) = Some (r, th')"
    and c: "committedBlocks th = []" "committedBlocks th' = [led_block 1 1 0 0]"
    by (simp add: led_chain_def th_eval)
  have i: "hs_inv (set led_chain) (NewTchs 4 (NewPacemaker 4))"
    using led_chain_universe hs_ok_New by (simp add: hs_inv_def NewTchs_eq)
  have "list_all (legal_event (set led_chain)) (map SfBlock (take 2 led_chain))"
    by (simp add: list_all_iff) (auto dest: in_set_takeD)
  from tsf.run_ok [OF i this r] have ok: "hs_ok (set led_chain) th" by (simp add: hs_inv_def)
  have b: "led_block 3 3 2 2 \<in> set led_chain" by (simp add: led_chain_def)
  have "committedBlocks th' \<noteq> committedBlocks th" using c by simp
  from tchs_commits_need_two_chain [OF led_chain_universe ok b p this] r p c show ?thesis by auto
qed

text \<open>
  The certificate that a commit rests on may have been refused: a block of the leader of view 3 whose certificate
  names a signer with a wrong signature.
\<close>

definition forged_block :: Block where
  "forged_block =
     (led_block 3 3 2 2)\<lparr>blkHeader := (blkHeader (led_block 3 3 2 2))\<lparr>hQC :=
        Some ((led_qc 2 2)\<lparr>qcSigners := [NewNodeID 1], qcAggSig := [[[0], [0]]]\<rparr>)\<rparr>\<rparr>"

text \<open>Unverified commits: the handler commits on the certificate inside a block even when its signatures are refused:
  after two blocks of the leader, one more whose certificate does not verify makes the replica commit the first.\<close>

theorem tchs_commits_unverified:
  "\<exists>th r th'. sf_run (tchs_safety sample_env) (NewTchs 4 (NewPacemaker 4)) (map SfBlock (take 2 led_chain)) = Some th \<and>
     certificate_verified sample_env (the (blkQC forged_block)) = Some False \<and>
     thProcessBlock sample_env th forged_block = Some (r, th') \<and>
     committedBlocks th = [] \<and> committedBlocks th' = [led_block 1 1 0 0]"
proof -
  let ?qc = "(led_qc 2 2)\<lparr>qcSigners := [NewNodeID 1], qcAggSig := [[[0], [0]]]\<rparr>"
  have c: "certificate_verified sample_env ?qc = Some False"
    using ids_differ by (simp add: certificate_verified_def sample_env_def VerifyQuorumSignature_def led_qc_def
        ring4_def go_index_def PubVerify_def Verify_def toy_ecdsa_def i64_def)
  have b: "blkQC forged_block = Some ?qc" "blkID forged_block = 3" "blkView forged_block = 3" "blkPrevID forged_block = 2"
    "blkProposer forged_block = NewNodeID 4" "Level forged_block = 3" "Parent forged_block = Some (2, 2)"
    by (simp_all add: forged_block_def led_block_def Level_def Parent_def uint64_def led_qc_def)
  have s: "check_block_sig sample_env forged_block = Some ()"
    using ids_differ by (simp add: check_block_sig_def sample_env_def PubVerify_def Verify_def ring4_def toy_ecdsa_def
        go_index_def i64_def forged_block_def led_block_def)
  show ?thesis by (simp add: led_chain_def th_eval b c s)
qed

text \<open>Lost timeouts: a replica whose timer fires in its current view moves two views on, so that neither its own
  timeout message nor that of any replica that timed out in the same view is counted.\<close>

theorem tchs_timeouts_lost:
  assumes "small view" and "small (view + 1)" and "curView (pm th) = view"
  shows "\<exists>th1 tmo. thProcessLocalTmo e th view = Some th1 \<and> outbox th1 = outbox th @ [MsgTMO tmo] \<and>
    curView (pm th1) = view + 2 \<and> timeoutController (pm th1) = timeoutController (pm th) \<and>
    (\<forall>t. tmoView t = tmoView tmo \<longrightarrow> thProcessRemoteTmo th1 t = Some th1)"
proof -
  have v: "i64 (view + 1) = view + 1" using smallD(3) [OF assms(1)] .
  have a: "AdvanceView (pm th) (view + 1) =
      (pm th)\<lparr>curView := view + 2, newViewChan := newViewChan (pm th) @ [view + 2]\<rparr>"
    using AdvanceView_small [OF assms(2), of "pm th"] assms(3) by simp
  show ?thesis by (simp add: thProcessLocalTmo_def thProcessRemoteTmo_def v a GetCurView_def Let_def)
qed

theorem tchs_timeouts_lost_witness:
  "\<exists>th1. thProcessLocalTmo sample_env (NewTchs 4 (NewPacemaker 4)) 0 = Some th1 \<and> curView (pm th1) = 2 \<and>
     timeoutController (pm th1) = timeoutController (NewPacemaker 4)"
proof -
  have "small 0" "small (0 + 1)" by (simp_all add: small_def in_i64_def)
  from tchs_timeouts_lost [OF this, of "NewTchs 4 (NewPacemaker 4)" sample_env] show ?thesis
    by (auto simp: NewTchs_def NewPacemaker_def)
qed

text \<open>Buffered blocks: the handler comes to an end within one call more than the blocks buffered at or above the
  block's view, with the outcome of the unbounded handler.\<close>

theorem tchs_ProcessBlock_ends:
  assumes "universe_ok U" and "hs_ok U th" and "block \<in> U"
  shows "th_fuel (Suc (buffered_above th (blkView block))) e th block = Some (thProcessBlock e th block)"
  by (rule th_fuel_enough [OF assms]) simp

end
