(* ===== verification/Fhs.thy ===== *)
theory Fhs
  imports Tchs
begin

text \<open>
  The Fast-HotStuff package (src/fasthostuff/fhs.go).

  The package has a handler of its own for every handler of tchs.go.  They are translated here in full, on the state of
  \<open>HotStuff\<close>, and then shown to be those of \<open>Tchs\<close>, so that what holds of the two-chain replica holds of this one.
  As there, \<open>MakeProposal\<close> is left out.
\<close>

section \<open>Rules\<close>

type_synonym Fhs = HotStuff

definition NewFhs :: "int \<Rightarrow> Pacemaker \<Rightarrow> Fhs" where
  "NewFhs n p =
     \<lparr>pm = p, lastVotedView = 0, preferredView = 0, highQC = zeroQC, bc = NewBlockchain n,
      committedBlocks = [], forkedBlocks = [], bufferedQCs = Map.empty, bufferedBlocks = Map.empty,
      outbox = []\<rparr>"

definition fhGetHighQC :: "Fhs \<Rightarrow> QC" where
  "fhGetHighQC f = highQC f"

definition fhUpdateHighQC :: "Fhs \<Rightarrow> QC \<Rightarrow> Fhs" where
  "fhUpdateHighQC f qc = (if qcView qc > qcView (highQC f) then f\<lparr>highQC := qc\<rparr> else f)"

definition fhUpdateLastVotedView :: "Fhs \<Rightarrow> View \<Rightarrow> error option \<times> Fhs" where
  "fhUpdateLastVotedView f targetView =
     (if targetView < lastVotedView f then (Some ''target view is lower than the last voted view'', f)
      else (None, f\<lparr>lastVotedView := targetView\<rparr>))"

definition fhVotingRule :: "Fhs \<Rightarrow> Block \<Rightarrow> (error + bool) option" where
  "fhVotingRule f block =
     (if blkView block \<le> 2 then Some (Inr True)
      else do { r \<leftarrow> GetParentBlock (bc f) (blkID block);
                case r of
                  Inl e \<Rightarrow> Some (Inl ''cannot vote for block'')
                | Inr parentBlock \<Rightarrow>
                    if blkView block \<le> lastVotedView f \<or> blkView parentBlock < preferredView f
                    then Some (Inr False) else Some (Inr True) })"

definition fhUpdatePreferredView :: "Fhs \<Rightarrow> QC \<Rightarrow> error option \<times> Fhs" where
  "fhUpdatePreferredView f qc =
     (if qcView qc < 2 then (None, f)
      else case GetBlockByID (bc f) (qcBlockID qc) of
        Inl e \<Rightarrow> (Some ''cannot update preferred view'', f)
      | Inr _ \<Rightarrow> if qcView qc > preferredView f then (None, f\<lparr>preferredView := qcView qc\<rparr>) else (None, f))"

definition fhCommitRule :: "Fhs \<Rightarrow> Block \<Rightarrow> (error + Block option) option" where
  "fhCommitRule f block =
     do { qc \<leftarrow> blkQC block;
          r \<leftarrow> GetParentBlock (bc f) (qcBlockID qc);
          case r of
            Inl e \<Rightarrow> Some (Inl ''cannot commit any block'')
          | Inr parentBlock \<Rightarrow>
              if i64 (blkView parentBlock + 1) = qcView qc then Some (Inr (Some parentBlock)) else Some (Inr None) }"

definition fhForkChoice :: "Fhs \<Rightarrow> QC \<times> Fhs" where
  "fhForkChoice f =
     (let choice = (fhGetHighQC f)\<lparr>qcView := i64 (GetCurView (pm f) - 1)\<rparr> in (choice, f\<lparr>highQC := choice\<rparr>))"

section \<open>Certificates, timeouts and votes\<close>

definition fh_certificate_verified :: "HsEnv \<Rightarrow> QC \<Rightarrow> bool option" where
  "fh_certificate_verified e qc =
     (if qcLeader qc = hsID e then Some True
      else do { (quorumIsVerified, _) \<leftarrow> VerifyQuorumSignature (hsKeys e) (qcAggSig qc) (qcBlockID qc) (qcSigners qc);
                Some quorumIsVerified })"

definition fh_withholds :: "HsEnv \<Rightarrow> QC \<Rightarrow> bool option" where
  "fh_withholds e qc =
     (if hsIsByz e \<and> hsStrategy e = FORK then hsIsLeader e (hsID e) (i64 (qcView qc + 1)) else Some False)"

definition fh_check_block_sig :: "HsEnv \<Rightarrow> Block \<Rightarrow> unit option" where
  "fh_check_block_sig e block =
     (if blkProposer block = hsID e then Some ()
      else do { _ \<leftarrow> PubVerify (hsKeys e) (hSig (blkHeader block)) (IDToByte (blkID block)) (blkProposer block);
                Some () })"

definition fhProcessCertificate :: "HsEnv \<Rightarrow> Fhs \<Rightarrow> QC \<Rightarrow> Fhs option" where
  "fhProcessCertificate e f qc =
     (if qcView qc < GetCurView (pm f) then Some f
      else do {
        ok \<leftarrow> fh_certificate_verified e qc;
        if \<not> ok then Some f
        else do {
          w \<leftarrow> fh_withholds e qc;
          if w then Some (f\<lparr>pm := AdvanceView (pm f) (qcView qc)\<rparr>)
          else case fhUpdatePreferredView f qc of
            (Some err, f1) \<Rightarrow> Some (f1\<lparr>bufferedQCs := (bufferedQCs f1)(qcBlockID qc \<mapsto> qc)\<rparr>)
          | (None, f1) \<Rightarrow>
              let f2 = fhUpdateHighQC f1 qc in Some (f2\<lparr>pm := AdvanceView (pm f2) (qcView qc)\<rparr>) } })"

definition fh_vote_verified :: "HsEnv \<Rightarrow> Vote \<Rightarrow> bool option" where
  "fh_vote_verified e vote =
     (if hsID e = voteVoter vote then Some True
      else do { (voteIsVerified, err) \<leftarrow>
                  PubVerify (hsKeys e) (voteSignature vote) (IDToByte (voteBlockID vote)) (voteVoter vote);
                if err \<noteq> None then None else Some voteIsVerified })"

definition fhProcessVote :: "HsEnv \<Rightarrow> Fhs \<Rightarrow> Vote \<Rightarrow> Fhs option" where
  "fhProcessVote e f vote =
     do { ok \<leftarrow> fh_vote_verified e vote;
          if \<not> ok then Some f
          else case AddVote (hsRange e) (bc f) vote of
            ((isBuilt, qco), bc1) \<Rightarrow>
              let f1 = f\<lparr>bc := bc1\<rparr> in
              if \<not> isBuilt then Some f1
              else do {
                qc0 \<leftarrow> qco;
                let qc = qc0\<lparr>qcLeader := hsID e\<rparr> in
                case GetBlockByID (bc f1) (qcBlockID qc) of
                  Inl err \<Rightarrow> Some (f1\<lparr>bufferedQCs := (bufferedQCs f1)(qcBlockID qc \<mapsto> qc)\<rparr>)
                | Inr _ \<Rightarrow> fhProcessCertificate e f1 qc } }"

definition fhProcessTC :: "Fhs \<Rightarrow> TC \<Rightarrow> Fhs" where
  "fhProcessTC f tc =
     (if tcView tc < GetCurView (pm f) then f else f\<lparr>pm := AdvanceView (pm f) (tcView tc)\<rparr>)"

definition fhProcessRemoteTmo :: "Fhs \<Rightarrow> TMO \<Rightarrow> Fhs option" where
  "fhProcessRemoteTmo f tmo =
     (if tmoView tmo < GetCurView (pm f) then Some f
      else case ProcessRemoteTmo (pm f) tmo of
        ((isBuilt, tco), p) \<Rightarrow>
          let f1 = f\<lparr>pm := p\<rparr> in
          if \<not> isBuilt then Some f1 else do { tc \<leftarrow> tco; Some (fhProcessTC f1 tc) })"

definition fhProcessLocalTmo :: "HsEnv \<Rightarrow> Fhs \<Rightarrow> View \<Rightarrow> Fhs option" where
  "fhProcessLocalTmo e f view =
     (let f1 = f\<lparr>pm := AdvanceView (pm f) (i64 (view + 1))\<rparr>;
          tmo = \<lparr>tmoView = i64 (view + 1), tmoNodeID = hsID e, tmoHighQC = Some (fhGetHighQC f1)\<rparr>
      in fhProcessRemoteTmo (f1\<lparr>outbox := outbox f1 @ [MsgTMO tmo]\<rparr>) tmo)"

section \<open>Blocks\<close>

definition fh_send_vote :: "HsEnv \<Rightarrow> Fhs \<Rightarrow> Block \<Rightarrow> Fhs option" where
  "fh_send_vote e f block =
     do { vote \<leftarrow> MakeVote (hsKeys e) (blkView block) (hsID e) (blkID block);
          voteAggregator \<leftarrow> hsFindLeaderFor e (i64 (blkView block + 1));
          if voteAggregator = hsID e then fhProcessVote e f vote
          else Some (f\<lparr>outbox := outbox f @ [MsgVote voteAggregator vote]\<rparr>) }"

definition fh_commit :: "Fhs \<Rightarrow> Block \<Rightarrow> QC \<Rightarrow> (error option option \<times> Fhs) option" where
  "fh_commit f block qc =
     (if \<not> (qcView qc \<ge> 2 \<and> i64 (qcView qc + 1) = blkView block) then Some (None, f)
      else do {
        r \<leftarrow> fhCommitRule f block;
        case r of
          Inl e \<Rightarrow> Some (Some None, f)
        | Inr None \<Rightarrow> Some (Some None, f)
        | Inr (Some b) \<Rightarrow>
            do { ((committed, forked, err), bc1) \<leftarrow> CommitBlock (bc f) (blkID b) (GetCurView (pm f));
                 if err \<noteq> None then Some (Some (Some ''cannot commit blocks''), f\<lparr>bc := bc1\<rparr>)
                 else Some (None, f\<lparr>bc := bc1, committedBlocks := committedBlocks f @ committed,
                                     forkedBlocks := forkedBlocks f @ forked\<rparr>) } })"

definition fh_take_qc :: "HsEnv \<Rightarrow> Fhs \<Rightarrow> Block \<Rightarrow> Fhs option" where
  "fh_take_qc e f block =
     (case bufferedQCs f (blkID block) of
        None \<Rightarrow> Some f
      | Some qc \<Rightarrow>
          do { h \<leftarrow> fhProcessCertificate e f qc;
               Some (h\<lparr>bufferedQCs := (bufferedQCs h)(blkID block := None)\<rparr>) })"

definition fh_accept_block :: "HsEnv \<Rightarrow> Fhs \<Rightarrow> Block \<Rightarrow> QC \<Rightarrow> (error option option \<times> Fhs) option" where
  "fh_accept_block e f block qc =
     do { bc1 \<leftarrow> AddBlock (bc f) block;
          (ret, f1) \<leftarrow> fh_commit (f\<lparr>bc := bc1\<rparr>) block qc;
          if ret \<noteq> None then Some (ret, f1)
          else do {
            f2 \<leftarrow> fh_take_qc e f1 block;
            v \<leftarrow> fhVotingRule f2 block;
            case v of
              Inl err \<Rightarrow> Some (Some (Some err), f2)
            | Inr shouldVote \<Rightarrow>
                if \<not> shouldVote then Some (Some None, f2)
                else do { f3 \<leftarrow> fh_send_vote e f2 block; Some (None, f3) } } }"

definition fh_block_body :: "HsEnv \<Rightarrow> Fhs \<Rightarrow> Block \<Rightarrow> (error option option \<times> Fhs) option" where
  "fh_block_body e f block =
     do { _ \<leftarrow> fh_check_block_sig e block;
          if blkView block > i64 (GetCurView (pm f) + 1) then
            Some (Some None, f\<lparr>bufferedBlocks := (bufferedBlocks f)(i64 (blkView block - 1) \<mapsto> block)\<rparr>)
          else case blkQC block of
            None \<Rightarrow> Some (Some (Some ''the block should contain a QC''), f)
          | Some qc \<Rightarrow>
              let f1 = fhUpdateHighQC f qc in
              do { f2 \<leftarrow> (if blkProposer block \<noteq> hsID e then fhProcessCertificate e f1 qc else Some f1);
                   if blkView block < GetCurView (pm f2) then Some (Some None, f2)
                   else do {
                     leader \<leftarrow> hsIsLeader e (blkProposer block) (blkView block);
                     if \<not> leader then Some (Some (Some ''received a proposal from an invalid leader''), f2)
                     else fh_accept_block e f2 block qc } } }"

partial_function (option) fhProcessBlock :: "HsEnv \<Rightarrow> Fhs \<Rightarrow> Block \<Rightarrow> (error option \<times> Fhs) option" where
  "fhProcessBlock e f block =
     (case fh_block_body e f block of
        None \<Rightarrow> None
      | Some (Some r, f1) \<Rightarrow> Some (r, f1)
      | Some (None, f1) \<Rightarrow>
          (case bufferedBlocks f1 (blkView block) of
             None \<Rightarrow> Some (None, f1)
           | Some b \<Rightarrow> fhProcessBlock e f1 b))"

section \<open>The same protocol\<close>

named_theorems fh_same \<open>a handler of the package is the one of the two-chain package\<close>

lemma NewFhs_eq [fh_same]: "NewFhs = NewTchs"
  by (intro ext) (simp only: NewFhs_def NewTchs_def fh_same)

lemma fhGetHighQC_eq [fh_same]: "fhGetHighQC = thGetHighQC"
  by (intro ext) (simp only: fhGetHighQC_def thGetHighQC_def fh_same)

lemma fhUpdateHighQC_eq [fh_same]: "fhUpdateHighQC = thUpdateHighQC"
  by (intro ext) (simp only: fhUpdateHighQC_def thUpdateHighQC_def fh_same)

lemma fhUpdateLastVotedView_eq [fh_same]: "fhUpdateLastVotedView = thUpdateLastVotedView"
  by (intro ext) (simp only: fhUpdateLastVotedView_def thUpdateLastVotedView_def fh_same)

lemma fhVotingRule_eq [fh_same]: "fhVotingRule = thVotingRule"
  by (intro ext) (simp only: fhVotingRule_def thVotingRule_def fh_same)

lemma fh_certificate_verified_eq [fh_same]: "fh_certificate_verified = th_certificate_verified"
  by (intro ext) (simp only: fh_certificate_verified_def th_certificate_verified_def fh_same)

lemma fh_withholds_eq [fh_same]: "fh_withholds = th_withholds"
  by (intro ext) (simp only: fh_withholds_def th_withholds_def fh_same)

lemma fh_check_block_sig_eq [fh_same]: "fh_check_block_sig = th_check_block_sig"
  by (intro ext) (simp only: fh_check_block_sig_def th_check_block_sig_def fh_same)

lemma fhUpdatePreferredView_eq [fh_same]: "fhUpdatePreferredView = thUpdatePreferredView"
  by (intro ext) (simp only: fhUpdatePreferredView_def thUpdatePreferredView_def fh_same)

lemma fhCommitRule_eq [fh_same]: "fhCommitRule = thCommitRule"
  by (intro ext) (simp only: fhCommitRule_def thCommitRule_def fh_same)

lemma fhForkChoice_eq [fh_same]: "fhForkChoice = thForkChoice"
  by (intro ext) (simp only: fhForkChoice_def thForkChoice_def fh_same)

lemma fhProcessCertificate_eq [fh_same]: "fhProcessCertificate = thProcessCertificate"
  by (intro ext) (simp only: fhProcessCertificate_def thProcessCertificate_def fh_same)

lemma fh_vote_verified_eq [fh_same]: "fh_vote_verified = th_vote_verified"
  by (intro ext) (simp only: fh_vote_verified_def th_vote_verified_def fh_same)

lemma fhProcessVote_eq [fh_same]: "fhProcessVote = thProcessVote"
  by (intro ext) (simp only: fhProcessVote_def thProcessVote_def fh_same)

lemma fhProcessTC_eq [fh_same]: "fhProcessTC = thProcessTC"
  by (intro ext) (simp only: fhProcessTC_def thProcessTC_def fh_same)

lemma fhProcessRemoteTmo_eq [fh_same]: "fhProcessRemoteTmo = thProcessRemoteTmo"
  by (intro ext) (simp only: fhProcessRemoteTmo_def thProcessRemoteTmo_def fh_same)

lemma fhProcessLocalTmo_eq [fh_same]: "fhProcessLocalTmo = thProcessLocalTmo"
  by (intro ext) (simp only: fhProcessLocalTmo_def thProcessLocalTmo_def fh_same)

lemma fh_send_vote_eq [fh_same]: "fh_send_vote = th_send_vote"
  by (intro ext) (simp only: fh_send_vote_def th_send_vote_def fh_same)

lemma fh_commit_eq [fh_same]: "fh_commit = th_commit"
  by (intro ext) (simp only: fh_commit_def th_commit_def fh_same)

lemma fh_take_qc_eq [fh_same]: "fh_take_qc = th_take_qc"
  by (intro ext) (simp only: fh_take_qc_def th_take_qc_def fh_same)

lemma fh_accept_block_eq [fh_same]: "fh_accept_block = th_accept_block"
  by (intro ext) (simp only: fh_accept_block_def th_accept_block_def fh_same)

lemma fh_block_body_eq [fh_same]: "fh_block_body = th_block_body"
  by (intro ext) (simp only: fh_block_body_def th_block_body_def fh_same)

text \<open>Both block handlers return what the recursion through the buffered blocks returns.\<close>

lemma fhProcessBlock_to:
  assumes "fhProcessBlock e f block = Some r"
  shows "thProcessBlock e f block = Some r"
proof (rule fhProcessBlock.raw_induct [OF _ assms], goal_cases)
  case (1 g e f block r)
  then show ?case unfolding fh_same by (cases r, subst thProcessBlock.simps) (auto split: option.splits)
qed

lemma fhProcessBlock_from:
  assumes "thProcessBlock e f block = Some r"
  shows "fhProcessBlock e f block = Some r"
proof (rule thProcessBlock.raw_induct [OF _ assms], goal_cases)
  case (1 g e f block r)
  then show ?case by (cases r, subst fhProcessBlock.simps, unfold fh_same) (auto split: option.splits)
qed

lemma fhProcessBlock_eq [fh_same]: "fhProcessBlock = thProcessBlock"
proof (intro ext)
  fix e f block
  show "fhProcessBlock e f block = thProcessBlock e f block"
    using fhProcessBlock_to [of e f block] fhProcessBlock_from [of e f block]
    by (cases "thProcessBlock e f block"; cases "fhProcessBlock e f block") auto
qed

definition fhs_safety :: "HsEnv \<Rightarrow> Fhs Safety" where
  "fhs_safety e =
     \<lparr>sfProcessBlock = fhProcessBlock e, sfProcessVote = fhProcessVote e,
      sfProcessRemoteTmo = fhProcessRemoteTmo, sfProcessLocalTmo = fhProcessLocalTmo e\<rparr>"

lemma fhs_safety_eq: "fhs_safety = tchs_safety"
  by (intro ext) (simp only: fhs_safety_def tchs_safety_def fh_same)

text \<open>The contract of the interface holds because it holds of the two-chain replica.\<close>

interpretation fsf: safety "fhs_safety e" "hs_inv U" "legal_event U" "\<lambda>f. curView (pm f)" committedBlocks
  for e U
  unfolding fhs_safety_eq by (rule tsf.safety_axioms)

text \<open>The package is the two-chain package under another name.\<close>

lemma fasthostuff_is_two_chain:
  "NewFhs n p = NewTchs n p \<and> fhForkChoice f = thForkChoice f \<and>
   sf_run (fhs_safety e) f evs = sf_run (tchs_safety e) f evs"
  by (simp add: fh_same fhs_safety_eq)

text \<open>C14 (log): from a new replica, over any sequence of blocks, votes and timeouts whose views do not wrap and whose blocks lie
  above their parents, the view of a Fast-HotStuff replica never goes back, the blocks it has handed over for commitment are
  only ever extended, and no two of them have the same level.\<close>

theorem fhs_log_append_only:
  assumes "universe_ok U" and "list_all (legal_event U) (xs @ ys)"
    and "sf_run (fhs_safety e) (NewFhs n (NewPacemaker n)) xs = Some f1" and "sf_run (fhs_safety e) f1 ys = Some f2"
  shows "curView (pm f1) \<le> curView (pm f2) \<and> grows (committedBlocks f1) (committedBlocks f2) \<and>
    distinct (map Level (committedBlocks f2))"
proof -
  have i: "hs_inv U (NewFhs n (NewPacemaker n))" using assms(1) hs_ok_New by (simp add: hs_inv_def NewFhs_eq NewTchs_eq)
  have l: "list_all (legal_event U) xs" "list_all (legal_event U) ys" using assms(2) by simp_all
  have "hs_inv U f1" using fsf.run_ok [OF i l(1) assms(3)] by simp
  from fsf.run_ok [OF this l(2) assms(4)] fsf.run_log_distinct [OF this l(2) assms(4)] show ?thesis by simp
qed

theorem fhs_log_append_only_witness:
  "\<exists>f. sf_run (fhs_safety sample_env) (NewFhs 4 (NewPacemaker 4)) (map SfBlock (take 3 led_chain)) = Some f \<and>
     distinct (map Level (committedBlocks f)) \<and> committedBlocks f = [led_block 1 1 0 0]"
proof -
  obtain f where r: "sf_run (fhs_safety sample_env) (NewFhs 4 (NewPacemaker 4)) (map SfBlock (take 3 led_chain)) = Some f"
    and c: "committedBlocks f = [led_block 1 1 0 0]" using th_chain_run by (auto simp: fhs_safety_eq NewFhs_eq)
  have l: "list_all (legal_event (set led_chain)) (map SfBlock (take 3 led_chain) @ [])"
    by (simp add: list_all_iff) (auto dest: in_set_takeD)
  have "sf_run (fhs_safety sample_env) f [] = Some f" by simp
  from fhs_log_append_only [OF led_chain_universe l r this] r c show ?thesis by simp
qed

end
