(* ===== verification/Streamlet.thy ===== *)
theory Streamlet
  imports HotStuff
begin

text \<open>
  The Streamlet logic (src/streamlet/streamlet.go).

  \<open>ProcessBlock\<close>, \<open>ProcessVote\<close> and \<open>processCertificate\<close> call each other.  Each is cut at its calls: \<open>block_front\<close>,
  \<open>vote_front\<close> and \<open>cert_front\<close> are what the handlers do before the first call, and \<open>sl_do\<close> is the recursion between
  them.  The goroutine that \<open>processTC\<close> starts to advance the view is run at once.  Channels and broadcasts are lists, as
  in \<open>HotStuff\<close>, and the environment of a replica is the one from there.  \<open>MakeProposal\<close> calls \<open>BuildProposal\<close> with
  arguments it no longer has and is left out; \<open>forkChoice\<close> is here.
\<close>

section \<open>State\<close>

datatype sl_msg = SlMsgBlock Block | SlMsgVote Vote | SlMsgTMO TMO

record Streamlet =
  slPm :: Pacemaker
  slBc :: BlockChain
  notarizedChain :: "Block list list"
  slBufferedBlocks :: "Identifier \<rightharpoonup> Block"
  slBufferedQCs :: "Identifier \<rightharpoonup> QC"
  bufferedNotarizedBlock :: "Identifier \<rightharpoonup> QC"
  slCommitted :: "Block list"
  slForked :: "Block list"
  echoedBlock :: "Identifier set"
  echoedVote :: "Identifier set"
  slOutbox :: "sl_msg list"

definition NewStreamlet :: "int \<Rightarrow> Pacemaker \<Rightarrow> Streamlet" where
  "NewStreamlet n p =
     \<lparr>slPm = AdvanceView p 0, slBc = NewBlockchain n, notarizedChain = [], slBufferedBlocks = Map.empty,
      slBufferedQCs = Map.empty, bufferedNotarizedBlock = Map.empty, slCommitted = [], slForked = [],
      echoedBlock = {}, echoedVote = {}, slOutbox = []\<rparr>"

definition slBroadcast :: "sl_msg \<Rightarrow> Streamlet \<Rightarrow> Streamlet" where
  "slBroadcast m sl = sl\<lparr>slOutbox := slOutbox sl @ [m]\<rparr>"

section \<open>Rules\<close>

definition GetNotarizedHeight :: "Streamlet \<Rightarrow> int" where
  "GetNotarizedHeight sl = int (length (notarizedChain sl))"

text \<open>Without a notarized block the last one is at index -1, which panics.\<close>

definition slVotingRule :: "Streamlet \<Rightarrow> Block \<Rightarrow> bool option" where
  "slVotingRule sl block =
     (if blkView block \<le> 2 then Some True
      else do { lastBlocks \<leftarrow> go_index (notarizedChain sl) (GetNotarizedHeight sl - 1);
                Some (list_ex (\<lambda>b. blkPrevID block = blkID b) lastBlocks) })"

definition slCommitRule :: "Streamlet \<Rightarrow> (bool \<times> Block option) option" where
  "slCommitRule sl =
     (let height = GetNotarizedHeight sl in
      if height < 3 then Some (False, None)
      else do {
        lastBlocks \<leftarrow> go_index (notarizedChain sl) (height - 1);
        if length lastBlocks \<noteq> 1 then Some (False, None)
        else do {
          secondBlocks \<leftarrow> go_index (notarizedChain sl) (height - 2);
          if length secondBlocks \<noteq> 1 then Some (False, None)
          else do {
            firstBlocks \<leftarrow> go_index (notarizedChain sl) (height - 3);
            if length firstBlocks \<noteq> 1 then Some (False, None)
            else if i64 (blkView (hd firstBlocks) + 1) = blkView (hd secondBlocks)
                    \<and> i64 (blkView (hd secondBlocks) + 1) = blkView (hd lastBlocks)
                 then Some (True, Some (hd secondBlocks)) else Some (False, None) } } })"

definition slForkChoice :: "Identifier \<Rightarrow> Streamlet \<Rightarrow> Identifier option" where
  "slForkChoice genesis sl =
     (if GetNotarizedHeight sl = 0 then Some genesis
      else do { tail \<leftarrow> go_index (notarizedChain sl) (GetNotarizedHeight sl - 1);
                b \<leftarrow> go_index tail 0;
                Some (blkID b) })"

text \<open>
  The loop of \<open>updateNotarizedChain\<close> over the indices below \<open>n\<close>, the highest first.  Its condition is
  \<open>i >= 0 || i >= height - 3\<close>: with fewer than three entries it goes on to index -1, which panics.
\<close>

fun parent_notarized :: "Block list list \<Rightarrow> Identifier \<Rightarrow> nat \<Rightarrow> bool option" where
  "parent_notarized chain prev 0 = (if length chain < 3 then None else Some False)"
| "parent_notarized chain prev (Suc i) =
     (if list_ex (\<lambda>b. blkID b = prev) (chain ! i) then Some True else parent_notarized chain prev i)"

definition updateNotarizedChain :: "Streamlet \<Rightarrow> QC \<Rightarrow> (error option \<times> Streamlet) option" where
  "updateNotarizedChain sl qc =
     (case GetBlockByID (slBc sl) (qcBlockID qc) of
        Inl e \<Rightarrow> Some (Some ''cannot find the block'', sl)
      | Inr block \<Rightarrow>
          let extended = sl\<lparr>notarizedChain := notarizedChain sl @ [[block]]\<rparr> in
          if GetNotarizedHeight sl = 0 then Some (None, extended)
          else do {
            found \<leftarrow> parent_notarized (notarizedChain sl) (blkPrevID block) (length (notarizedChain sl));
            if found then Some (None, extended)
            else Some (Some ''the block is not extending the notarized chain'',
                       sl\<lparr>bufferedNotarizedBlock := (bufferedNotarizedBlock sl)(blkPrevID block \<mapsto> qc)\<rparr>) })"

section \<open>The handlers up to their calls\<close>

text \<open>\<open>Inl\<close>: the handler returns; \<open>Inr\<close>: the vote to process.\<close>

definition block_front :: "HsEnv \<Rightarrow> Streamlet \<Rightarrow> Block \<Rightarrow> ((error option + Vote) \<times> Streamlet) option" where
  "block_front e sl block =
     (if Exists (slBc sl) (blkID block) then Some (Inl None, sl)
      else if blkView block < GetCurView (slPm sl) then Some (Inl (Some ''received a stale block''), sl)
      else if isl (GetBlockByID (slBc sl) (blkPrevID block)) \<and> blkView block > 1 then
        Some (Inl None, sl\<lparr>slBufferedBlocks := (slBufferedBlocks sl)(blkPrevID block \<mapsto> block)\<rparr>)
      else do {
        leader \<leftarrow> hsIsLeader e (blkProposer block) (blkView block);
        if \<not> leader then Some (Inl (Some ''received a proposal from an invalid leader''), sl)
        else do {
          _ \<leftarrow> check_block_sig e block;
          let sl1 = (if blkID block \<notin> echoedBlock sl
                     then slBroadcast (SlMsgBlock block) (sl\<lparr>echoedBlock := insert (blkID block) (echoedBlock sl)\<rparr>)
                     else sl) in
          do { bc1 \<leftarrow> AddBlock (slBc sl1) block;
               let sl2 = sl1\<lparr>slBc := bc1\<rparr> in
               do { shouldVote \<leftarrow> slVotingRule sl2 block;
                    if \<not> shouldVote then
                      Some (Inl None, sl2\<lparr>slBufferedBlocks := (slBufferedBlocks sl2)(blkPrevID block \<mapsto> block)\<rparr>)
                    else do {
                      vote \<leftarrow> MakeVote (hsKeys e) (blkView block) (hsID e) (blkID block);
                      Some (Inr vote, sl2) } } } } })"

text \<open>The certificate, if the vote completes one.  A signature that cannot be checked ends the process.\<close>

definition sl_vote_verified :: "HsEnv \<Rightarrow> Vote \<Rightarrow> bool option" where
  "sl_vote_verified e vote =
     (if voteVoter vote = hsID e then Some True
      else do { (voteIsVerified, err) \<leftarrow>
                  PubVerify (hsKeys e) (voteSignature vote) (IDToByte (voteBlockID vote)) (voteVoter vote);
                if err \<noteq> None then None else Some voteIsVerified })"

definition vote_front :: "HsEnv \<Rightarrow> Streamlet \<Rightarrow> Vote \<Rightarrow> (QC option \<times> Streamlet) option" where
  "vote_front e sl vote =
     do { ok \<leftarrow> sl_vote_verified e vote;
          if \<not> ok then Some (None, sl)
          else
            let sl1 = (if voteBlockID vote \<notin> echoedBlock sl
                       then slBroadcast (SlMsgVote vote) (sl\<lparr>echoedBlock := insert (voteBlockID vote) (echoedBlock sl)\<rparr>)
                       else sl) in
            case AddVote (hsRange e) (slBc sl1) vote of
              ((isBuilt, qco), bc1) \<Rightarrow>
                let sl2 = sl1\<lparr>slBc := bc1\<rparr> in
                if \<not> isBuilt then Some (None, sl2) else do { qc \<leftarrow> qco; Some (Some qc, sl2) } }"

definition sl_deliver :: "Streamlet \<Rightarrow> Block list \<Rightarrow> Block list \<Rightarrow> Streamlet" where
  "sl_deliver sl committed forked =
     sl\<lparr>slCommitted := slCommitted sl @ committed, slForked := slForked sl @ forked,
        echoedBlock := echoedBlock sl - blkID ` set committed, echoedVote := echoedVote sl - blkID ` set committed\<rparr>"

text \<open>\<open>True\<close>: blocks were committed and the handler goes on to the buffered block and certificate.\<close>

definition sl_commit :: "Streamlet \<Rightarrow> (bool \<times> Streamlet) option" where
  "sl_commit sl =
     do { (ok, bo) \<leftarrow> slCommitRule sl;
          if \<not> ok then Some (False, sl)
          else do {
            block \<leftarrow> bo;
            ((committed, forked, err), bc1) \<leftarrow> CommitBlock (slBc sl) (blkID block) (GetCurView (slPm sl));
            if err \<noteq> None then Some (False, sl\<lparr>slBc := bc1\<rparr>)
            else Some (True, sl_deliver (sl\<lparr>slBc := bc1\<rparr>) committed forked) } }"

definition cert_front :: "HsEnv \<Rightarrow> Streamlet \<Rightarrow> QC \<Rightarrow> (bool \<times> Streamlet) option" where
  "cert_front e sl qc =
     (if qcView qc < GetCurView (slPm sl) then Some (False, sl)
      else if isl (GetBlockByID (slBc sl) (qcBlockID qc)) \<and> qcView qc > 1 then
        Some (False, sl\<lparr>slBufferedQCs := (slBufferedQCs sl)(qcBlockID qc \<mapsto> qc)\<rparr>)
      else do {
        ok \<leftarrow> certificate_verified e qc;
        if \<not> ok then Some (False, sl)
        else do {
          (err, sl1) \<leftarrow> updateNotarizedChain sl qc;
          if err \<noteq> None then Some (False, sl1)
          else
            let sl2 = sl1\<lparr>slPm := AdvanceView (slPm sl1) (qcView qc)\<rparr> in
            if qcView qc < 3 then Some (False, sl2) else sl_commit sl2 } })"

section \<open>The handlers\<close>

datatype sl_task = SlBlock Block | SlCert QC

partial_function (option) sl_do :: "HsEnv \<Rightarrow> sl_task \<Rightarrow> Streamlet \<Rightarrow> (error option \<times> Streamlet) option" where
  "sl_do e t sl =
     (case t of
        SlBlock block \<Rightarrow>
          (case block_front e sl block of
             None \<Rightarrow> None
           | Some (Inl r, sl1) \<Rightarrow> Some (r, sl1)
           | Some (Inr vote, sl1) \<Rightarrow>
               (case vote_front e sl1 vote of
                  None \<Rightarrow> None
                | Some (qco, sl2) \<Rightarrow>
                    do { sl3 \<leftarrow> (case qco of None \<Rightarrow> Some sl2
                                | Some qc \<Rightarrow> do { r \<leftarrow> sl_do e (SlCert qc) sl2; Some (snd r) });
                         let sl4 = slBroadcast (SlMsgVote vote) sl3 in
                         do { sl5 \<leftarrow> (case slBufferedQCs sl4 (blkID block) of None \<Rightarrow> Some sl4
                                     | Some qc \<Rightarrow> do { r \<leftarrow> sl_do e (SlCert qc) sl4; Some (snd r) });
                              (case slBufferedBlocks sl5 (blkID block) of None \<Rightarrow> Some (None, sl5)
                               | Some b \<Rightarrow> do { r \<leftarrow> sl_do e (SlBlock b) sl5; Some (None, snd r) }) } }))
      | SlCert qc \<Rightarrow>
          (case cert_front e sl qc of
             None \<Rightarrow> None
           | Some (goes_on, sl1) \<Rightarrow>
               if \<not> goes_on then Some (None, sl1)
               else do {
                 sl2 \<leftarrow> (case slBufferedBlocks sl1 (qcBlockID qc) of None \<Rightarrow> Some sl1
                          | Some b \<Rightarrow>
                              do { r \<leftarrow> sl_do e (SlBlock b) sl1;
                                   Some ((snd r)\<lparr>slBufferedBlocks := (slBufferedBlocks (snd r))(qcBlockID qc := None)\<rparr>) });
                 (case bufferedNotarizedBlock sl2 (qcBlockID qc) of None \<Rightarrow> Some (None, sl2)
                  | Some qc1 \<Rightarrow>
                      do { r \<leftarrow> sl_do e (SlCert qc1) sl2;
                           Some (None, (snd r)\<lparr>slBufferedQCs := (slBufferedQCs (snd r))(qcBlockID qc1 := None)\<rparr>) }) }))"

definition slProcessBlock :: "HsEnv \<Rightarrow> Streamlet \<Rightarrow> Block \<Rightarrow> (error option \<times> Streamlet) option" where
  "slProcessBlock e sl block = sl_do e (SlBlock block) sl"

definition slProcessCertificate :: "HsEnv \<Rightarrow> Streamlet \<Rightarrow> QC \<Rightarrow> Streamlet option" where
  "slProcessCertificate e sl qc = do { r \<leftarrow> sl_do e (SlCert qc) sl; Some (snd r) }"

definition slProcessVote :: "HsEnv \<Rightarrow> Streamlet \<Rightarrow> Vote \<Rightarrow> Streamlet option" where
  "slProcessVote e sl vote =
     do { (qco, sl1) \<leftarrow> vote_front e sl vote;
          case qco of None \<Rightarrow> Some sl1 | Some qc \<Rightarrow> slProcessCertificate e sl1 qc }"

definition slProcessTC :: "Streamlet \<Rightarrow> TC \<Rightarrow> Streamlet" where
  "slProcessTC sl tc =
     (if tcView tc < GetCurView (slPm sl) then sl else sl\<lparr>slPm := AdvanceView (slPm sl) (tcView tc)\<rparr>)"

definition slProcessRemoteTmo :: "Streamlet \<Rightarrow> TMO \<Rightarrow> Streamlet option" where
  "slProcessRemoteTmo sl tmo =
     (case ProcessRemoteTmo (slPm sl) tmo of
        ((isBuilt, tco), p) \<Rightarrow>
          let sl1 = sl\<lparr>slPm := p\<rparr> in
          if \<not> isBuilt then Some sl1 else do { tc \<leftarrow> tco; Some (slProcessTC sl1 tc) })"

definition slProcessLocalTmo :: "HsEnv \<Rightarrow> Streamlet \<Rightarrow> View \<Rightarrow> Streamlet option" where
  "slProcessLocalTmo e sl view =
     (let tmo = \<lparr>tmoView = view, tmoNodeID = hsID e, tmoHighQC = None\<rparr>
      in slProcessRemoteTmo (slBroadcast (SlMsgTMO tmo) sl) tmo)"

section \<open>Invariant and progress\<close>

text \<open>
  Stored views do not wrap, blocks come from the universe \<open>U\<close> and are buffered under the identifier of their parent, the
  committed blocks have different levels, and every entry of the notarized chain is one block that extends an earlier one.
\<close>

fun linked :: "Block list \<Rightarrow> bool" where
  "linked [] \<longleftrightarrow> True"
| "linked (b # bs) \<longleftrightarrow> (bs = [] \<or> blkPrevID b \<in> blkID ` set bs) \<and> linked bs"

definition chain_ok :: "Block set \<Rightarrow> Block list list \<Rightarrow> bool" where
  "chain_ok U chain \<longleftrightarrow> (\<exists>bs. chain = map (\<lambda>b. [b]) bs \<and> set bs \<subseteq> U \<and> linked (rev bs))"

definition sl_ok :: "Block set \<Rightarrow> Streamlet \<Rightarrow> bool" where
  "sl_ok U sl \<longleftrightarrow> bc_ok (slBc sl) \<and> in_i64 (curView (slPm sl)) \<and>
     (\<forall>x qc. slBufferedQCs sl x = Some qc \<longrightarrow> small (qcView qc)) \<and>
     (\<forall>x qc. bufferedNotarizedBlock sl x = Some qc \<longrightarrow> small (qcView qc)) \<and>
     (\<forall>k b. slBufferedBlocks sl k = Some b \<longrightarrow> b \<in> U \<and> blkPrevID b = k) \<and>
     (\<forall>x b. known (slBc sl) x = Some b \<longrightarrow> b \<in> U) \<and>
     distinct (map Level (slCommitted sl)) \<and> (\<forall>c\<in>set (slCommitted sl). Level c \<le> lowest (slBc sl)) \<and>
     chain_ok U (notarizedChain sl)"

definition sl_adv :: "Streamlet \<Rightarrow> Streamlet \<Rightarrow> bool" where
  "sl_adv sl sl' \<longleftrightarrow> curView (slPm sl) \<le> curView (slPm sl') \<and> grows (slCommitted sl) (slCommitted sl') \<and>
     grows (slForked sl) (slForked sl') \<and> grows (notarizedChain sl) (notarizedChain sl') \<and> grows (slOutbox sl) (slOutbox sl')"

lemma sl_adv_refl [simp, intro]: "sl_adv sl sl"
  by (simp add: sl_adv_def)

lemma sl_adv_trans [trans]: "sl_adv sl sl1 \<Longrightarrow> sl_adv sl1 sl2 \<Longrightarrow> sl_adv sl sl2"
  unfolding sl_adv_def using grows_trans by (elim conjE, intro conjI) (erule (1) order_trans grows_trans)+

abbreviation sl_keeps :: "Block set \<Rightarrow> Streamlet \<Rightarrow> Streamlet \<Rightarrow> bool" where
  "sl_keeps U sl sl' \<equiv> sl_ok U sl' \<and> sl_adv sl sl'"

lemma sl_keeps_trans: "sl_keeps U sl sl1 \<Longrightarrow> sl_keeps U sl1 sl2 \<Longrightarrow> sl_keeps U sl sl2"
  using sl_adv_trans by metis

lemma sl_frames:
  assumes "sl_ok U sl"
  shows "sl_keeps U sl (slBroadcast m sl)"
    and "sl_keeps U sl (sl\<lparr>echoedBlock := E\<rparr>)"
    and "forrest bc1 = forrest (slBc sl) \<Longrightarrow> sl_keeps U sl (sl\<lparr>slBc := bc1\<rparr>)"
    and "curView p = curView (slPm sl) \<Longrightarrow> sl_keeps U sl (sl\<lparr>slPm := p\<rparr>)"
    and "small (qcView qc) \<Longrightarrow> sl_keeps U sl (sl\<lparr>slBufferedQCs := (slBufferedQCs sl)(x \<mapsto> qc)\<rparr>)"
    and "small (qcView qc) \<Longrightarrow> sl_keeps U sl (sl\<lparr>bufferedNotarizedBlock := (bufferedNotarizedBlock sl)(x \<mapsto> qc)\<rparr>)"
    and "b \<in> U \<Longrightarrow> sl_keeps U sl (sl\<lparr>slBufferedBlocks := (slBufferedBlocks sl)(blkPrevID b \<mapsto> b)\<rparr>)"
    and "sl_keeps U sl (sl\<lparr>slBufferedQCs := (slBufferedQCs sl)(x := None)\<rparr>)"
    and "sl_keeps U sl (sl\<lparr>slBufferedBlocks := (slBufferedBlocks sl)(x := None)\<rparr>)"
  using assms by (simp_all add: sl_ok_def sl_adv_def slBroadcast_def bc_ok_def)

lemma sl_advance_facts:
  assumes "sl_ok U sl" and "small v"
  shows "sl_keeps U sl (sl\<lparr>slPm := AdvanceView (slPm sl) v\<rparr>)"
  using assms AdvanceView_progress [OF assms(2)] by (simp add: sl_ok_def sl_adv_def)

lemma sl_AddBlock_facts:
  assumes ok: "sl_ok U sl" and b: "block \<in> U" and a: "AddBlock (slBc sl) block = Some bc1"
  shows "sl_keeps U sl (sl\<lparr>slBc := bc1\<rparr>)"
proof -
  have "bc_ok (slBc sl)" using ok by (simp add: sl_ok_def)
  from AddBlock_facts [OF this a] have F: "bc_ok bc1" "lowest bc1 = lowest (slBc sl)"
    "\<forall>x. known bc1 x = known (slBc sl) x \<or> known bc1 x = Some block" by auto
  have "\<forall>x b. known bc1 x = Some b \<longrightarrow> b \<in> U"
  proof (intro allI impI)
    fix x c assume "known bc1 x = Some c"
    then have "known (slBc sl) x = Some c \<or> c = block" using F(3) [rule_format, of x] by auto
    with ok b show "c \<in> U" by (auto simp: sl_ok_def)
  qed
  with ok F(1,2) show ?thesis by (simp add: sl_ok_def sl_adv_def)
qed

subsection \<open>The notarized chain\<close>

lemma parent_notarized_singletons:
  "n \<le> length bs \<Longrightarrow> parent_notarized (map (\<lambda>b. [b]) bs) prev n =
     (if prev \<in> blkID ` set (take n bs) then Some True else if length bs < 3 then None else Some False)"
  by (induction n) (auto simp: take_Suc_conv_app_nth)

lemma chain_ok_extend:
  assumes "chain_ok U chain" and "b \<in> U" and "chain = [] \<or> parent_notarized chain (blkPrevID b) (length chain) = Some True"
  shows "chain_ok U (chain @ [[b]])"
proof -
  from assms(1) obtain bs where bs: "chain = map (\<lambda>b. [b]) bs" "set bs \<subseteq> U" "linked (rev bs)" by (auto simp: chain_ok_def)
  have "bs = [] \<or> blkPrevID b \<in> blkID ` set bs"
    using assms(3) bs(1) parent_notarized_singletons [of "length bs" bs] by (auto split: if_splits)
  with bs assms(2) show ?thesis unfolding chain_ok_def by (intro exI [of _ "bs @ [b]"]) simp
qed

lemma updateNotarizedChain_cases:
  assumes "updateNotarizedChain sl qc = Some (err, sl')"
  obtains (unknown) "err \<noteq> None" and "sl' = sl"
  | (extended) b where "known (slBc sl) (qcBlockID qc) = Some b" and "err = None"
      and "sl' = sl\<lparr>notarizedChain := notarizedChain sl @ [[b]]\<rparr>"
      and "notarizedChain sl = [] \<or>
           parent_notarized (notarizedChain sl) (blkPrevID b) (length (notarizedChain sl)) = Some True"
  | (waiting) b where "err \<noteq> None"
      and "sl' = sl\<lparr>bufferedNotarizedBlock := (bufferedNotarizedBlock sl)(blkPrevID b \<mapsto> qc)\<rparr>"
proof (cases "known (slBc sl) (qcBlockID qc)")
  case None
  with assms unknown show ?thesis by (auto simp: updateNotarizedChain_def GetBlockByID_def)
next
  case (Some b)
  then have g: "GetBlockByID (slBc sl) (qcBlockID qc) = Inr b" by (simp add: GetBlockByID_Inr_iff)
  show ?thesis
  proof (cases "notarizedChain sl = []")
    case True
    with assms Some g extended show ?thesis by (simp add: updateNotarizedChain_def GetNotarizedHeight_def)
  next
    case False
    with assms g obtain found where
      f: "parent_notarized (notarizedChain sl) (blkPrevID b) (length (notarizedChain sl)) = Some found"
      by (auto simp: updateNotarizedChain_def GetNotarizedHeight_def Let_def bind_Some_conv)
    show ?thesis
      using assms Some g False f extended waiting
      by (cases found) (auto simp: updateNotarizedChain_def GetNotarizedHeight_def)
  qed
qed

lemma updateNotarizedChain_facts:
  assumes ok: "sl_ok U sl" and s: "small (qcView qc)" and u: "updateNotarizedChain sl qc = Some (err, sl')"
  shows "sl_keeps U sl sl'" and "slPm sl' = slPm sl"
proof -
  show "sl_keeps U sl sl'"
    using u
  proof (cases rule: updateNotarizedChain_cases)
    case unknown
    with ok show ?thesis by simp
  next
    case (extended b)
    have "chain_ok U (notarizedChain sl @ [[b]])"
      using chain_ok_extend [OF _ _ extended(4)] ok extended(1) by (simp add: sl_ok_def)
    with ok extended(3) show ?thesis by (simp add: sl_ok_def sl_adv_def)
  next
    case (waiting b)
    with sl_frames(6) [OF ok s] show ?thesis by simp
  qed
  show "slPm sl' = slPm sl" using u by (cases rule: updateNotarizedChain_cases) simp_all
qed

subsection \<open>The handlers up to their calls\<close>

lemma MakeVote_fields:
  assumes "MakeVote k v i x = Some vote"
  shows "voteView vote = v" and "voteBlockID vote = x" and "voteVoter vote = i"
  using assms by (auto simp: MakeVote_def bind_Some_conv split: if_splits)

lemma block_front_cases:
  assumes "block_front e sl block = Some (r, sl')"
  obtains (same) "isl r" and "sl' = sl"
  | (early) "isl r" and "sl' = sl\<lparr>slBufferedBlocks := (slBufferedBlocks sl)(blkPrevID block \<mapsto> block)\<rparr>"
  | (added) sl1 bc1 v where "curView (slPm sl) \<le> blkView block" and "hsIsLeader e (blkProposer block) (blkView block) = Some True"
      and "sl1 = (if blkID block \<notin> echoedBlock sl
                   then slBroadcast (SlMsgBlock block) (sl\<lparr>echoedBlock := insert (blkID block) (echoedBlock sl)\<rparr>)
                   else sl)"
      and "AddBlock (slBc sl) block = Some bc1" and "slVotingRule (sl1\<lparr>slBc := bc1\<rparr>) block = Some v"
      and "\<not> v \<and> isl r \<and> sl' = sl1\<lparr>slBc := bc1, slBufferedBlocks := (slBufferedBlocks sl1)(blkPrevID block \<mapsto> block)\<rparr> \<or>
           v \<and> (\<exists>vote. MakeVote (hsKeys e) (blkView block) (hsID e) (blkID block) = Some vote \<and> r = Inr vote) \<and>
             sl' = sl1\<lparr>slBc := bc1\<rparr>"
proof -
  define sl1 where "sl1 = (if blkID block \<notin> echoedBlock sl
                   then slBroadcast (SlMsgBlock block) (sl\<lparr>echoedBlock := insert (blkID block) (echoedBlock sl)\<rparr>)
                   else sl)"
  have b1: "slBc sl1 = slBc sl" by (simp add: sl1_def slBroadcast_def)
  consider "Exists (slBc sl) (blkID block)" | "blkView block < GetCurView (slPm sl)"
    | "\<not> Exists (slBc sl) (blkID block)" "\<not> blkView block < GetCurView (slPm sl)"
      "isl (GetBlockByID (slBc sl) (blkPrevID block)) \<and> blkView block > 1"
    | (go) "\<not> Exists (slBc sl) (blkID block)" "\<not> blkView block < GetCurView (slPm sl)"
      "\<not> (isl (GetBlockByID (slBc sl) (blkPrevID block)) \<and> blkView block > 1)" by blast
  then show ?thesis
  proof cases
    case 1
    with assms same show ?thesis by (auto simp: block_front_def)
  next
    case 2
    with assms same show ?thesis by (auto simp: block_front_def split: if_splits)
  next
    case 3
    with assms early show ?thesis by (auto simp: block_front_def)
  next
    case go
    with assms obtain l where l: "hsIsLeader e (blkProposer block) (blkView block) = Some l"
      by (auto simp: block_front_def bind_Some_conv)
    show ?thesis
    proof (cases l)
      case False
      with assms go l same show ?thesis by (auto simp: block_front_def)
    next
      case True
      note rest = assms [unfolded block_front_def, folded sl1_def, simplified go l True if_False bind.bind_lunit not_True_eq_False]
      from rest obtain bc1 where a: "AddBlock (slBc sl) block = Some bc1" by (auto simp: bind_Some_conv b1)
      from rest a obtain v where v: "slVotingRule (sl1\<lparr>slBc := bc1\<rparr>) block = Some v" by (auto simp: bind_Some_conv b1 Let_def)
      show ?thesis
        by (rule added [OF _ _ sl1_def a v]) (use rest go l True a v b1 in \<open>auto simp: bind_Some_conv GetCurView_def Let_def split: if_splits\<close>)
    qed
  qed
qed

lemma block_front_facts:
  assumes ok: "sl_ok U sl" and b: "block \<in> U" and p: "block_front e sl block = Some (r, sl')"
  shows "sl_keeps U sl sl'" and "r = Inr vote \<Longrightarrow> voteView vote = blkView block"
    and "curView (slPm sl') = curView (slPm sl)"
proof -
  show "sl_keeps U sl sl'"
    using p
  proof (cases rule: block_front_cases)
    case same
    with ok show ?thesis by simp
  next
    case early
    with sl_frames(7) [OF ok b] show ?thesis by simp
  next
    case (added sl1 bc1 v)
    note e1 = sl_frames(2) [OF ok]
    have 1: "sl_keeps U sl sl1"
      unfolding added(3) using ok e1 sl_keeps_trans [OF e1 sl_frames(1) [OF conjunct1 [OF e1]]] by simp
    have "slBc sl1 = slBc sl" by (simp add: added(3) slBroadcast_def)
    note 2 = sl_keeps_trans [OF 1 sl_AddBlock_facts [OF conjunct1 [OF 1] b, unfolded this, OF added(4)]]
    from added(6) sl_keeps_trans [OF 2 sl_frames(7) [OF conjunct1 [OF 2] b]] 2 show ?thesis by auto
  qed
  show "r = Inr vote \<Longrightarrow> voteView vote = blkView block"
    using p by (cases rule: block_front_cases) (auto dest: MakeVote_fields)
  show "curView (slPm sl') = curView (slPm sl)"
    using p by (cases rule: block_front_cases) (auto simp: slBroadcast_def)
qed

lemma vote_front_cases:
  assumes "vote_front e sl vote = Some (qco, sl')"
  obtains (refused) "qco = None" and "sl' = sl" and "sl_vote_verified e vote = Some False"
  | (counted) sl1 built r where "sl_vote_verified e vote = Some True"
      and "sl1 = (if voteBlockID vote \<notin> echoedBlock sl
                       then slBroadcast (SlMsgVote vote) (sl\<lparr>echoedBlock := insert (voteBlockID vote) (echoedBlock sl)\<rparr>)
                       else sl)"
      and "AddVote (hsRange e) (slBc sl) vote = ((built, r), slBc sl')" and "sl' = sl1\<lparr>slBc := slBc sl'\<rparr>"
      and "qco = (if built then r else None)"
proof -
  obtain ok where ok: "sl_vote_verified e vote = Some ok" using assms by (auto simp: vote_front_def bind_Some_conv)
  define sl1 where "sl1 = (if voteBlockID vote \<notin> echoedBlock sl
                       then slBroadcast (SlMsgVote vote) (sl\<lparr>echoedBlock := insert (voteBlockID vote) (echoedBlock sl)\<rparr>)
                       else sl)"
  have b1: "slBc sl1 = slBc sl" by (simp add: sl1_def slBroadcast_def)
  obtain built r bc1 where a: "AddVote (hsRange e) (slBc sl) vote = ((built, r), bc1)" by (metis surj_pair)
  show ?thesis
  proof (cases ok)
    case False
    with assms ok refused show ?thesis by (simp add: vote_front_def)
  next
    case True
    have "(if \<not> built then Some (None, sl1\<lparr>slBc := bc1\<rparr>) else do { qc \<leftarrow> r; Some (Some qc, sl1\<lparr>slBc := bc1\<rparr>) }) = Some (qco, sl')"
      using assms ok True a b1 unfolding vote_front_def sl1_def [symmetric] by (simp add: Let_def)
    then have "sl' = sl1\<lparr>slBc := bc1\<rparr> \<and> qco = (if built then r else None)" by (auto simp: bind_Some_conv split: if_splits)
    with ok True a show ?thesis by (intro counted [OF _ sl1_def]) auto
  qed
qed

lemma vote_front_facts:
  assumes ok: "sl_ok U sl" and p: "vote_front e sl vote = Some (qco, sl')"
  shows "sl_keeps U sl sl'" and "qco = Some qc \<Longrightarrow> qcView qc = voteView vote \<and> qcBlockID qc = voteBlockID vote"
    and "curView (slPm sl') = curView (slPm sl)"
proof -
  show "sl_keeps U sl sl'"
    using p
  proof (cases rule: vote_front_cases)
    case (counted sl1 built r)
    note e1 = sl_frames(2) [OF ok]
    have 1: "sl_keeps U sl sl1"
      unfolding counted(2) using ok e1 sl_keeps_trans [OF e1 sl_frames(1) [OF conjunct1 [OF e1]]] by simp
    have "forrest (slBc sl') = forrest (slBc sl1)"
      using AddVote_frame [of "hsRange e" "slBc sl" vote] counted(3) by (simp add: counted(2) slBroadcast_def)
    from sl_keeps_trans [OF 1 sl_frames(3) [OF conjunct1 [OF 1] this]] counted(4) show ?thesis by simp
  qed (use ok in simp)
  show "qco = Some qc \<Longrightarrow> qcView qc = voteView vote \<and> qcBlockID qc = voteBlockID vote"
    using p
  proof (cases rule: vote_front_cases)
    case (counted sl1 built r)
    assume q: "qco = Some qc"
    with counted(3,5) have "AddVote (hsRange e) (slBc sl) vote = ((True, r), slBc sl')" and r: "r = Some qc"
      by (auto split: if_splits)
    from AddVote_built [OF this(1)] r show ?thesis by auto
  qed simp
  show "curView (slPm sl') = curView (slPm sl)"
    using p
  proof (cases rule: vote_front_cases)
    case (counted sl1 built r)
    have "slPm sl' = slPm sl1" by (subst counted(4)) simp
    then show ?thesis by (simp add: counted(2) slBroadcast_def)
  qed simp
qed

subsection \<open>Certificates\<close>

lemma last_three:
  assumes "3 \<le> length bs"
  obtains pre b1 b2 b3 where "bs = pre @ [b1, b2, b3]"
proof -
  define rs where "rs = rev bs"
  then have "Suc (Suc (Suc 0)) \<le> length rs" using assms by simp
  then obtain b1 b2 b3 ts where "rs = b3 # b2 # b1 # ts" by (auto simp: Suc_le_length_iff)
  then have "bs = rev ts @ [b1, b2, b3]" using rs_def rev_rev_ident [of bs] by simp
  then show ?thesis by (rule that)
qed

lemma slCommitRule_singletons:
  assumes "slCommitRule sl = Some (True, bo)" and "chain_ok U (notarizedChain sl)"
  obtains pre b1 b2 b3 where "notarizedChain sl = pre @ [[b1], [b2], [b3]]" and "bo = Some b2"
    and "i64 (blkView b1 + 1) = blkView b2" and "i64 (blkView b2 + 1) = blkView b3" and "{b1, b2, b3} \<subseteq> U"
proof -
  from assms(2) obtain bs where bs: "notarizedChain sl = map (\<lambda>b. [b]) bs" "set bs \<subseteq> U" by (auto simp: chain_ok_def)
  have "3 \<le> length bs" using assms(1) bs(1) by (auto simp: slCommitRule_def GetNotarizedHeight_def Let_def split: if_splits)
  then obtain pre b1 b2 b3 where p: "bs = pre @ [b1, b2, b3]" by (rule last_three)
  have "slCommitRule sl = (if i64 (blkView b1 + 1) = blkView b2 \<and> i64 (blkView b2 + 1) = blkView b3
      then Some (True, Some b2) else Some (False, None))"
    by (simp add: slCommitRule_def GetNotarizedHeight_def bs(1) p go_index_def nth_append Let_def nat_add_distrib)
  with assms(1) that [of "map (\<lambda>b. [b]) pre" b1 b2 b3] bs p show ?thesis by (auto split: if_splits)
qed

lemma sl_commit_cases:
  assumes "sl_commit sl = Some (goes_on, sl')"
  obtains (nothing) "\<not> goes_on" and "sl' = sl"
  | (commit) b cs fs err bc1 where "slCommitRule sl = Some (True, Some b)"
      and "CommitBlock (slBc sl) (blkID b) (curView (slPm sl)) = Some ((cs, fs, err), bc1)"
      and "goes_on \<longleftrightarrow> err = None"
      and "sl' = (if err \<noteq> None then sl\<lparr>slBc := bc1\<rparr> else sl_deliver (sl\<lparr>slBc := bc1\<rparr>) cs fs)"
proof -
  obtain ok bo where r: "slCommitRule sl = Some (ok, bo)" using assms by (auto simp: sl_commit_def bind_Some_conv)
  show ?thesis
  proof (cases ok)
    case False
    with assms r have "\<not> goes_on \<and> sl' = sl" by (auto simp: sl_commit_def)
    then show ?thesis by - (rule nothing, simp_all)
  next
    case True
    with assms r obtain b cs fs err bc1 where b: "bo = Some b"
      and c: "CommitBlock (slBc sl) (blkID b) (curView (slPm sl)) = Some ((cs, fs, err), bc1)"
      by (auto simp: sl_commit_def bind_Some_conv GetCurView_def)
    with assms r True have "(if err \<noteq> None then Some (False, sl\<lparr>slBc := bc1\<rparr>)
        else Some (True, sl_deliver (sl\<lparr>slBc := bc1\<rparr>) cs fs)) = Some (goes_on, sl')"
      by (simp add: sl_commit_def GetCurView_def)
    then have "goes_on \<longleftrightarrow> err = None"
      and "sl' = (if err \<noteq> None then sl\<lparr>slBc := bc1\<rparr> else sl_deliver (sl\<lparr>slBc := bc1\<rparr>) cs fs)"
      by (auto split: if_splits)
    with r True b c show ?thesis by (intro commit) simp_all
  qed
qed

lemma sl_commit_facts:
  assumes U: "parents_below U" and ok: "sl_ok U sl" and c: "sl_commit sl = Some (goes_on, sl')"
  shows "sl_keeps U sl sl'" and "slPm sl' = slPm sl"
proof -
  show "sl_keeps U sl sl'"
    using c
  proof (cases rule: sl_commit_cases)
    case nothing
    with ok show ?thesis by simp
  next
    case (commit b cs fs err bc1)
    have bok: "bc_ok (slBc sl)" and kn: "\<forall>x b. known (slBc sl) x = Some b \<longrightarrow> b \<in> U"
      and ds: "distinct (map Level (slCommitted sl))"
      and le: "\<forall>c\<in>set (slCommitted sl). Level c \<le> lowest (slBc sl)"
      using ok by (auto simp: sl_ok_def)
    note F = commit_levels [OF bok U kn ds le commit(2)]
    with commit(4) ok show ?thesis by (simp add: sl_ok_def sl_adv_def sl_deliver_def)
  qed
  show "slPm sl' = slPm sl" using c by (cases rule: sl_commit_cases) (simp_all add: sl_deliver_def)
qed

lemma cert_front_cases:
  assumes "cert_front e sl qc = Some (goes_on, sl')"
  obtains (same) "\<not> goes_on" and "sl' = sl"
  | (unknown) "\<not> goes_on" and "sl' = sl\<lparr>slBufferedQCs := (slBufferedQCs sl)(qcBlockID qc \<mapsto> qc)\<rparr>"
  | (refused) err where "\<not> goes_on" and "updateNotarizedChain sl qc = Some (Some err, sl')"
  | (notarized) sl1 sl2 where "curView (slPm sl) \<le> qcView qc" and "certificate_verified e qc = Some True"
      and "updateNotarizedChain sl qc = Some (None, sl1)" and "sl2 = sl1\<lparr>slPm := AdvanceView (slPm sl1) (qcView qc)\<rparr>"
      and "\<not> goes_on \<and> sl' = sl2 \<or> sl_commit sl2 = Some (goes_on, sl')"
proof -
  consider "qcView qc < GetCurView (slPm sl)"
    | "\<not> qcView qc < GetCurView (slPm sl)" "isl (GetBlockByID (slBc sl) (qcBlockID qc)) \<and> qcView qc > 1"
    | (go) "\<not> qcView qc < GetCurView (slPm sl)" "\<not> (isl (GetBlockByID (slBc sl) (qcBlockID qc)) \<and> qcView qc > 1)" by blast
  then show ?thesis
  proof cases
    case 1
    with assms same show ?thesis by (auto simp: cert_front_def)
  next
    case 2
    with assms unknown show ?thesis by (auto simp: cert_front_def)
  next
    case go
    note rest = assms [unfolded cert_front_def, simplified go if_False]
    from rest obtain ok where v: "certificate_verified e qc = Some ok" by (auto simp: bind_Some_conv)
    show ?thesis
    proof (cases ok)
      case False
      with rest v same show ?thesis by auto
    next
      case True
      with rest v obtain err sl1 where u: "updateNotarizedChain sl qc = Some (err, sl1)" by (auto simp: bind_Some_conv)
      show ?thesis
      proof (cases err)
        case None
        show ?thesis
          by (rule notarized [OF _ _ _ refl]) (use rest v True u None go in \<open>auto simp: GetCurView_def Let_def split: if_splits\<close>)
      next
        case (Some x)
        with rest v True u refused show ?thesis by auto
      qed
    qed
  qed
qed

lemma cert_front_facts:
  assumes U: "parents_below U" and ok: "sl_ok U sl" and s: "small (qcView qc)" and c: "cert_front e sl qc = Some (goes_on, sl')"
  shows "sl_keeps U sl sl'" and "goes_on \<Longrightarrow> curView (slPm sl) < curView (slPm sl')"
proof -
  have "sl_keeps U sl sl' \<and> (goes_on \<longrightarrow> curView (slPm sl) < curView (slPm sl'))"
    using c
  proof (cases rule: cert_front_cases)
    case same
    with ok show ?thesis by simp
  next
    case unknown
    with sl_frames(5) [OF ok s] show ?thesis by simp
  next
    case (refused err)
    with updateNotarizedChain_facts [OF ok s refused(2)] show ?thesis by simp
  next
    case (notarized sl1 sl2)
    note 1 = updateNotarizedChain_facts [OF ok s notarized(3)]
    note 2 = sl_keeps_trans [OF 1(1) sl_advance_facts [OF conjunct1 [OF 1(1)] s], folded notarized(4)]
    have v: "curView (slPm sl) < curView (slPm sl2)"
      using notarized(1,4) 1(2) AdvanceView_small [OF s, of "slPm sl"] by simp
    from notarized(5) show ?thesis
    proof
      assume "sl_commit sl2 = Some (goes_on, sl')"
      note 3 = sl_commit_facts [OF U conjunct1 [OF 2] this]
      from sl_keeps_trans [OF 2 3(1)] 3(2) v show ?thesis by simp
    qed (use 2 in simp)
  qed
  then show "sl_keeps U sl sl'" and "goes_on \<Longrightarrow> curView (slPm sl) < curView (slPm sl')" by auto
qed

subsection \<open>The recursion\<close>

fun task_ok :: "Block set \<Rightarrow> sl_task \<Rightarrow> bool" where
  "task_ok U (SlBlock b) \<longleftrightarrow> b \<in> U"
| "task_ok U (SlCert qc) \<longleftrightarrow> small (qcView qc)"

text \<open>The calls that a handler makes, in order, with the states in which it makes them.\<close>

definition call :: "(sl_task \<Rightarrow> Streamlet \<Rightarrow> (error option \<times> Streamlet) option) \<Rightarrow> sl_task option \<Rightarrow> Streamlet \<Rightarrow> Streamlet option" where
  "call f t sl = (case t of None \<Rightarrow> Some sl | Some t \<Rightarrow> do { r \<leftarrow> f t sl; Some (snd r) })"

definition block_rest :: "(sl_task \<Rightarrow> Streamlet \<Rightarrow> (error option \<times> Streamlet) option) \<Rightarrow> Block \<Rightarrow> Vote \<Rightarrow> QC option \<Rightarrow> Streamlet \<Rightarrow>
    (error option \<times> Streamlet) option" where
  "block_rest f block vote qco sl =
     do { sl3 \<leftarrow> call f (map_option SlCert qco) sl;
          let sl4 = slBroadcast (SlMsgVote vote) sl3 in
          do { sl5 \<leftarrow> call f (map_option SlCert (slBufferedQCs sl4 (blkID block))) sl4;
               sl6 \<leftarrow> call f (map_option SlBlock (slBufferedBlocks sl5 (blkID block))) sl5;
               Some (None, sl6) } }"

definition cert_rest :: "(sl_task \<Rightarrow> Streamlet \<Rightarrow> (error option \<times> Streamlet) option) \<Rightarrow> QC \<Rightarrow> Streamlet \<Rightarrow> (error option \<times> Streamlet) option" where
  "cert_rest f qc sl =
     do { sl1 \<leftarrow> call f (map_option SlBlock (slBufferedBlocks sl (qcBlockID qc))) sl;
          let sl2 = (if slBufferedBlocks sl (qcBlockID qc) = None then sl1
                     else sl1\<lparr>slBufferedBlocks := (slBufferedBlocks sl1)(qcBlockID qc := None)\<rparr>) in
          do { sl3 \<leftarrow> call f (map_option SlCert (bufferedNotarizedBlock sl2 (qcBlockID qc))) sl2;
               Some (None, case bufferedNotarizedBlock sl2 (qcBlockID qc) of None \<Rightarrow> sl3
                           | Some qc1 \<Rightarrow> sl3\<lparr>slBufferedQCs := (slBufferedQCs sl3)(qcBlockID qc1 := None)\<rparr>) } }"

lemma call_map:
  "call f (map_option c t) sl = (case t of None \<Rightarrow> Some sl | Some x \<Rightarrow> do { r \<leftarrow> f (c x) sl; Some (snd r) })"
  by (cases t) (simp_all add: call_def)

lemma call_return:
  "do { s \<leftarrow> call f (map_option c t) sl; Some (r, h s) } =
     (case t of None \<Rightarrow> Some (r, h sl) | Some x \<Rightarrow> do { q \<leftarrow> f (c x) sl; Some (r, h (snd q)) })"
  by (cases t) (simp_all add: call_def bind_assoc)

lemma block_rest_eq:
  "block_rest f block vote qco sl =
     do { sl3 \<leftarrow> (case qco of None \<Rightarrow> Some sl | Some qc \<Rightarrow> do { r \<leftarrow> f (SlCert qc) sl; Some (snd r) });
          let sl4 = slBroadcast (SlMsgVote vote) sl3 in
          do { sl5 \<leftarrow> (case slBufferedQCs sl4 (blkID block) of None \<Rightarrow> Some sl4
                      | Some qc \<Rightarrow> do { r \<leftarrow> f (SlCert qc) sl4; Some (snd r) });
               (case slBufferedBlocks sl5 (blkID block) of None \<Rightarrow> Some (None, sl5)
                | Some b \<Rightarrow> do { r \<leftarrow> f (SlBlock b) sl5; Some (None, snd r) }) } }"
  unfolding block_rest_def call_return [where h = "\<lambda>s. s"] unfolding call_map ..

lemma sl_do_block:
  "sl_do e (SlBlock block) sl =
     (case block_front e sl block of None \<Rightarrow> None
      | Some (Inl r, sl1) \<Rightarrow> Some (r, sl1)
      | Some (Inr vote, sl1) \<Rightarrow>
          (case vote_front e sl1 vote of None \<Rightarrow> None
           | Some (qco, sl2) \<Rightarrow> block_rest (sl_do e) block vote qco sl2))"
  unfolding block_rest_eq by (subst sl_do.simps) (simp only: sl_task.case)

lemma cert_rest_eq:
  "cert_rest f qc sl =
     do { sl2 \<leftarrow> (case slBufferedBlocks sl (qcBlockID qc) of None \<Rightarrow> Some sl
                  | Some b \<Rightarrow>
                      do { r \<leftarrow> f (SlBlock b) sl;
                           Some ((snd r)\<lparr>slBufferedBlocks := (slBufferedBlocks (snd r))(qcBlockID qc := None)\<rparr>) });
          (case bufferedNotarizedBlock sl2 (qcBlockID qc) of None \<Rightarrow> Some (None, sl2)
           | Some qc1 \<Rightarrow>
               do { r \<leftarrow> f (SlCert qc1) sl2;
                    Some (None, (snd r)\<lparr>slBufferedQCs := (slBufferedQCs (snd r))(qcBlockID qc1 := None)\<rparr>) }) }"
proof -
  have r: "do { s \<leftarrow> call f (map_option SlCert t) x; Some (None, case t of None \<Rightarrow> s | Some q \<Rightarrow> g q s) } =
      (case t of None \<Rightarrow> Some (None, x) | Some q \<Rightarrow> do { r \<leftarrow> f (SlCert q) x; Some (None, g q (snd r)) })" for t x g
    by (cases t) (simp_all add: call_def bind_assoc)
  show ?thesis
    unfolding cert_rest_def r
    by (cases "slBufferedBlocks sl (qcBlockID qc)") (simp_all add: call_def bind_assoc Let_def)
qed

lemma sl_do_cert:
  "sl_do e (SlCert qc) sl =
     (case cert_front e sl qc of None \<Rightarrow> None
      | Some (goes_on, sl1) \<Rightarrow> if \<not> goes_on then Some (None, sl1) else cert_rest (sl_do e) qc sl1)"
  unfolding cert_rest_eq by (subst sl_do.simps) (simp only: sl_task.case)

text \<open>
  A certificate makes further calls only after it has moved the view, and a block hands over only to its children,
  which have higher levels.
\<close>

definition level_bound :: nat where "level_bound = 2 ^ 64"

fun task_rank :: "sl_task \<Rightarrow> nat" where
  "task_rank (SlBlock b) = 2 + (level_bound - Level b)"
| "task_rank (SlCert qc) = 1"

definition sl_measure :: "sl_task \<Rightarrow> Streamlet \<Rightarrow> nat" where
  "sl_measure t sl = nat (2 ^ 63 - curView (slPm sl)) * (level_bound + 3) + task_rank t"

lemma task_rank_bound: "task_rank t < level_bound + 3"
  by (cases t) auto

lemma sl_measure_mono: "sl_adv sl sl' \<Longrightarrow> task_rank t < task_rank t0 \<Longrightarrow> sl_measure t sl' < sl_measure t0 sl"
  unfolding sl_measure_def sl_adv_def by (intro add_le_less_mono mult_le_mono1 nat_mono) auto

lemma sl_measure_view:
  assumes "curView (slPm sl) < curView (slPm sl')" and "in_i64 (curView (slPm sl'))"
  shows "sl_measure t sl' < sl_measure t0 sl"
proof -
  let ?n = "nat (2 ^ 63 - curView (slPm sl'))" and ?m = "nat (2 ^ 63 - curView (slPm sl))"
  have "Suc ?n \<le> ?m" using assms unfolding in_i64_def by linarith
  then have "Suc ?n * (level_bound + 3) \<le> ?m * (level_bound + 3)" by (rule mult_le_mono1)
  with task_rank_bound [of t] show ?thesis by (simp add: sl_measure_def)
qed

lemma Level_less_bound: "Level b < level_bound"
  by (simp add: Level_def uint64_def level_bound_def nat_less_iff)

lemma child_rank:
  assumes "parents_below U" and "b \<in> U" and "c \<in> U" and "blkPrevID c = blkID b"
  shows "task_rank (SlBlock c) < task_rank (SlBlock b)"
proof -
  have "Level b < Level c" using assms by (auto simp: parents_below_def)
  with Level_less_bound [of c] show ?thesis by simp
qed

text \<open>\<open>calls_ok\<close>: what is known of the calls below a measure.\<close>

definition calls_ok :: "Block set \<Rightarrow> (sl_task \<Rightarrow> Streamlet \<Rightarrow> (error option \<times> Streamlet) option) \<Rightarrow> nat \<Rightarrow> bool" where
  "calls_ok U f m \<longleftrightarrow>
     (\<forall>t sl r. sl_measure t sl < m \<longrightarrow> sl_ok U sl \<longrightarrow> task_ok U t \<longrightarrow> f t sl = Some r \<longrightarrow> sl_keeps U sl (snd r))"

lemma call_facts:
  assumes "calls_ok U f m" and "sl_ok U sl" and "call f t sl = Some sl'"
    and "\<And>x. t = Some x \<Longrightarrow> task_ok U x \<and> sl_measure x sl < m"
  shows "sl_keeps U sl sl'"
proof (cases t)
  case None
  with assms(2,3) show ?thesis by (simp add: call_def)
next
  case (Some x)
  with assms(3) obtain r where "f x sl = Some r" "sl' = snd r" by (auto simp: call_def bind_Some_conv)
  with assms(1) [unfolded calls_ok_def, rule_format, of x sl r] assms(2) assms(4) [OF Some] show ?thesis by simp
qed

lemma buffered_tasks:
  assumes "sl_ok U sl"
  shows "map_option SlCert (slBufferedQCs sl x) = Some t \<Longrightarrow> task_ok U t \<and> task_rank t = 1"
    and "map_option SlCert (bufferedNotarizedBlock sl x) = Some t \<Longrightarrow> task_ok U t \<and> task_rank t = 1"
    and "map_option SlBlock (slBufferedBlocks sl x) = Some t \<Longrightarrow> \<exists>c. t = SlBlock c \<and> c \<in> U \<and> blkPrevID c = x"
  using assms by (auto simp: sl_ok_def)

text \<open>The states in which a block makes its three calls.\<close>

lemma block_rest_calls:
  assumes U: "parents_below U" and b: "block \<in> U" and s0: "sl_ok U sl0" and a0: "sl_keeps U sl0 sl"
    and q: "\<forall>qc. qco = Some qc \<longrightarrow> small (qcView qc)" and c: "calls_ok U f (sl_measure (SlBlock block) sl0)"
  shows "map_option SlCert qco = Some t \<Longrightarrow> task_ok U t \<and> sl_measure t sl < sl_measure (SlBlock block) sl0"
    and "call f (map_option SlCert qco) sl = Some sl3 \<Longrightarrow> sl4 = slBroadcast m sl3 \<Longrightarrow> sl_keeps U sl0 sl4"
    and "sl_keeps U sl0 sl4 \<Longrightarrow> map_option SlCert (slBufferedQCs sl4 (blkID block)) = Some t \<Longrightarrow>
      task_ok U t \<and> sl_measure t sl4 < sl_measure (SlBlock block) sl0"
    and "sl_keeps U sl0 sl4 \<Longrightarrow> call f (map_option SlCert (slBufferedQCs sl4 (blkID block))) sl4 = Some sl5 \<Longrightarrow>
      sl_keeps U sl0 sl5"
    and "sl_keeps U sl0 sl5 \<Longrightarrow> map_option SlBlock (slBufferedBlocks sl5 (blkID block)) = Some t \<Longrightarrow>
      task_ok U t \<and> sl_measure t sl5 < sl_measure (SlBlock block) sl0"
    and "sl_keeps U sl0 sl5 \<Longrightarrow> call f (map_option SlBlock (slBufferedBlocks sl5 (blkID block))) sl5 = Some sl6 \<Longrightarrow>
      sl_keeps U sl0 sl6"
proof -
  have cert: "sl_measure t s < sl_measure (SlBlock block) sl0" if "sl_keeps U sl0 s" "task_rank t = 1" for t s
    using that by (intro sl_measure_mono) auto
  show 1: "task_ok U t \<and> sl_measure t sl < sl_measure (SlBlock block) sl0" if "map_option SlCert qco = Some t" for t
    using that q cert [OF a0] by auto
  show "sl_keeps U sl0 sl4" if "call f (map_option SlCert qco) sl = Some sl3" "sl4 = slBroadcast m sl3"
  proof -
    note k = sl_keeps_trans [OF a0 call_facts [OF c conjunct1 [OF a0] that(1) 1]]
    from sl_keeps_trans [OF k sl_frames(1) [OF conjunct1 [OF k]]] that(2) show ?thesis by simp
  qed
  show 2: "task_ok U t \<and> sl_measure t sl4 < sl_measure (SlBlock block) sl0"
    if "sl_keeps U sl0 sl4" "map_option SlCert (slBufferedQCs sl4 (blkID block)) = Some t" for t
    using buffered_tasks(1) [OF conjunct1 [OF that(1)] that(2)] cert [OF that(1)] by simp
  show "sl_keeps U sl0 sl5"
    if k: "sl_keeps U sl0 sl4" and r: "call f (map_option SlCert (slBufferedQCs sl4 (blkID block))) sl4 = Some sl5"
    by (rule sl_keeps_trans [OF k call_facts [OF c conjunct1 [OF k] r 2 [OF k]]])
  show 3: "task_ok U t \<and> sl_measure t sl5 < sl_measure (SlBlock block) sl0"
    if "sl_keeps U sl0 sl5" "map_option SlBlock (slBufferedBlocks sl5 (blkID block)) = Some t" for t
    using buffered_tasks(3) [OF conjunct1 [OF that(1)] that(2)] child_rank [OF U b] that(1)
    by (elim exE conjE) (simp add: sl_measure_mono del: task_rank.simps)
  show "sl_keeps U sl0 sl6"
    if k: "sl_keeps U sl0 sl5" and r: "call f (map_option SlBlock (slBufferedBlocks sl5 (blkID block))) sl5 = Some sl6"
    by (rule sl_keeps_trans [OF k call_facts [OF c conjunct1 [OF k] r 3 [OF k]]])
qed

text \<open>The two calls of a certificate; \<open>sl0\<close> is the state before it moved the view.\<close>

definition drop_block :: "QC \<Rightarrow> Streamlet \<Rightarrow> Streamlet \<Rightarrow> Streamlet" where
  "drop_block qc sl sl1 =
     (if slBufferedBlocks sl (qcBlockID qc) = None then sl1
      else sl1\<lparr>slBufferedBlocks := (slBufferedBlocks sl1)(qcBlockID qc := None)\<rparr>)"

lemma cert_rest_calls:
  assumes a0: "sl_keeps U sl0 sl" and v: "curView (slPm sl0) < curView (slPm sl)" and c: "calls_ok U f (sl_measure (SlCert qc) sl0)"
  shows "map_option SlBlock (slBufferedBlocks sl (qcBlockID qc)) = Some t \<Longrightarrow> task_ok U t \<and> sl_measure t sl < sl_measure (SlCert qc) sl0"
    and "call f (map_option SlBlock (slBufferedBlocks sl (qcBlockID qc))) sl = Some sl1 \<Longrightarrow> sl_keeps U sl (drop_block qc sl sl1)"
    and "sl_keeps U sl sl2 \<Longrightarrow> map_option SlCert (bufferedNotarizedBlock sl2 (qcBlockID qc)) = Some t \<Longrightarrow>
      task_ok U t \<and> sl_measure t sl2 < sl_measure (SlCert qc) sl0"
    and "sl_keeps U sl sl2 \<Longrightarrow> call f (map_option SlCert (bufferedNotarizedBlock sl2 (qcBlockID qc))) sl2 = Some sl3 \<Longrightarrow>
      sl_keeps U sl sl3"
proof -
  have less: "sl_measure t s < sl_measure (SlCert qc) sl0" if "sl_keeps U sl s" for t s
    using v that by (intro sl_measure_view) (auto simp: sl_ok_def sl_adv_def)
  show 1: "task_ok U t \<and> sl_measure t sl < sl_measure (SlCert qc) sl0"
    if "map_option SlBlock (slBufferedBlocks sl (qcBlockID qc)) = Some t" for t
    using buffered_tasks(3) [OF conjunct1 [OF a0] that] less [of sl] a0 by auto
  show "sl_keeps U sl (drop_block qc sl sl1)"
    if "call f (map_option SlBlock (slBufferedBlocks sl (qcBlockID qc))) sl = Some sl1"
  proof -
    note k = call_facts [OF c conjunct1 [OF a0] that 1]
    from k sl_keeps_trans [OF k sl_frames(9) [OF conjunct1 [OF k]]] show ?thesis by (simp add: drop_block_def)
  qed
  show 2: "task_ok U t \<and> sl_measure t sl2 < sl_measure (SlCert qc) sl0"
    if "sl_keeps U sl sl2" "map_option SlCert (bufferedNotarizedBlock sl2 (qcBlockID qc)) = Some t" for t
    using buffered_tasks(2) [OF conjunct1 [OF that(1)] that(2)] less [OF that(1)] by simp
  show "sl_keeps U sl sl3"
    if k: "sl_keeps U sl sl2" and r: "call f (map_option SlCert (bufferedNotarizedBlock sl2 (qcBlockID qc))) sl2 = Some sl3"
    by (rule sl_keeps_trans [OF k call_facts [OF c conjunct1 [OF k] r 2 [OF k]]])
qed

lemma block_vote_small:
  assumes U: "universe_ok U" and ok: "sl_ok U sl" and b: "block \<in> U"
    and f: "block_front e sl block = Some (Inr vote, sl1)" and v: "vote_front e sl1 vote = Some (qco, sl2)"
  shows "sl_keeps U sl sl2" and "\<forall>qc. qco = Some qc \<longrightarrow> small (qcView qc)"
proof -
  note F = block_front_facts [OF ok b f]
  from sl_keeps_trans [OF F(1) vote_front_facts(1) [OF conjunct1 [OF F(1)] v]] show "sl_keeps U sl sl2" .
  show "\<forall>qc. qco = Some qc \<longrightarrow> small (qcView qc)"
    using vote_front_facts(2) [OF conjunct1 [OF F(1)] v] F(2) [OF refl] universe_block(2) [OF U b] by simp
qed

lemma block_step_facts:
  assumes U: "universe_ok U" and ok: "sl_ok U sl" and b: "block \<in> U"
    and c: "calls_ok U (sl_do e) (sl_measure (SlBlock block) sl)" and p: "sl_do e (SlBlock block) sl = Some (r, sl')"
  shows "sl_keeps U sl sl'"
proof -
  from p obtain x sl1 where f: "block_front e sl block = Some (x, sl1)"
    by (cases "block_front e sl block") (auto simp: sl_do_block)
  show ?thesis
  proof (cases x)
    case (Inl y)
    with p f block_front_facts(1) [OF ok b f] show ?thesis by (simp add: sl_do_block)
  next
    case (Inr vote)
    with p f obtain qco sl2 where v: "vote_front e sl1 vote = Some (qco, sl2)"
      by (cases "vote_front e sl1 vote") (auto simp: sl_do_block)
    with p f Inr have "block_rest (sl_do e) block vote qco sl2 = Some (r, sl')" by (simp add: sl_do_block)
    then obtain sl3 sl5 where
      3: "call (sl_do e) (map_option SlCert qco) sl2 = Some sl3" and
      5: "call (sl_do e) (map_option SlCert (slBufferedQCs (slBroadcast (SlMsgVote vote) sl3) (blkID block)))
            (slBroadcast (SlMsgVote vote) sl3) = Some sl5" and
      6: "call (sl_do e) (map_option SlBlock (slBufferedBlocks sl5 (blkID block))) sl5 = Some sl'"
      by (auto simp: block_rest_def bind_Some_conv Let_def)
    note B = block_vote_small [OF U ok b f [unfolded Inr] v]
    note R = block_rest_calls [OF universe_block(1) [OF U b] b ok B(1) B(2) c]
    from R(6) [OF R(4) [OF R(2) [OF 3 refl] 5] 6] show ?thesis by simp
  qed
qed

lemma cert_step_facts:
  assumes U: "universe_ok U" and ok: "sl_ok U sl" and s: "small (qcView qc)"
    and c: "calls_ok U (sl_do e) (sl_measure (SlCert qc) sl)" and p: "sl_do e (SlCert qc) sl = Some (r, sl')"
  shows "sl_keeps U sl sl'"
proof -
  from p obtain g sl1 where f: "cert_front e sl qc = Some (g, sl1)"
    by (cases "cert_front e sl qc") (auto simp: sl_do_cert)
  have pb: "parents_below U" using U by (simp add: universe_ok_def)
  note F = cert_front_facts [OF pb ok s f]
  show ?thesis
  proof (cases g)
    case False
    with p f F show ?thesis by (simp add: sl_do_cert)
  next
    case True
    note R = cert_rest_calls [OF F(1) F(2) [OF True] c]
    from True p f have "cert_rest (sl_do e) qc sl1 = Some (r, sl')" by (simp add: sl_do_cert)
    then obtain sl2 sl3 where
      2: "call (sl_do e) (map_option SlBlock (slBufferedBlocks sl1 (qcBlockID qc))) sl1 = Some sl2" and
      3: "call (sl_do e) (map_option SlCert (bufferedNotarizedBlock (drop_block qc sl1 sl2) (qcBlockID qc)))
            (drop_block qc sl1 sl2) = Some sl3" and
      e: "sl' = (case bufferedNotarizedBlock (drop_block qc sl1 sl2) (qcBlockID qc) of None \<Rightarrow> sl3
                 | Some qc1 \<Rightarrow> sl3\<lparr>slBufferedQCs := (slBufferedQCs sl3)(qcBlockID qc1 := None)\<rparr>)"
      by (auto simp: cert_rest_def bind_Some_conv Let_def drop_block_def [symmetric])
    note K = sl_keeps_trans [OF F(1) R(4) [OF R(2) [OF 2] 3]]
    from K sl_keeps_trans [OF K sl_frames(8) [OF conjunct1 [OF K]]] e show ?thesis by (auto split: option.splits)
  qed
qed

lemma sl_do_facts:
  assumes U: "universe_ok U"
  shows "calls_ok U (sl_do e) m"
proof (induction m rule: less_induct)
  case (less m)
  show ?case unfolding calls_ok_def
  proof (intro allI impI, goal_cases)
    case (1 t sl r)
    note c = less [OF 1(1)]
    obtain x sl' where r: "r = (x, sl')" by (cases r)
    show ?case
    proof (cases t)
      case (SlBlock b)
      with 1(3,4) r have b: "b \<in> U" and p: "sl_do e (SlBlock b) sl = Some (x, sl')" by simp_all
      from block_step_facts [OF U 1(2) b c [unfolded SlBlock] p] r show ?thesis by simp
    next
      case (SlCert qc)
      with 1(3,4) r have s: "small (qcView qc)" and p: "sl_do e (SlCert qc) sl = Some (x, sl')" by simp_all
      from cert_step_facts [OF U 1(2) s c [unfolded SlCert] p] r show ?thesis by simp
    qed
  qed
qed

subsection \<open>The recursion ends\<close>

text \<open>
  The handlers with a bound on the depth of the calls: \<open>None\<close> when the bound is reached, otherwise \<open>Some\<close> of the
  outcome, which may be a panic.
\<close>

definition then_do :: "'a option option \<Rightarrow> ('a \<Rightarrow> 'b option option) \<Rightarrow> 'b option option" where
  "then_do m k = (case m of None \<Rightarrow> None | Some None \<Rightarrow> Some None | Some (Some x) \<Rightarrow> k x)"

definition fuel_call :: "(sl_task \<Rightarrow> Streamlet \<Rightarrow> (error option \<times> Streamlet) option option) \<Rightarrow> sl_task option \<Rightarrow> Streamlet \<Rightarrow>
    Streamlet option option" where
  "fuel_call f t sl = (case t of None \<Rightarrow> Some (Some sl) | Some t \<Rightarrow> map_option (map_option snd) (f t sl))"

fun sl_fuel :: "nat \<Rightarrow> HsEnv \<Rightarrow> sl_task \<Rightarrow> Streamlet \<Rightarrow> (error option \<times> Streamlet) option option" where
  "sl_fuel 0 e t sl = None"
| "sl_fuel (Suc n) e (SlBlock block) sl =
     (case block_front e sl block of
        None \<Rightarrow> Some None
      | Some (Inl r, sl1) \<Rightarrow> Some (Some (r, sl1))
      | Some (Inr vote, sl1) \<Rightarrow>
          (case vote_front e sl1 vote of
             None \<Rightarrow> Some None
           | Some (qco, sl2) \<Rightarrow>
               then_do (fuel_call (sl_fuel n e) (map_option SlCert qco) sl2) (\<lambda>sl3.
                 let sl4 = slBroadcast (SlMsgVote vote) sl3 in
                 then_do (fuel_call (sl_fuel n e) (map_option SlCert (slBufferedQCs sl4 (blkID block))) sl4) (\<lambda>sl5.
                   then_do (fuel_call (sl_fuel n e) (map_option SlBlock (slBufferedBlocks sl5 (blkID block))) sl5) (\<lambda>sl6.
                     Some (Some (None, sl6)))))))"
| "sl_fuel (Suc n) e (SlCert qc) sl =
     (case cert_front e sl qc of
        None \<Rightarrow> Some None
      | Some (goes_on, sl1) \<Rightarrow>
          if \<not> goes_on then Some (Some (None, sl1))
          else then_do (fuel_call (sl_fuel n e) (map_option SlBlock (slBufferedBlocks sl1 (qcBlockID qc))) sl1) (\<lambda>s.
            let sl2 = drop_block qc sl1 s in
            then_do (fuel_call (sl_fuel n e) (map_option SlCert (bufferedNotarizedBlock sl2 (qcBlockID qc))) sl2) (\<lambda>sl3.
              Some (Some (None, case bufferedNotarizedBlock sl2 (qcBlockID qc) of None \<Rightarrow> sl3
                                | Some qc1 \<Rightarrow> sl3\<lparr>slBufferedQCs := (slBufferedQCs sl3)(qcBlockID qc1 := None)\<rparr>)))))"

lemma then_do_eq: "m = Some m' \<Longrightarrow> (\<And>x. m' = Some x \<Longrightarrow> k x = Some (k' x)) \<Longrightarrow> then_do m k = Some (m' \<bind> k')"
  by (cases m') (simp_all add: then_do_def)

lemma fuel_call_eq: "(\<And>x. t = Some x \<Longrightarrow> g x sl = Some (f x sl)) \<Longrightarrow> fuel_call g t sl = Some (call f t sl)"
  by (cases t) (simp_all add: fuel_call_def call_def map_option_case Option.bind_def split: option.split)

text \<open>\<open>fuel_ok\<close>: the bounded calls below a measure have the outcome of the unbounded ones.\<close>

definition fuel_ok :: "Block set \<Rightarrow> HsEnv \<Rightarrow> nat \<Rightarrow> nat \<Rightarrow> bool" where
  "fuel_ok U e n m \<longleftrightarrow> (\<forall>t sl. sl_ok U sl \<longrightarrow> task_ok U t \<longrightarrow> sl_measure t sl < m \<longrightarrow> sl_fuel n e t sl = Some (sl_do e t sl))"

lemma fuel_okD:
  assumes "fuel_ok U e n m" and "sl_ok U s" and "\<And>x. t = Some x \<Longrightarrow> task_ok U x \<and> sl_measure x s < m"
  shows "fuel_call (sl_fuel n e) t s = Some (call (sl_do e) t s)"
  using assms by (intro fuel_call_eq) (simp add: fuel_ok_def)

lemma sl_fuel_block:
  assumes U: "universe_ok U" and ok: "sl_ok U sl" and b: "block \<in> U" and fuel: "fuel_ok U e n (sl_measure (SlBlock block) sl)"
    and f: "block_front e sl block = Some (Inr vote, sl1)" and v: "vote_front e sl1 vote = Some (qco, sl2)"
  shows "sl_fuel (Suc n) e (SlBlock block) sl = Some (sl_do e (SlBlock block) sl)"
proof -
  note enough = fuel_okD [OF fuel]
  note c = sl_do_facts [OF U, of e "sl_measure (SlBlock block) sl"]
  note B = block_vote_small [OF U ok b f v]
  note R = block_rest_calls [OF universe_block(1) [OF U b] b ok B c]
  let ?d = "call (sl_do e)" and ?f = "fuel_call (sl_fuel n e)" and ?b = "slBroadcast (SlMsgVote vote)"
  let ?q = "\<lambda>s. map_option SlCert (slBufferedQCs s (blkID block))"
  let ?c = "\<lambda>s. map_option SlBlock (slBufferedBlocks s (blkID block))"
  have e3: "?f (map_option SlCert qco) sl2 = Some (?d (map_option SlCert qco) sl2)"
    by (rule enough [OF conjunct1 [OF B(1)] R(1)])
  have k4: "sl_keeps U sl (?b s)" if "?d (map_option SlCert qco) sl2 = Some s" for s
    by (rule R(2) [OF that refl])
  have e5: "?f (?q (?b s)) (?b s) = Some (?d (?q (?b s)) (?b s))" if "?d (map_option SlCert qco) sl2 = Some s" for s
    by (rule enough [OF conjunct1 [OF k4 [OF that]] R(3) [OF k4 [OF that]]])
  have e6: "?f (?c u) u = Some (?d (?c u) u)"
    if "?d (map_option SlCert qco) sl2 = Some s" and "?d (?q (?b s)) (?b s) = Some u" for s u
  proof -
    note k = R(4) [OF k4 [OF that(1)] that(2)]
    show ?thesis by (rule enough [OF conjunct1 [OF k] R(5) [OF k]])
  qed
  have "then_do (?f (map_option SlCert qco) sl2) (\<lambda>s. then_do (?f (?q (?b s)) (?b s)) (\<lambda>u. then_do (?f (?c u) u)
          (\<lambda>w. Some (Some (None, w))))) =
      Some (?d (map_option SlCert qco) sl2 \<bind> (\<lambda>s. ?d (?q (?b s)) (?b s) \<bind> (\<lambda>u. ?d (?c u) u \<bind> (\<lambda>w. Some (None, w)))))"
    by (rule then_do_eq [OF e3], rule then_do_eq [OF e5], assumption, rule then_do_eq [OF e6], assumption, assumption, rule refl)
  then show ?thesis
    by (simp add: f v sl_do_block Let_def block_rest_def)
qed

lemma sl_fuel_cert:
  assumes U: "universe_ok U" and ok: "sl_ok U sl" and s: "small (qcView qc)" and fuel: "fuel_ok U e n (sl_measure (SlCert qc) sl)"
    and f: "cert_front e sl qc = Some (True, sl1)"
  shows "sl_fuel (Suc n) e (SlCert qc) sl = Some (sl_do e (SlCert qc) sl)"
proof -
  note enough = fuel_okD [OF fuel]
  note c = sl_do_facts [OF U, of e "sl_measure (SlCert qc) sl"]
  have pb: "parents_below U" using U by (simp add: universe_ok_def)
  note F = cert_front_facts [OF pb ok s f]
  note R = cert_rest_calls [OF F(1) F(2) [OF TrueI] c]
  let ?d = "call (sl_do e)" and ?f = "fuel_call (sl_fuel n e)" and ?b = "drop_block qc sl1"
  let ?c = "map_option SlBlock (slBufferedBlocks sl1 (qcBlockID qc))"
  let ?q = "\<lambda>s. map_option SlCert (bufferedNotarizedBlock s (qcBlockID qc))"
  have e1: "?f ?c sl1 = Some (?d ?c sl1)" by (rule enough [OF conjunct1 [OF F(1)] R(1)])
  have e2: "?f (?q (?b s)) (?b s) = Some (?d (?q (?b s)) (?b s))" if "?d ?c sl1 = Some s" for s
    by (rule enough [OF conjunct1 [OF R(2) [OF that]] R(3) [OF R(2) [OF that]]])
  have "then_do (?f ?c sl1) (\<lambda>s. then_do (?f (?q (?b s)) (?b s)) (\<lambda>u. Some (Some (None, w s u)))) =
      Some (?d ?c sl1 \<bind> (\<lambda>s. ?d (?q (?b s)) (?b s) \<bind> (\<lambda>u. Some (None, w s u))))"
    for w :: "Streamlet \<Rightarrow> Streamlet \<Rightarrow> Streamlet"
    by (rule then_do_eq [OF e1], rule then_do_eq [OF e2], assumption, rule refl)
  then show ?thesis
    by (simp add: f sl_do_cert Let_def cert_rest_def drop_block_def [symmetric])
qed

lemma sl_fuel_enough:
  assumes U: "universe_ok U"
  shows "fuel_ok U e n n"
proof (induction n)
  case 0
  then show ?case by (simp add: fuel_ok_def)
next
  case (Suc n)
  show ?case unfolding fuel_ok_def
  proof (intro allI impI)
    fix t sl assume ok: "sl_ok U sl" and t: "task_ok U t" and m: "sl_measure t sl < Suc n"
    have fuel: "fuel_ok U e n (sl_measure t sl)" using Suc m by (auto simp: fuel_ok_def)
    show "sl_fuel (Suc n) e t sl = Some (sl_do e t sl)"
    proof (cases t)
      case (SlBlock block)
      show ?thesis
      proof (cases "\<exists>vote sl1 qco sl2. block_front e sl block = Some (Inr vote, sl1) \<and> vote_front e sl1 vote = Some (qco, sl2)")
        case True
        with sl_fuel_block [OF U ok _ fuel [unfolded SlBlock]] t SlBlock show ?thesis by auto
      next
        case False
        with SlBlock show ?thesis by (auto simp: sl_do_block split: option.splits sum.splits)
      qed
    next
      case (SlCert qc)
      show ?thesis
      proof (cases "\<exists>sl1. cert_front e sl qc = Some (True, sl1)")
        case True
        with sl_fuel_cert [OF U ok _ fuel [unfolded SlCert]] t SlCert show ?thesis by auto
      next
        case False
        with SlCert show ?thesis by (auto simp: sl_do_cert split: option.splits)
      qed
    qed
  qed
qed

section \<open>The protocol behind the interface\<close>

definition streamlet_safety :: "HsEnv \<Rightarrow> Streamlet Safety" where
  "streamlet_safety e =
     \<lparr>sfProcessBlock = slProcessBlock e, sfProcessVote = slProcessVote e,
      sfProcessRemoteTmo = slProcessRemoteTmo, sfProcessLocalTmo = slProcessLocalTmo e\<rparr>"

definition sl_inv :: "Block set \<Rightarrow> Streamlet \<Rightarrow> bool" where
  "sl_inv U sl \<longleftrightarrow> universe_ok U \<and> sl_ok U sl"

lemma sl_do_keeps:
  assumes "universe_ok U" and "sl_ok U sl" and "task_ok U t" and "sl_do e t sl = Some r"
  shows "sl_keeps U sl (snd r)"
  by (rule sl_do_facts [OF assms(1), of e "Suc (sl_measure t sl)", unfolded calls_ok_def, rule_format, OF _ assms(2-4)]) simp

lemma slProcessVote_facts:
  assumes U: "universe_ok U" and ok: "sl_ok U sl" and s: "small (voteView vote)" and p: "slProcessVote e sl vote = Some sl'"
  shows "sl_keeps U sl sl'"
proof -
  from p obtain qco sl1 where v: "vote_front e sl vote = Some (qco, sl1)" by (auto simp: slProcessVote_def bind_Some_conv)
  note F = vote_front_facts [OF ok v]
  show ?thesis
  proof (cases qco)
    case None
    with p v F(1) show ?thesis by (simp add: slProcessVote_def)
  next
    case (Some qc)
    with p v obtain r where r: "sl_do e (SlCert qc) sl1 = Some r" and e: "sl' = snd r"
      by (auto simp: slProcessVote_def slProcessCertificate_def bind_Some_conv)
    have "task_ok U (SlCert qc)" using F(2) [OF Some] s by simp
    from sl_keeps_trans [OF F(1) sl_do_keeps [OF U conjunct1 [OF F(1)] this r]] e show ?thesis by simp
  qed
qed

lemma slProcessRemoteTmo_facts:
  assumes ok: "sl_ok U sl" and s: "small (tmoView tmo)" and p: "slProcessRemoteTmo sl tmo = Some sl'"
  shows "sl_keeps U sl sl'"
proof -
  obtain b tco pm1 where t: "ProcessRemoteTmo (slPm sl) tmo = ((b, tco), pm1)" by (metis surj_pair)
  note 1 = sl_frames(4) [OF ok ProcessRemoteTmo_frame(1) [OF t]]
  show ?thesis
  proof (cases b)
    case False
    with p t 1 show ?thesis by (simp add: slProcessRemoteTmo_def)
  next
    case True
    then obtain tc where tc: "tco = Some tc" "tcView tc = tmoView tmo" using ProcessRemoteTmo_frame(2) [OF t] by blast
    with True p t have "sl' = slProcessTC (sl\<lparr>slPm := pm1\<rparr>) tc" by (simp add: slProcessRemoteTmo_def)
    with 1 sl_keeps_trans [OF 1 sl_advance_facts [OF conjunct1 [OF 1], of "tcView tc"]] tc s show ?thesis
      by (simp add: slProcessTC_def)
  qed
qed

lemma streamlet_step:
  assumes i: "sl_inv U sl" and l: "legal_event U ev" and p: "sf_step (streamlet_safety e) sl ev = Some sl'"
  shows "sl_inv U sl' \<and> sl_adv sl sl'"
proof -
  from i have U: "universe_ok U" and ok: "sl_ok U sl" by (auto simp: sl_inv_def)
  have "sl_keeps U sl sl'"
  proof (cases ev)
    case (SfBlock b)
    with p obtain err where r: "sl_do e (SlBlock b) sl = Some (err, sl')"
      by (auto simp: streamlet_safety_def slProcessBlock_def bind_Some_conv)
    have "task_ok U (SlBlock b)" using l SfBlock by simp
    from sl_do_keeps [OF U ok this r] show ?thesis by simp
  next
    case (SfVote v)
    with slProcessVote_facts [OF U ok, of v e sl'] l p show ?thesis by (simp add: streamlet_safety_def)
  next
    case (SfTmo t)
    with slProcessRemoteTmo_facts [OF ok, of t sl'] l p show ?thesis by (simp add: streamlet_safety_def)
  next
    case (SfLocal v)
    define tmo where "tmo = \<lparr>tmoView = v, tmoNodeID = hsID e, tmoHighQC = None\<rparr>"
    note 1 = sl_frames(1) [OF ok, of "SlMsgTMO tmo"]
    have r: "slProcessRemoteTmo (slBroadcast (SlMsgTMO tmo) sl) tmo = Some sl'"
      using p SfLocal by (simp add: streamlet_safety_def slProcessLocalTmo_def tmo_def Let_def)
    have "small (tmoView tmo)" using l SfLocal by (simp add: tmo_def)
    from sl_keeps_trans [OF 1 slProcessRemoteTmo_facts [OF conjunct1 [OF 1] this r]] show ?thesis .
  qed
  with U show ?thesis by (simp add: sl_inv_def)
qed

interpretation slf: safety "streamlet_safety e" "sl_inv U" "legal_event U" "\<lambda>sl. curView (slPm sl)" slCommitted
  for e U
proof
  fix s ev s'
  assume a: "sl_inv U s" "legal_event U ev" "sf_step (streamlet_safety e) s ev = Some s'"
  note h = streamlet_step [OF a]
  from h show "sl_inv U s'" by simp
  from h show "curView (slPm s) \<le> curView (slPm s')" by (simp add: sl_adv_def)
  from h show "grows (slCommitted s) (slCommitted s')" by (simp add: sl_adv_def)
next
  fix s assume "sl_inv U s"
  then show "distinct (map Level (slCommitted s))" by (simp add: sl_inv_def sl_ok_def)
qed

lemma sl_ok_New: "sl_ok U (NewStreamlet n (NewPacemaker n))"
  using bc_ok_New [of n] by (simp add: sl_ok_def NewStreamlet_def NewPacemaker_def AdvanceView_def small_def in_i64_def i64_def
      NewBlockchain_def GetVertex_def NewLevelledForest_def chain_ok_def)

section \<open>Properties\<close>

text \<open>C15 (log): from a new replica, over any sequence of blocks, votes and timeouts whose views do not wrap and
  whose blocks lie above their parents, a Streamlet replica's view never goes back, the blocks it has handed over for
  commitment are only ever extended, and no two of them have the same level.\<close>

theorem streamlet_log_append_only:
  assumes "universe_ok U" and "list_all (legal_event U) (xs @ ys)"
    and "sf_run (streamlet_safety e) (NewStreamlet n (NewPacemaker n)) xs = Some sl1"
    and "sf_run (streamlet_safety e) sl1 ys = Some sl2"
  shows "curView (slPm sl1) \<le> curView (slPm sl2) \<and> grows (slCommitted sl1) (slCommitted sl2) \<and>
    distinct (map Level (slCommitted sl2))"
proof -
  have i: "sl_inv U (NewStreamlet n (NewPacemaker n))" using assms(1) sl_ok_New by (simp add: sl_inv_def)
  have l: "list_all (legal_event U) xs" "list_all (legal_event U) ys" using assms(2) by simp_all
  have "sl_inv U sl1" using slf.run_ok [OF i l(1) assms(3)] by simp
  from slf.run_ok [OF this l(2) assms(4)] slf.run_log_distinct [OF this l(2) assms(4)] show ?thesis by simp
qed

subsection \<open>A replica to evaluate\<close>

text \<open>Replica 2 of four, as in \<open>HotStuff\<close>, with votes of the other replicas.\<close>

definition sl_env :: HsEnv where
  "sl_env = sample_env\<lparr>hsRange := (\<lambda>S. filter (\<lambda>i. i \<in> S) (map NewNodeID [1, 2, 3, 4]))\<rparr>"

definition peer_vote :: "int \<Rightarrow> Block \<Rightarrow> Vote" where
  "peer_vote i b = \<lparr>voteView = blkView b, voteVoter = NewNodeID i, voteBlockID = blkID b, voteTimestamp = 0,
     voteSignature = [[word_of_int i], IDToByte (blkID b)]\<rparr>"

definition sl_round :: "Block \<Rightarrow> int list \<Rightarrow> sf_event list" where
  "sl_round b is = SfBlock b # map (\<lambda>i. SfVote (peer_vote i b)) is"

lemma node_ids [simp]:
  "NewNodeID 1 = ''1''" "NewNodeID 2 = ''2''" "NewNodeID 3 = ''3''" "NewNodeID 4 = ''4''"
  by (simp_all add: NewNodeID_def Itoa_def itoa_nat.simps digit_char_def)

lemma node_nos: "Node ''1'' = 1" "Node ''2'' = 2" "Node ''3'' = 3" "Node ''4'' = 4"
  using Node_NewNodeID [of 1] Node_NewNodeID [of 2] Node_NewNodeID [of 3] Node_NewNodeID [of 4] by simp_all

lemma sl_env_simps:
  "hsID sl_env = ''2''" "hsIsLeader sl_env ''4'' v = Some True"
  "check_block_sig sl_env (led_block i v p qv) = Some ()"
  "hsRange sl_env S = filter (\<lambda>i. i \<in> S) [''1'', ''2'', ''3'', ''4'']"
  "MakeVote (hsKeys sl_env) v ''2'' x = Some (led_vote x v)"
  using led_sig [of i v p qv]
  by (simp_all add: sl_env_def sample_env_def StaticIsLeader_def NewStatic_def check_block_sig_def MakeVote_def PrivSign_def
      Sign_def ring4_def toy_ecdsa_def go_index_def i64_def led_vote_def node_nos)

lemma peer_sig:
  "i \<in> {1, 2, 3, 4} \<Longrightarrow> PubVerify (hsKeys sl_env) [[word_of_int i], IDToByte x] (IDToByte x) (NewNodeID i) = Some (True, None)"
  by (auto simp: sl_env_def sample_env_def PubVerify_def Verify_def ring4_def toy_ecdsa_def go_index_def i64_def node_nos)

lemmas sl_eval = streamlet_safety_def slProcessBlock_def slProcessVote_def slProcessCertificate_def sl_do_block sl_do_cert
  block_front_def vote_front_def cert_front_def block_rest_def cert_rest_def call_def sl_vote_verified_def
  slBroadcast_def sl_deliver_def sl_commit_def slCommitRule_def slVotingRule_def updateNotarizedChain_def
  GetNotarizedHeight_def go_index_def certificate_verified_def VerifyQuorumSignature_def
  chain_eval sl_env_simps peer_sig [of 1, simplified] peer_sig [of 2, simplified] peer_sig [of 3, simplified] peer_sig [of 4, simplified]
  AddVote_def QuorumAdd_def NewQuorum_def getSigs_def superMajority_def quorum_size_def votes_of_def go_quot_def
  GetBlockByID_def GetCurView_def AdvanceView_def Exists_def HasVertex_def i64_def sl_round_def peer_vote_def led_vote_def
  NewStreamlet_def NewPacemaker_def maplen_def

text \<open>Blocks 2 and 3 both extend block 1; the others certify block 3, for which this replica does not vote.\<close>

definition fork_blocks :: "Block list" where
  "fork_blocks = [led_block 1 1 0 0, led_block 2 2 1 0, led_block 3 3 1 0, led_block 4 4 3 0]"

definition fork_start :: "sf_event list" where
  "fork_start = sl_round (led_block 1 1 0 0) [1, 3] @ sl_round (led_block 2 2 1 0) [1, 3] @ sl_round (led_block 3 3 1 0) [1, 3]"

lemma fork_universe: "universe_ok (set fork_blocks)"
  by (auto simp: universe_ok_def parents_below_def fork_blocks_def uint64_nonneg block_small_def small_def in_i64_def)

lemma fork_legal: "list_all (legal_event (set fork_blocks)) (fork_start @ [SfVote (peer_vote 4 (led_block 3 3 1 0))] @
    sl_round (led_block 4 4 3 0) [1, 3])"
  by (simp add: fork_start_def sl_round_def fork_blocks_def peer_vote_def small_def in_i64_def)

lemma fork_run:
  "\<exists>sl sl1 qc sl2 sl3. sf_run (streamlet_safety sl_env) (NewStreamlet 4 (NewPacemaker 4)) fork_start = Some sl \<and>
     slCommitted sl = [] \<and> vote_front sl_env sl (peer_vote 4 (led_block 3 3 1 0)) = Some (Some qc, sl1) \<and>
     slCommitted sl1 = [] \<and> cert_front sl_env sl1 qc = Some (True, sl2) \<and>
     slCommitted sl2 = [led_block 2 2 1 0, led_block 1 1 0 0] \<and>
     sf_run (streamlet_safety sl_env) sl (SfVote (peer_vote 4 (led_block 3 3 1 0)) # sl_round (led_block 4 4 3 0) [1, 3]) = Some sl3 \<and>
     slCommitted sl3 = [led_block 2 2 1 0, led_block 1 1 0 0, led_block 3 3 1 0]"
  by (simp add: fork_start_def sl_eval)

theorem streamlet_log_append_only_witness:
  "\<exists>sl1 sl2. sf_run (streamlet_safety sl_env) (NewStreamlet 4 (NewPacemaker 4)) fork_start = Some sl1 \<and>
     sf_run (streamlet_safety sl_env) sl1 (SfVote (peer_vote 4 (led_block 3 3 1 0)) # sl_round (led_block 4 4 3 0) [1, 3]) = Some sl2 \<and>
     slCommitted sl2 = [led_block 2 2 1 0, led_block 1 1 0 0, led_block 3 3 1 0] \<and>
     grows (slCommitted sl1) (slCommitted sl2) \<and> distinct (map Level (slCommitted sl2))"
proof -
  obtain sl1 sl2 where r: "sf_run (streamlet_safety sl_env) (NewStreamlet 4 (NewPacemaker 4)) fork_start = Some sl1"
    "sf_run (streamlet_safety sl_env) sl1 (SfVote (peer_vote 4 (led_block 3 3 1 0)) # sl_round (led_block 4 4 3 0) [1, 3]) = Some sl2"
    "slCommitted sl2 = [led_block 2 2 1 0, led_block 1 1 0 0, led_block 3 3 1 0]" using fork_run by blast
  have "list_all (legal_event (set fork_blocks)) (fork_start @ SfVote (peer_vote 4 (led_block 3 3 1 0)) # sl_round (led_block 4 4 3 0) [1, 3])"
    using fork_legal by simp
  from streamlet_log_append_only [OF fork_universe this r(1,2)] r show ?thesis by blast
qed

text \<open>C16 (consecutive commit): when processing a certificate commits blocks, the certificate has passed the signature check
  and is not stale, the last three entries of the notarized chain are blocks of consecutive views, the last of them the
  certified block, and what is committed is the chain of known ancestors of the second.\<close>

theorem streamlet_commits_consecutive:
  assumes "universe_ok U" and "sl_ok U sl" and "small (qcView qc)" and "cert_front e sl qc = Some (goes_on, sl')"
    and "slCommitted sl' \<noteq> slCommitted sl"
  shows "certificate_verified e qc = Some True \<and> curView (slPm sl) \<le> qcView qc \<and>
    (\<exists>pre b1 b2 b3 c cs. notarizedChain sl' = pre @ [[b1], [b2], [b3]] \<and> known (slBc sl) (qcBlockID qc) = Some b3 \<and>
       i64 (blkView b1 + 1) = blkView b2 \<and> i64 (blkView b2 + 1) = blkView b3 \<and> known (slBc sl) (blkID b2) = Some c \<and>
       slCommitted sl' = slCommitted sl @ cs \<and> ancestry (known (slBc sl)) (lowest (slBc sl)) c cs)"
  using assms(4)
proof (cases rule: cert_front_cases)
  case (refused err)
  from refused(2) have "slCommitted sl' = slCommitted sl" by (cases rule: updateNotarizedChain_cases) simp_all
  with assms(5) show ?thesis by simp
next
  case (notarized sl1 sl2)
  note 1 = updateNotarizedChain_facts [OF assms(2,3) notarized(3)]
  note ok2 = conjunct1 [OF sl_advance_facts [OF conjunct1 [OF 1(1)] assms(3), folded notarized(4)]]
  obtain b where b: "known (slBc sl) (qcBlockID qc) = Some b" "sl1 = sl\<lparr>notarizedChain := notarizedChain sl @ [[b]]\<rparr>"
    using notarized(3) by (cases rule: updateNotarizedChain_cases) simp_all
  have same: "slCommitted sl2 = slCommitted sl" "slBc sl2 = slBc sl" "notarizedChain sl2 = notarizedChain sl @ [[b]]"
    using b(2) notarized(4) by simp_all
  with notarized(5) assms(5) have "sl_commit sl2 = Some (goes_on, sl')" by auto
  then show ?thesis
  proof (cases rule: sl_commit_cases)
    case nothing
    with same assms(5) show ?thesis by simp
  next
    case (commit b2 cs fs err bc1)
    with same assms(5) have e: "err = None" by (auto split: if_splits)
    have "chain_ok U (notarizedChain sl2)" using ok2 by (simp add: sl_ok_def)
    with commit(1) obtain pre b1 b3 where p: "notarizedChain sl2 = pre @ [[b1], [b2], [b3]]"
      "i64 (blkView b1 + 1) = blkView b2" "i64 (blkView b2 + 1) = blkView b3"
      by (rule slCommitRule_singletons) auto
    have b3: "b3 = b" using p(1) same(3) by simp
    obtain c where c: "known (slBc sl) (blkID b2) = Some c"
      using commit(2) e same(2) by (cases "known (slBc sl) (blkID b2)") (auto simp: CommitBlock_def)
    have "ancestry (known (slBc sl)) (lowest (slBc sl)) c cs"
      using CommitBlock_ancestry [OF c] commit(2) e same(2) by simp
    moreover have "slCommitted sl' = slCommitted sl @ cs" "notarizedChain sl' = notarizedChain sl2"
      using commit(4) e same by (simp_all add: sl_deliver_def)
    ultimately show ?thesis using p b(1) b3 c notarized(1,2) by auto
  qed
qed (use assms(5) in simp_all)

theorem streamlet_commits_consecutive_witness:
  "\<exists>sl qc g sl'. cert_front sl_env sl qc = Some (g, sl') \<and> certificate_verified sl_env qc = Some True \<and>
     slCommitted sl = [] \<and> slCommitted sl' = [led_block 2 2 1 0, led_block 1 1 0 0]"
proof -
  obtain sl sl1 qc sl2 where r: "sf_run (streamlet_safety sl_env) (NewStreamlet 4 (NewPacemaker 4)) fork_start = Some sl"
    and v: "vote_front sl_env sl (peer_vote 4 (led_block 3 3 1 0)) = Some (Some qc, sl1)"
    and c: "cert_front sl_env sl1 qc = Some (True, sl2)"
    and s: "slCommitted sl1 = []" "slCommitted sl2 = [led_block 2 2 1 0, led_block 1 1 0 0]" using fork_run by blast
  have "sl_inv (set fork_blocks) (NewStreamlet 4 (NewPacemaker 4))" using fork_universe sl_ok_New by (simp add: sl_inv_def)
  from slf.run_ok [OF this _ r] fork_legal have ok: "sl_ok (set fork_blocks) sl" by (simp add: sl_inv_def)
  note F = vote_front_facts [OF ok v]
  have q: "small (qcView qc)" using F(2) [OF refl] by (simp add: peer_vote_def small_def in_i64_def)
  have "slCommitted sl2 \<noteq> slCommitted sl1" using s by simp
  from streamlet_commits_consecutive [OF fork_universe conjunct1 [OF F(1)] q c this] c s show ?thesis by blast
qed

text \<open>Conflicting commits: the commit rule does not look at the links between the three blocks.  With a notarized chain
  that branches, a replica commits two blocks of which neither extends the other: here the blocks 2 and 3, both children
  of block 1.\<close>

theorem streamlet_commits_conflicting_blocks:
  "\<exists>sl. sf_run (streamlet_safety sl_env) (NewStreamlet 4 (NewPacemaker 4))
       (fork_start @ SfVote (peer_vote 4 (led_block 3 3 1 0)) # sl_round (led_block 4 4 3 0) [1, 3]) = Some sl \<and>
     {led_block 2 2 1 0, led_block 3 3 1 0} \<subseteq> set (slCommitted sl) \<and>
     blkPrevID (led_block 2 2 1 0) = 1 \<and> blkPrevID (led_block 3 3 1 0) = 1"
  using fork_run unfolding sf_run_append by fastforce

text \<open>Recursion ends: the calls between the handlers of blocks and certificates come to an end: the bounded handler with
  one call more than the measure of the task has the outcome, a result or a panic, of the unbounded one.\<close>

theorem streamlet_handlers_end:
  assumes "universe_ok U" and "sl_ok U sl" and "task_ok U t"
  shows "sl_fuel (Suc (sl_measure t sl)) e t sl = Some (sl_do e t sl)"
  using sl_fuel_enough [OF assms(1), of e "Suc (sl_measure t sl)"] assms(2,3) by (simp add: fuel_ok_def del: sl_fuel.simps)

theorem streamlet_handlers_end_witness:
  "\<exists>sl. sl_fuel (Suc (sl_measure (SlBlock (led_block 1 1 0 0)) (NewStreamlet 4 (NewPacemaker 4)))) sl_env
       (SlBlock (led_block 1 1 0 0)) (NewStreamlet 4 (NewPacemaker 4)) = Some (Some (None, sl)) \<and> echoedBlock sl = {1}"
proof -
  have t: "task_ok (set fork_blocks) (SlBlock (led_block 1 1 0 0))" by (simp add: fork_blocks_def)
  have "\<exists>sl. sl_do sl_env (SlBlock (led_block 1 1 0 0)) (NewStreamlet 4 (NewPacemaker 4)) = Some (None, sl) \<and> echoedBlock sl = {1}"
    by (simp add: sl_eval)
  with streamlet_handlers_end [OF fork_universe sl_ok_New t, of 4 sl_env] show ?thesis by auto
qed

text \<open>
  A certificate for a block whose parent is not notarized, while fewer than three blocks are, makes the search run below the
  first entry.
\<close>

lemma orphan_certificate_panics:
  assumes "chain_ok U (notarizedChain sl)" and "known (slBc sl) (qcBlockID qc) = Some b"
    and "0 < length (notarizedChain sl)" and "length (notarizedChain sl) < 3" and "blkPrevID b \<notin> blkID ` set (concat (notarizedChain sl))"
  shows "updateNotarizedChain sl qc = None"
proof -
  from assms(1) obtain bs where bs: "notarizedChain sl = map (\<lambda>b. [b]) bs" by (auto simp: chain_ok_def)
  have "GetBlockByID (slBc sl) (qcBlockID qc) = Inr b" using assms(2) by (simp add: GetBlockByID_Inr_iff)
  moreover have "blkPrevID b \<notin> blkID ` set bs" using assms(5) bs by auto
  ultimately show ?thesis
    using assms(3,4) bs parent_notarized_singletons [of "length bs" bs "blkPrevID b"]
    by (simp add: updateNotarizedChain_def GetNotarizedHeight_def)
qed

end
