(* ===== verification/Lbft.thy ===== *)
theory Lbft
  imports Streamlet
begin

text \<open>
  The consensus logic of src/lbft/lbft.go, translated on its own.  Its state has the fields of the Streamlet replica, which
  is the record used here.  The theory shows that the package implements the same protocol as src/streamlet/streamlet.go,
  so that the facts of \<open>Streamlet\<close> hold of it, the conflicting commits among them.
\<close>

section \<open>State\<close>

type_synonym Lbft = Streamlet

definition NewLbft :: "int \<Rightarrow> Pacemaker \<Rightarrow> Lbft" where
  "NewLbft n p =
     \<lparr>slPm = AdvanceView p 0, slBc = NewBlockchain n, notarizedChain = [], slBufferedBlocks = Map.empty,
      slBufferedQCs = Map.empty, bufferedNotarizedBlock = Map.empty, slCommitted = [], slForked = [],
      echoedBlock = {}, echoedVote = {}, slOutbox = []\<rparr>"

definition lbBroadcast :: "sl_msg \<Rightarrow> Lbft \<Rightarrow> Lbft" where
  "lbBroadcast m lb = lb\<lparr>slOutbox := slOutbox lb @ [m]\<rparr>"

section \<open>Rules\<close>

definition lbGetNotarizedHeight :: "Lbft \<Rightarrow> int" where
  "lbGetNotarizedHeight lb = int (length (notarizedChain lb))"

definition lbVotingRule :: "Lbft \<Rightarrow> Block \<Rightarrow> bool option" where
  "lbVotingRule lb block =
     (if blkView block \<le> 2 then Some True
      else do { lastBlocks \<leftarrow> go_index (notarizedChain lb) (lbGetNotarizedHeight lb - 1);
                Some (list_ex (\<lambda>b. blkPrevID block = blkID b) lastBlocks) })"

definition lbCommitRule :: "Lbft \<Rightarrow> (bool \<times> Block option) option" where
  "lbCommitRule lb =
     (let height = lbGetNotarizedHeight lb in
      if height < 3 then Some (False, None)
      else do {
        lastBlocks \<leftarrow> go_index (notarizedChain lb) (height - 1);
        if length lastBlocks \<noteq> 1 then Some (False, None)
        else do {
          secondBlocks \<leftarrow> go_index (notarizedChain lb) (height - 2);
          if length secondBlocks \<noteq> 1 then Some (False, None)
          else do {
            firstBlocks \<leftarrow> go_index (notarizedChain lb) (height - 3);
            if length firstBlocks \<noteq> 1 then Some (False, None)
            else if i64 (blkView (hd firstBlocks) + 1) = blkView (hd secondBlocks)
                    \<and> i64 (blkView (hd secondBlocks) + 1) = blkView (hd lastBlocks)
                 then Some (True, Some (hd secondBlocks)) else Some (False, None) } } })"

definition lbForkChoice :: "Identifier \<Rightarrow> Lbft \<Rightarrow> Identifier option" where
  "lbForkChoice genesis lb =
     (if lbGetNotarizedHeight lb = 0 then Some genesis
      else do { tail \<leftarrow> go_index (notarizedChain lb) (lbGetNotarizedHeight lb - 1);
                b \<leftarrow> go_index tail 0;
                Some (blkID b) })"

fun lb_parent_notarized :: "Block list list \<Rightarrow> Identifier \<Rightarrow> nat \<Rightarrow> bool option" where
  "lb_parent_notarized chain prev 0 = (if length chain < 3 then None else Some False)"
| "lb_parent_notarized chain prev (Suc i) =
     (if list_ex (\<lambda>b. blkID b = prev) (chain ! i) then Some True else lb_parent_notarized chain prev i)"

definition lbUpdateNotarizedChain :: "Lbft \<Rightarrow> QC \<Rightarrow> (error option \<times> Lbft) option" where
  "lbUpdateNotarizedChain lb qc =
     (case GetBlockByID (slBc lb) (qcBlockID qc) of
        Inl e \<Rightarrow> Some (Some ''cannot find the block'', lb)
      | Inr block \<Rightarrow>
          let extended = lb\<lparr>notarizedChain := notarizedChain lb @ [[block]]\<rparr> in
          if lbGetNotarizedHeight lb = 0 then Some (None, extended)
          else do {
            found \<leftarrow> lb_parent_notarized (notarizedChain lb) (blkPrevID block) (length (notarizedChain lb));
            if found then Some (None, extended)
            else Some (Some ''the block is not extending the notarized chain'',
                       lb\<lparr>bufferedNotarizedBlock := (bufferedNotarizedBlock lb)(blkPrevID block \<mapsto> qc)\<rparr>) })"

section \<open>The handlers\<close>

definition lb_certificate_verified :: "HsEnv \<Rightarrow> QC \<Rightarrow> bool option" where
  "lb_certificate_verified e qc =
     (if qcLeader qc = hsID e then Some True
      else do { (quorumIsVerified, _) \<leftarrow> VerifyQuorumSignature (hsKeys e) (qcAggSig qc) (qcBlockID qc) (qcSigners qc);
                Some quorumIsVerified })"

definition lb_check_block_sig :: "HsEnv \<Rightarrow> Block \<Rightarrow> unit option" where
  "lb_check_block_sig e block =
     (if blkProposer block = hsID e then Some ()
      else do { _ \<leftarrow> PubVerify (hsKeys e) (hSig (blkHeader block)) (IDToByte (blkID block)) (blkProposer block);
                Some () })"

definition lb_block_front :: "HsEnv \<Rightarrow> Lbft \<Rightarrow> Block \<Rightarrow> ((error option + Vote) \<times> Lbft) option" where
  "lb_block_front e lb block =
     (if Exists (slBc lb) (blkID block) then Some (Inl None, lb)
      else if blkView block < GetCurView (slPm lb) then Some (Inl (Some ''received a stale block''), lb)
      else if isl (GetBlockByID (slBc lb) (blkPrevID block)) \<and> blkView block > 1 then
        Some (Inl None, lb\<lparr>slBufferedBlocks := (slBufferedBlocks lb)(blkPrevID block \<mapsto> block)\<rparr>)
      else do {
        leader \<leftarrow> hsIsLeader e (blkProposer block) (blkView block);
        if \<not> leader then Some (Inl (Some ''received a proposal from an invalid leader''), lb)
        else do {
          _ \<leftarrow> lb_check_block_sig e block;
          let lb1 = (if blkID block \<notin> echoedBlock lb
                     then lbBroadcast (SlMsgBlock block) (lb\<lparr>echoedBlock := insert (blkID block) (echoedBlock lb)\<rparr>)
                     else lb) in
          do { bc1 \<leftarrow> AddBlock (slBc lb1) block;
               let lb2 = lb1\<lparr>slBc := bc1\<rparr> in
               do { shouldVote \<leftarrow> lbVotingRule lb2 block;
                    if \<not> shouldVote then
                      Some (Inl None, lb2\<lparr>slBufferedBlocks := (slBufferedBlocks lb2)(blkPrevID block \<mapsto> block)\<rparr>)
                    else do {
                      vote \<leftarrow> MakeVote (hsKeys e) (blkView block) (hsID e) (blkID block);
                      Some (Inr vote, lb2) } } } } })"

definition lb_vote_verified :: "HsEnv \<Rightarrow> Vote \<Rightarrow> bool option" where
  "lb_vote_verified e vote =
     (if voteVoter vote = hsID e then Some True
      else do { (voteIsVerified, err) \<leftarrow>
                  PubVerify (hsKeys e) (voteSignature vote) (IDToByte (voteBlockID vote)) (voteVoter vote);
                if err \<noteq> None then None else Some voteIsVerified })"

definition lb_vote_front :: "HsEnv \<Rightarrow> Lbft \<Rightarrow> Vote \<Rightarrow> (QC option \<times> Lbft) option" where
  "lb_vote_front e lb vote =
     do { ok \<leftarrow> lb_vote_verified e vote;
          if \<not> ok then Some (None, lb)
          else
            let lb1 = (if voteBlockID vote \<notin> echoedBlock lb
                       then lbBroadcast (SlMsgVote vote) (lb\<lparr>echoedBlock := insert (voteBlockID vote) (echoedBlock lb)\<rparr>)
                       else lb) in
            case AddVote (hsRange e) (slBc lb1) vote of
              ((isBuilt, qco), bc1) \<Rightarrow>
                let lb2 = lb1\<lparr>slBc := bc1\<rparr> in
                if \<not> isBuilt then Some (None, lb2) else do { qc \<leftarrow> qco; Some (Some qc, lb2) } }"

definition lb_deliver :: "Lbft \<Rightarrow> Block list \<Rightarrow> Block list \<Rightarrow> Lbft" where
  "lb_deliver lb committed forked =
     lb\<lparr>slCommitted := slCommitted lb @ committed, slForked := slForked lb @ forked,
        echoedBlock := echoedBlock lb - blkID ` set committed, echoedVote := echoedVote lb - blkID ` set committed\<rparr>"

definition lb_commit :: "Lbft \<Rightarrow> (bool \<times> Lbft) option" where
  "lb_commit lb =
     do { (ok, bo) \<leftarrow> lbCommitRule lb;
          if \<not> ok then Some (False, lb)
          else do {
            block \<leftarrow> bo;
            ((committed, forked, err), bc1) \<leftarrow> CommitBlock (slBc lb) (blkID block) (GetCurView (slPm lb));
            if err \<noteq> None then Some (False, lb\<lparr>slBc := bc1\<rparr>)
            else Some (True, lb_deliver (lb\<lparr>slBc := bc1\<rparr>) committed forked) } }"

definition lb_cert_front :: "HsEnv \<Rightarrow> Lbft \<Rightarrow> QC \<Rightarrow> (bool \<times> Lbft) option" where
  "lb_cert_front e lb qc =
     (if qcView qc < GetCurView (slPm lb) then Some (False, lb)
      else if isl (GetBlockByID (slBc lb) (qcBlockID qc)) \<and> qcView qc > 1 then
        Some (False, lb\<lparr>slBufferedQCs := (slBufferedQCs lb)(qcBlockID qc \<mapsto> qc)\<rparr>)
      else do {
        ok \<leftarrow> lb_certificate_verified e qc;
        if \<not> ok then Some (False, lb)
        else do {
          (err, lb1) \<leftarrow> lbUpdateNotarizedChain lb qc;
          if err \<noteq> None then Some (False, lb1)
          else
            let lb2 = lb1\<lparr>slPm := AdvanceView (slPm lb1) (qcView qc)\<rparr> in
            if qcView qc < 3 then Some (False, lb2) else lb_commit lb2 } })"

partial_function (option) lb_do :: "HsEnv \<Rightarrow> sl_task \<Rightarrow> Lbft \<Rightarrow> (error option \<times> Lbft) option" where
  "lb_do e t lb =
     (case t of
        SlBlock block \<Rightarrow>
          (case lb_block_front e lb block of
             None \<Rightarrow> None
           | Some (Inl r, lb1) \<Rightarrow> Some (r, lb1)
           | Some (Inr vote, lb1) \<Rightarrow>
               (case lb_vote_front e lb1 vote of
                  None \<Rightarrow> None
                | Some (qco, lb2) \<Rightarrow>
                    do { lb3 \<leftarrow> (case qco of None \<Rightarrow> Some lb2
                                | Some qc \<Rightarrow> do { r \<leftarrow> lb_do e (SlCert qc) lb2; Some (snd r) });
                         let lb4 = lbBroadcast (SlMsgVote vote) lb3 in
                         do { lb5 \<leftarrow> (case slBufferedQCs lb4 (blkID block) of None \<Rightarrow> Some lb4
                                     | Some qc \<Rightarrow> do { r \<leftarrow> lb_do e (SlCert qc) lb4; Some (snd r) });
                              (case slBufferedBlocks lb5 (blkID block) of None \<Rightarrow> Some (None, lb5)
                               | Some b \<Rightarrow> do { r \<leftarrow> lb_do e (SlBlock b) lb5; Some (None, snd r) }) } }))
      | SlCert qc \<Rightarrow>
          (case lb_cert_front e lb qc of
             None \<Rightarrow> None
           | Some (goes_on, lb1) \<Rightarrow>
               if \<not> goes_on then Some (None, lb1)
               else do {
                 lb2 \<leftarrow> (case slBufferedBlocks lb1 (qcBlockID qc) of None \<Rightarrow> Some lb1
                          | Some b \<Rightarrow>
                              do { r \<leftarrow> lb_do e (SlBlock b) lb1;
                                   Some ((snd r)\<lparr>slBufferedBlocks := (slBufferedBlocks (snd r))(qcBlockID qc := None)\<rparr>) });
                 (case bufferedNotarizedBlock lb2 (qcBlockID qc) of None \<Rightarrow> Some (None, lb2)
                  | Some qc1 \<Rightarrow>
                      do { r \<leftarrow> lb_do e (SlCert qc1) lb2;
                           Some (None, (snd r)\<lparr>slBufferedQCs := (slBufferedQCs (snd r))(qcBlockID qc1 := None)\<rparr>) }) }))"

definition lbProcessBlock :: "HsEnv \<Rightarrow> Lbft \<Rightarrow> Block \<Rightarrow> (error option \<times> Lbft) option" where
  "lbProcessBlock e lb block = lb_do e (SlBlock block) lb"

definition lbProcessCertificate :: "HsEnv \<Rightarrow> Lbft \<Rightarrow> QC \<Rightarrow> Lbft option" where
  "lbProcessCertificate e lb qc = do { r \<leftarrow> lb_do e (SlCert qc) lb; Some (snd r) }"

definition lbProcessVote :: "HsEnv \<Rightarrow> Lbft \<Rightarrow> Vote \<Rightarrow> Lbft option" where
  "lbProcessVote e lb vote =
     do { (qco, lb1) \<leftarrow> lb_vote_front e lb vote;
          case qco of None \<Rightarrow> Some lb1 | Some qc \<Rightarrow> lbProcessCertificate e lb1 qc }"

definition lbProcessTC :: "Lbft \<Rightarrow> TC \<Rightarrow> Lbft" where
  "lbProcessTC lb tc =
     (if tcView tc < GetCurView (slPm lb) then lb else lb\<lparr>slPm := AdvanceView (slPm lb) (tcView tc)\<rparr>)"

definition lbProcessRemoteTmo :: "Lbft \<Rightarrow> TMO \<Rightarrow> Lbft option" where
  "lbProcessRemoteTmo lb tmo =
     (case ProcessRemoteTmo (slPm lb) tmo of
        ((isBuilt, tco), p) \<Rightarrow>
          let lb1 = lb\<lparr>slPm := p\<rparr> in
          if \<not> isBuilt then Some lb1 else do { tc \<leftarrow> tco; Some (lbProcessTC lb1 tc) })"

definition lbProcessLocalTmo :: "HsEnv \<Rightarrow> Lbft \<Rightarrow> View \<Rightarrow> Lbft option" where
  "lbProcessLocalTmo e lb view =
     (let tmo = \<lparr>tmoView = view, tmoNodeID = hsID e, tmoHighQC = None\<rparr>
      in lbProcessRemoteTmo (lbBroadcast (SlMsgTMO tmo) lb) tmo)"

section \<open>The same protocol\<close>

named_theorems lb_same \<open>a handler of the package is the one of the Streamlet package\<close>

lemma NewLbft_eq [lb_same]: "NewLbft = NewStreamlet"
  by (intro ext) (simp only: NewLbft_def NewStreamlet_def lb_same)

lemma lbBroadcast_eq [lb_same]: "lbBroadcast = slBroadcast"
  by (intro ext) (simp only: lbBroadcast_def slBroadcast_def lb_same)

lemma lbGetNotarizedHeight_eq [lb_same]: "lbGetNotarizedHeight = GetNotarizedHeight"
  by (intro ext) (simp only: lbGetNotarizedHeight_def GetNotarizedHeight_def lb_same)

lemma lbVotingRule_eq [lb_same]: "lbVotingRule = slVotingRule"
  by (intro ext) (simp only: lbVotingRule_def slVotingRule_def lb_same)

lemma lbCommitRule_eq [lb_same]: "lbCommitRule = slCommitRule"
  by (intro ext) (simp only: lbCommitRule_def slCommitRule_def lb_same)

lemma lbForkChoice_eq [lb_same]: "lbForkChoice = slForkChoice"
  by (intro ext) (simp only: lbForkChoice_def slForkChoice_def lb_same)

lemma lb_parent_notarized_eq [lb_same]: "lb_parent_notarized = parent_notarized"
proof (intro ext)
  fix chain prev n
  show "lb_parent_notarized chain prev n = parent_notarized chain prev n" by (induction n) simp_all
qed

lemma lbUpdateNotarizedChain_eq [lb_same]: "lbUpdateNotarizedChain = updateNotarizedChain"
  by (intro ext) (simp only: lbUpdateNotarizedChain_def updateNotarizedChain_def lb_same)

lemma lb_certificate_verified_eq [lb_same]: "lb_certificate_verified = certificate_verified"
  by (intro ext) (simp only: lb_certificate_verified_def certificate_verified_def lb_same)

lemma lb_check_block_sig_eq [lb_same]: "lb_check_block_sig = check_block_sig"
  by (intro ext) (simp only: lb_check_block_sig_def check_block_sig_def lb_same)

lemma lb_block_front_eq [lb_same]: "lb_block_front = block_front"
  by (intro ext) (simp only: lb_block_front_def block_front_def lb_same)

lemma lb_vote_verified_eq [lb_same]: "lb_vote_verified = sl_vote_verified"
  by (intro ext) (simp only: lb_vote_verified_def sl_vote_verified_def lb_same)

lemma lb_vote_front_eq [lb_same]: "lb_vote_front = vote_front"
  by (intro ext) (simp only: lb_vote_front_def vote_front_def lb_same)

lemma lb_deliver_eq [lb_same]: "lb_deliver = sl_deliver"
  by (intro ext) (simp only: lb_deliver_def sl_deliver_def lb_same)

lemma lb_commit_eq [lb_same]: "lb_commit = sl_commit"
  by (intro ext) (simp only: lb_commit_def sl_commit_def lb_same)

lemma lb_cert_front_eq [lb_same]: "lb_cert_front = cert_front"
  by (intro ext) (simp only: lb_cert_front_def cert_front_def lb_same)

text \<open>Both recursions return what the other returns.\<close>

lemma call_mono:
  assumes "call f t sl = Some sl'" and "\<And>t sl r. f t sl = Some r \<Longrightarrow> g t sl = Some r"
  shows "call g t sl = Some sl'"
  using assms(1) assms(2) by (cases t) (auto simp: call_def bind_Some_conv)

lemma block_rest_mono:
  assumes r: "block_rest f block vote qco sl = Some r" and m: "\<And>t sl r. f t sl = Some r \<Longrightarrow> g t sl = Some r"
  shows "block_rest g block vote qco sl = Some r"
proof -
  let ?b = "slBroadcast (SlMsgVote vote)"
  from r obtain s3 s5 s6 where c: "call f (map_option SlCert qco) sl = Some s3"
    "call f (map_option SlCert (slBufferedQCs (?b s3) (blkID block))) (?b s3) = Some s5"
    "call f (map_option SlBlock (slBufferedBlocks s5 (blkID block))) s5 = Some s6" and e: "r = (None, s6)"
    by (auto simp: block_rest_def bind_Some_conv Let_def)
  note d = c [THEN call_mono [of f _ _ _ g, OF _ m]]
  from d e show ?thesis by (simp add: block_rest_def Let_def)
qed

lemma cert_rest_mono:
  assumes r: "cert_rest f qc sl = Some r" and m: "\<And>t sl r. f t sl = Some r \<Longrightarrow> g t sl = Some r"
  shows "cert_rest g qc sl = Some r"
proof -
  from r obtain s1 s3 where c: "call f (map_option SlBlock (slBufferedBlocks sl (qcBlockID qc))) sl = Some s1"
    "call f (map_option SlCert (bufferedNotarizedBlock (drop_block qc sl s1) (qcBlockID qc))) (drop_block qc sl s1) = Some s3"
    and e: "r = (None, case bufferedNotarizedBlock (drop_block qc sl s1) (qcBlockID qc) of None \<Rightarrow> s3
                 | Some qc1 \<Rightarrow> s3\<lparr>slBufferedQCs := (slBufferedQCs s3)(qcBlockID qc1 := None)\<rparr>)"
    by (auto simp: cert_rest_def bind_Some_conv Let_def drop_block_def [symmetric])
  note d = c [THEN call_mono [of f _ _ _ g, OF _ m]]
  from d e show ?thesis by (simp add: cert_rest_def Let_def drop_block_def [symmetric])
qed

text \<open>One step of the recursion, with the calls left open.\<close>

definition task_step :: "HsEnv \<Rightarrow> (sl_task \<Rightarrow> Streamlet \<Rightarrow> (error option \<times> Streamlet) option) \<Rightarrow> sl_task \<Rightarrow> Streamlet \<Rightarrow>
    (error option \<times> Streamlet) option" where
  "task_step e f t sl =
     (case t of
        SlBlock block \<Rightarrow>
          (case block_front e sl block of None \<Rightarrow> None
           | Some (Inl r, sl1) \<Rightarrow> Some (r, sl1)
           | Some (Inr vote, sl1) \<Rightarrow>
               (case vote_front e sl1 vote of None \<Rightarrow> None
                | Some (qco, sl2) \<Rightarrow> block_rest f block vote qco sl2))
      | SlCert qc \<Rightarrow>
          (case cert_front e sl qc of None \<Rightarrow> None
           | Some (goes_on, sl1) \<Rightarrow> if \<not> goes_on then Some (None, sl1) else cert_rest f qc sl1))"

lemma task_step_mono:
  assumes "task_step e f t sl = Some r" and m: "\<And>t sl r. f t sl = Some r \<Longrightarrow> g t sl = Some r"
  shows "task_step e g t sl = Some r"
proof -
  have b: "block_rest f block vote qco s = Some r \<Longrightarrow> block_rest g block vote qco s = Some r" for block vote qco s
    by (rule block_rest_mono [OF _ m])
  have c: "cert_rest f qc s = Some r \<Longrightarrow> cert_rest g qc s = Some r" for qc s
    by (rule cert_rest_mono [OF _ m])
  from assms(1) show ?thesis
    by (auto simp: task_step_def dest: b c split: sl_task.splits option.splits sum.splits if_splits)
qed

lemma sl_do_task: "sl_do e t sl = task_step e (sl_do e) t sl"
  by (cases t) (simp_all add: task_step_def sl_do_block sl_do_cert)

lemma lb_do_task: "lb_do e t sl = task_step e (lb_do e) t sl"
  unfolding task_step_def block_rest_eq cert_rest_eq
  by (subst lb_do.simps) (simp only: lb_same)

lemma lb_do_to:
  assumes "lb_do e t sl = Some r"
  shows "sl_do e t sl = Some r"
proof (rule lb_do.raw_induct [OF _ assms], goal_cases)
  case (1 g e t sl r)
  then have "task_step e (g e) t sl = Some r"
    unfolding task_step_def block_rest_eq cert_rest_eq by (simp only: lb_same)
  from task_step_mono [OF this 1(1)] show ?case by (subst sl_do_task)
qed

lemma lb_do_from:
  assumes "sl_do e t sl = Some r"
  shows "lb_do e t sl = Some r"
proof (rule sl_do.raw_induct [OF _ assms], goal_cases)
  case (1 g e t sl r)
  then have "task_step e (g e) t sl = Some r"
    unfolding task_step_def block_rest_eq cert_rest_eq by simp
  from task_step_mono [OF this 1(1)] show ?case by (subst lb_do_task)
qed

lemma lb_do_eq [lb_same]: "lb_do = sl_do"
proof (intro ext)
  fix e t sl
  show "lb_do e t sl = sl_do e t sl"
    using lb_do_to [of e t sl] lb_do_from [of e t sl] by (cases "sl_do e t sl"; cases "lb_do e t sl") auto
qed

lemma lbProcessBlock_eq [lb_same]: "lbProcessBlock = slProcessBlock"
  by (intro ext) (simp only: lbProcessBlock_def slProcessBlock_def lb_same)

lemma lbProcessCertificate_eq [lb_same]: "lbProcessCertificate = slProcessCertificate"
  by (intro ext) (simp only: lbProcessCertificate_def slProcessCertificate_def lb_same)

lemma lbProcessVote_eq [lb_same]: "lbProcessVote = slProcessVote"
  by (intro ext) (simp only: lbProcessVote_def slProcessVote_def lb_same)

lemma lbProcessTC_eq [lb_same]: "lbProcessTC = slProcessTC"
  by (intro ext) (simp only: lbProcessTC_def slProcessTC_def lb_same)

lemma lbProcessRemoteTmo_eq [lb_same]: "lbProcessRemoteTmo = slProcessRemoteTmo"
  by (intro ext) (simp only: lbProcessRemoteTmo_def slProcessRemoteTmo_def lb_same)

lemma lbProcessLocalTmo_eq [lb_same]: "lbProcessLocalTmo = slProcessLocalTmo"
  by (intro ext) (simp only: lbProcessLocalTmo_def slProcessLocalTmo_def lb_same)

definition lbft_safety :: "HsEnv \<Rightarrow> Lbft Safety" where
  "lbft_safety e =
     \<lparr>sfProcessBlock = lbProcessBlock e, sfProcessVote = lbProcessVote e,
      sfProcessRemoteTmo = lbProcessRemoteTmo, sfProcessLocalTmo = lbProcessLocalTmo e\<rparr>"

lemma lbft_safety_eq: "lbft_safety = streamlet_safety"
  by (intro ext) (simp only: lbft_safety_def streamlet_safety_def lb_same)

text \<open>The contract of the interface holds because it holds of the Streamlet replica.\<close>

interpretation lbf: safety "lbft_safety e" "sl_inv U" "legal_event U" "\<lambda>lb. curView (slPm lb)" slCommitted
  for e U
  unfolding lbft_safety_eq by (rule slf.safety_axioms)

text \<open>The package is the Streamlet package under another name.\<close>

lemma lbft_is_streamlet:
  "NewLbft n p = NewStreamlet n p \<and> lbForkChoice genesis lb = slForkChoice genesis lb \<and>
   sf_run (lbft_safety e) lb evs = sf_run (streamlet_safety e) lb evs"
  by (simp add: lb_same lbft_safety_eq)

text \<open>C17 (log): from a new replica, over any sequence of blocks, votes and timeouts whose views do not wrap and whose blocks lie
  above their parents, the view of an lbft replica never goes back, the blocks it has handed over for commitment are only
  ever extended, and no two of them have the same level.\<close>

theorem lbft_log_append_only:
  assumes "universe_ok U" and "list_all (legal_event U) (xs @ ys)"
    and "sf_run (lbft_safety e) (NewLbft n (NewPacemaker n)) xs = Some lb1" and "sf_run (lbft_safety e) lb1 ys = Some lb2"
  shows "curView (slPm lb1) \<le> curView (slPm lb2) \<and> grows (slCommitted lb1) (slCommitted lb2) \<and>
    distinct (map Level (slCommitted lb2))"
proof -
  have i: "sl_inv U (NewLbft n (NewPacemaker n))" using assms(1) sl_ok_New by (simp add: sl_inv_def NewLbft_eq)
  have l: "list_all (legal_event U) xs" "list_all (legal_event U) ys" using assms(2) by simp_all
  have "sl_inv U lb1" using lbf.run_ok [OF i l(1) assms(3)] by simp
  from lbf.run_ok [OF this l(2) assms(4)] lbf.run_log_distinct [OF this l(2) assms(4)] show ?thesis by simp
qed

theorem lbft_log_append_only_witness:
  "\<exists>lb1 lb2. sf_run (lbft_safety sl_env) (NewLbft 4 (NewPacemaker 4)) fork_start = Some lb1 \<and>
     sf_run (lbft_safety sl_env) lb1 (SfVote (peer_vote 4 (led_block 3 3 1 0)) # sl_round (led_block 4 4 3 0) [1, 3]) = Some lb2 \<and>
     slCommitted lb2 = [led_block 2 2 1 0, led_block 1 1 0 0, led_block 3 3 1 0] \<and>
     grows (slCommitted lb1) (slCommitted lb2) \<and> distinct (map Level (slCommitted lb2))"
proof -
  obtain lb1 lb2 where r: "sf_run (lbft_safety sl_env) (NewLbft 4 (NewPacemaker 4)) fork_start = Some lb1"
    "sf_run (lbft_safety sl_env) lb1 (SfVote (peer_vote 4 (led_block 3 3 1 0)) # sl_round (led_block 4 4 3 0) [1, 3]) = Some lb2"
    "slCommitted lb2 = [led_block 2 2 1 0, led_block 1 1 0 0, led_block 3 3 1 0]"
    unfolding lbft_safety_eq NewLbft_eq using fork_run by blast
  have "list_all (legal_event (set fork_blocks)) (fork_start @ SfVote (peer_vote 4 (led_block 3 3 1 0)) # sl_round (led_block 4 4 3 0) [1, 3])"
    using fork_legal by simp
  from lbft_log_append_only [OF fork_universe this r(1,2)] r show ?thesis by blast
qed

end
