(* ===== verification/Monitor.thy ===== *)
theory Monitor
  imports Block
begin

text \<open>
  The measurement collector (src/monitor/monitor.go).

  A \<open>float64\<close> is its 64 bits; the floating-point operations, \<open>strconv.FormatFloat\<close> and
  \<open>strconv.ParseFloat\<close> are the fields of \<open>FloatEnv\<close>.  The lists of received and of pooled
  transactions are slices over a store of arrays, because one method appends to the slice of the
  other; the other lists are values.  \<open>SaveResult\<close>, which writes a file, is left out.
\<close>

section \<open>Slices\<close>

text \<open>A slice is an array and a length; \<open>append\<close> writes in place while there is room.\<close>

record Slice =
  slArray :: nat
  slLen :: nat

type_synonym Arrays = "int list list"

definition slice_list :: "Arrays \<Rightarrow> Slice \<Rightarrow> int list" where
  "slice_list h s = take (slLen s) (h ! slArray s)"

definition slice_append :: "(nat \<Rightarrow> nat) \<Rightarrow> Arrays \<Rightarrow> Slice \<Rightarrow> int \<Rightarrow> Slice \<times> Arrays" where
  "slice_append growth h s x =
     (let a = h ! slArray s in
      if slLen s < length a then
        (s\<lparr>slLen := Suc (slLen s)\<rparr>, h[slArray s := a[slLen s := x]])
      else
        (\<lparr>slArray = length h, slLen = Suc (slLen s)\<rparr>,
         h @ [take (slLen s) a @ [x] @ replicate (growth (Suc (slLen s)) - Suc (slLen s)) 0]))"

section \<open>Floating point\<close>

type_synonym float64 = "64 word"

record FloatEnv =
  flOfInt :: "int \<Rightarrow> float64"
  flAdd :: "float64 \<Rightarrow> float64 \<Rightarrow> float64"
  flSub :: "float64 \<Rightarrow> float64 \<Rightarrow> float64"
  flMul :: "float64 \<Rightarrow> float64 \<Rightarrow> float64"
  flDiv :: "float64 \<Rightarrow> float64 \<Rightarrow> float64"
  flEq :: "float64 \<Rightarrow> float64 \<Rightarrow> bool"
  flFormat :: "float64 \<Rightarrow> string"
  flParse :: "string \<Rightarrow> float64"

text \<open>\<open>time.Duration.Seconds\<close>\<close>

definition Seconds :: "FloatEnv \<Rightarrow> int \<Rightarrow> float64" where
  "Seconds fe d =
     flAdd fe (flOfInt fe (go_quot d 1000000000)) (flDiv fe (flOfInt fe (go_rem d 1000000000)) (flOfInt fe 1000000000))"

section \<open>State\<close>

record MonitorManager =
  mmDuration :: int
  mmInterval :: int
  mmArrays :: Arrays
  StableNumList :: "int list"
  ExecutedNumList :: "int list"
  CommittedNumList :: "int list"
  ReceiveTxNumList :: Slice
  PoolTxNumList :: Slice
  StableTPSList :: "float64 list"
  CommittedTPSList :: "float64 list"
  ExecutedTPSList :: "float64 list"
  StableTpsFromBeginList :: "float64 list"
  CommittedTpsFromBeginList :: "float64 list"
  ExecutedTpsFromBeginList :: "float64 list"
  StableDelayList :: "string list"
  CommittedDelayList :: "string list"
  ExecutedDelayList :: "string list"
  StableTime :: "string \<rightharpoonup> string"
  ExecuteTime :: "string \<rightharpoonup> string"
  CommittedTime :: "string \<rightharpoonup> string"
  ResultTime :: "string \<rightharpoonup> string list"
  MbReceivedTime :: "string \<rightharpoonup> string"

definition newMonitor :: MonitorManager where
  "newMonitor =
     \<lparr>mmDuration = 0, mmInterval = 0, mmArrays = [[], []], StableNumList = [], ExecutedNumList = [], CommittedNumList = [],
      ReceiveTxNumList = \<lparr>slArray = 0, slLen = 0\<rparr>, PoolTxNumList = \<lparr>slArray = 1, slLen = 0\<rparr>,
      StableTPSList = [], CommittedTPSList = [], ExecutedTPSList = [], StableTpsFromBeginList = [],
      CommittedTpsFromBeginList = [], ExecutedTpsFromBeginList = [], StableDelayList = [],
      CommittedDelayList = [], ExecutedDelayList = [], StableTime = Map.empty, ExecuteTime = Map.empty,
      CommittedTime = Map.empty, ResultTime = Map.empty, MbReceivedTime = Map.empty\<rparr>"

text \<open>The argument is the package's instance, nil before the first call.\<close>

definition NewMonitorManager :: "MonitorManager option \<Rightarrow> MonitorManager" where
  "NewMonitorManager inst = (case inst of None \<Rightarrow> newMonitor | Some m \<Rightarrow> m)"

section \<open>Counters\<close>

definition CollectStableNum :: "MonitorManager \<Rightarrow> int \<Rightarrow> MonitorManager" where
  "CollectStableNum m num = m\<lparr>StableNumList := StableNumList m @ [num]\<rparr>"

definition CollectExecutedNum :: "MonitorManager \<Rightarrow> int \<Rightarrow> MonitorManager" where
  "CollectExecutedNum m executed = m\<lparr>ExecutedNumList := ExecutedNumList m @ [executed]\<rparr>"

definition CollectCommittedNum :: "MonitorManager \<Rightarrow> int \<Rightarrow> MonitorManager" where
  "CollectCommittedNum m committed = m\<lparr>CommittedNumList := CommittedNumList m @ [committed]\<rparr>"

definition CollectReceiveTxNum :: "(nat \<Rightarrow> nat) \<Rightarrow> MonitorManager \<Rightarrow> int \<Rightarrow> MonitorManager" where
  "CollectReceiveTxNum growth m receiveNum =
     (case slice_append growth (mmArrays m) (ReceiveTxNumList m) receiveNum of
        (s, h) \<Rightarrow> m\<lparr>ReceiveTxNumList := s, mmArrays := h\<rparr>)"

definition CollectePoolTxNum :: "(nat \<Rightarrow> nat) \<Rightarrow> MonitorManager \<Rightarrow> int \<Rightarrow> MonitorManager" where
  "CollectePoolTxNum growth m poolTxNum =
     (case slice_append growth (mmArrays m) (ReceiveTxNumList m) poolTxNum of
        (s, h) \<Rightarrow> m\<lparr>PoolTxNumList := s, mmArrays := h\<rparr>)"

section \<open>Throughput\<close>

text \<open>One entry per sample: \<open>before\<close> is the sample at the previous index, absent at index zero.\<close>

fun tps_entries :: "FloatEnv \<Rightarrow> int \<Rightarrow> int option \<Rightarrow> int list \<Rightarrow> float64 list" where
  "tps_entries fe slot before [] = []"
| "tps_entries fe slot before (value # rest) =
     (case before of
        None \<Rightarrow> flDiv fe (flOfInt fe value) (Seconds fe slot)
      | Some b \<Rightarrow>
          if \<not> flEq fe (Seconds fe slot) (flOfInt fe 0)
          then flDiv fe (flSub fe (flOfInt fe value) (flOfInt fe b)) (Seconds fe slot)
          else flOfInt fe 0)
     # tps_entries fe slot (Some value) rest"

definition CollectStableTPS :: "FloatEnv \<Rightarrow> MonitorManager \<Rightarrow> MonitorManager" where
  "CollectStableTPS fe m =
     m\<lparr>StableTPSList := StableTPSList m @ tps_entries fe (mmInterval m) None (StableNumList m)\<rparr>"

definition CollectCommittedTPS :: "FloatEnv \<Rightarrow> MonitorManager \<Rightarrow> MonitorManager" where
  "CollectCommittedTPS fe m =
     m\<lparr>CommittedTPSList := CommittedTPSList m @ tps_entries fe (mmInterval m) None (CommittedNumList m)\<rparr>"

definition CollectExecutedTPS :: "FloatEnv \<Rightarrow> MonitorManager \<Rightarrow> MonitorManager" where
  "CollectExecutedTPS fe m =
     m\<lparr>ExecutedTPSList := ExecutedTPSList m @ tps_entries fe (mmInterval m) None (ExecutedNumList m)\<rparr>"

fun tps_from_begin :: "FloatEnv \<Rightarrow> int \<Rightarrow> nat \<Rightarrow> int list \<Rightarrow> float64 list" where
  "tps_from_begin fe interval index [] = []"
| "tps_from_begin fe interval index (value # rest) =
     (let t = flMul fe (flOfInt fe (int (Suc index))) (Seconds fe interval) in
      if \<not> flEq fe t (flOfInt fe 0)
      then flDiv fe (flOfInt fe value) t # tps_from_begin fe interval (Suc index) rest
      else tps_from_begin fe interval (Suc index) rest)"

definition CollectStableTPSFromBegin :: "FloatEnv \<Rightarrow> MonitorManager \<Rightarrow> MonitorManager" where
  "CollectStableTPSFromBegin fe m =
     m\<lparr>StableTpsFromBeginList := StableTpsFromBeginList m @ tps_from_begin fe (mmInterval m) 0 (StableNumList m)\<rparr>"

definition CollectCommittedTPSFromBegin :: "FloatEnv \<Rightarrow> MonitorManager \<Rightarrow> MonitorManager" where
  "CollectCommittedTPSFromBegin fe m =
     m\<lparr>CommittedTpsFromBeginList := CommittedTpsFromBeginList m @ tps_from_begin fe (mmInterval m) 0 (CommittedNumList m)\<rparr>"

definition CollectExecutedTPSFromBegin :: "FloatEnv \<Rightarrow> MonitorManager \<Rightarrow> MonitorManager" where
  "CollectExecutedTPSFromBegin fe m =
     m\<lparr>ExecutedTpsFromBeginList := ExecutedTpsFromBeginList m @ tps_from_begin fe (mmInterval m) 0 (ExecutedNumList m)\<rparr>"

section \<open>Delays\<close>

definition hex_char :: "nat \<Rightarrow> char" where
  "hex_char d = (if d < 10 then char_of (48 + d) else char_of (87 + d))"

definition hex_encode :: "Bytes \<Rightarrow> string" where
  "hex_encode bs = concat (map (\<lambda>b. [hex_char (unat b div 16), hex_char (unat b mod 16)]) bs)"

definition idToString :: "Identifier \<Rightarrow> string" where
  "idToString hash = hex_encode (IDToByte hash)"

definition durationToMs :: "FloatEnv \<Rightarrow> int \<Rightarrow> string" where
  "durationToMs fe duration = flFormat fe (flDiv fe (flOfInt fe duration) (flOfInt fe 1000000))"

fun sum_times :: "FloatEnv \<Rightarrow> float64 \<Rightarrow> float64 \<Rightarrow> string list \<Rightarrow> float64 \<times> float64" where
  "sum_times fe s n [] = (s, n)"
| "sum_times fe s n (v # vs) = sum_times fe (flAdd fe s (flParse fe v)) (flAdd fe n (flOfInt fe 1)) vs"

definition mean :: "FloatEnv \<Rightarrow> (string set \<Rightarrow> string list) \<Rightarrow> (string \<rightharpoonup> string) \<Rightarrow> string" where
  "mean fe rng timeTable =
     (case sum_times fe (flOfInt fe 0) (flOfInt fe 0) (List.map_filter timeTable (rng (dom timeTable))) of
        (s, n) \<Rightarrow> if \<not> flEq fe n (flOfInt fe 0) then flFormat fe (flDiv fe s n) else ''0'')"

text \<open>The inner division is taken when there is nothing to divide by.\<close>

definition result_time :: "FloatEnv \<Rightarrow> string list \<Rightarrow> float64" where
  "result_time fe v =
     (case sum_times fe (flOfInt fe 0) (flOfInt fe 0) v of
        (s, n) \<Rightarrow> if \<not> flEq fe n (flOfInt fe 0) then s else flDiv fe s n)"

fun sum_results :: "FloatEnv \<Rightarrow> float64 \<Rightarrow> float64 \<Rightarrow> string list list \<Rightarrow> float64 \<times> float64" where
  "sum_results fe s n [] = (s, n)"
| "sum_results fe s n (v # vs) = sum_results fe (flAdd fe s (result_time fe v)) (flAdd fe n (flOfInt fe 1)) vs"

definition meanForExecuted :: "FloatEnv \<Rightarrow> (string set \<Rightarrow> string list) \<Rightarrow> (string \<rightharpoonup> string list) \<Rightarrow> string" where
  "meanForExecuted fe rng timeTable =
     (case sum_results fe (flOfInt fe 0) (flOfInt fe 0) (List.map_filter timeTable (rng (dom timeTable))) of
        (s, n) \<Rightarrow> if \<not> flEq fe n (flOfInt fe 0) then flFormat fe (flDiv fe s n) else ''0'')"

definition CollectStableDelay :: "FloatEnv \<Rightarrow> (string set \<Rightarrow> string list) \<Rightarrow> MonitorManager \<Rightarrow> MonitorManager" where
  "CollectStableDelay fe rng m = m\<lparr>StableDelayList := StableDelayList m @ [mean fe rng (StableTime m)]\<rparr>"

definition CollectCommittedDelay :: "FloatEnv \<Rightarrow> (string set \<Rightarrow> string list) \<Rightarrow> MonitorManager \<Rightarrow> MonitorManager" where
  "CollectCommittedDelay fe rng m = m\<lparr>CommittedDelayList := CommittedDelayList m @ [mean fe rng (CommittedTime m)]\<rparr>"

definition CollectExecutedDelay :: "FloatEnv \<Rightarrow> (string set \<Rightarrow> string list) \<Rightarrow> MonitorManager \<Rightarrow> MonitorManager" where
  "CollectExecutedDelay fe rng m = m\<lparr>ExecutedDelayList := ExecutedDelayList m @ [mean fe rng (ExecuteTime m)]\<rparr>"

definition CollectStableTime :: "FloatEnv \<Rightarrow> MonitorManager \<Rightarrow> Identifier \<Rightarrow> int \<Rightarrow> MonitorManager" where
  "CollectStableTime fe m h duration = m\<lparr>StableTime := (StableTime m)(idToString h \<mapsto> durationToMs fe duration)\<rparr>"

definition CollectExecuteTime :: "FloatEnv \<Rightarrow> MonitorManager \<Rightarrow> Identifier \<Rightarrow> int \<Rightarrow> MonitorManager" where
  "CollectExecuteTime fe m h duration = m\<lparr>ExecuteTime := (ExecuteTime m)(idToString h \<mapsto> durationToMs fe duration)\<rparr>"

definition CollectCommitteddTime :: "FloatEnv \<Rightarrow> MonitorManager \<Rightarrow> Identifier \<Rightarrow> int \<Rightarrow> MonitorManager" where
  "CollectCommitteddTime fe m h duration =
     m\<lparr>CommittedTime := (CommittedTime m)(idToString h \<mapsto> durationToMs fe duration)\<rparr>"

definition CollectResultTime :: "FloatEnv \<Rightarrow> MonitorManager \<Rightarrow> Identifier \<Rightarrow> int \<Rightarrow> MonitorManager" where
  "CollectResultTime fe m h duration =
     (case ResultTime m (idToString h) of
        Some ts \<Rightarrow> m\<lparr>ResultTime := (ResultTime m)(idToString h \<mapsto> ts @ [durationToMs fe duration])\<rparr>
      | None \<Rightarrow> m\<lparr>ResultTime := (ResultTime m)(idToString h \<mapsto> [durationToMs fe duration])\<rparr>)"

definition CollectMbReceiveTime :: "FloatEnv \<Rightarrow> MonitorManager \<Rightarrow> Identifier \<Rightarrow> int \<Rightarrow> MonitorManager" where
  "CollectMbReceiveTime fe m h duration =
     m\<lparr>MbReceivedTime := (MbReceivedTime m)(idToString h \<mapsto> durationToMs fe duration)\<rparr>"

section \<open>Reading\<close>

definition GetStableNumList :: "MonitorManager \<Rightarrow> int list" where "GetStableNumList m = StableNumList m"

definition GetExecutedNumList :: "MonitorManager \<Rightarrow> int list" where "GetExecutedNumList m = ExecutedNumList m"

definition GetCommittedNumList :: "MonitorManager \<Rightarrow> int list" where "GetCommittedNumList m = CommittedNumList m"

definition GetReceiveTxNumList :: "MonitorManager \<Rightarrow> int list" where
  "GetReceiveTxNumList m = slice_list (mmArrays m) (ReceiveTxNumList m)"

definition GetPoolTxNumList :: "MonitorManager \<Rightarrow> int list" where
  "GetPoolTxNumList m = slice_list (mmArrays m) (PoolTxNumList m)"

definition GetStableTime :: "MonitorManager \<Rightarrow> string \<rightharpoonup> string" where "GetStableTime m = StableTime m"

definition GetExecuteTime :: "MonitorManager \<Rightarrow> string \<rightharpoonup> string" where "GetExecuteTime m = ExecuteTime m"

definition GetCommitteddTime :: "MonitorManager \<Rightarrow> string \<rightharpoonup> string" where "GetCommitteddTime m = CommittedTime m"

definition GetResultTime :: "MonitorManager \<Rightarrow> string \<rightharpoonup> string list" where "GetResultTime m = ResultTime m"

definition GetMbReceiveTime :: "MonitorManager \<Rightarrow> string \<rightharpoonup> string" where "GetMbReceiveTime m = MbReceivedTime m"

section \<open>A sample\<close>

text \<open>One tick of the monitor (\<open>collectData\<close> of src/replica/replica.go), with the numbers it reads.\<close>

record Sample =
  smStable :: int
  smCommitted :: int
  smExecuted :: int
  smReceived :: int
  smPooled :: int

definition collectData ::
  "(nat \<Rightarrow> nat) \<Rightarrow> FloatEnv \<Rightarrow> (string set \<Rightarrow> string list) \<Rightarrow> MonitorManager \<Rightarrow> Sample \<Rightarrow> MonitorManager" where
  "collectData growth fe rng m0 smp =
     (let m1 = CollectStableNum m0 (smStable smp);
          m2 = CollectCommittedNum m1 (smCommitted smp);
          m3 = CollectExecutedNum m2 (smExecuted smp);
          m4 = CollectReceiveTxNum growth m3 (smReceived smp);
          m5 = CollectePoolTxNum growth m4 (smPooled smp);
          m6 = CollectStableDelay fe rng (CollectStableTPSFromBegin fe (CollectStableTPS fe m5));
          m7 = CollectCommittedDelay fe rng (CollectCommittedTPSFromBegin fe (CollectCommittedTPS fe m6))
      in CollectExecutedDelay fe rng (CollectExecutedTPSFromBegin fe (CollectExecutedTPS fe m7)))"

lemmas collect_defs = CollectStableNum_def CollectCommittedNum_def CollectExecutedNum_def
  CollectStableTPS_def CollectCommittedTPS_def CollectExecutedTPS_def
  CollectStableTPSFromBegin_def CollectCommittedTPSFromBegin_def CollectExecutedTPSFromBegin_def
  CollectStableDelay_def CollectCommittedDelay_def CollectExecutedDelay_def

section \<open>Lemmas\<close>

definition slice_ok :: "Arrays \<Rightarrow> Slice \<Rightarrow> bool" where
  "slice_ok h s \<longleftrightarrow> slArray s < length h \<and> slLen s \<le> length (h ! slArray s)"

lemma slice_append_ok:
  assumes "slice_ok h s" and "slice_append growth h s x = (s', h')"
  shows "slice_list h' s' = slice_list h s @ [x]" and "slice_ok h' s'"
    and "slice_list h' s = slice_list h s" and "slice_ok h' s"
  using assms
  by (auto simp: slice_append_def slice_ok_def slice_list_def Let_def nth_append take_Suc_conv_app_nth
      min_absorb2 split: if_splits)

lemma length_tps_entries [simp]: "length (tps_entries fe slot before xs) = length xs"
  by (induction xs arbitrary: before) auto

lemma hex_char_inj: "a < 16 \<Longrightarrow> b < 16 \<Longrightarrow> hex_char a = hex_char b \<longleftrightarrow> a = b"
  by (auto simp: hex_char_def char_of_eq_iff take_bit_eq_mod split: if_splits)

lemma hex_byte_inj:
  fixes b c :: "8 word"
  assumes "hex_char (unat b div 16) = hex_char (unat c div 16)" and "hex_char (unat b mod 16) = hex_char (unat c mod 16)"
  shows "b = c"
proof -
  have "unat b < 2 ^ LENGTH(8)" "unat c < 2 ^ LENGTH(8)" by (rule unsigned_less)+
  then have "unat b div 16 = unat c div 16" "unat b mod 16 = unat c mod 16"
    using assms by (simp_all add: hex_char_inj less_mult_imp_div_less)
  then have "unat b = unat c" by (metis div_mult_mod_eq)
  then show ?thesis by (rule unsigned_word_eqI)
qed

lemma hex_encode_inj: "hex_encode bs = hex_encode cs \<Longrightarrow> bs = cs"
proof (induction bs arbitrary: cs)
  case Nil
  then show ?case by (cases cs) (auto simp: hex_encode_def)
next
  case (Cons b bs)
  then obtain c cs' where "cs = c # cs'" by (cases cs) (auto simp: hex_encode_def)
  with Cons hex_byte_inj [of b c] show ?case by (simp add: hex_encode_def)
qed

lemma idToString_inj [simp]: "idToString x = idToString y \<longleftrightarrow> x = y"
  using hex_encode_inj HashToID_IDToByte by (metis idToString_def)

lemma collectData_lists:
  "StableNumList (collectData growth fe rng m smp) = StableNumList m @ [smStable smp]"
  "CommittedNumList (collectData growth fe rng m smp) = CommittedNumList m @ [smCommitted smp]"
  "ExecutedNumList (collectData growth fe rng m smp) = ExecutedNumList m @ [smExecuted smp]"
  "length (StableTPSList (collectData growth fe rng m smp)) = length (StableTPSList m) + length (StableNumList m) + 1"
  by (simp_all add: collectData_def collect_defs CollectReceiveTxNum_def CollectePoolTxNum_def Let_def split: prod.split)

lemma collectData_slices:
  assumes ok: "slice_ok (mmArrays m) (ReceiveTxNumList m)" and m': "m' = collectData growth fe rng m smp"
  shows "slice_ok (mmArrays m') (ReceiveTxNumList m')"
    and "GetReceiveTxNumList m' = GetReceiveTxNumList m @ [smReceived smp]"
    and "GetPoolTxNumList m' = GetReceiveTxNumList m @ [smReceived smp, smPooled smp]"
proof -
  obtain s1 h1 where a: "slice_append growth (mmArrays m) (ReceiveTxNumList m) (smReceived smp) = (s1, h1)" by fastforce
  obtain s2 h2 where b: "slice_append growth h1 s1 (smPooled smp) = (s2, h2)" by fastforce
  note A = slice_append_ok [OF ok a]
  note B = slice_append_ok [OF A(2) b]
  have f: "mmArrays m' = h2" "ReceiveTxNumList m' = s1" "PoolTxNumList m' = s2"
    using m' a b by (simp_all add: collectData_def collect_defs CollectReceiveTxNum_def CollectePoolTxNum_def Let_def)
  show "slice_ok (mmArrays m') (ReceiveTxNumList m')" using f B(4) by simp
  show "GetReceiveTxNumList m' = GetReceiveTxNumList m @ [smReceived smp]"
    using f B(3) A(1) by (simp add: GetReceiveTxNumList_def)
  show "GetPoolTxNumList m' = GetReceiveTxNumList m @ [smReceived smp, smPooled smp]"
    using f B(1) A(1) by (simp add: GetReceiveTxNumList_def GetPoolTxNumList_def)
qed

section \<open>Properties\<close>

text \<open>Measured times: the time recorded for a microblock is found under that microblock, and recording it
  changes the entry of no other: distinct identifiers have distinct printed forms.\<close>

theorem stable_time_lookup:
  "GetStableTime (CollectStableTime fe m h d) (idToString h') =
     (if h' = h then Some (durationToMs fe d) else GetStableTime m (idToString h'))"
  by (simp add: GetStableTime_def CollectStableTime_def)

definition run_monitor ::
  "(nat \<Rightarrow> nat) \<Rightarrow> FloatEnv \<Rightarrow> (string set \<Rightarrow> string list) \<Rightarrow> Sample list \<Rightarrow> MonitorManager" where
  "run_monitor growth fe rng ss = foldl (collectData growth fe rng) newMonitor ss"

lemma run_monitor_snoc: "run_monitor growth fe rng (ss @ [s]) = collectData growth fe rng (run_monitor growth fe rng ss) s"
  by (simp add: run_monitor_def)

lemma run_monitor_slices:
  "slice_ok (mmArrays (run_monitor growth fe rng ss)) (ReceiveTxNumList (run_monitor growth fe rng ss)) \<and>
   GetReceiveTxNumList (run_monitor growth fe rng ss) = map smReceived ss"
proof (induction ss rule: rev_induct)
  case Nil
  show ?case by (simp add: run_monitor_def newMonitor_def slice_ok_def GetReceiveTxNumList_def slice_list_def)
next
  case (snoc s ss)
  with collectData_slices [OF conjunct1 [OF snoc] refl, of growth fe rng s] show ?case by (simp add: run_monitor_snoc)
qed

text \<open>Samples: however the slices are reallocated, after any sequence of samples the counter series hold exactly
  the sampled values in order.  The series of pooled transactions does not: it is the series of received
  transactions followed by the last pooled value.\<close>

theorem sampled_series:
  "let m = run_monitor growth fe rng (ss @ [s]) in
     StableNumList m = map smStable (ss @ [s]) \<and> CommittedNumList m = map smCommitted (ss @ [s]) \<and>
     ExecutedNumList m = map smExecuted (ss @ [s]) \<and> GetReceiveTxNumList m = map smReceived (ss @ [s]) \<and>
     GetPoolTxNumList m = map smReceived (ss @ [s]) @ [smPooled s]"
proof -
  have n: "StableNumList (run_monitor growth fe rng xs) = map smStable xs \<and>
      CommittedNumList (run_monitor growth fe rng xs) = map smCommitted xs \<and>
      ExecutedNumList (run_monitor growth fe rng xs) = map smExecuted xs" for xs
  proof (induction xs rule: rev_induct)
    case Nil
    show ?case by (simp add: run_monitor_def newMonitor_def)
  next
    case (snoc x xs)
    then show ?case by (simp add: run_monitor_snoc collectData_lists)
  qed
  have ok: "slice_ok (mmArrays (run_monitor growth fe rng ss)) (ReceiveTxNumList (run_monitor growth fe rng ss))"
    and r: "GetReceiveTxNumList (run_monitor growth fe rng ss) = map smReceived ss"
    using run_monitor_slices by auto
  show ?thesis
    using n [of "ss @ [s]"] collectData_slices(2,3) [OF ok refl, of growth fe rng s] r
    by (simp add: run_monitor_snoc Let_def)
qed

text \<open>Throughput series: every sample appends the whole throughput series again, so after n samples it has
  n (n + 1) / 2 entries.\<close>

theorem throughput_series_repeats:
  "2 * length (StableTPSList (run_monitor growth fe rng ss)) = length ss * (length ss + 1)"
proof (induction ss rule: rev_induct)
  case Nil
  show ?case by (simp add: run_monitor_def newMonitor_def)
next
  case (snoc s ss)
  have "length (StableNumList (run_monitor growth fe rng ss)) = length ss"
    by (induction ss rule: rev_induct) (simp_all add: run_monitor_snoc collectData_lists, simp add: run_monitor_def newMonitor_def)
  with snoc show ?case by (simp add: run_monitor_snoc collectData_lists)
qed

text \<open>Some operations for the floating point of the instances.\<close>

definition float_stub :: FloatEnv where
  "float_stub = \<lparr>flOfInt = of_int, flAdd = (+), flSub = (-), flMul = (*), flDiv = (\<lambda>a b. a), flEq = (=),
     flFormat = (\<lambda>_. ''0''), flParse = (\<lambda>_. 0)\<rparr>"


end
