(* ===== verification/Mempool.thy ===== *)
theory Mempool
  imports Quorum Monitor "HOL-Library.Sublist"
begin

text \<open>
  What the three mempools of src/mempool share: the interface of sharedmem.go and the batching of
  transactions into microblocks, written out once in each of ackmem.go, naivemem.go and timemem.go.

  \<open>SizeOf\<close> of src/utils/utils.go is the length of a gob encoding; the encoding is a parameter.
  The locale \<open>txn_batcher\<close> states what batching promises, the locale \<open>proposal_filler\<close> what a mempool
  promises about the pending block it builds from a proposal; each mempool interprets them.
\<close>

section \<open>Time\<close>

text \<open>\<open>time.Time.Sub\<close> saturates at the bounds of a duration.\<close>

definition TimeSub :: "Time \<Rightarrow> Time \<Rightarrow> int" where
  "TimeSub t u = max (- (2 ^ 63)) (min (2 ^ 63 - 1) (t - u))"

lemma TimeSub_exact: "in_i64 (t - u) \<Longrightarrow> TimeSub t u = t - u"
  by (simp add: TimeSub_def in_i64_def)

lemma TimeSub_range [simp]: "in_i64 (TimeSub t u)"
  by (simp add: TimeSub_def in_i64_def)

section \<open>Batching\<close>

definition SizeOf :: "('a \<Rightarrow> Bytes) \<Rightarrow> 'a \<Rightarrow> int" where
  "SizeOf gob v = int (length (gob v))"

text \<open>
  The part of \<open>AddTxn\<close> after its guards: \<open>mk\<close> builds a microblock (\<open>None\<close> if that panics), \<open>cur\<close> and
  \<open>txns\<close> are \<open>currSize\<close> and \<open>txnList\<close>.
\<close>

definition batch_txn ::
  "(Transaction list \<Rightarrow> MicroBlock option) \<Rightarrow> int \<Rightarrow> int \<Rightarrow> int \<Rightarrow> Transaction list \<Rightarrow> Transaction \<Rightarrow>
   ((bool \<times> MicroBlock option) \<times> int \<times> Transaction list) option" where
  "batch_txn mk msize tranSize cur txns txn =
     (let totalSize = i64 (tranSize + cur) in
      if totalSize > msize then do { mb \<leftarrow> mk txns; Some ((True, Some mb), tranSize, [txn]) }
      else if totalSize = msize then do { mb \<leftarrow> mk (txns @ [txn]); Some ((True, Some mb), 0, []) }
      else Some ((False, None), totalSize, txns @ [txn]))"

text \<open>What one call may do to the list of waiting transactions.\<close>

definition batch_ok :: "(Transaction \<Rightarrow> int) \<Rightarrow> int \<Rightarrow> int \<Rightarrow> Transaction list \<Rightarrow> bool" where
  "batch_ok sz msize cur txns \<longleftrightarrow> cur = sum_list (map sz txns) \<and> cur \<le> msize \<and> list_all (\<lambda>t. 0 \<le> sz t) txns"

definition batch_step ::
  "(Transaction \<Rightarrow> int) \<Rightarrow> int \<Rightarrow> Transaction list \<Rightarrow> Transaction \<Rightarrow> MicroBlock option \<Rightarrow> Transaction list \<Rightarrow> bool" where
  "batch_step sz msize txns txn mbo txns' \<longleftrightarrow>
     mbo = None \<and> txns' = txns \<or>
     (case mbo of None \<Rightarrow> [] | Some mb \<Rightarrow> mbTxns mb) @ txns' = txns @ [txn] \<and>
     (\<forall>mb. mbo = Some mb \<longrightarrow> sum_list (map sz (mbTxns mb)) \<le> msize)"

lemma batch_txn_step:
  assumes b: "batch_txn mk msize (sz txn) cur txns txn = Some ((r, mbo), cur', txns')"
    and mk: "\<And>ts mb. mk ts = Some mb \<Longrightarrow> mbTxns mb = ts"
    and ok: "batch_ok sz msize cur txns" and fit: "0 \<le> sz txn" "sz txn \<le> msize" and range: "msize < 2 ^ 62"
  shows "batch_step sz msize txns txn mbo txns' \<and> batch_ok sz msize cur' txns' \<and> (r \<longleftrightarrow> mbo \<noteq> None)"
proof -
  have pos: "0 \<le> cur" using ok sum_list_nonneg [of "map sz txns"] by (auto simp: batch_ok_def list_all_iff)
  then have t: "i64 (sz txn + cur) = sz txn + cur"
    using ok fit range by (intro i64_id) (simp add: in_i64_def batch_ok_def)
  consider "sz txn + cur > msize" | "sz txn + cur = msize" | "sz txn + cur < msize" by linarith
  then show ?thesis
  proof cases
    case 1
    with b t obtain mb where "mk txns = Some mb" "mbo = Some mb" "r" "cur' = sz txn" "txns' = [txn]"
      by (auto simp: batch_txn_def bind_Some_conv)
    with mk [of txns mb] ok fit show ?thesis by (simp add: batch_step_def batch_ok_def)
  next
    case 2
    with b t obtain mb where "mk (txns @ [txn]) = Some mb" "mbo = Some mb" "r" "cur' = 0" "txns' = []"
      by (auto simp: batch_txn_def bind_Some_conv)
    with mk [of "txns @ [txn]" mb] ok fit 2 show ?thesis by (simp add: batch_step_def batch_ok_def)
  next
    case 3
    with b t have "mbo = None" "\<not> r" "cur' = sz txn + cur" "txns' = txns @ [txn]" by (auto simp: batch_txn_def)
    with ok fit 3 show ?thesis by (simp add: batch_step_def batch_ok_def)
  qed
qed

text \<open>A sequence of transactions; the microblocks returned on the way.\<close>

fun add_all ::
  "('s \<Rightarrow> Transaction \<Rightarrow> ((bool \<times> MicroBlock option) \<times> 's) option) \<Rightarrow> 's \<Rightarrow> Transaction list \<Rightarrow> (MicroBlock list \<times> 's) option" where
  "add_all add s [] = Some ([], s)"
| "add_all add s (t # ts) =
     do { ((_, mbo), s1) \<leftarrow> add s t; (mbs, s2) \<leftarrow> add_all add s1 ts;
          Some ((case mbo of None \<Rightarrow> [] | Some mb \<Rightarrow> [mb]) @ mbs, s2) }"

locale txn_batcher =
  fixes add :: "'s \<Rightarrow> Transaction \<Rightarrow> ((bool \<times> MicroBlock option) \<times> 's) option"
    and waiting :: "'s \<Rightarrow> Transaction list"
    and inv :: "'s \<Rightarrow> bool"
    and sz :: "Transaction \<Rightarrow> int"
    and limit :: int
  assumes add_step: "inv s \<Longrightarrow> add s t = Some ((r, mbo), s') \<Longrightarrow> batch_step sz limit (waiting s) t mbo (waiting s')"
    and add_inv: "inv s \<Longrightarrow> add s t = Some ((r, mbo), s') \<Longrightarrow> inv s'"
begin

lemma add_all_step:
  assumes "inv s" and "add_all add s ts = Some (mbs, s')"
  shows "inv s' \<and> (\<forall>mb\<in>set mbs. sum_list (map sz (mbTxns mb)) \<le> limit) \<and>
    (\<exists>kept. subseq kept ts \<and> concat (map mbTxns mbs) @ waiting s' = waiting s @ kept)"
  using assms
proof (induction ts arbitrary: s mbs)
  case Nil
  then show ?case by simp
next
  case (Cons t ts)
  then obtain r mbo s1 mbs1 where a: "add s t = Some ((r, mbo), s1)" and m: "add_all add s1 ts = Some (mbs1, s')"
    and mbs: "mbs = (case mbo of None \<Rightarrow> [] | Some mb \<Rightarrow> [mb]) @ mbs1"
    by (auto simp: bind_Some_conv)
  note st = add_step [OF Cons.prems(1) a]
  from Cons.IH [OF add_inv [OF Cons.prems(1) a] m] obtain kept where i: "inv s'"
    and le: "\<forall>mb\<in>set mbs1. sum_list (map sz (mbTxns mb)) \<le> limit"
    and k: "subseq kept ts" "concat (map mbTxns mbs1) @ waiting s' = waiting s1 @ kept" by auto
  show ?case
  proof (cases "mbo = None \<and> waiting s1 = waiting s")
    case True
    with k have "subseq kept (t # ts)" "concat (map mbTxns mbs) @ waiting s' = waiting s @ kept"
      using mbs by auto
    with i le True mbs show ?thesis by auto
  next
    case False
    with st have c: "(case mbo of None \<Rightarrow> [] | Some mb \<Rightarrow> mbTxns mb) @ waiting s1 = waiting s @ [t]"
      and l: "\<forall>mb. mbo = Some mb \<longrightarrow> sum_list (map sz (mbTxns mb)) \<le> limit" by (auto simp: batch_step_def)
    have "concat (map mbTxns mbs) = (case mbo of None \<Rightarrow> [] | Some mb \<Rightarrow> mbTxns mb) @ concat (map mbTxns mbs1)"
      using mbs by (simp split: option.split)
    with k(2) c have "concat (map mbTxns mbs) @ waiting s' = waiting s @ (t # kept)" by (metis append.assoc append_Cons append_Nil)
    moreover have "subseq (t # kept) (t # ts)" using k(1) by simp
    moreover have "\<forall>mb\<in>set mbs. sum_list (map sz (mbTxns mb)) \<le> limit" using mbs le l by (auto split: option.splits)
    ultimately show ?thesis using i by blast
  qed
qed

end

lemma NewMicroblock_txns: "NewMicroblock he rnd g t1 t2 x txns = Some mb \<Longrightarrow> mbTxns mb = txns"
  by (auto simp: NewMicroblock_def Let_def bind_Some_conv)

section \<open>Proposals\<close>

text \<open>
  A mempool turns a proposal into a pending block.  The contract: on a proposal without repeated
  identifiers, the microblocks it found and those it reports missing are together those of the proposal.
\<close>

locale proposal_filler =
  fixes fill :: "'s \<Rightarrow> Proposal \<Rightarrow> PendingBlock \<times> 's"
    and inv :: "'s \<Rightarrow> bool"
  assumes fill_ok: "inv s \<Longrightarrow> distinct (ppHashList p) \<Longrightarrow> pd_ok (fst (fill s p))"
    and fill_proposal: "inv s \<Longrightarrow> pdProposal (fst (fill s p)) = p"
    and fill_inv: "inv s \<Longrightarrow> inv (snd (fill s p))"
begin

text \<open>Whatever was missing, once it has arrived the block of the proposal is handed over.\<close>

lemma fill_then_arrive:
  assumes "inv s" and "distinct (ppHashList p)" and "mbs \<noteq> []"
    and "pdMissingMap (fst (fill s p)) \<subseteq> mbHash ` set mbs"
  shows "\<exists>b pl. last (fst (PendingAddAll (fst (fill s p)) mbs)) = Some b \<and> blkHeader b = ppHeader p \<and>
    blkPayload b = Some pl \<and> set (GenerateHashList pl) = set (ppHashList p)"
proof -
  let ?pd = "fst (fill s p)" and ?i = "length mbs - 1"
  let ?pd' = "snd (PendingAddAll ?pd mbs)"
  have ok: "pd_ok ?pd'" by (rule PendingAddAll_ok [OF fill_ok [OF assms(1,2)]])
  have m: "pdMissingMap ?pd' = {}" "pdProposal ?pd' = p"
    using PendingAddAll_missing [of ?pd mbs] assms(4) fill_proposal [OF assms(1)] by auto
  have len: "length (fst (PendingAddAll pd mbs)) = length mbs" for pd
    by (induction mbs arbitrary: pd) (auto simp: Let_def case_prod_beta)
  have "last (fst (PendingAddAll ?pd mbs)) = fst (PendingAddAll ?pd mbs) ! ?i"
    using len assms(3) by (metis last_conv_nth length_0_conv)
  also have "\<dots> = Some (BuildBlock p (pdPayload ?pd'))"
    using PendingAddAll_nth [of ?i mbs ?pd] assms(3,4) fill_proposal [OF assms(1)] by simp
  finally show ?thesis using pd_ok_complete [OF ok m(1)] m(2) by (simp add: BuildBlock_def)
qed

end

end
