(* ===== verification/AckMem.thy ===== *)
theory AckMem
  imports Mempool "HOL-Library.Multiset"
begin

text \<open>
  The acknowledgement-based mempool (src/mempool/ackmem.go).

  \<open>AmEnv\<close> holds the configuration the code reads and what it takes from outside: the gob encoder,
  the hashes, the random group, the order in which \<open>sort.Slice\<close> leaves equal elements
  (\<open>aeSortSlice\<close>), the order of a map range, and floating point.  Clock readings are arguments.  Lists of
  \<open>container/list\<close> are lists; the stable messages handed to \<open>node.Broadcast\<close> are collected in \<open>amSent\<close>.
  The locks make each method one step.
\<close>

section \<open>State\<close>

record PendingMicroblock =
  pmMicroblock :: MicroBlock
  pmAckMap :: "NodeID set"
  pmAckNum :: int
  pmAckInGroup :: "NodeID list"
  pmAckOutGroup :: "NodeID list"

record AmEnv =
  aeBroadcastByGroup :: bool
  aeOnlyworker :: bool
  aeQ :: int
  aeGob :: "Transaction \<Rightarrow> Bytes"
  aeHash :: HashEnv
  aeRandIntn :: "int \<Rightarrow> int"
  aeGroupNum :: int
  aeSortSlice :: "MicroBlock list \<Rightarrow> MicroBlock list"
  aeRange :: "NodeID set \<Rightarrow> NodeID list"
  aeFloat :: FloatEnv

record AckMem =
  amStable :: "MicroBlock list"
  amTxnList :: "Transaction list"
  amMap :: "Identifier \<rightharpoonup> MicroBlock"
  amPending :: "Identifier \<rightharpoonup> PendingMicroblock"
  amAckBuffer :: "Identifier \<rightharpoonup> (NodeID \<rightharpoonup> Signature)"
  amStableMBs :: "Identifier set"
  amStableBuffer :: "Identifier \<rightharpoonup> Stable"
  amBsize :: int
  amMsize :: int
  amMemsize :: int
  amCurrSize :: int
  amThreshhold :: int
  amTotalTx :: int
  amTotalStableMbs :: int
  amTotalStableDelay :: int
  amGm :: GroupManager
  amNode :: NodeID
  amMonitor :: MonitorManager
  amSent :: "Stable list"

definition NewAckMem :: "int \<Rightarrow> int \<Rightarrow> int \<Rightarrow> int \<Rightarrow> NodeID \<Rightarrow> GroupManager \<Rightarrow> MonitorManager option \<Rightarrow> AckMem" where
  "NewAckMem bsize msize memsize q n gm inst =
     \<lparr>amStable = [], amTxnList = [], amMap = Map.empty, amPending = Map.empty, amAckBuffer = Map.empty,
      amStableMBs = {}, amStableBuffer = Map.empty, amBsize = bsize, amMsize = msize, amMemsize = memsize,
      amCurrSize = 0, amThreshhold = q, amTotalTx = 0, amTotalStableMbs = 0, amTotalStableDelay = 0,
      amGm = gm, amNode = n, amMonitor = NewMonitorManager inst, amSent = []\<rparr>"

section \<open>Sizes\<close>

definition AmIsStable :: "AckMem \<Rightarrow> Identifier \<Rightarrow> bool" where
  "AmIsStable am x \<longleftrightarrow> x \<in> amStableMBs am"

definition AmTotalTx :: "AckMem \<Rightarrow> int" where "AmTotalTx am = amTotalTx am"

definition AmRemainingTx :: "AckMem \<Rightarrow> int" where "AmRemainingTx am = int (length (amTxnList am))"

definition AmTotalMB :: "AckMem \<Rightarrow> int" where "AmTotalMB am = int (maplen (amMap am))"

definition AmTotalStableMb :: "AckMem \<Rightarrow> int" where "AmTotalStableMb am = amTotalStableMbs am"

definition AmTotalStableTime :: "AckMem \<Rightarrow> int" where "AmTotalStableTime am = amTotalStableDelay am"

definition AmStableMB :: "AckMem \<Rightarrow> int" where "AmStableMB am = int (length (amStable am))"

definition AmPendingMB :: "AckMem \<Rightarrow> int" where "AmPendingMB am = int (maplen (amPending am))"

definition AmRemainingMB :: "AckMem \<Rightarrow> int" where
  "AmRemainingMB am = int (maplen (amPending am) + length (amStable am))"

definition AmAckList :: "AmEnv \<Rightarrow> AckMem \<Rightarrow> Identifier \<Rightarrow> NodeID list option" where
  "AmAckList e am x = (case amPending am x of None \<Rightarrow> None | Some pmb \<Rightarrow> Some (aeRange e (pmAckMap pmb)))"

section \<open>Transactions\<close>

text \<open>\<open>makeTxnSlice\<close> empties the list and returns its contents; it is the list argument of \<open>batch_txn\<close>.\<close>

definition AmAddTxn ::
  "AmEnv \<Rightarrow> Time \<Rightarrow> Time \<Rightarrow> AckMem \<Rightarrow> Transaction \<Rightarrow> ((bool \<times> MicroBlock option) \<times> AckMem) option" where
  "AmAddTxn e now1 now2 am txn =
     (if AmRemainingTx am \<ge> amMemsize am then Some ((False, None), am)
      else if AmRemainingMB am \<ge> amMemsize am then Some ((False, None), am)
      else
        let am1 = am\<lparr>amTotalTx := i64 (amTotalTx am + 1)\<rparr>;
            tranSize = SizeOf (aeGob e) txn
        in if tranSize > amMsize am then Some ((False, None), am1)
           else do {
             (r, cur, txns) \<leftarrow> batch_txn (NewMicroblock (aeHash e) (aeRandIntn e) (aeGroupNum e) now1 now2 0)
                                (amMsize am) tranSize (amCurrSize am) (amTxnList am) txn;
             Some (r, am1\<lparr>amCurrSize := cur, amTxnList := txns\<rparr>) })"

definition GenerateMb ::
  "AmEnv \<Rightarrow> Time \<Rightarrow> Time \<Rightarrow> AckMem \<Rightarrow> Transaction list \<Rightarrow> (bool \<times> MicroBlock option) option" where
  "GenerateMb e now1 now2 am txs =
     (if AmRemainingMB am \<ge> amMemsize am then Some (False, None)
      else do { mb \<leftarrow> NewMicroblock (aeHash e) (aeRandIntn e) (aeGroupNum e) now1 now2 0 txs;
                Some (True, Some mb) })"

section \<open>Stability\<close>

text \<open>The statements every path to stability shares: the queue, the set, and the two counters.\<close>

definition push_stable :: "Time \<Rightarrow> AckMem \<Rightarrow> MicroBlock \<Rightarrow> AckMem" where
  "push_stable now am mb =
     am\<lparr>amStable := amStable am @ [mb], amStableMBs := insert (mbHash mb) (amStableMBs am),
        amTotalStableMbs := i64 (amTotalStableMbs am + 1),
        amTotalStableDelay := i64 (amTotalStableDelay am + TimeSub now (mbTimestamp mb))\<rparr>"

definition new_pending :: "AckMem \<Rightarrow> MicroBlock \<Rightarrow> PendingMicroblock option" where
  "new_pending am mb =
     do { inGroup \<leftarrow> IsInGroup (amGm am) (mbGroupId mb) (amNode am);
          Some \<lparr>pmMicroblock = mb, pmAckMap = {mbSender mb}, pmAckNum = 1,
                pmAckInGroup = (if inGroup then [mbSender mb] else []),
                pmAckOutGroup = (if inGroup then [] else [mbSender mb])\<rparr> }"

text \<open>The loop over the acknowledgements that came before the microblock.\<close>

fun buffered_acks :: "PendingMicroblock \<Rightarrow> NodeID list \<Rightarrow> PendingMicroblock" where
  "buffered_acks p [] = p"
| "buffered_acks p (x # xs) =
     buffered_acks (p\<lparr>pmAckMap := insert x (pmAckMap p), pmAckNum := pmAckNum p + 1,
                      pmAckInGroup := pmAckInGroup p @ [x]\<rparr>) xs"

definition AmAddMicroblock :: "AmEnv \<Rightarrow> Time \<Rightarrow> AckMem \<Rightarrow> MicroBlock \<Rightarrow> AckMem option" where
  "AmAddMicroblock e now am mb =
     (case amMap am (mbHash mb) of
        Some mb_old \<Rightarrow>
          if \<not> mbIsFake mb_old then Some am
          else Some (am\<lparr>amMap := (amMap am)(mbHash mb \<mapsto> mb)\<rparr>)
      | None \<Rightarrow>
          do { p \<leftarrow> new_pending am mb;
               let am1 = am\<lparr>amMap := (amMap am)(mbHash mb \<mapsto> mb)\<rparr> in
               case amAckBuffer am1 (mbHash mb) of
                 None \<Rightarrow> Some (am1\<lparr>amPending := (amPending am1)(mbHash mb \<mapsto> p)\<rparr>)
               | Some buffer \<Rightarrow>
                   let p1 = buffered_acks p (aeRange e (dom buffer)) in
                   if pmAckNum p1 \<ge> amThreshhold am1 then
                     if mbHash mb \<in> amStableMBs am1 then Some am1
                     else Some (let am2 = push_stable now am1 mb
                                in am2\<lparr>amPending := (amPending am2)(mbHash mb := None)\<rparr>)
                   else Some (am1\<lparr>amPending := (amPending am1)(mbHash mb \<mapsto> p1)\<rparr>) })"

definition count_ack :: "AmEnv \<Rightarrow> PendingMicroblock \<Rightarrow> Ack \<Rightarrow> PendingMicroblock" where
  "count_ack e target ack =
     (let t1 = target\<lparr>pmAckMap := insert (ackReceiver ack) (pmAckMap target)\<rparr> in
      if aeBroadcastByGroup e \<and> ackOutGroup ack
      then t1\<lparr>pmAckOutGroup := pmAckOutGroup t1 @ [ackReceiver ack]\<rparr>
      else t1\<lparr>pmAckNum := pmAckNum t1 + 1, pmAckInGroup := pmAckInGroup t1 @ [ackReceiver ack]\<rparr>)"

definition stable_of :: "NodeID \<Rightarrow> PendingMicroblock \<Rightarrow> Stable" where
  "stable_of me target =
     \<lparr>stAckInGroup = pmAckInGroup target, stAckOutGroup = pmAckOutGroup target, stAckNodeList = pmAckMap target,
      stMicroblockID = mbHash (pmMicroblock target), stSender = me, stGroupId = mbGroupId (pmMicroblock target),
      stMbCreationTime = mbTimestamp (pmMicroblock target), stTxNums = int (length (mbTxns (pmMicroblock target)))\<rparr>"

definition become_stable :: "AmEnv \<Rightarrow> Time \<Rightarrow> Time \<Rightarrow> AckMem \<Rightarrow> PendingMicroblock \<Rightarrow> Identifier \<Rightarrow> AckMem" where
  "become_stable e now1 now2 am target x =
     (let mb = pmMicroblock target;
          am1 = push_stable now1 am mb;
          am2 = am1\<lparr>amPending := (amPending am1)(x := None)\<rparr>;
          s = stable_of (amNode am) target;
          am3 = am2\<lparr>amMonitor := CollectStableTime (aeFloat e) (amMonitor am2) (mbHash mb)
                                   (TimeSub now2 (mbCreateTimeStamp mb))\<rparr>
      in am3\<lparr>amStableBuffer := (amStableBuffer am3)(mbHash mb \<mapsto> s), amSent := amSent am3 @ [s]\<rparr>)"

definition AmAddAck :: "AmEnv \<Rightarrow> Time \<Rightarrow> Time \<Rightarrow> AckMem \<Rightarrow> Ack \<Rightarrow> AckMem" where
  "AmAddAck e now1 now2 am ack =
     (case amPending am (ackMicroblockID ack) of
        Some t0 \<Rightarrow>
          let target = count_ack e t0 ack;
              am1 = am\<lparr>amPending := (amPending am)(ackMicroblockID ack \<mapsto> target)\<rparr>
          in if pmAckNum target \<ge> amThreshhold am1 \<and> mbHash (pmMicroblock target) \<notin> amStableMBs am1
             then become_stable e now1 now2 am1 target (ackMicroblockID ack)
             else am1
      | None \<Rightarrow>
          if ackOutGroup ack then am
          else case amAckBuffer am (ackMicroblockID ack) of
            Some buf \<Rightarrow>
              am\<lparr>amAckBuffer := (amAckBuffer am)(ackMicroblockID ack \<mapsto> buf(ackReceiver ack \<mapsto> ackSignature ack))\<rparr>
          | None \<Rightarrow>
              am\<lparr>amAckBuffer := (amAckBuffer am)(ackMicroblockID ack \<mapsto> [ackReceiver ack \<mapsto> ackSignature ack])\<rparr>)"

definition zeroTransaction :: Transaction where
  "zeroTransaction = \<lparr>txCommand = \<lparr>cmdKey = 0, cmdValue = None, cmdClientID = [], cmdCommandID = 0\<rparr>,
     txTimestamp = 0, txNodeID = [], txID = []\<rparr>"

text \<open>A slice of transactions that carry nothing but a clock reading; a negative capacity panics.\<close>

definition fake_txns :: "(nat \<Rightarrow> Time) \<Rightarrow> int \<Rightarrow> Transaction list option" where
  "fake_txns clk n =
     (if n < 0 then None else Some (map (\<lambda>i. zeroTransaction\<lparr>txTimestamp := clk i\<rparr>) [0..<nat n]))"

definition AmAddStable :: "AmEnv \<Rightarrow> Time \<Rightarrow> Time \<Rightarrow> (nat \<Rightarrow> Time) \<Rightarrow> AckMem \<Rightarrow> Stable \<Rightarrow> AckMem option" where
  "AmAddStable e now1 now2 clk am s =
     (let x = stMicroblockID s in
      if x \<in> amStableMBs am then Some am
      else
        let am1 = am\<lparr>amStableBuffer := (amStableBuffer am)(x \<mapsto> s),
                     amMonitor := CollectStableTime (aeFloat e) (amMonitor am) x
                                    (TimeSub now1 (stMbCreationTime s))\<rparr>;
            am2 = (case amPending am1 x of
                     None \<Rightarrow> am1
                   | Some target \<Rightarrow>
                       (push_stable now2 am1 (pmMicroblock target))\<lparr>amPending := (amPending am1)(x := None)\<rparr>)
        in case amMap am2 x of
             Some _ \<Rightarrow> Some am2
           | None \<Rightarrow>
               do { txns \<leftarrow> fake_txns clk (stTxNums s);
                    let mb = zeroMicroBlock\<lparr>mbIsFake := True, mbHash := x, mbGroupId := stGroupId s,
                               mbCreateTimeStamp := stMbCreationTime s, mbTxns := txns,
                               mbGenerateNodeList := stAckNodeList s\<rparr> in
                    Some (push_stable now2 (am2\<lparr>amMap := (amMap am2)(x \<mapsto> mb)\<rparr>) mb) })"

definition HandleMissingStableMb :: "AckMem \<Rightarrow> MicroBlock \<Rightarrow> AckMem" where
  "HandleMissingStableMb am mb = am\<lparr>amMap := (amMap am)(mbHash mb \<mapsto> mb)\<rparr>"

section \<open>Payloads\<close>

definition am_front :: "AckMem \<Rightarrow> MicroBlock option \<times> AckMem" where
  "am_front am = (case amStable am of [] \<Rightarrow> (None, am) | mb # rest \<Rightarrow> (Some mb, am\<lparr>amStable := rest\<rparr>))"

definition GenerateAckNodeList :: "AckMem \<Rightarrow> MicroBlock \<Rightarrow> NodeID set" where
  "GenerateAckNodeList am mb =
     (case amStableBuffer am (mbHash mb) of None \<Rightarrow> {} | Some s \<Rightarrow> set (stAckInGroup s))"

text \<open>The loop over the buffered signatures stops when the counter equals Q.\<close>

fun take_sigs :: "int \<Rightarrow> int \<Rightarrow> (NodeID \<rightharpoonup> Signature) \<Rightarrow> NodeID list \<Rightarrow> (NodeID \<rightharpoonup> Signature) \<Rightarrow> (NodeID \<rightharpoonup> Signature)" where
  "take_sigs q cnt buf [] sigs = sigs"
| "take_sigs q cnt buf (x # xs) sigs =
     (let sigs1 = sigs(x := buf x) in
      if cnt + 1 = q then sigs1 else take_sigs q (cnt + 1) buf xs sigs1)"

definition sigs_of :: "AmEnv \<Rightarrow> AckMem \<Rightarrow> MicroBlock \<Rightarrow> (NodeID \<rightharpoonup> Signature)" where
  "sigs_of e am mb =
     (case amAckBuffer am (mbHash mb) of
        None \<Rightarrow> Map.empty
      | Some buf \<Rightarrow> take_sigs (aeQ e) 0 buf (aeRange e (dom buf)) Map.empty)"

fun payload_loop ::
  "AmEnv \<Rightarrow> nat \<Rightarrow> AckMem \<Rightarrow> MicroBlock list \<Rightarrow> (Identifier \<rightharpoonup> (NodeID \<rightharpoonup> Signature)) \<Rightarrow> NodeID set list \<Rightarrow> int list \<Rightarrow>
   (MicroBlock list \<times> (Identifier \<rightharpoonup> (NodeID \<rightharpoonup> Signature)) \<times> NodeID set list \<times> int list) \<times> AckMem" where
  "payload_loop e 0 am mbs sigMap acks txNums = ((mbs, sigMap, acks, txNums), am)"
| "payload_loop e (Suc n) am mbs sigMap acks txNums =
     (case am_front am of
        (None, am1) \<Rightarrow> ((mbs, sigMap, acks, txNums), am1)
      | (Some mb, am1) \<Rightarrow>
          payload_loop e n am1 (mbs @ [mb]) (sigMap(mbHash mb \<mapsto> sigs_of e am1 mb))
            (acks @ [GenerateAckNodeList am1 mb]) (txNums @ [int (length (mbTxns mb))]))"

text \<open>A node configured as worker only sleeps for ever in this call, holding the lock.\<close>

definition AmGeneratePayload :: "AmEnv \<Rightarrow> AckMem \<Rightarrow> (Payload \<times> AckMem) option" where
  "AmGeneratePayload e am =
     (if aeOnlyworker e then None
      else
        let am1 = (if aeBroadcastByGroup e then am\<lparr>amStable := aeSortSlice e (amStable am)\<rparr> else am);
            batchSize = (if int (length (amStable am1)) \<ge> amBsize am1 then amBsize am1
                         else int (length (amStable am1)))
        in case payload_loop e (nat batchSize) am1 [] Map.empty [] [] of
             ((mbs, sigMap, acks, txNums), am2) \<Rightarrow> Some (NewPayload (map Some mbs) sigMap acks txNums, am2))"

section \<open>Proposals\<close>

definition AmCheckExistence :: "AckMem \<Rightarrow> Proposal \<Rightarrow> bool \<times> Identifier list" where
  "AmCheckExistence am p = (False, [])"

definition AmRemoveMicroblock :: "AckMem \<Rightarrow> Identifier \<Rightarrow> error option \<times> AckMem" where
  "AmRemoveMicroblock am x =
     (None, am\<lparr>amMap := (amMap am)(x := None), amStableMBs := amStableMBs am - {x}\<rparr>)"

definition AmFindMicroblock :: "AckMem \<Rightarrow> Identifier \<Rightarrow> bool \<times> MicroBlock option" where
  "AmFindMicroblock am x =
     (case amMap am x of
        None \<Rightarrow> (False, None)
      | Some mb \<Rightarrow> if \<not> mbIsFake mb then (False, None) else (True, Some mb))"

text \<open>The search through the stable queue: the first match is removed.\<close>

fun remove_hash :: "Identifier \<Rightarrow> MicroBlock list \<Rightarrow> MicroBlock option \<times> MicroBlock list" where
  "remove_hash x [] = (None, [])"
| "remove_hash x (mb # mbs) =
     (if mbHash mb = x then (Some mb, mbs)
      else case remove_hash x mbs of (r, rest) \<Rightarrow> (r, mb # rest))"

text \<open>One identifier of a proposal: the microblocks found for it, and the mempool without them.\<close>

definition fill_one :: "AckMem \<Rightarrow> Identifier \<Rightarrow> MicroBlock list \<times> AckMem" where
  "fill_one am x =
     (case (case amPending am x of
              None \<Rightarrow> ([], am)
            | Some p \<Rightarrow> ([pmMicroblock p], am\<lparr>amPending := (amPending am)(x := None)\<rparr>)) of
        (found, am1) \<Rightarrow>
          (case remove_hash x (amStable am1) of
             (None, _) \<Rightarrow> (found, am1)
           | (Some mb, rest) \<Rightarrow> (found @ [mb], am1\<lparr>amStable := rest\<rparr>)))"

fun fill_loop ::
  "AckMem \<Rightarrow> Identifier list \<Rightarrow> MicroBlock list \<Rightarrow> Identifier set \<Rightarrow> (MicroBlock list \<times> Identifier set) \<times> AckMem" where
  "fill_loop am [] existing missing = ((existing, missing), am)"
| "fill_loop am (x # xs) existing missing =
     (case fill_one am x of
        (found, am1) \<Rightarrow>
          fill_loop am1 xs (existing @ found) (if found = [] then insert x missing else missing))"

definition AmFillProposal :: "AckMem \<Rightarrow> Proposal \<Rightarrow> PendingBlock \<times> AckMem" where
  "AmFillProposal am p =
     (case fill_loop am (ppHashList p) [] {} of
        ((existing, missing), am1) \<Rightarrow> (NewPendingBlock p missing (map Some existing), am1))"

text \<open>The two group variants never report anything as missing.\<close>

definition AmFillProposalFromGroup :: "AckMem \<Rightarrow> Proposal \<Rightarrow> PendingBlock \<times> AckMem" where
  "AmFillProposalFromGroup am p =
     (case fill_loop am (ppHashList p) [] {} of
        ((existing, _), am1) \<Rightarrow> (NewPendingBlock p {} (map Some existing), am1))"

definition AmFillProposalByGroup :: "AckMem \<Rightarrow> Proposal \<Rightarrow> PendingBlock \<times> AckMem" where
  "AmFillProposalByGroup am p =
     (case fill_loop am (ppHashList p) [] {} of
        ((existing, _), am1) \<Rightarrow> (NewPendingBlock p {} (map Some existing), am1))"

definition drop_one :: "AckMem \<Rightarrow> Identifier \<Rightarrow> AckMem" where
  "drop_one am x =
     am\<lparr>amPending := (amPending am)(x := None), amStable := snd (remove_hash x (amStable am))\<rparr>"

text \<open>
  \<open>FetchMB\<close> stands in for a microblock it does not have; the entries of the proposal at the same index
  are read then, and a shorter list panics.
\<close>

definition stand_in :: "(nat \<Rightarrow> Time) \<Rightarrow> Proposal \<Rightarrow> nat \<Rightarrow> Identifier \<Rightarrow> MicroBlock option" where
  "stand_in clk p index x =
     do { n \<leftarrow> go_index (ppTxNums p) (int index);
          txns \<leftarrow> fake_txns clk n;
          g \<leftarrow> go_index (ppGroupList p) (int index);
          t \<leftarrow> go_index (ppMbTime p) (int index);
          Some (zeroMicroBlock\<lparr>mbIsFake := True, mbHash := x, mbGroupId := g, mbTimestamp := t, mbTxns := txns\<rparr>) }"

fun fetch_loop ::
  "(nat \<Rightarrow> nat \<Rightarrow> Time) \<Rightarrow> Proposal \<Rightarrow> AckMem \<Rightarrow> nat \<Rightarrow> Identifier list \<Rightarrow> MicroBlock list \<Rightarrow> (MicroBlock list \<times> AckMem) option" where
  "fetch_loop clk p am index [] existing = Some (existing, am)"
| "fetch_loop clk p am index (x # xs) existing =
     (let am1 = drop_one am x in
      do { mb \<leftarrow> (case amMap am1 x of Some mb \<Rightarrow> Some mb | None \<Rightarrow> stand_in (clk index) p index x);
           fetch_loop clk p am1 (Suc index) xs (existing @ [mb]) })"

definition FetchMB :: "(nat \<Rightarrow> nat \<Rightarrow> Time) \<Rightarrow> AckMem \<Rightarrow> Proposal \<Rightarrow> (PendingBlock \<times> AckMem) option" where
  "FetchMB clk am p =
     do { (existing, am1) \<leftarrow> fetch_loop clk p am 0 (ppHashList p) [];
          Some (NewPendingBlock p {} (map Some existing), am1) }"

section \<open>Invariant\<close>

text \<open>
  Microblocks are filed under their hash; what is pending is known and not yet stable; the queue holds
  stable microblocks, each once.
\<close>

definition am_ok :: "AckMem \<Rightarrow> bool" where
  "am_ok am \<longleftrightarrow> (\<forall>x mb. amMap am x = Some mb \<longrightarrow> mbHash mb = x) \<and>
     (\<forall>x p. amPending am x = Some p \<longrightarrow> mbHash (pmMicroblock p) = x \<and> x \<notin> amStableMBs am) \<and>
     dom (amPending am) \<union> amStableMBs am \<subseteq> dom (amMap am) \<and>
     mbHash ` set (amStable am) \<subseteq> amStableMBs am \<and> distinct (map mbHash (amStable am))"

lemma am_ok_New [inv_intros]: "am_ok (NewAckMem b m k q n gm inst)"
  by (simp add: am_ok_def NewAckMem_def)

lemma am_okD:
  assumes "am_ok am"
  shows "amMap am x = Some mb \<Longrightarrow> mbHash mb = x"
    and "amPending am x = Some p \<Longrightarrow> mbHash (pmMicroblock p) = x"
    and "amPending am x = Some p \<Longrightarrow> x \<notin> amStableMBs am"
    and "amPending am x = Some p \<Longrightarrow> amMap am x \<noteq> None"
    and "x \<in> amStableMBs am \<Longrightarrow> amMap am x \<noteq> None"
    and "mbHash ` set (amStable am) \<subseteq> amStableMBs am" and "distinct (map mbHash (amStable am))"
  using assms unfolding am_ok_def by blast+

text \<open>Updates of single fields.\<close>

lemma am_ok_map: "am_ok am \<Longrightarrow> am_ok (am\<lparr>amMap := (amMap am)(mbHash mb \<mapsto> mb)\<rparr>)"
  unfolding am_ok_def by auto

lemma am_ok_pending:
  assumes "am_ok am" and "mbHash (pmMicroblock p) = x" and "x \<notin> amStableMBs am" and "amMap am x \<noteq> None"
  shows "am_ok (am\<lparr>amPending := (amPending am)(x \<mapsto> p)\<rparr>)"
  using assms unfolding am_ok_def by auto

lemma am_ok_unpend: "am_ok am \<Longrightarrow> am_ok (am\<lparr>amPending := (amPending am)(x := None)\<rparr>)"
  unfolding am_ok_def by auto

lemma am_ok_fewer:
  assumes "am_ok am" and "set q \<subseteq> set (amStable am)" and "distinct (map mbHash q)"
  shows "am_ok (am\<lparr>amStable := q\<rparr>)"
  using assms unfolding am_ok_def by (simp add: image_subset_iff subset_eq)

lemma am_ok_push:
  assumes "am_ok am" and "mbHash mb \<notin> amStableMBs am" and "amPending am (mbHash mb) = None" and "amMap am (mbHash mb) \<noteq> None"
  shows "am_ok (push_stable now am mb)"
  using assms unfolding am_ok_def push_stable_def by auto

lemma am_ok_frames:
  assumes "am_ok am"
  shows "am_ok (am\<lparr>amAckBuffer := a\<rparr>)" and "am_ok (am\<lparr>amStableBuffer := b\<rparr>)" and "am_ok (am\<lparr>amMonitor := m\<rparr>)"
    and "am_ok (am\<lparr>amSent := s\<rparr>)" and "am_ok (am\<lparr>amTotalTx := t\<rparr>)" and "am_ok (am\<lparr>amCurrSize := c, amTxnList := l\<rparr>)"
  using assms unfolding am_ok_def by simp_all

lemma push_stable_simps [simp, frame_simps]:
  "amStable (push_stable now am mb) = amStable am @ [mb]"
  "amStableMBs (push_stable now am mb) = insert (mbHash mb) (amStableMBs am)"
  "amMap (push_stable now am mb) = amMap am" "amPending (push_stable now am mb) = amPending am"
  "amMonitor (push_stable now am mb) = amMonitor am" "amStableBuffer (push_stable now am mb) = amStableBuffer am"
  "amSent (push_stable now am mb) = amSent am" "amNode (push_stable now am mb) = amNode am"
  "(push_stable now am mb)\<lparr>amPending := f\<rparr> = push_stable now (am\<lparr>amPending := f\<rparr>) mb"
  by (simp_all add: push_stable_def)

subsection \<open>Acknowledgements and stability\<close>

text \<open>Every operation below either leaves queue and stable set alone or adds one microblock that was not stable.\<close>

definition enqueues :: "AckMem \<Rightarrow> AckMem \<Rightarrow> bool" where
  "enqueues am am' \<longleftrightarrow> am_ok am' \<and>
     (amStable am' = amStable am \<and> amStableMBs am' = amStableMBs am \<or>
      (\<exists>mb. mbHash mb \<notin> amStableMBs am \<and> amStable am' = amStable am @ [mb] \<and>
         amStableMBs am' = insert (mbHash mb) (amStableMBs am)))"

lemma buffered_acks_mb [simp]: "pmMicroblock (buffered_acks p xs) = pmMicroblock p"
  by (induction p xs rule: buffered_acks.induct) simp_all

lemma count_ack_mb [simp]: "pmMicroblock (count_ack e p ack) = pmMicroblock p"
  by (simp add: count_ack_def Let_def)

lemma AmAddMicroblock_enqueues:
  assumes ok: "am_ok am" and a: "AmAddMicroblock e now am mb = Some am'"
  shows "enqueues am am'"
proof (cases "amMap am (mbHash mb)")
  case (Some old)
  with a have "am' = am \<or> am' = am\<lparr>amMap := (amMap am)(mbHash mb \<mapsto> mb)\<rparr>"
    by (auto simp: AmAddMicroblock_def split: if_splits)
  then show ?thesis using ok am_ok_map [OF ok, of mb] by (auto simp: enqueues_def)
next
  case None
  define am1 where "am1 = am\<lparr>amMap := (amMap am)(mbHash mb \<mapsto> mb)\<rparr>"
  have ok1: "am_ok am1" unfolding am1_def by (rule am_ok_map [OF ok])
  have np: "amPending am (mbHash mb) = None"
    using am_okD(4) [OF ok, of "mbHash mb"] None by (cases "amPending am (mbHash mb)") auto
  have ns: "mbHash mb \<notin> amStableMBs am1" "amPending am1 (mbHash mb) = None" "amMap am1 (mbHash mb) \<noteq> None"
    using am_okD(5) [OF ok, of "mbHash mb"] None np by (auto simp: am1_def)
  from a None obtain p where p: "new_pending am mb = Some p" by (auto simp: AmAddMicroblock_def bind_Some_conv)
  then have pmb: "pmMicroblock p = mb" by (auto simp: new_pending_def bind_Some_conv)
  have pend: "enqueues am (am1\<lparr>amPending := (amPending am1)(mbHash mb \<mapsto> p1)\<rparr>)" if "pmMicroblock p1 = mb" for p1
    using am_ok_pending [OF ok1 _ ns(1,3)] that by (simp add: enqueues_def am1_def)
  have push: "enqueues am (push_stable now am1 mb)"
    using am_ok_push [OF ok1 ns] ns(1) by (auto simp: enqueues_def am1_def)
  have same: "am1\<lparr>amPending := (amPending am1)(mbHash mb := None)\<rparr> = am1" using ns(2) by (simp add: fun_upd_idem)
  show ?thesis
    using a None p ns(1) pend [of p] pend [of "buffered_acks p xs" for xs] push pmb same
    by (auto simp: AmAddMicroblock_def Let_def am1_def [symmetric] split: option.splits if_splits)
qed

lemma AmAddAck_enqueues:
  assumes ok: "am_ok am"
  shows "enqueues am (AmAddAck e now1 now2 am ack)"
proof (cases "amPending am (ackMicroblockID ack)")
  case None
  then show ?thesis using ok am_ok_frames(1) [OF ok] by (simp add: AmAddAck_def enqueues_def split: option.split)
next
  case (Some t0)
  define x where "x = ackMicroblockID ack"
  define target where "target = count_ack e t0 ack"
  define am1 where "am1 = am\<lparr>amPending := (amPending am)(x \<mapsto> target)\<rparr>"
  have h: "mbHash (pmMicroblock target) = x" "x \<notin> amStableMBs am" "amMap am x \<noteq> None"
    using am_okD(2,3,4) [OF ok Some] by (simp_all add: target_def x_def)
  have ok1: "am_ok am1" unfolding am1_def by (rule am_ok_pending [OF ok h])
  show ?thesis
  proof (cases "pmAckNum target \<ge> amThreshhold am1")
    case False
    then have "AmAddAck e now1 now2 am ack = am1"
      using Some by (simp add: AmAddAck_def Let_def am1_def target_def x_def)
    with ok1 show ?thesis by (simp add: enqueues_def am1_def)
  next
    case True
    then have r: "AmAddAck e now1 now2 am ack = become_stable e now1 now2 am1 target x"
      using Some h by (simp add: AmAddAck_def Let_def am1_def target_def x_def)
    have "am_ok (push_stable now1 (am1\<lparr>amPending := (amPending am1)(x := None)\<rparr>) (pmMicroblock target))"
      using h by (intro am_ok_push am_ok_unpend ok1) (simp_all add: am1_def)
    from am_ok_frames(4) [OF am_ok_frames(2) [OF am_ok_frames(3) [OF this]]] h(1,2) show ?thesis
      unfolding r by (auto simp: enqueues_def become_stable_def Let_def am1_def)
  qed
qed

lemma AmAddStable_enqueues:
  assumes ok: "am_ok am" and a: "AmAddStable e now1 now2 clk am s = Some am'"
  shows "enqueues am am'"
proof (cases "stMicroblockID s \<in> amStableMBs am")
  case True
  with a ok show ?thesis by (simp add: AmAddStable_def Let_def enqueues_def)
next
  case False
  define x where "x = stMicroblockID s"
  define am1 where "am1 = am\<lparr>amStableBuffer := (amStableBuffer am)(x \<mapsto> s),
    amMonitor := CollectStableTime (aeFloat e) (amMonitor am) x (TimeSub now1 (stMbCreationTime s))\<rparr>"
  have ok1: "am_ok am1" using am_ok_frames(3) [OF am_ok_frames(2) [OF ok]] by (simp add: am1_def)
  have nx: "x \<notin> amStableMBs am1" using False by (simp add: am1_def x_def)
  show ?thesis
  proof (cases "amPending am1 x")
    case (Some target)
    have h: "mbHash (pmMicroblock target) = x" "amMap am1 x \<noteq> None" using am_okD(2,4) [OF ok1 Some] by auto
    let ?am2 = "push_stable now2 (am1\<lparr>amPending := (amPending am1)(x := None)\<rparr>) (pmMicroblock target)"
    have "am' = ?am2"
      using a False Some h(2) by (auto simp: AmAddStable_def Let_def x_def [symmetric] am1_def [symmetric])
    moreover have "am_ok ?am2" using h nx by (intro am_ok_push am_ok_unpend ok1) simp_all
    ultimately show ?thesis using h(1) nx by (auto simp: enqueues_def am1_def)
  next
    case None
    show ?thesis
    proof (cases "amMap am1 x")
      case (Some mb)
      with a False None have "am' = am1"
        by (simp add: AmAddStable_def Let_def x_def [symmetric] am1_def [symmetric])
      with ok1 show ?thesis by (simp add: enqueues_def am1_def)
    next
      case new: None
      from a False None new obtain txns where "am' = (let mb = zeroMicroBlock\<lparr>mbIsFake := True, mbHash := x,
          mbGroupId := stGroupId s, mbCreateTimeStamp := stMbCreationTime s, mbTxns := txns,
          mbGenerateNodeList := stAckNodeList s\<rparr> in push_stable now2 (am1\<lparr>amMap := (amMap am1)(x \<mapsto> mb)\<rparr>) mb)"
        by (auto simp: AmAddStable_def Let_def bind_Some_conv x_def [symmetric] am1_def [symmetric])
      then obtain mb where mb: "mbHash mb = x" "am' = push_stable now2 (am1\<lparr>amMap := (amMap am1)(x \<mapsto> mb)\<rparr>) mb"
        by (simp add: Let_def) (use that in force)
      moreover have "am_ok am'" unfolding mb(2)
        using mb(1) am_ok_map [OF ok1, of mb] nx None by (intro am_ok_push) auto
      ultimately show ?thesis using nx by (auto simp: enqueues_def am1_def)
    qed
  qed
qed

subsection \<open>The queue only shrinks elsewhere\<close>

definition dequeues :: "AckMem \<Rightarrow> MicroBlock list \<Rightarrow> AckMem \<Rightarrow> bool" where
  "dequeues am out am' \<longleftrightarrow> am_ok am' \<and> amStableMBs am' = amStableMBs am \<and>
     mset out + mset (amStable am') \<subseteq># mset (amStable am)"

lemma payload_loop_eq:
  "payload_loop e n am mbs sigMap acks txNums =
     ((mbs @ take n (amStable am),
       fst (snd (fst (payload_loop e n am mbs sigMap acks txNums))),
       acks @ map (GenerateAckNodeList am) (take n (amStable am)),
       txNums @ map (\<lambda>mb. int (length (mbTxns mb))) (take n (amStable am))),
      am\<lparr>amStable := drop n (amStable am)\<rparr>)"
proof (induction n arbitrary: am mbs sigMap acks txNums)
  case 0
  then show ?case by simp
next
  case (Suc n)
  have g: "GenerateAckNodeList (am\<lparr>amStable := q\<rparr>) = GenerateAckNodeList am" for q
    by (rule ext) (simp add: GenerateAckNodeList_def)
  show ?case
  proof (cases "amStable am")
    case Nil
    then show ?thesis by (simp add: am_front_def)
  next
    case (Cons mb rest)
    show ?thesis
      using Suc.IH [of "am\<lparr>amStable := rest\<rparr>" "mbs @ [mb]"
          "sigMap(mbHash mb \<mapsto> sigs_of e (am\<lparr>amStable := rest\<rparr>) mb)" "acks @ [GenerateAckNodeList am mb]"
          "txNums @ [int (length (mbTxns mb))]"] Cons g
      by (simp add: am_front_def del: fun_upd_apply)
  qed
qed

definition sort_slice_ok :: "AmEnv \<Rightarrow> bool" where
  "sort_slice_ok e \<longleftrightarrow> (\<forall>xs. mset (aeSortSlice e xs) = mset xs \<and> sorted (map mbGroupId (aeSortSlice e xs)))"

text \<open>The queue a payload is taken from.\<close>

definition payload_queue :: "AmEnv \<Rightarrow> AckMem \<Rightarrow> MicroBlock list" where
  "payload_queue e am = (if aeBroadcastByGroup e then aeSortSlice e (amStable am) else amStable am)"

lemma AmGeneratePayload_eq:
  assumes "AmGeneratePayload e am = Some (pl, am')"
  shows "non_nil (plMicroblockList pl) = take (nat (amBsize am)) (payload_queue e am) \<and>
    plAckNode pl = map (GenerateAckNodeList am) (non_nil (plMicroblockList pl)) \<and>
    plTxNums pl = map (\<lambda>mb. int (length (mbTxns mb))) (non_nil (plMicroblockList pl)) \<and>
    am' = am\<lparr>amStable := drop (nat (amBsize am)) (payload_queue e am)\<rparr>"
proof -
  define am1 where "am1 = am\<lparr>amStable := payload_queue e am\<rparr>"
  define n where "n = nat (if int (length (amStable am1)) \<ge> amBsize am1 then amBsize am1 else int (length (amStable am1)))"
  have am1: "(if aeBroadcastByGroup e then am\<lparr>amStable := aeSortSlice e (amStable am)\<rparr> else am) = am1"
    by (simp add: am1_def payload_queue_def)
  have g: "GenerateAckNodeList (am\<lparr>amStable := q\<rparr>) mb = GenerateAckNodeList am mb" for q mb
    by (simp add: GenerateAckNodeList_def)
  have tk: "take n (payload_queue e am) = take (nat (amBsize am)) (payload_queue e am)"
    "drop n (payload_queue e am) = drop (nat (amBsize am)) (payload_queue e am)"
    by (auto simp: n_def am1_def)
  from assms have "pl = NewPayload (map Some (fst (fst (payload_loop e n am1 [] Map.empty [] []))))
      (fst (snd (fst (payload_loop e n am1 [] Map.empty [] []))))
      (fst (snd (snd (fst (payload_loop e n am1 [] Map.empty [] [])))))
      (snd (snd (snd (fst (payload_loop e n am1 [] Map.empty [] [])))))"
    "am' = snd (payload_loop e n am1 [] Map.empty [] [])"
    by (auto simp: AmGeneratePayload_def Let_def am1 n_def case_prod_beta split: if_splits)
  then show ?thesis
    by (subst (asm) (1 2 3 4 5) payload_loop_eq) (simp add: NewPayload_def tk g am1_def)
qed

lemma mset_payload_queue: "sort_slice_ok e \<Longrightarrow> mset (payload_queue e am) = mset (amStable am)"
  by (simp add: sort_slice_ok_def payload_queue_def)

lemma distinct_mset_sub:
  assumes "mset ys \<subseteq># mset zs" and "distinct zs"
  shows "distinct ys"
  unfolding distinct_count_atmost_1
proof
  fix a
  have "count (mset ys) a \<le> count (mset zs) a" by (rule mset_subset_eq_count [OF assms(1)])
  also have "\<dots> \<le> 1" using assms(2) by (simp add: distinct_count_atmost_1)
  finally have le: "count (mset ys) a \<le> 1" .
  show "count (mset ys) a = (if a \<in> set ys then 1 else 0)"
  proof (cases "a \<in> set ys")
    case True
    with le count_mset_gt_0 [OF True] have "count (mset ys) a = 1" by linarith
    with True show ?thesis by simp
  qed (simp add: count_mset_0_iff)
qed

lemma distinct_submset:
  assumes "mset out + mset q \<subseteq># mset p" and "distinct (map f p)"
  shows "distinct (map f (out @ q))" and "set (out @ q) \<subseteq> set p"
proof -
  have s: "mset (out @ q) \<subseteq># mset p" using assms(1) by simp
  then show "set (out @ q) \<subseteq> set p" using set_mset_mono [OF s] by simp
  have "mset (map f (out @ q)) \<subseteq># mset (map f p)" using image_mset_subseteq_mono [OF s, of f] by simp
  then show "distinct (map f (out @ q))" using assms(2) by (rule distinct_mset_sub)
qed

lemma dequeuesI:
  assumes ok: "am_ok am" and s: "mset out + mset q \<subseteq># mset (amStable am)"
  shows "dequeues am out (am\<lparr>amStable := q\<rparr>)"
  unfolding dequeues_def
proof (intro conjI)
  from distinct_submset [OF s am_okD(7) [OF ok]]
  show "am_ok (am\<lparr>amStable := q\<rparr>)" by (intro am_ok_fewer [OF ok]) auto
qed (use s in simp_all)

lemma AmGeneratePayload_dequeues:
  assumes "sort_slice_ok e" and "am_ok am" and "AmGeneratePayload e am = Some (pl, am')"
  shows "dequeues am (non_nil (plMicroblockList pl)) am'"
proof -
  note g = AmGeneratePayload_eq [OF assms(3)]
  have "mset (non_nil (plMicroblockList pl)) + mset (drop (nat (amBsize am)) (payload_queue e am)) = mset (payload_queue e am)"
    using g by (metis append_take_drop_id mset_append)
  then show ?thesis using g dequeuesI [OF assms(2)] mset_payload_queue [OF assms(1), of am] by simp
qed

lemma remove_hash_facts:
  "remove_hash x q = (r, rest) \<Longrightarrow>
     (r = None \<longleftrightarrow> x \<notin> mbHash ` set q) \<and> (\<forall>mb. r = Some mb \<longrightarrow> mbHash mb = x \<and> mset q = add_mset mb (mset rest)) \<and>
     (r = None \<longrightarrow> rest = q) \<and> mset rest \<subseteq># mset q"
proof (induction q arbitrary: r rest)
  case (Cons a q)
  obtain r1 rest1 where q: "remove_hash x q = (r1, rest1)" by fastforce
  from Cons.IH [OF q] Cons.prems q show ?case by (auto split: if_splits simp: subset_mset.add_increasing2)
qed simp

lemma fill_one_facts:
  assumes ok: "am_ok am" and f: "fill_one am x = (found, am')"
  shows "dequeues am [] am'" and "\<forall>mb\<in>set found. mbHash mb = x"
proof -
  obtain f1 am1 where 1: "(case amPending am x of None \<Rightarrow> ([], am)
      | Some p \<Rightarrow> ([pmMicroblock p], am\<lparr>amPending := (amPending am)(x := None)\<rparr>)) = (f1, am1)" by fastforce
  have "am_ok am1 \<and> amStable am1 = amStable am \<and> amStableMBs am1 = amStableMBs am \<and> (\<forall>mb\<in>set f1. mbHash mb = x)"
  proof (cases "amPending am x")
    case None
    with 1 ok show ?thesis by simp
  next
    case (Some p)
    with 1 have "f1 = [pmMicroblock p]" "am1 = am\<lparr>amPending := (amPending am)(x := None)\<rparr>" by auto
    with am_ok_unpend [OF ok, of x] am_okD(2) [OF ok Some] show ?thesis by simp
  qed
  then have am1: "am_ok am1" "amStable am1 = amStable am" "amStableMBs am1 = amStableMBs am"
    and f1: "\<forall>mb\<in>set f1. mbHash mb = x" by simp_all
  obtain r rest where r: "remove_hash x (amStable am1) = (r, rest)" by fastforce
  note R = remove_hash_facts [OF r]
  have d: "dequeues am1 [] (am1\<lparr>amStable := rest\<rparr>)" using dequeuesI [OF am1(1), of "[]" rest] R by simp
  have e: "found = f1 @ (case r of None \<Rightarrow> [] | Some mb \<Rightarrow> [mb])" "am' = am1\<lparr>amStable := rest\<rparr>"
    using f 1 r R by (auto simp: fill_one_def split: option.splits)
  show "dequeues am [] am'" using d e(2) am1 by (simp add: dequeues_def)
  show "\<forall>mb\<in>set found. mbHash mb = x" using e(1) f1 R by (auto split: option.splits)
qed

lemma dequeues_trans: "dequeues am [] am1 \<Longrightarrow> dequeues am1 [] am2 \<Longrightarrow> dequeues am [] am2"
  using subset_mset.order_trans by (auto simp: dequeues_def)

lemma fill_loop_facts:
  assumes "am_ok am" and "fill_loop am xs ex mi = ((ex', mi'), am')"
  shows "dequeues am [] am' \<and> mbHash ` set ex' \<union> mi' = mbHash ` set ex \<union> mi \<union> set xs \<and>
    mbHash ` set ex' \<subseteq> mbHash ` set ex \<union> set xs \<and> mi' \<subseteq> mi \<union> set xs \<and> (finite mi \<longrightarrow> finite mi') \<and>
    (distinct xs \<longrightarrow> set xs \<inter> (mbHash ` set ex \<union> mi) = {} \<longrightarrow> mbHash ` set ex \<inter> mi = {} \<longrightarrow>
       mbHash ` set ex' \<inter> mi' = {})"
  using assms
proof (induction xs arbitrary: am ex mi)
  case Nil
  then show ?case by (simp add: dequeues_def)
next
  case (Cons x xs)
  obtain found am1 where f: "fill_one am x = (found, am1)" by fastforce
  note F = fill_one_facts [OF Cons.prems(1) f]
  then have ok1: "am_ok am1" by (simp add: dequeues_def)
  define mi1 where "mi1 = (if found = [] then insert x mi else mi)"
  define E E1 where "E = mbHash ` set ex" and "E1 = mbHash ` set (ex @ found)"
  have l: "fill_loop am1 xs (ex @ found) mi1 = ((ex', mi'), am')" using Cons.prems(2) f by (simp add: mi1_def)
  note I = Cons.IH [OF ok1 l, folded E1_def]
  have d: "dequeues am [] am'" by (rule dequeues_trans [OF F(1) conjunct1 [OF I]])
  have x: "E1 = E \<and> mi1 = insert x mi \<or> E1 = insert x E \<and> mi1 = mi"
    using F(2) by (cases found) (auto simp: E_def E1_def mi1_def image_Un)
  have fin: "finite mi \<longrightarrow> finite mi1" by (simp add: mi1_def)
  show ?case unfolding E_def [symmetric] using x
  proof
    assume "E1 = E \<and> mi1 = insert x mi"
    with I d fin show "dequeues am [] am' \<and> mbHash ` set ex' \<union> mi' = E \<union> mi \<union> set (x # xs) \<and>
      mbHash ` set ex' \<subseteq> E \<union> set (x # xs) \<and> mi' \<subseteq> mi \<union> set (x # xs) \<and> (finite mi \<longrightarrow> finite mi') \<and>
      (distinct (x # xs) \<longrightarrow> set (x # xs) \<inter> (E \<union> mi) = {} \<longrightarrow> E \<inter> mi = {} \<longrightarrow> mbHash ` set ex' \<inter> mi' = {})"
      by (simp, blast)
  next
    assume "E1 = insert x E \<and> mi1 = mi"
    with I d fin show "dequeues am [] am' \<and> mbHash ` set ex' \<union> mi' = E \<union> mi \<union> set (x # xs) \<and>
      mbHash ` set ex' \<subseteq> E \<union> set (x # xs) \<and> mi' \<subseteq> mi \<union> set (x # xs) \<and> (finite mi \<longrightarrow> finite mi') \<and>
      (distinct (x # xs) \<longrightarrow> set (x # xs) \<inter> (E \<union> mi) = {} \<longrightarrow> E \<inter> mi = {} \<longrightarrow> mbHash ` set ex' \<inter> mi' = {})"
      by (simp, blast)
  qed
qed

lemma AmFillProposal_facts:
  assumes "am_ok am"
  shows "dequeues am [] (snd (AmFillProposal am p)) \<and> pdProposal (fst (AmFillProposal am p)) = p \<and>
    (distinct (ppHashList p) \<longrightarrow> pd_ok (fst (AmFillProposal am p)))"
proof -
  obtain ex mi am' where l: "fill_loop am (ppHashList p) [] {} = ((ex, mi), am')" by (metis prod.exhaust)
  have f: "AmFillProposal am p = (NewPendingBlock p mi (map Some ex), am')" using l by (simp add: AmFillProposal_def)
  note L = fill_loop_facts [OF assms l]
  have "pd_ok (NewPendingBlock p mi (map Some ex)) \<longleftrightarrow> finite mi \<and> mbHash ` set ex \<union> mi = set (ppHashList p) \<and>
      mbHash ` set ex \<inter> mi = {}"
    by (simp add: pd_ok_def NewPendingBlock_def GenerateHashList_def NewPayload_def)
  with L f show ?thesis by (simp add: NewPendingBlock_def)
qed

interpretation amf: proposal_filler AmFillProposal am_ok
proof
  fix am p
  show "pdProposal (fst (AmFillProposal am p)) = p"
    by (simp add: AmFillProposal_def NewPendingBlock_def split: prod.split)
  assume ok: "am_ok am"
  show "am_ok (snd (AmFillProposal am p))" using AmFillProposal_facts [OF ok, of p] by (simp add: dequeues_def)
  assume "distinct (ppHashList p)"
  with AmFillProposal_facts [OF ok, of p] show "pd_ok (fst (AmFillProposal am p))" by simp
qed

lemma drop_one_dequeues:
  assumes ok: "am_ok am"
  shows "dequeues am [] (drop_one am x)"
proof -
  obtain r rest where r: "remove_hash x (amStable am) = (r, rest)" by fastforce
  let ?am1 = "am\<lparr>amPending := (amPending am)(x := None)\<rparr>"
  have "dequeues ?am1 [] (?am1\<lparr>amStable := rest\<rparr>)"
    using remove_hash_facts [OF r] by (intro dequeuesI am_ok_unpend ok) simp
  then show ?thesis using r by (simp add: drop_one_def dequeues_def)
qed

lemma fetch_loop_dequeues:
  assumes "am_ok am" and "fetch_loop clk p am i xs ex = Some (ex', am')"
  shows "dequeues am [] am' \<and> map mbHash ex' = map mbHash ex @ xs"
  using assms
proof (induction xs arbitrary: am i ex)
  case Nil
  then show ?case by (simp add: dequeues_def)
next
  case (Cons x xs)
  note d = drop_one_dequeues [OF Cons.prems(1), of x]
  then have ok1: "am_ok (drop_one am x)" by (simp add: dequeues_def)
  from Cons.prems(2) obtain mb where
    m: "(case amMap (drop_one am x) x of Some mb \<Rightarrow> Some mb | None \<Rightarrow> stand_in (clk i) p i x) = Some mb"
    and l: "fetch_loop clk p (drop_one am x) (Suc i) xs (ex @ [mb]) = Some (ex', am')"
    by (auto simp: Let_def bind_Some_conv)
  have h: "mbHash mb = x"
  proof (cases "amMap (drop_one am x) x")
    case None
    with m show ?thesis by (auto simp: stand_in_def bind_Some_conv)
  next
    case (Some b)
    with m am_okD(1) [OF ok1 Some] show ?thesis by simp
  qed
  note I = Cons.IH [OF ok1 l]
  have "dequeues am [] am'" by (rule dequeues_trans [OF d conjunct1 [OF I]])
  with I h show ?case by simp
qed

section \<open>Runs\<close>

text \<open>
  The calls of the mempool's interface, with the clock readings of each.  The second component of the state
  collects the hashes of the microblocks handed out for proposals, in order.
\<close>

datatype am_event =
  EvTxn Time Time Transaction
| EvMicroblock Time MicroBlock
| EvAck Time Time Ack
| EvStable Time Time "nat \<Rightarrow> Time" Stable
| EvMissing MicroBlock
| EvPayload
| EvFill Proposal
| EvFetch "nat \<Rightarrow> nat \<Rightarrow> Time" Proposal
| EvRemove Identifier

fun am_step :: "AmEnv \<Rightarrow> AckMem \<times> Identifier list \<Rightarrow> am_event \<Rightarrow> (AckMem \<times> Identifier list) option" where
  "am_step e (am, out) (EvTxn t1 t2 txn) = do { (_, am1) \<leftarrow> AmAddTxn e t1 t2 am txn; Some (am1, out) }"
| "am_step e (am, out) (EvMicroblock t mb) = do { am1 \<leftarrow> AmAddMicroblock e t am mb; Some (am1, out) }"
| "am_step e (am, out) (EvAck t1 t2 ack) = Some (AmAddAck e t1 t2 am ack, out)"
| "am_step e (am, out) (EvStable t1 t2 clk s) = do { am1 \<leftarrow> AmAddStable e t1 t2 clk am s; Some (am1, out) }"
| "am_step e (am, out) (EvMissing mb) = Some (HandleMissingStableMb am mb, out)"
| "am_step e (am, out) EvPayload =
     do { (pl, am1) \<leftarrow> AmGeneratePayload e am; Some (am1, out @ GenerateHashList pl) }"
| "am_step e (am, out) (EvFill p) = Some (snd (AmFillProposal am p), out)"
| "am_step e (am, out) (EvFetch clk p) = do { (_, am1) \<leftarrow> FetchMB clk am p; Some (am1, out) }"
| "am_step e (am, out) (EvRemove x) = Some (snd (AmRemoveMicroblock am x), out)"

fun am_run :: "AmEnv \<Rightarrow> AckMem \<times> Identifier list \<Rightarrow> am_event list \<Rightarrow> (AckMem \<times> Identifier list) option" where
  "am_run e s [] = Some s"
| "am_run e s (ev # evs) = do { s1 \<leftarrow> am_step e s ev; am_run e s1 evs }"

subsection \<open>The invariant along a run\<close>

lemma AmAddTxn_shape:
  assumes "AmAddTxn e t1 t2 am txn = Some (r, am')"
  obtains t c l where "am' = am\<lparr>amTotalTx := t, amCurrSize := c, amTxnList := l\<rparr>"
proof
  show "am' = am\<lparr>amTotalTx := amTotalTx am', amCurrSize := amCurrSize am', amTxnList := amTxnList am'\<rparr>"
    using assms by (auto simp: AmAddTxn_def Let_def bind_Some_conv split: if_splits)
qed

text \<open>Every call but the removal keeps the invariant.\<close>

lemma am_step_ok:
  assumes "sort_slice_ok e" and ok: "am_ok am" and st: "am_step e (am, out) ev = Some (am', out')" and "\<And>x. ev \<noteq> EvRemove x"
  shows "am_ok am'"
proof (cases ev)
  case (EvTxn t1 t2 txn)
  with st show ?thesis
    by (auto simp: bind_Some_conv elim!: AmAddTxn_shape intro!: am_ok_frames(5) am_ok_frames(6) ok)
next
  case (EvMicroblock t mb)
  with st show ?thesis by (auto simp: bind_Some_conv enqueues_def dest: AmAddMicroblock_enqueues [OF ok])
next
  case (EvAck t1 t2 ack)
  with st AmAddAck_enqueues [OF ok] show ?thesis by (auto simp: enqueues_def)
next
  case (EvStable t1 t2 clk stb)
  with st show ?thesis by (auto simp: bind_Some_conv enqueues_def dest: AmAddStable_enqueues [OF ok])
next
  case (EvMissing mb)
  with st am_ok_map [OF ok, of mb] show ?thesis by (auto simp: HandleMissingStableMb_def)
next
  case EvPayload
  with st show ?thesis by (auto simp: bind_Some_conv dequeues_def dest: AmGeneratePayload_dequeues [OF assms(1) ok])
next
  case (EvFill p)
  with st AmFillProposal_facts [OF ok, of p] show ?thesis by (auto simp: dequeues_def)
next
  case (EvFetch clk p)
  with st show ?thesis by (auto simp: FetchMB_def bind_Some_conv dequeues_def dest: fetch_loop_dequeues [OF ok])
qed (use assms(4) in blast)

subsection \<open>One microblock along a run\<close>

text \<open>
  What holds of one hash \<open>h\<close> as long as \<open>h\<close> itself is not removed, whatever else is: it is not pending and stable at
  once, it is filed while it is pending or stable, and it was queued or handed out at most once, and not at all
  before it was stable.
\<close>

definition times_seen :: "Identifier \<Rightarrow> AckMem \<Rightarrow> Identifier list \<Rightarrow> nat" where
  "times_seen h am out = count_list out h + count_list (map mbHash (amStable am)) h"

definition tracks :: "Identifier \<Rightarrow> AckMem \<Rightarrow> Identifier list \<Rightarrow> bool" where
  "tracks h am out \<longleftrightarrow> (\<forall>x p. amPending am x = Some p \<longrightarrow> mbHash (pmMicroblock p) = x) \<and>
     (amPending am h \<noteq> None \<longrightarrow> h \<notin> amStableMBs am \<and> amMap am h \<noteq> None) \<and>
     (h \<in> amStableMBs am \<longrightarrow> amMap am h \<noteq> None) \<and>
     times_seen h am out \<le> (if h \<in> amStableMBs am then 1 else 0)"

lemma tracks_New: "tracks h (NewAckMem b m k q n gm inst) []"
  by (simp add: tracks_def times_seen_def NewAckMem_def)

lemma tracks_frame:
  assumes "tracks h am out" and "amMap am' = amMap am" and "amPending am' = amPending am" and "amStable am' = amStable am"
    and "amStableMBs am' = amStableMBs am"
  shows "tracks h am' out"
  using assms unfolding tracks_def times_seen_def by simp

lemma tracks_file: "tracks h am out \<Longrightarrow> tracks h (am\<lparr>amMap := (amMap am)(x \<mapsto> mb)\<rparr>) out"
  unfolding tracks_def times_seen_def by simp

lemma tracks_pend:
  assumes "tracks h am out" and "mbHash (pmMicroblock p) = x" and "x = h \<Longrightarrow> h \<notin> amStableMBs am \<and> amMap am h \<noteq> None"
  shows "tracks h (am\<lparr>amPending := (amPending am)(x \<mapsto> p)\<rparr>) out"
  using assms unfolding tracks_def times_seen_def by auto

lemma tracks_unpend: "tracks h am out \<Longrightarrow> tracks h (am\<lparr>amPending := (amPending am)(x := None)\<rparr>) out"
  unfolding tracks_def times_seen_def by simp

lemma tracks_push:
  assumes "tracks h am out" and "mbHash mb = h \<Longrightarrow> h \<notin> amStableMBs am \<and> amPending am h = None \<and> amMap am h \<noteq> None"
  shows "tracks h (push_stable now am mb) out"
  using assms unfolding tracks_def times_seen_def by auto

lemma tracks_take:
  assumes "tracks h am out" and "mset o1 + mset q \<subseteq># mset (amStable am)"
  shows "tracks h (am\<lparr>amStable := q\<rparr>) (out @ map mbHash o1)"
proof -
  have "image_mset mbHash (mset o1 + mset q) \<subseteq># image_mset mbHash (mset (amStable am))"
    by (rule image_mset_subseteq_mono [OF assms(2)])
  then have "count (image_mset mbHash (mset o1 + mset q)) h \<le> count (image_mset mbHash (mset (amStable am))) h"
    by (rule mset_subset_eq_count)
  then have "count_list (map mbHash o1) h + count_list (map mbHash q) h \<le> count_list (map mbHash (amStable am)) h"
    by (simp flip: mset_map add: count_mset)
  then show ?thesis using assms(1) unfolding tracks_def times_seen_def by simp
qed

lemma tracks_AddMicroblock:
  assumes t: "tracks h am out" and a: "AmAddMicroblock e now am mb = Some am'"
  shows "tracks h am' out"
proof (cases "amMap am (mbHash mb)")
  case (Some old)
  with a t tracks_file [OF t, of "mbHash mb" mb] show ?thesis by (auto simp: AmAddMicroblock_def split: if_splits)
next
  case None
  define am1 where "am1 = am\<lparr>amMap := (amMap am)(mbHash mb \<mapsto> mb)\<rparr>"
  have t1: "tracks h am1 out" unfolding am1_def by (rule tracks_file [OF t])
  have new: "mbHash mb = h \<Longrightarrow> h \<notin> amStableMBs am1 \<and> amMap am1 h \<noteq> None"
    using t None by (auto simp: tracks_def am1_def)
  from a None obtain p where p: "new_pending am mb = Some p" "pmMicroblock p = mb"
    by (auto simp: AmAddMicroblock_def new_pending_def bind_Some_conv)
  have pend: "tracks h (am1\<lparr>amPending := (amPending am1)(mbHash mb \<mapsto> p1)\<rparr>) out" if "pmMicroblock p1 = mb" for p1
    by (rule tracks_pend [OF t1]) (use new that in simp_all)
  have push: "tracks h (push_stable now (am1\<lparr>amPending := (amPending am1)(mbHash mb := None)\<rparr>) mb) out"
    by (rule tracks_push [OF tracks_unpend [OF t1]]) (use new in auto)
  show ?thesis
    using a None p(1) t1 pend [OF p(2)] pend [of "buffered_acks p xs" for xs] push p(2)
    by (auto simp: AmAddMicroblock_def Let_def am1_def [symmetric] split: option.splits if_splits)
qed

lemma tracks_AddAck:
  assumes t: "tracks h am out"
  shows "tracks h (AmAddAck e now1 now2 am ack) out"
proof (cases "amPending am (ackMicroblockID ack)")
  case None
  then show ?thesis by (intro tracks_frame [OF t]) (simp_all add: AmAddAck_def split: option.split)
next
  case (Some t0)
  define x where "x = ackMicroblockID ack"
  define target where "target = count_ack e t0 ack"
  define am1 where "am1 = am\<lparr>amPending := (amPending am)(x \<mapsto> target)\<rparr>"
  have k: "mbHash (pmMicroblock target) = x" "x = h \<Longrightarrow> h \<notin> amStableMBs am \<and> amMap am h \<noteq> None"
    using t Some by (auto simp: tracks_def target_def x_def)
  have t1: "tracks h am1 out" unfolding am1_def by (rule tracks_pend [OF t k])
  have "tracks h (push_stable now1 (am1\<lparr>amPending := (amPending am1)(x := None)\<rparr>) (pmMicroblock target)) out"
    by (rule tracks_push [OF tracks_unpend [OF t1]]) (use k in \<open>auto simp: am1_def\<close>)
  then have "tracks h (become_stable e now1 now2 am1 target x) out"
    by (rule tracks_frame) (simp_all add: become_stable_def Let_def)
  with t1 Some show ?thesis by (simp add: AmAddAck_def Let_def am1_def target_def x_def)
qed

lemma tracks_AddStable:
  assumes t: "tracks h am out" and a: "AmAddStable e now1 now2 clk am s = Some am'"
  shows "tracks h am' out"
proof (cases "stMicroblockID s \<in> amStableMBs am")
  case True
  with a t show ?thesis by (simp add: AmAddStable_def Let_def)
next
  case False
  define x where "x = stMicroblockID s"
  define am1 where "am1 = am\<lparr>amStableBuffer := (amStableBuffer am)(x \<mapsto> s),
    amMonitor := CollectStableTime (aeFloat e) (amMonitor am) x (TimeSub now1 (stMbCreationTime s))\<rparr>"
  define am2 where "am2 = (case amPending am1 x of None \<Rightarrow> am1
    | Some target \<Rightarrow> (push_stable now2 am1 (pmMicroblock target))\<lparr>amPending := (amPending am1)(x := None)\<rparr>)"
  have t1: "tracks h am1 out" by (rule tracks_frame [OF t]) (simp_all add: am1_def)
  have nx: "x \<notin> amStableMBs am1" using False by (simp add: am1_def x_def)
  have t2: "tracks h am2 out"
  proof (cases "amPending am1 x")
    case (Some target)
    then have k: "mbHash (pmMicroblock target) = x" "x = h \<Longrightarrow> h \<notin> amStableMBs am1 \<and> amMap am1 h \<noteq> None"
      using t1 by (auto simp: tracks_def)
    have "tracks h (push_stable now2 (am1\<lparr>amPending := (amPending am1)(x := None)\<rparr>) (pmMicroblock target)) out"
      by (rule tracks_push [OF tracks_unpend [OF t1]]) (use k in auto)
    then show ?thesis using Some by (simp add: am2_def)
  qed (simp add: am2_def t1)
  have new: "x = h \<Longrightarrow> amMap am2 x = None \<Longrightarrow> h \<notin> amStableMBs am2 \<and> amPending am2 h = None"
    using t2 by (auto simp: tracks_def)
  define mk where "mk txns = zeroMicroBlock\<lparr>mbIsFake := True, mbHash := x, mbGroupId := stGroupId s,
    mbCreateTimeStamp := stMbCreationTime s, mbTxns := txns, mbGenerateNodeList := stAckNodeList s\<rparr>" for txns
  have mk: "mbHash (mk txns) = x" for txns by (simp add: mk_def)
  have "AmAddStable e now1 now2 clk am s = (case amMap am2 x of Some _ \<Rightarrow> Some am2
      | None \<Rightarrow> do { txns \<leftarrow> fake_txns clk (stTxNums s);
          Some (push_stable now2 (am2\<lparr>amMap := (amMap am2)(x \<mapsto> mk txns)\<rparr>) (mk txns)) })"
    using False by (simp only: AmAddStable_def Let_def x_def am1_def am2_def mk_def if_False)
  with a consider "am' = am2"
    | mb where "amMap am2 x = None" "mbHash mb = x" "am' = push_stable now2 (am2\<lparr>amMap := (amMap am2)(x \<mapsto> mb)\<rparr>) mb"
    using mk by (auto simp: bind_Some_conv split: option.splits)
  then show ?thesis
  proof cases
    case 1
    with t2 show ?thesis by simp
  next
    case (2 mb)
    show ?thesis unfolding 2(3) by (rule tracks_push [OF tracks_file [OF t2]]) (use new 2 in auto)
  qed
qed

text \<open>Filling and fetching take out of the pending microblocks and of the queue.\<close>

lemma tracks_fill_one:
  assumes t: "tracks h am out"
  shows "tracks h (snd (fill_one am x)) out"
proof -
  obtain r rest where r: "remove_hash x (amStable am) = (r, rest)" by fastforce
  have "mset ([]::MicroBlock list) + mset rest \<subseteq># mset (amStable am)" using remove_hash_facts [OF r] by simp
  with tracks_take [OF tracks_unpend [OF t, of x], of "[]" rest] tracks_take [OF t, of "[]" rest]
  have "tracks h (am\<lparr>amPending := (amPending am)(x := None), amStable := rest\<rparr>) out" "tracks h (am\<lparr>amStable := rest\<rparr>) out"
    by simp_all
  with t tracks_unpend [OF t, of x] r show ?thesis by (simp add: fill_one_def split: option.split)
qed

lemma tracks_fill_loop: "tracks h am out \<Longrightarrow> tracks h (snd (fill_loop am xs ex mi)) out"
proof (induction xs arbitrary: am ex mi)
  case (Cons x xs)
  obtain found am1 where f: "fill_one am x = (found, am1)" by fastforce
  with tracks_fill_one [OF Cons.prems, of x] Cons.IH [of am1] show ?case by simp
qed simp

lemma tracks_drop_one:
  assumes t: "tracks h am out"
  shows "tracks h (drop_one am x) out"
proof -
  obtain r rest where r: "remove_hash x (amStable am) = (r, rest)" by fastforce
  have "mset ([]::MicroBlock list) + mset rest \<subseteq># mset (amStable am)" using remove_hash_facts [OF r] by simp
  with tracks_take [OF tracks_unpend [OF t, of x], of "[]" rest] r show ?thesis by (simp add: drop_one_def)
qed

lemma tracks_fetch_loop: "tracks h am out \<Longrightarrow> fetch_loop clk p am i xs ex = Some (ex', am') \<Longrightarrow> tracks h am' out"
proof (induction xs arbitrary: am i ex)
  case (Cons x xs)
  from Cons.prems(2) obtain mb where "fetch_loop clk p (drop_one am x) (Suc i) xs (ex @ [mb]) = Some (ex', am')"
    by (auto simp: Let_def bind_Some_conv)
  from Cons.IH [OF tracks_drop_one [OF Cons.prems(1)] this] show ?case .
qed simp

lemma tracks_payload:
  assumes "sort_slice_ok e" and "tracks h am out" and "AmGeneratePayload e am = Some (pl, am')"
  shows "tracks h am' (out @ GenerateHashList pl)"
proof -
  note g = AmGeneratePayload_eq [OF assms(3)]
  have "mset (non_nil (plMicroblockList pl)) + mset (drop (nat (amBsize am)) (payload_queue e am)) = mset (payload_queue e am)"
    using g by (metis append_take_drop_id mset_append)
  then show ?thesis using g tracks_take [OF assms(2)] mset_payload_queue [OF assms(1), of am]
    by (simp add: GenerateHashList_def)
qed

lemma am_step_tracks:
  assumes s: "sort_slice_ok e" and t: "tracks h am out" and st: "am_step e (am, out) ev = Some (am', out')"
    and "ev \<noteq> EvRemove h"
  shows "tracks h am' out'"
proof (cases ev)
  case (EvTxn t1 t2 txn)
  with st obtain r where "AmAddTxn e t1 t2 am txn = Some (r, am')" and o: "out' = out" by (auto simp: bind_Some_conv)
  then obtain n c l where am': "am' = am\<lparr>amTotalTx := n, amCurrSize := c, amTxnList := l\<rparr>" by (elim AmAddTxn_shape)
  show ?thesis unfolding am' o by (rule tracks_frame [OF t]) simp_all
next
  case (EvMicroblock now mb)
  with st tracks_AddMicroblock [OF t] show ?thesis by (auto simp: bind_Some_conv)
next
  case (EvAck t1 t2 ack)
  with st tracks_AddAck [OF t] show ?thesis by auto
next
  case (EvStable t1 t2 clk stb)
  with st tracks_AddStable [OF t] show ?thesis by (auto simp: bind_Some_conv)
next
  case (EvMissing mb)
  with st tracks_file [OF t] show ?thesis by (auto simp: HandleMissingStableMb_def)
next
  case EvPayload
  with st tracks_payload [OF s t] show ?thesis by (auto simp: bind_Some_conv)
next
  case (EvFill p)
  with st tracks_fill_loop [OF t, of "ppHashList p" "[]" "{}"] show ?thesis
    by (auto simp: AmFillProposal_def split: prod.splits)
next
  case (EvFetch clk p)
  with st tracks_fetch_loop [OF t] show ?thesis by (auto simp: FetchMB_def bind_Some_conv)
next
  case (EvRemove x)
  with st assms(4) t show ?thesis by (auto simp: AmRemoveMicroblock_def tracks_def times_seen_def)
qed

lemma am_run_tracks:
  assumes s: "sort_slice_ok e"
  shows "tracks h am out \<Longrightarrow> am_run e (am, out) evs = Some (am', out') \<Longrightarrow> EvRemove h \<notin> set evs \<Longrightarrow> tracks h am' out'"
proof (induction evs arbitrary: am out)
  case (Cons ev evs)
  then obtain am1 out1 where a: "am_step e (am, out) ev = Some (am1, out1)" and r: "am_run e (am1, out1) evs = Some (am', out')"
    by (auto simp: bind_Some_conv)
  from am_step_tracks [OF s Cons.prems(1) a] Cons.prems(3) have "tracks h am1 out1" by auto
  from Cons.IH [OF this r] Cons.prems(3) show ?case by simp
qed simp

section \<open>Properties\<close>

subsection \<open>A small mempool to evaluate\<close>

definition am_env :: AmEnv where
  "am_env = \<lparr>aeBroadcastByGroup = True, aeOnlyworker = False, aeQ = 2, aeGob = (\<lambda>t. replicate 3 0),
     aeHash = \<lparr>heSha3 = (\<lambda>b. b), heTmhash = (\<lambda>b. b), heEncTx = (\<lambda>_. []), heEncBytes = (\<lambda>b. b),
       heEncRaw = (\<lambda>_. []), heTimeString = (\<lambda>_. [])\<rparr>,
     aeRandIntn = (\<lambda>_. 0), aeGroupNum = 1, aeSortSlice = sort_key mbGroupId,
     aeRange = sorted_list_of_set, aeFloat = float_stub\<rparr>"

definition one_group :: GroupManager where
  "one_group = \<lparr>gmVersion = 0, groupNum = 1, memberNum = 2,
     groupList = [\<lparr>groupId = 0, content = {''1'', ''2''}\<rparr>], myGroup = {0}\<rparr>"

definition am0 :: AckMem where
  "am0 = NewAckMem 10 8 100 3 ''1'' one_group None"

definition mb5 :: MicroBlock where
  "mb5 = zeroMicroBlock\<lparr>mbHash := 5, mbSender := ''2''\<rparr>"

definition ack5 :: "NodeID \<Rightarrow> Ack" where
  "ack5 r = \<lparr>ackReceiver = r, ackMicroblockID = 5, ackSignature = [], ackOutGroup = False\<rparr>"

lemma am_env_sort: "sort_slice_ok am_env"
  by (simp add: sort_slice_ok_def am_env_def)

lemmas am_eval = am_env_def am0_def NewAckMem_def mb5_def ack5_def zeroMicroBlock_def one_group_def
  NewMonitorManager_def newMonitor_def AmAddMicroblock_def new_pending_def IsInGroup_def go_index_def
  AmAddAck_def count_ack_def become_stable_def stable_of_def push_stable_def AmGeneratePayload_def am_front_def
  NewPayload_def GenerateHashList_def Let_def

subsection \<open>Proposed once\<close>

text \<open>C24 (proposed once): along every sequence of calls on a new mempool, in any order and with any acknowledgements and
  stable messages, a microblock that is not removed is handed out for a proposal at most once, and is not in the queue
  after that: it occurs at most once among what was handed out and what is queued.  Other microblocks may be removed at
  any time.  \<open>sort.Slice\<close> enters by its documented effect: it permutes.\<close>

theorem microblock_proposed_once:
  assumes "sort_slice_ok e" and "am_run e (NewAckMem b m k q n gm inst, []) evs = Some (am, out)" and "EvRemove h \<notin> set evs"
  shows "count_list (out @ map mbHash (amStable am)) h \<le> 1"
  using am_run_tracks [OF assms(1) tracks_New assms(2,3)] by (simp add: tracks_def times_seen_def split: if_splits)

theorem microblock_proposed_once_witness:
  "\<exists>am. am_run am_env (am0, []) [EvMicroblock 1 mb5, EvAck 2 2 (ack5 ''3''), EvRemove 6, EvAck 3 3 (ack5 ''4''), EvPayload,
       EvMicroblock 4 mb5, EvAck 5 5 (ack5 ''1''), EvPayload] = Some (am, [5]) \<and>
     count_list ([5] @ map mbHash (amStable am)) 5 \<le> 1"
proof -
  let ?evs = "[EvMicroblock 1 mb5, EvAck 2 2 (ack5 ''3''), EvRemove 6, EvAck 3 3 (ack5 ''4''), EvPayload,
       EvMicroblock 4 mb5, EvAck 5 5 (ack5 ''1''), EvPayload]"
  obtain am where "am_run am_env (am0, []) ?evs = Some (am, [5])"
    by (simp add: am_eval AmRemoveMicroblock_def)
  then show ?thesis using microblock_proposed_once [OF am_env_sort, of 10 8 100 3 "''1''" one_group None ?evs am "[5]" 5]
    by (auto simp: am0_def)
qed

text \<open>The hypothesis is needed: removing a microblock forgets that it was proposed, and the same microblock, arriving again,
  is handed out again.\<close>

lemma removed_microblock_proposed_twice:
  "\<exists>am. am_run am_env (am0, []) [EvMicroblock 1 mb5, EvAck 2 2 (ack5 ''3''), EvAck 3 3 (ack5 ''4''), EvPayload, EvRemove 5,
     EvMicroblock 4 mb5, EvAck 5 5 (ack5 ''3''), EvAck 6 6 (ack5 ''4''), EvPayload] = Some (am, [5, 5])"
  by (simp add: am_eval AmRemoveMicroblock_def)

subsection \<open>Counting acknowledgements\<close>

lemma enqueues_mono: "enqueues am am' \<Longrightarrow> amStableMBs am \<subseteq> amStableMBs am'"
  by (auto simp: enqueues_def)

text \<open>Acknowledgements one after the other, each with its clock readings.\<close>

definition AmAddAcks :: "AmEnv \<Rightarrow> AckMem \<Rightarrow> (Time \<times> Time \<times> Ack) list \<Rightarrow> AckMem" where
  "AmAddAcks e am acks = foldl (\<lambda>am (t1, t2, a). AmAddAck e t1 t2 am a) am acks"

text \<open>An acknowledgement counts for a microblock unless it comes from outside the group and microblocks go to groups.\<close>

definition counts_for :: "AmEnv \<Rightarrow> Identifier \<Rightarrow> Ack \<Rightarrow> bool" where
  "counts_for e x a \<longleftrightarrow> ackMicroblockID a = x \<and> \<not> (aeBroadcastByGroup e \<and> ackOutGroup a)"

lemma AmAddAcks_keep:
  assumes "am_ok am" and "x \<in> amStableMBs am"
  shows "x \<in> amStableMBs (AmAddAcks e am acks)"
  using assms
proof (induction acks arbitrary: am)
  case (Cons c acks)
  obtain t1 t2 a where c: "c = (t1, t2, a)" using prod_cases3 by blast
  note E = AmAddAck_enqueues [OF Cons.prems(1), of e t1 t2 a]
  have "am_ok (AmAddAck e t1 t2 am a)" using E by (simp add: enqueues_def)
  moreover have "x \<in> amStableMBs (AmAddAck e t1 t2 am a)" using enqueues_mono [OF E] Cons.prems(2) by blast
  ultimately show ?case using Cons.IH c by (simp add: AmAddAcks_def)
qed (simp add: AmAddAcks_def)

lemma AmAddAck_threshold: "amThreshhold (AmAddAck e t1 t2 am a) = amThreshhold am"
  by (simp add: AmAddAck_def become_stable_def push_stable_def Let_def split: option.split)

text \<open>One acknowledgement of any kind, seen from a microblock below the threshold.\<close>

lemma AmAddAck_counts:
  fixes e :: AmEnv and a :: Ack
  assumes ok: "am_ok am" and p: "amPending am x = Some p" and lt: "pmAckNum p < amThreshhold am"
  defines "n \<equiv> pmAckNum p + (if counts_for e x a then 1 else 0)"
  shows "amThreshhold am \<le> n \<Longrightarrow> x \<in> amStableMBs (AmAddAck e t1 t2 am a)"
    and "n < amThreshhold am \<Longrightarrow> \<exists>p1. amPending (AmAddAck e t1 t2 am a) x = Some p1 \<and> pmAckNum p1 = n"
proof -
  have h: "mbHash (pmMicroblock p) = x" "x \<notin> amStableMBs am" using am_okD(2,3) [OF ok p] by simp_all
  have c: "ackMicroblockID a = x \<Longrightarrow> pmAckNum (count_ack e p a) = n"
    by (simp add: count_ack_def Let_def n_def counts_for_def)
  have other: "ackMicroblockID a \<noteq> x \<Longrightarrow> amPending (AmAddAck e t1 t2 am a) x = Some p"
    using p by (simp add: AmAddAck_def become_stable_def Let_def split: option.split)
  show "x \<in> amStableMBs (AmAddAck e t1 t2 am a)" if "amThreshhold am \<le> n"
  proof -
    have "ackMicroblockID a = x" using that lt by (auto simp: n_def counts_for_def split: if_splits)
    with that c h p show ?thesis by (simp add: AmAddAck_def become_stable_def Let_def)
  qed
  show "\<exists>p1. amPending (AmAddAck e t1 t2 am a) x = Some p1 \<and> pmAckNum p1 = n" if "n < amThreshhold am"
  proof (cases "ackMicroblockID a = x")
    case True
    with that c p show ?thesis by (simp add: AmAddAck_def Let_def)
  next
    case False
    with other show ?thesis by (simp add: n_def counts_for_def)
  qed
qed

text \<open>C25 (acknowledgements): whatever acknowledgements arrive, for this and for other microblocks, from inside and from
  outside its group, a microblock that is pending below the threshold is stable after them exactly when those that count
  for it, added to those counted before, reach the threshold.  When microblocks are sent to groups, the ones from outside
  the group do not count.  They are counted by message: nothing requires them to come from different replicas.\<close>

theorem stable_exactly_at_threshold:
  assumes "am_ok am" and "amPending am x = Some p" and "pmAckNum p < amThreshhold am"
  shows "x \<in> amStableMBs (AmAddAcks e am acks) \<longleftrightarrow>
    amThreshhold am \<le> pmAckNum p + int (length (filter (\<lambda>(_, _, a). counts_for e x a) acks))"
  using assms
proof (induction acks arbitrary: am p)
  case Nil
  then show ?case using am_okD(3) [OF Nil(1,2)] by (simp add: AmAddAcks_def)
next
  case (Cons c acks)
  obtain t1 t2 a where c: "c = (t1, t2, a)" using prod_cases3 by blast
  let ?am = "AmAddAck e t1 t2 am a" and ?n = "pmAckNum p + (if counts_for e x a then 1 else 0)"
  note C = AmAddAck_counts [OF Cons.prems, of e a t1 t2]
  have ok: "am_ok ?am" using AmAddAck_enqueues [OF Cons.prems(1)] by (simp add: enqueues_def)
  have step: "AmAddAcks e am (c # acks) = AmAddAcks e ?am acks" using c by (simp add: AmAddAcks_def)
  show ?case
  proof (cases "amThreshhold am \<le> ?n")
    case True
    with C(1) AmAddAcks_keep [OF ok] show ?thesis unfolding step using c by (simp split: if_splits)
  next
    case False
    with C(2) obtain p1 where p1: "amPending ?am x = Some p1" "pmAckNum p1 = ?n" by auto
    with Cons.IH [OF ok p1(1)] False show ?thesis unfolding step using c by (simp add: AmAddAck_threshold add.assoc)
  qed
qed

theorem stable_exactly_at_threshold_witness:
  "\<exists>am p. AmAddMicroblock am_env 1 am0 mb5 = Some am \<and> amPending am 5 = Some p \<and>
     5 \<in> amStableMBs (AmAddAcks am_env am [(2, 2, ack5 ''3''), (3, 4, (ack5 ''4'')\<lparr>ackOutGroup := True\<rparr>), (5, 5, ack5 ''3'')]) \<and>
     5 \<notin> amStableMBs (AmAddAcks am_env am [(2, 2, ack5 ''3''), (3, 4, (ack5 ''4'')\<lparr>ackOutGroup := True\<rparr>)])"
proof -
  obtain am p where a: "AmAddMicroblock am_env 1 am0 mb5 = Some am" and p: "amPending am 5 = Some p"
    "pmAckNum p = 1" "amThreshhold am = 3" by (simp add: am_eval)
  have ok: "am_ok am"
    using AmAddMicroblock_enqueues [OF _ a] am_ok_New by (simp add: enqueues_def am0_def)
  have e: "counts_for am_env 5 (ack5 r)" "\<not> counts_for am_env 5 ((ack5 r)\<lparr>ackOutGroup := True\<rparr>)" for r
    by (simp_all add: counts_for_def ack5_def am_env_def)
  note S = stable_exactly_at_threshold [OF ok p(1)]
  show ?thesis using a p e
      S [of am_env "[(2, 2, ack5 ''3''), (3, 4, (ack5 ''4'')\<lparr>ackOutGroup := True\<rparr>), (5, 5, ack5 ''3'')]"]
      S [of am_env "[(2, 2, ack5 ''3''), (3, 4, (ack5 ''4'')\<lparr>ackOutGroup := True\<rparr>)]"]
    by (intro exI [of _ am] exI [of _ p]) simp
qed

subsection \<open>Filling proposals\<close>

text \<open>C26 (filled proposals): from a proposal without repeated identifiers the mempool builds a pending block that, once
  the microblocks it reports missing have arrived, in any order and among any others, hands over a block
  with the proposal's header and exactly the proposal's microblocks.\<close>

theorem filled_proposal_completes:
  assumes "am_ok am" and "distinct (ppHashList p)" and "mbs \<noteq> []"
    and "pdMissingMap (fst (AmFillProposal am p)) \<subseteq> mbHash ` set mbs"
  shows "\<exists>b pl. last (fst (PendingAddAll (fst (AmFillProposal am p)) mbs)) = Some b \<and> blkHeader b = ppHeader p \<and>
    blkPayload b = Some pl \<and> set (GenerateHashList pl) = set (ppHashList p)"
  by (rule amf.fill_then_arrive [OF assms])

theorem filled_proposal_completes_witness:
  "\<exists>am b. AmAddMicroblock am_env 1 am0 mb5 = Some am \<and>
     pdMissingMap (fst (AmFillProposal am (sample_proposal [5, 6]))) = {6} \<and>
     last (fst (PendingAddAll (fst (AmFillProposal am (sample_proposal [5, 6]))) [zeroMicroBlock\<lparr>mbHash := 6\<rparr>])) = Some b"
proof -
  obtain am where a: "AmAddMicroblock am_env 1 am0 mb5 = Some am"
    and m: "pdMissingMap (fst (AmFillProposal am (sample_proposal [5, 6]))) = {6}"
    by (simp add: am_eval AmFillProposal_def fill_one_def sample_proposal_def NewPendingBlock_def)
  have ok: "am_ok am"
    using AmAddMicroblock_enqueues [OF _ a] am_ok_New by (simp add: enqueues_def am0_def)
  have d: "distinct (ppHashList (sample_proposal [5, 6]))" by (simp add: sample_proposal_def)
  from filled_proposal_completes [OF ok d, of "[zeroMicroBlock\<lparr>mbHash := 6\<rparr>]"] a m show ?thesis
    by (auto simp del: PendingAddAll.simps)
qed

subsection \<open>Batching\<close>

definition am_batch_inv :: "AmEnv \<Rightarrow> int \<Rightarrow> AckMem \<Rightarrow> bool" where
  "am_batch_inv e m am \<longleftrightarrow> amMsize am = m \<and> m < 2 ^ 62 \<and> batch_ok (SizeOf (aeGob e)) m (amCurrSize am) (amTxnList am)"

lemma AmAddTxn_batch:
  assumes i: "am_batch_inv e m am" and a: "AmAddTxn e t1 t2 am t = Some ((r, mbo), am')"
  shows "batch_step (SizeOf (aeGob e)) m (amTxnList am) t mbo (amTxnList am') \<and> am_batch_inv e m am'"
proof (cases "AmRemainingTx am \<ge> amMemsize am \<or> AmRemainingMB am \<ge> amMemsize am \<or> SizeOf (aeGob e) t > amMsize am")
  case True
  with a have "mbo = None" and "am' = am \<or> am' = am\<lparr>amTotalTx := i64 (amTotalTx am + 1)\<rparr>"
    by (auto simp: AmAddTxn_def Let_def split: if_splits)
  with i show ?thesis by (auto simp: batch_step_def am_batch_inv_def)
next
  case False
  with a obtain cur txns where b: "batch_txn (NewMicroblock (aeHash e) (aeRandIntn e) (aeGroupNum e) t1 t2 0)
      (amMsize am) (SizeOf (aeGob e) t) (amCurrSize am) (amTxnList am) t = Some ((r, mbo), cur, txns)"
    and am': "amCurrSize am' = cur" "amTxnList am' = txns" "amMsize am' = amMsize am"
    by (auto simp: AmAddTxn_def Let_def bind_Some_conv)
  have "0 \<le> SizeOf (aeGob e) t" "SizeOf (aeGob e) t \<le> amMsize am" using False by (auto simp: SizeOf_def)
  from batch_txn_step [where sz = "SizeOf (aeGob e)", OF b NewMicroblock_txns _ this] i am' show ?thesis by (simp add: am_batch_inv_def)
qed

interpretation amb: txn_batcher "AmAddTxn e t1 t2" amTxnList "am_batch_inv e m" "SizeOf (aeGob e)" m for e t1 t2 m
  by unfold_locales (use AmAddTxn_batch in blast)+

text \<open>Batching: whatever transactions arrive at a new mempool, every microblock it cuts stays within the byte limit,
  and the microblocks followed by the waiting list are a subsequence of the arrivals: nothing is invented,
  repeated or reordered.\<close>

theorem transactions_batched_in_order:
  assumes "0 \<le> m" and "m < 2 ^ 62" and "add_all (AmAddTxn e t1 t2) (NewAckMem b m k q n gm inst) ts = Some (mbs, am)"
  shows "(\<forall>mb\<in>set mbs. sum_list (map (SizeOf (aeGob e)) (mbTxns mb)) \<le> m) \<and>
    subseq (concat (map mbTxns mbs) @ amTxnList am) ts"
proof -
  have "am_batch_inv e m (NewAckMem b m k q n gm inst)"
    using assms(1,2) by (simp add: am_batch_inv_def NewAckMem_def batch_ok_def)
  from amb.add_all_step [OF this assms(3)] show ?thesis by (auto simp: NewAckMem_def)
qed

theorem transactions_batched_in_order_witness:
  "\<exists>mbs am. add_all (AmAddTxn am_env 1 1) am0 [zeroTransaction, zeroTransaction, zeroTransaction] = Some (mbs, am) \<and>
     map mbTxns mbs = [[zeroTransaction, zeroTransaction]] \<and>
     (\<forall>mb\<in>set mbs. sum_list (map (SizeOf (aeGob am_env)) (mbTxns mb)) \<le> 8)"
proof -
  obtain mbs am where a: "add_all (AmAddTxn am_env 1 1) am0 [zeroTransaction, zeroTransaction, zeroTransaction] = Some (mbs, am)"
    and m: "map mbTxns mbs = [[zeroTransaction, zeroTransaction]]"
    by (simp add: am_eval AmAddTxn_def AmRemainingTx_def AmRemainingMB_def SizeOf_def batch_txn_def i64_def
        NewMicroblock_def GenerateGroupIdByRand_def numeral_3_eq_3)
  from transactions_batched_in_order [of 8 am_env 1 1 10 100 3 "''1''" one_group None, folded am0_def, OF _ _ a] a m
  show ?thesis by auto
qed

subsection \<open>Deviations\<close>

text \<open>A microblock that has arrived is never found; only the stand-ins are.\<close>

lemma arrived_microblock_not_found:
  assumes "amMap am x = Some mb" and "\<not> mbIsFake mb"
  shows "AmFindMicroblock am x = (False, None)"
  using assms by (simp add: AmFindMicroblock_def)

text \<open>A stable message for an unknown microblock with a negative transaction count ends the process.\<close>

lemma negative_count_panics:
  assumes "stMicroblockID s \<notin> amStableMBs am" and "amMap am (stMicroblockID s) = None" and "stTxNums s < 0"
  shows "AmAddStable e t1 t2 clk am s = None"
  using assms by (auto simp: AmAddStable_def Let_def fake_txns_def split: option.split)

end
