(* ===== verification/NaiveMem.thy ===== *)
theory NaiveMem
  imports Mempool
begin

text \<open>
  The first-in-first-out mempool (src/mempool/naivemem.go).

  \<open>FillProposal\<close> compares microblocks as pointers, so the queue and the map hold references: an address
  with the microblock it points to.  \<open>NmEnv\<close> is what the code takes from outside.
\<close>

section \<open>State\<close>

type_synonym MbRef = "nat \<times> MicroBlock"

record NmEnv =
  neGob :: "Transaction \<Rightarrow> Bytes"
  neHash :: HashEnv
  neRandIntn :: "int \<Rightarrow> int"
  neGroupNum :: int

record NaiveMem =
  nmMicroblocks :: "MbRef list"
  nmTxnList :: "Transaction list"
  nmMap :: "Identifier \<rightharpoonup> MbRef"
  nmBsize :: int
  nmMsize :: int
  nmMemsize :: int
  nmCurrSize :: int
  nmTotalTx :: int

definition NewNaiveMem :: "int \<Rightarrow> int \<Rightarrow> int \<Rightarrow> NaiveMem" where
  "NewNaiveMem bsize msize memsize =
     \<lparr>nmMicroblocks = [], nmTxnList = [], nmMap = Map.empty, nmBsize = bsize, nmMsize = msize,
      nmMemsize = memsize, nmCurrSize = 0, nmTotalTx = 0\<rparr>"

section \<open>Sizes and the operations without effect\<close>

definition NmTotalTx :: "NaiveMem \<Rightarrow> int" where "NmTotalTx nm = nmTotalTx nm"

definition NmRemainingTx :: "NaiveMem \<Rightarrow> int" where "NmRemainingTx nm = int (length (nmTxnList nm))"

definition NmTotalMB :: "NaiveMem \<Rightarrow> int" where "NmTotalMB nm = int (maplen (nmMap nm))"

definition NmRemainingMB :: "NaiveMem \<Rightarrow> int" where "NmRemainingMB nm = int (length (nmMicroblocks nm))"

definition NmStableMB :: "NaiveMem \<Rightarrow> int" where "NmStableMB nm = 0"

definition NmPendingMB :: "NaiveMem \<Rightarrow> int" where "NmPendingMB nm = 0"

definition NmAddAck :: "NaiveMem \<Rightarrow> Ack \<Rightarrow> NaiveMem" where "NmAddAck nm ack = nm"

definition NmAckList :: "NaiveMem \<Rightarrow> Identifier \<Rightarrow> NodeID list" where "NmAckList nm x = []"

definition NmIsStable :: "NaiveMem \<Rightarrow> Identifier \<Rightarrow> bool" where "NmIsStable nm x \<longleftrightarrow> False"

definition NmCheckExistence :: "NaiveMem \<Rightarrow> Proposal \<Rightarrow> bool \<times> Identifier list" where
  "NmCheckExistence nm p = (False, [])"

section \<open>Operations\<close>

definition NmAddTxn ::
  "NmEnv \<Rightarrow> Time \<Rightarrow> Time \<Rightarrow> NaiveMem \<Rightarrow> Transaction \<Rightarrow> ((bool \<times> MicroBlock option) \<times> NaiveMem) option" where
  "NmAddTxn e now1 now2 nm txn =
     (if NmRemainingTx nm \<ge> nmMemsize nm then Some ((False, None), nm)
      else if NmRemainingMB nm \<ge> nmMemsize nm then Some ((False, None), nm)
      else
        let tranSize = SizeOf (neGob e) txn in
        if tranSize > nmMsize nm then Some ((False, None), nm)
        else do {
          (r, cur, txns) \<leftarrow> batch_txn (NewMicroblock (neHash e) (neRandIntn e) (neGroupNum e) now1 now2 0)
                             (nmMsize nm) tranSize (nmCurrSize nm) (nmTxnList nm) txn;
          Some (r, nm\<lparr>nmTotalTx := i64 (nmTotalTx nm + 1), nmCurrSize := cur, nmTxnList := txns\<rparr>) })"

definition NmAddMicroblock :: "NaiveMem \<Rightarrow> MbRef \<Rightarrow> NaiveMem" where
  "NmAddMicroblock nm r =
     (if nmMap nm (mbHash (snd r)) \<noteq> None then nm
      else nm\<lparr>nmMicroblocks := nmMicroblocks nm @ [r], nmMap := (nmMap nm)(mbHash (snd r) \<mapsto> r)\<rparr>)"

definition nm_front :: "NaiveMem \<Rightarrow> MbRef option \<times> NaiveMem" where
  "nm_front nm = (case nmMicroblocks nm of [] \<Rightarrow> (None, nm) | r # rest \<Rightarrow> (Some r, nm\<lparr>nmMicroblocks := rest\<rparr>))"

fun nm_take :: "nat \<Rightarrow> NaiveMem \<Rightarrow> MbRef list \<Rightarrow> MbRef list \<times> NaiveMem" where
  "nm_take 0 nm acc = (acc, nm)"
| "nm_take (Suc n) nm acc =
     (case nm_front nm of (None, nm1) \<Rightarrow> (acc, nm1) | (Some r, nm1) \<Rightarrow> nm_take n nm1 (acc @ [r]))"

definition NmGeneratePayload :: "NaiveMem \<Rightarrow> Payload \<times> NaiveMem" where
  "NmGeneratePayload nm =
     (let batchSize = (if NmRemainingMB nm \<ge> nmBsize nm then nmBsize nm else NmRemainingMB nm) in
      case nm_take (nat batchSize) nm [] of
        (rs, nm1) \<Rightarrow> (NewPayload (map (\<lambda>r. Some (snd r)) rs) Map.empty [] [], nm1))"

definition NmRemoveMicroblock :: "NaiveMem \<Rightarrow> Identifier \<Rightarrow> error option \<times> NaiveMem" where
  "NmRemoveMicroblock nm x =
     (if nmMap nm x \<noteq> None then (None, nm\<lparr>nmMap := (nmMap nm)(x := None)\<rparr>)
      else (Some ''the microblock does not exist'', nm))"

definition NmFindMicroblock :: "NaiveMem \<Rightarrow> Identifier \<Rightarrow> bool \<times> MicroBlock option" where
  "NmFindMicroblock nm x = (case nmMap nm x of None \<Rightarrow> (False, None) | Some r \<Rightarrow> (True, Some (snd r)))"

text \<open>The loop over the queue removes the first element with the same address.\<close>

fun remove_ref :: "nat \<Rightarrow> MbRef list \<Rightarrow> MbRef list" where
  "remove_ref a [] = []"
| "remove_ref a (r # rs) = (if fst r = a then rs else r # remove_ref a rs)"

fun nm_fill ::
  "NaiveMem \<Rightarrow> Identifier list \<Rightarrow> MicroBlock list \<Rightarrow> Identifier set \<Rightarrow> (MicroBlock list \<times> Identifier set) \<times> NaiveMem" where
  "nm_fill nm [] existing missing = ((existing, missing), nm)"
| "nm_fill nm (x # xs) existing missing =
     (case nmMap nm x of
        Some r \<Rightarrow> nm_fill (nm\<lparr>nmMicroblocks := remove_ref (fst r) (nmMicroblocks nm)\<rparr>) xs (existing @ [snd r]) missing
      | None \<Rightarrow> nm_fill nm xs existing (insert x missing))"

definition NmFillProposal :: "NaiveMem \<Rightarrow> Proposal \<Rightarrow> PendingBlock \<times> NaiveMem" where
  "NmFillProposal nm p =
     (case nm_fill nm (ppHashList p) [] {} of
        ((existing, missing), nm1) \<Rightarrow> (NewPendingBlock p missing (map Some existing), nm1))"

definition NmFillProposalFromGroup :: "NaiveMem \<Rightarrow> Proposal \<Rightarrow> PendingBlock \<times> NaiveMem" where
  "NmFillProposalFromGroup nm p =
     (case nm_fill nm (ppHashList p) [] {} of
        ((existing, missing), nm1) \<Rightarrow> (NewPendingBlock p missing (map Some existing), nm1))"

definition NmFillProposalByGroup :: "NaiveMem \<Rightarrow> Proposal \<Rightarrow> PendingBlock \<times> NaiveMem" where
  "NmFillProposalByGroup nm p =
     (case nm_fill nm (ppHashList p) [] {} of
        ((existing, missing), nm1) \<Rightarrow> (NewPendingBlock p missing (map Some existing), nm1))"

section \<open>Invariant and contracts\<close>

definition nm_ok :: "NaiveMem \<Rightarrow> bool" where
  "nm_ok nm \<longleftrightarrow> (\<forall>x r. nmMap nm x = Some r \<longrightarrow> mbHash (snd r) = x)"

lemma nm_ok_New [inv_intros]: "nm_ok (NewNaiveMem b m k)"
  by (simp add: nm_ok_def NewNaiveMem_def)

lemma nm_ok_Add [inv_intros]: "nm_ok nm \<Longrightarrow> nm_ok (NmAddMicroblock nm r)"
  by (simp add: nm_ok_def NmAddMicroblock_def)

lemma nm_ok_Remove [inv_intros]: "nm_ok nm \<Longrightarrow> nm_ok (snd (NmRemoveMicroblock nm x))"
  by (simp add: nm_ok_def NmRemoveMicroblock_def)

lemma nm_take_eq:
  "nm_take n nm acc = (acc @ take n (nmMicroblocks nm), nm\<lparr>nmMicroblocks := drop n (nmMicroblocks nm)\<rparr>)"
proof (induction n arbitrary: nm acc)
  case (Suc n)
  then show ?case by (cases "nmMicroblocks nm") (simp_all add: nm_front_def)
qed simp

lemma NmGeneratePayload_eq:
  "NmGeneratePayload nm =
     (NewPayload (map (\<lambda>r. Some (snd r)) (take (nat (nmBsize nm)) (nmMicroblocks nm))) Map.empty [] [],
      nm\<lparr>nmMicroblocks := drop (nat (nmBsize nm)) (nmMicroblocks nm)\<rparr>)"
proof (cases "NmRemainingMB nm \<ge> nmBsize nm")
  case True
  then show ?thesis by (simp add: NmGeneratePayload_def nm_take_eq Let_def)
next
  case False
  then have "length (nmMicroblocks nm) \<le> nat (nmBsize nm)" by (simp add: NmRemainingMB_def)
  with False show ?thesis by (simp add: NmGeneratePayload_def nm_take_eq NmRemainingMB_def Let_def)
qed

lemma nm_fill_facts:
  assumes "nm_ok nm" and "nm_fill nm xs ex mi = ((ex', mi'), nm')"
  shows "nmMap nm' = nmMap nm \<and> mbHash ` set ex' = mbHash ` set ex \<union> (set xs \<inter> dom (nmMap nm)) \<and>
    mi' = mi \<union> (set xs - dom (nmMap nm))"
  using assms
proof (induction xs arbitrary: nm ex mi)
  case Nil
  then show ?case by simp
next
  case (Cons x xs)
  show ?case
  proof (cases "nmMap nm x")
    case None
    with Cons.prems Cons.IH [of nm ex "insert x mi"] show ?thesis by auto
  next
    case (Some r)
    let ?nm1 = "nm\<lparr>nmMicroblocks := remove_ref (fst r) (nmMicroblocks nm)\<rparr>"
    have h: "mbHash (snd r) = x" using Cons.prems(1) Some unfolding nm_ok_def by blast
    have ok1: "nm_ok ?nm1" using Cons.prems(1) by (simp add: nm_ok_def)
    from Cons.prems(2) Some have "nm_fill ?nm1 xs (ex @ [snd r]) mi = ((ex', mi'), nm')" by simp
    from Cons.IH [OF ok1 this] h Some show ?thesis by auto
  qed
qed

interpretation nmf: proposal_filler NmFillProposal nm_ok
proof
  fix nm p
  show "pdProposal (fst (NmFillProposal nm p)) = p"
    by (simp add: NmFillProposal_def NewPendingBlock_def split: prod.split)
  assume ok: "nm_ok nm"
  obtain ex mi nm' where f: "nm_fill nm (ppHashList p) [] {} = ((ex, mi), nm')" by (metis prod.exhaust)
  note F = nm_fill_facts [OF ok f]
  show "nm_ok (snd (NmFillProposal nm p))" using ok F f by (simp add: NmFillProposal_def nm_ok_def)
  show "pd_ok (fst (NmFillProposal nm p))"
    using F f by (auto simp: NmFillProposal_def pd_ok_def NewPendingBlock_def GenerateHashList_def NewPayload_def)
qed

definition nm_batch_inv :: "NmEnv \<Rightarrow> int \<Rightarrow> NaiveMem \<Rightarrow> bool" where
  "nm_batch_inv e m nm \<longleftrightarrow> nmMsize nm = m \<and> m < 2 ^ 62 \<and> batch_ok (SizeOf (neGob e)) m (nmCurrSize nm) (nmTxnList nm)"

lemma NmAddTxn_batch:
  assumes i: "nm_batch_inv e m nm" and a: "NmAddTxn e t1 t2 nm t = Some ((r, mbo), nm')"
  shows "batch_step (SizeOf (neGob e)) m (nmTxnList nm) t mbo (nmTxnList nm') \<and> nm_batch_inv e m nm'"
proof (cases "NmRemainingTx nm \<ge> nmMemsize nm \<or> NmRemainingMB nm \<ge> nmMemsize nm \<or> SizeOf (neGob e) t > nmMsize nm")
  case True
  with a have "mbo = None" and "nm' = nm" by (auto simp: NmAddTxn_def Let_def split: if_splits)
  with i show ?thesis by (simp add: batch_step_def)
next
  case False
  with a obtain cur txns where b: "batch_txn (NewMicroblock (neHash e) (neRandIntn e) (neGroupNum e) t1 t2 0)
      (nmMsize nm) (SizeOf (neGob e) t) (nmCurrSize nm) (nmTxnList nm) t = Some ((r, mbo), cur, txns)"
    and nm': "nmCurrSize nm' = cur" "nmTxnList nm' = txns" "nmMsize nm' = nmMsize nm"
    by (auto simp: NmAddTxn_def Let_def bind_Some_conv)
  have "0 \<le> SizeOf (neGob e) t" "SizeOf (neGob e) t \<le> nmMsize nm" using False by (auto simp: SizeOf_def)
  from batch_txn_step [where sz = "SizeOf (neGob e)", OF b NewMicroblock_txns _ this] i nm' show ?thesis
    by (simp add: nm_batch_inv_def)
qed

interpretation nmb: txn_batcher "NmAddTxn e t1 t2" nmTxnList "nm_batch_inv e m" "SizeOf (neGob e)" m for e t1 t2 m
  by unfold_locales (use NmAddTxn_batch in blast)+

section \<open>First in, first out\<close>

datatype nm_event = NmAdd MbRef | NmPropose

fun nm_run :: "NaiveMem \<times> Identifier list \<Rightarrow> nm_event list \<Rightarrow> NaiveMem \<times> Identifier list" where
  "nm_run s [] = s"
| "nm_run (nm, out) (NmAdd r # evs) = nm_run (NmAddMicroblock nm r, out) evs"
| "nm_run (nm, out) (NmPropose # evs) =
     (case NmGeneratePayload nm of (pl, nm1) \<Rightarrow> nm_run (nm1, out @ GenerateHashList pl) evs)"

definition added_hashes :: "nm_event list \<Rightarrow> Identifier list" where
  "added_hashes evs = concat (map (\<lambda>ev. case ev of NmAdd r \<Rightarrow> [mbHash (snd r)] | NmPropose \<Rightarrow> []) evs)"

text \<open>The first occurrence of each element, in order.\<close>

definition firsts :: "'a list \<Rightarrow> 'a list" where
  "firsts xs = rev (remdups (rev xs))"

lemma firsts_snoc: "firsts (xs @ [x]) = (if x \<in> set xs then firsts xs else firsts xs @ [x])"
  by (simp add: firsts_def)

lemma set_firsts [simp]: "set (firsts xs) = set xs"
  by (simp add: firsts_def)

lemma GenerateHashList_of_rows:
  "GenerateHashList (NewPayload (map (\<lambda>r. Some (snd r)) rs) sg ak tn) = map (mbHash \<circ> snd) rs"
  using non_nil_map_Some [of "map snd rs"] by (simp add: GenerateHashList_def NewPayload_def comp_def)

lemma nm_run_queue:
  assumes "out @ map (mbHash \<circ> snd) (nmMicroblocks nm) = firsts hs" and "dom (nmMap nm) = set hs"
    and "nm_run (nm, out) evs = (nm', out')"
  shows "out' @ map (mbHash \<circ> snd) (nmMicroblocks nm') = firsts (hs @ added_hashes evs)"
  using assms
proof (induction evs arbitrary: nm out hs)
  case Nil
  then show ?case by (simp add: added_hashes_def)
next
  case (Cons ev evs)
  show ?case
  proof (cases ev)
    case (NmAdd r)
    let ?h = "mbHash (snd r)"
    have q: "out @ map (mbHash \<circ> snd) (nmMicroblocks (NmAddMicroblock nm r)) = firsts (hs @ [?h])"
    proof (cases "nmMap nm ?h")
      case None
      then have "?h \<notin> set hs" using Cons.prems(2) by auto
      with None Cons.prems(1) show ?thesis by (simp add: NmAddMicroblock_def firsts_snoc comp_def flip: append_assoc)
    next
      case (Some a)
      then have "?h \<in> set hs" using Cons.prems(2) by auto
      with Some Cons.prems(1) show ?thesis by (simp add: NmAddMicroblock_def firsts_snoc comp_def)
    qed
    have d: "dom (nmMap (NmAddMicroblock nm r)) = set (hs @ [?h])"
      using Cons.prems(2) by (auto simp: NmAddMicroblock_def)
    from Cons.IH [OF q d] Cons.prems(3) NmAdd show ?thesis by (simp add: added_hashes_def)
  next
    case NmPropose
    let ?n = "nat (nmBsize nm)" and ?q = "nmMicroblocks nm"
    have run: "nm_run (nm\<lparr>nmMicroblocks := drop ?n ?q\<rparr>, out @ map (mbHash \<circ> snd) (take ?n ?q)) evs = (nm', out')"
      using Cons.prems(3) NmPropose by (simp add: NmGeneratePayload_eq GenerateHashList_of_rows)
    have q: "(out @ map (mbHash \<circ> snd) (take ?n ?q)) @ map (mbHash \<circ> snd) (nmMicroblocks (nm\<lparr>nmMicroblocks := drop ?n ?q\<rparr>)) = firsts hs"
      using Cons.prems(1) by (simp add: comp_def flip: map_append)
    from Cons.IH [OF q _ run] Cons.prems(2) NmPropose show ?thesis by (simp add: added_hashes_def)
  qed
qed

text \<open>FIFO: over any interleaving of arriving microblocks and payload requests on a new mempool, what has been
  proposed followed by what is queued is the sequence of arrivals with later duplicates left out.\<close>

theorem naive_mempool_is_fifo:
  assumes "nm_run (NewNaiveMem b m k, []) evs = (nm, out)"
  shows "out @ map (mbHash \<circ> snd) (nmMicroblocks nm) = firsts (added_hashes evs)"
  using nm_run_queue [OF _ _ assms, of "[]"] by (simp add: NewNaiveMem_def firsts_def)

theorem naive_mempool_is_fifo_witness:
  "\<exists>nm. nm_run (NewNaiveMem 1 9 9, []) [NmAdd (0, zeroMicroBlock\<lparr>mbHash := 4\<rparr>), NmAdd (1, zeroMicroBlock\<lparr>mbHash := 7\<rparr>),
       NmPropose, NmAdd (2, zeroMicroBlock\<lparr>mbHash := 4\<rparr>)] = (nm, [4]) \<and>
     [4] @ map (mbHash \<circ> snd) (nmMicroblocks nm) = [4, 7]"
proof -
  let ?evs = "[NmAdd (0, zeroMicroBlock\<lparr>mbHash := 4\<rparr>), NmAdd (1, zeroMicroBlock\<lparr>mbHash := 7\<rparr>),
       NmPropose, NmAdd (2, zeroMicroBlock\<lparr>mbHash := 4\<rparr>)]"
  obtain nm where r: "nm_run (NewNaiveMem 1 9 9, []) ?evs = (nm, [4])"
    by (simp add: NewNaiveMem_def NmAddMicroblock_def NmGeneratePayload_eq NewPayload_def GenerateHashList_def)
  have "firsts (added_hashes ?evs) = [4, 7]" by (simp add: added_hashes_def firsts_def)
  with naive_mempool_is_fifo [OF r] r show ?thesis by metis
qed

end
