(* ===== verification/PriorityQueue.thy ===== *)
theory PriorityQueue
  imports Prelude "HOL-Library.Multiset"
begin

text \<open>
  The priority queue (src/pq/pq.go) on top of \<open>container/heap\<close>.

  Items are objects: the heap is a list of addresses into a store, and the lookup table maps a value to the
  address of its item, so that the index that \<open>Swap\<close> writes into an item is the one \<open>Remove\<close> and
  \<open>UpdatePriority\<close> read through the table.  \<open>heap_up\<close>, \<open>heap_down\<close> and the four operations on top of them are those
  of the standard library.  An index out of range panics.

  The invariant joins the structure (indices, table, store) and the heap order, which during an operation holds
  except around one position.  The queue then implements a map from values to priorities.
\<close>

section \<open>State\<close>

record 'v item =
  itValue :: 'v
  itPriority :: int
  itIndex :: nat

record 'v PriorityQueue =
  itemHeap :: "nat list"
  itemStore :: "nat \<rightharpoonup> 'v item"
  nextItem :: nat
  lookup :: "'v \<rightharpoonup> nat"

definition NewPriorityQueue :: "'v PriorityQueue" where
  "NewPriorityQueue = \<lparr>itemHeap = [], itemStore = Map.empty, nextItem = 0, lookup = Map.empty\<rparr>"

definition the_item :: "'v PriorityQueue \<Rightarrow> nat \<Rightarrow> 'v item" where
  "the_item p a = the (itemStore p a)"

definition PqLen :: "'v PriorityQueue \<Rightarrow> int" where
  "PqLen p = int (length (itemHeap p))"

text \<open>The methods of \<open>itemHeap\<close>, for indices in range.\<close>

definition ihLess :: "'v PriorityQueue \<Rightarrow> nat \<Rightarrow> nat \<Rightarrow> bool" where
  "ihLess p i j \<longleftrightarrow> itPriority (the_item p (itemHeap p ! i)) < itPriority (the_item p (itemHeap p ! j))"

definition set_index :: "nat \<Rightarrow> nat \<Rightarrow> 'v PriorityQueue \<Rightarrow> 'v PriorityQueue" where
  "set_index a i p = p\<lparr>itemStore := (itemStore p)(a \<mapsto> (the_item p a)\<lparr>itIndex := i\<rparr>)\<rparr>"

definition ihSwap :: "'v PriorityQueue \<Rightarrow> nat \<Rightarrow> nat \<Rightarrow> 'v PriorityQueue" where
  "ihSwap p i j =
     (let h = (itemHeap p)[i := itemHeap p ! j, j := itemHeap p ! i]
      in set_index (h ! j) j (set_index (h ! i) i (p\<lparr>itemHeap := h\<rparr>)))"

definition ihPush :: "'v PriorityQueue \<Rightarrow> nat \<Rightarrow> 'v PriorityQueue" where
  "ihPush p a = (set_index a (length (itemHeap p)) p)\<lparr>itemHeap := itemHeap p @ [a]\<rparr>"

definition ihPop :: "'v PriorityQueue \<Rightarrow> nat \<times> 'v PriorityQueue" where
  "ihPop p = (last (itemHeap p), p\<lparr>itemHeap := butlast (itemHeap p)\<rparr>)"

section \<open>The standard library's heap\<close>

text \<open>\<open>(j - 1) / 2\<close> is 0 at 0 in Go as well.\<close>

function heap_up :: "'v PriorityQueue \<Rightarrow> nat \<Rightarrow> 'v PriorityQueue" where
  "heap_up p j =
     (let i = (j - 1) div 2 in
      if i = j \<or> \<not> ihLess p j i then p else heap_up (ihSwap p i j) i)"
  by auto
termination
  by (relation "measure snd") auto

definition min_child :: "'v PriorityQueue \<Rightarrow> nat \<Rightarrow> nat \<Rightarrow> nat" where
  "min_child p i n = (let j1 = 2 * i + 1; j2 = j1 + 1 in if j2 < n \<and> ihLess p j2 j1 then j2 else j1)"

text \<open>The second component is the final position; \<open>down\<close> returns whether it is beyond the first.\<close>

function heap_down :: "'v PriorityQueue \<Rightarrow> nat \<Rightarrow> nat \<Rightarrow> 'v PriorityQueue \<times> nat" where
  "heap_down p i n =
     (if 2 * i + 1 \<ge> n then (p, i)
      else let j = min_child p i n in
        if \<not> ihLess p j i then (p, i) else heap_down (ihSwap p i j) j n)"
  by auto
termination
  by (relation "measure (\<lambda>(p, i, n). n - i)") (auto simp: min_child_def Let_def)

declare heap_up.simps [simp del] heap_down.simps [simp del]

definition heap_Push :: "'v PriorityQueue \<Rightarrow> nat \<Rightarrow> 'v PriorityQueue" where
  "heap_Push p a = (let p1 = ihPush p a in heap_up p1 (length (itemHeap p1) - 1))"

definition heap_Pop :: "'v PriorityQueue \<Rightarrow> nat \<times> 'v PriorityQueue" where
  "heap_Pop p = (let n = length (itemHeap p) - 1 in ihPop (fst (heap_down (ihSwap p 0 n) 0 n)))"

definition sift :: "'v PriorityQueue \<Rightarrow> nat \<Rightarrow> nat \<Rightarrow> 'v PriorityQueue" where
  "sift p i n = (case heap_down p i n of (p1, i1) \<Rightarrow> if i1 > i then p1 else heap_up p1 i)"

definition heap_Remove :: "'v PriorityQueue \<Rightarrow> nat \<Rightarrow> (nat \<times> 'v PriorityQueue) option" where
  "heap_Remove p i =
     (let n = length (itemHeap p) - 1 in
      if i \<ge> length (itemHeap p) then None
      else if n \<noteq> i then Some (ihPop (sift (ihSwap p i n) i n)) else Some (ihPop p))"

definition heap_Fix :: "'v PriorityQueue \<Rightarrow> nat \<Rightarrow> 'v PriorityQueue option" where
  "heap_Fix p i = (if i \<ge> length (itemHeap p) then None else Some (sift p i (length (itemHeap p))))"

section \<open>Operations\<close>

definition PqInsert :: "'v PriorityQueue \<Rightarrow> 'v \<Rightarrow> int \<Rightarrow> 'v PriorityQueue" where
  "PqInsert p v priority =
     (if lookup p v \<noteq> None then p
      else
        let a = nextItem p;
            p1 = p\<lparr>itemStore := (itemStore p)(a \<mapsto> \<lparr>itValue = v, itPriority = priority, itIndex = 0\<rparr>), nextItem := Suc a\<rparr>;
            p2 = heap_Push p1 a
        in p2\<lparr>lookup := (lookup p2)(v \<mapsto> a)\<rparr>)"

definition PqRemove :: "'v PriorityQueue \<Rightarrow> 'v \<Rightarrow> (error option \<times> 'v PriorityQueue) option" where
  "PqRemove p v =
     (case lookup p v of
        None \<Rightarrow> Some (Some ''the value does not exist in the priority queue'', p)
      | Some a \<Rightarrow>
          do { (_, p1) \<leftarrow> heap_Remove p (itIndex (the_item p a));
               Some (None, p1\<lparr>lookup := (lookup p1)(v := None)\<rparr>) })"

definition PqPop :: "'v PriorityQueue \<Rightarrow> (error + 'v) \<times> 'v PriorityQueue" where
  "PqPop p =
     (if itemHeap p = [] then (Inl ''empty queue'', p)
      else case heap_Pop p of (a, p1) \<Rightarrow>
        let v = itValue (the_item p1 a) in (Inr v, p1\<lparr>lookup := (lookup p1)(v := None)\<rparr>))"

definition UpdatePriority :: "'v PriorityQueue \<Rightarrow> 'v \<Rightarrow> int \<Rightarrow> 'v PriorityQueue option" where
  "UpdatePriority p x newPriority =
     (case lookup p x of
        None \<Rightarrow> Some p
      | Some a \<Rightarrow>
          let p1 = p\<lparr>itemStore := (itemStore p)(a \<mapsto> (the_item p a)\<lparr>itPriority := newPriority\<rparr>)\<rparr>
          in heap_Fix p1 (itIndex (the_item p1 a)))"

section \<open>Heap order\<close>

definition par :: "nat \<Rightarrow> nat" where "par c = (c - 1) div 2"

definition ordered :: "(nat \<Rightarrow> int) \<Rightarrow> nat \<Rightarrow> bool" where
  "ordered k n \<longleftrightarrow> (\<forall>c < n. 0 < c \<longrightarrow> k (par c) \<le> k c)"

text \<open>Order except for the edges of position \<open>i\<close>, whose parent is still below its children.\<close>

definition but_both :: "(nat \<Rightarrow> int) \<Rightarrow> nat \<Rightarrow> nat \<Rightarrow> bool" where
  "but_both k n i \<longleftrightarrow> (\<forall>c < n. 0 < c \<longrightarrow>
     (c \<noteq> i \<longrightarrow> par c \<noteq> i \<longrightarrow> k (par c) \<le> k c) \<and> (par c = i \<longrightarrow> 0 < i \<longrightarrow> k (par i) \<le> k c))"

definition below_children :: "(nat \<Rightarrow> int) \<Rightarrow> nat \<Rightarrow> nat \<Rightarrow> bool" where
  "below_children k n i \<longleftrightarrow> (\<forall>c < n. 0 < c \<longrightarrow> par c = i \<longrightarrow> k i \<le> k c)"

definition above_parent :: "(nat \<Rightarrow> int) \<Rightarrow> nat \<Rightarrow> bool" where
  "above_parent k i \<longleftrightarrow> (0 < i \<longrightarrow> k (par i) \<le> k i)"

abbreviation kswap :: "(nat \<Rightarrow> int) \<Rightarrow> nat \<Rightarrow> nat \<Rightarrow> (nat \<Rightarrow> int)" where
  "kswap k i j \<equiv> k(i := k j, j := k i)"

lemma par_less: "0 < c \<Longrightarrow> par c < c"
  by (cases c) (simp_all add: par_def less_Suc_eq_le)

lemma par_le: "par c \<le> c"
  using par_less [of c] by (cases "c = 0") (simp_all add: par_def)

lemma par_neq: "0 < c \<Longrightarrow> par c \<noteq> c"
  using par_less [of c] by simp

lemma par_par_neq: "0 < c \<Longrightarrow> par (par c) \<noteq> c"
  using par_less [of c] par_less [of "par c"] by (cases "par c = 0") (auto simp: par_def)

lemma par_children: "0 < c \<Longrightarrow> par c = i \<longleftrightarrow> c = 2 * i + 1 \<or> c = 2 * i + 2"
  by (cases c) (simp_all add: par_def div_nat_eqI, linarith)

lemma ordered_from:
  assumes "but_both k n i" and "below_children k n i" and "above_parent k i"
  shows "ordered k n"
  unfolding ordered_def
proof (intro allI impI)
  fix c assume c: "c < n" "0 < c"
  consider "c = i" | "par c = i" | "c \<noteq> i" "par c \<noteq> i" by blast
  then show "k (par c) \<le> k c"
    using assms c by cases (simp_all add: but_both_def below_children_def above_parent_def)
qed

lemma ordered_cong:
  assumes "\<And>c. c < n \<Longrightarrow> k c = l c"
  shows "ordered k n = ordered l n"
proof -
  have "k (par c) = l (par c) \<and> k c = l c" if "c < n" "0 < c" for c
    using assms [of c] assms [of "par c"] par_less [OF that(2)] that(1) by simp
  then show ?thesis unfolding ordered_def by auto
qed

lemma up_step:
  assumes b: "but_both k n j" "below_children k n j" and j: "0 < j" "j < n" and less: "k j < k (par j)"
  shows "but_both (kswap k (par j) j) n (par j)" and "below_children (kswap k (par j) j) n (par j)"
proof -
  let ?i = "par j"
  have ij: "?i < j" "?i \<noteq> j" using par_less [OF j(1)] by auto
  have e: "k (par c) \<le> k c" if "c < n" "0 < c" "c \<noteq> j" for c
    using b that unfolding but_both_def below_children_def by (cases "par c = j") auto
  have g: "k ?i \<le> k c" if "c < n" "0 < c" "par c = j" for c using b j that unfolding but_both_def by auto
  have pi: "par ?i \<noteq> j" "0 < ?i \<longrightarrow> par ?i \<noteq> ?i" using par_par_neq [OF j(1)] par_neq by auto
  have gi: "k (par ?i) \<le> k ?i" if "0 < ?i" using e [of ?i] ij j that by auto
  have "kswap k ?i j (par c) \<le> kswap k ?i j c" if "c < n" "0 < c" "c \<noteq> ?i" "par c \<noteq> ?i" for c
    using e [of c] g [of c] that by (cases "c = j") auto
  moreover have "kswap k ?i j (par ?i) \<le> kswap k ?i j c" if "c < n" "0 < c" "par c = ?i" "0 < ?i" for c
    using e [of c] gi pi ij that by auto
  ultimately show "but_both (kswap k ?i j) n ?i" unfolding but_both_def by blast
  have "kswap k ?i j ?i \<le> kswap k ?i j c" if "c < n" "0 < c" "par c = ?i" for c
    using e [of c] ij less that par_neq [of c] by (cases "c = j") auto
  then show "below_children (kswap k ?i j) n ?i" unfolding below_children_def by blast
qed

lemma down_step:
  assumes b: "but_both k n i" and j: "0 < j" "j < n" "par j = i" and least: "below_children (k(i := k j)) n i"
    and less: "k j < k i"
  shows "but_both (kswap k i j) n j" and "above_parent (kswap k i j) j"
proof -
  have ij: "i \<noteq> j" using j(3) par_neq [OF j(1)] by simp
  have pj: "0 < i \<longrightarrow> par i \<noteq> j \<and> par i \<noteq> i" using j(3) par_par_neq [OF j(1)] par_neq [of i] by simp
  have l: "k j \<le> k c" if "c < n" "0 < c" "par c = i" for c
    using least that par_neq [OF that(2)] unfolding below_children_def by auto
  have e: "k (par c) \<le> k c" if "c < n" "0 < c" "c \<noteq> i" "par c \<noteq> i" for c using b that unfolding but_both_def by auto
  have g: "k (par i) \<le> k c" if "c < n" "0 < c" "par c = i" "0 < i" for c using b that unfolding but_both_def by auto
  have "kswap k i j (par c) \<le> kswap k i j c" if "c < n" "0 < c" "c \<noteq> j" "par c \<noteq> j" for c
    using e [of c] l [of c] g [of j] j pj that by (cases "c = i") auto
  moreover have "kswap k i j (par j) \<le> kswap k i j c" if "c < n" "0 < c" "par c = j" for c
    using e [of c] j ij that par_neq [of c] by auto
  ultimately show "but_both (kswap k i j) n j" unfolding but_both_def by blast
  show "above_parent (kswap k i j) j" unfolding above_parent_def using less j ij by simp
qed

lemma ordered_root:
  assumes "ordered k n"
  shows "c < n \<Longrightarrow> k 0 \<le> k c"
proof (induction c rule: less_induct)
  case (less c)
  show ?case
  proof (cases "c = 0")
    case False
    then have "par c < c" using par_less by blast
    then have "k 0 \<le> k (par c)" using less.prems by (intro less.IH) auto
    also have "\<dots> \<le> k c" using assms less.prems False by (simp add: ordered_def)
    finally show ?thesis .
  qed simp
qed

text \<open>What an operation finds when the key at one position is replaced.\<close>

lemma but_both_upd:
  assumes "ordered k m" and "n \<le> m" and "i < m" and same: "\<And>c. c < n \<Longrightarrow> c \<noteq> i \<Longrightarrow> l c = k c"
  shows "but_both l n i"
  unfolding but_both_def
proof (intro allI impI conjI)
  fix c assume c: "c < n" "0 < c"
  have e: "k (par x) \<le> k x" if "x < m" "0 < x" for x using assms(1) that by (simp add: ordered_def)
  have pc: "par c < n" using par_less [OF c(2)] c(1) by simp
  show "l (par c) \<le> l c" if "c \<noteq> i" "par c \<noteq> i"
    using e [of c] same [of c] same [of "par c"] that c pc assms(2) by simp
  show "l (par i) \<le> l c" if "par c = i" "0 < i"
  proof -
    have "c \<noteq> i" "par i < i" "i < n" using that par_neq [OF c(2)] par_less [of i] pc by auto
    then have "l c = k c" "l (par i) = k (par i)" using same [of c] same [of "par i"] c by auto
    moreover have "k (par i) \<le> k i" "k i \<le> k c" using e [of i] e [of c] that c assms(2,3) by auto
    ultimately show ?thesis by simp
  qed
qed

section \<open>The heap operations on the items\<close>

definition prio :: "'v PriorityQueue \<Rightarrow> nat \<Rightarrow> int" where
  "prio p a = itPriority (the_item p a)"

definition pkey :: "'v PriorityQueue \<Rightarrow> nat \<Rightarrow> int" where
  "pkey p i = (if i < length (itemHeap p) then prio p (itemHeap p ! i) else 0)"

definition heap_wf :: "'v PriorityQueue \<Rightarrow> bool" where
  "heap_wf p \<longleftrightarrow> distinct (itemHeap p) \<and>
     (\<forall>i < length (itemHeap p). itIndex (the_item p (itemHeap p ! i)) = i)"

text \<open>\<open>q\<close> has the items of \<open>p\<close>, in the same places from position \<open>n\<close> on.\<close>

definition reorders :: "nat \<Rightarrow> 'v PriorityQueue \<Rightarrow> 'v PriorityQueue \<Rightarrow> bool" where
  "reorders n p q \<longleftrightarrow> heap_wf q \<and> mset (itemHeap q) = mset (itemHeap p) \<and> lookup q = lookup p \<and>
     nextItem q = nextItem p \<and> (\<forall>a. itValue (the_item q a) = itValue (the_item p a) \<and> prio q a = prio p a) \<and>
     drop n (itemHeap q) = drop n (itemHeap p)"

lemma reorders_refl: "heap_wf p \<Longrightarrow> reorders n p p"
  by (simp add: reorders_def)

lemma reorders_trans: "reorders n p q \<Longrightarrow> reorders n q r \<Longrightarrow> reorders n p r"
  by (simp add: reorders_def)

lemma reorders_length: "reorders n p q \<Longrightarrow> length (itemHeap q) = length (itemHeap p)"
  unfolding reorders_def by (metis size_mset)

lemma reorders_wf: "reorders n p q \<Longrightarrow> heap_wf q"
  by (simp add: reorders_def)

lemma the_item_set_index:
  "the_item (set_index a i p) b = (if b = a then (the_item p a)\<lparr>itIndex := i\<rparr> else the_item p b)"
  by (simp add: set_index_def the_item_def)

lemma set_index_frame [frame_simps]:
  "itemHeap (set_index a i p) = itemHeap p" "lookup (set_index a i p) = lookup p"
  "nextItem (set_index a i p) = nextItem p"
  by (simp_all add: set_index_def)

lemma the_item_heap [frame_simps]: "the_item (p\<lparr>itemHeap := h\<rparr>) a = the_item p a"
  by (simp add: the_item_def)

lemma ihSwap_heap: "itemHeap (ihSwap p i j) = (itemHeap p)[i := itemHeap p ! j, j := itemHeap p ! i]"
  by (simp add: ihSwap_def Let_def frame_simps)

lemma ihSwap_prio: "prio (ihSwap p i j) a = prio p a"
  by (simp add: prio_def ihSwap_def Let_def the_item_set_index frame_simps)

lemma ihSwap_wf:
  assumes "heap_wf p" and "i < length (itemHeap p)" and "j < length (itemHeap p)"
  shows "heap_wf (ihSwap p i j)"
proof -
  let ?h = "(itemHeap p)[i := itemHeap p ! j, j := itemHeap p ! i]"
  have d: "distinct ?h" using assms by (simp add: heap_wf_def distinct_swap)
  have "itIndex (the_item (ihSwap p i j) (?h ! c)) = c" if "c < length (itemHeap p)" for c
  proof (cases "c = i \<or> c = j")
    case True
    then show ?thesis using assms d that
      by (auto simp: ihSwap_def Let_def the_item_set_index frame_simps nth_eq_iff_index_eq nth_list_update
          split: if_splits)
  next
    case False
    then have "?h ! c = itemHeap p ! c" "?h ! c \<noteq> ?h ! i" "?h ! c \<noteq> ?h ! j"
      using assms d that by (auto simp: nth_eq_iff_index_eq nth_list_update split: if_splits)
    then show ?thesis using assms(1) that
      by (simp add: ihSwap_def Let_def the_item_set_index frame_simps heap_wf_def)
  qed
  with d show ?thesis by (simp add: heap_wf_def ihSwap_heap)
qed

lemma ihSwap_reorders:
  assumes "heap_wf p" and "i < n" and "j < n" and "n \<le> length (itemHeap p)"
  shows "reorders n p (ihSwap p i j)"
  using ihSwap_wf [of p i j] assms ihSwap_prio [of p i j]
  by (auto simp: reorders_def ihSwap_heap mset_swap ihSwap_def Let_def the_item_set_index frame_simps)

lemma pkey_ihSwap:
  assumes "i < length (itemHeap p)" and "j < length (itemHeap p)"
  shows "pkey (ihSwap p i j) = kswap (pkey p) i j"
  using assms by (auto simp: fun_eq_iff pkey_def ihSwap_heap ihSwap_prio nth_list_update)

lemma ihLess_pkey:
  "i < length (itemHeap p) \<Longrightarrow> j < length (itemHeap p) \<Longrightarrow> ihLess p i j \<longleftrightarrow> pkey p i < pkey p j"
  by (simp add: ihLess_def pkey_def prio_def)

subsection \<open>Moving up\<close>

lemma heap_up_step:
  "heap_up p j = (if 0 < j \<and> ihLess p j (par j) then heap_up (ihSwap p (par j) j) (par j) else p)"
  using par_neq [of j] by (subst heap_up.simps) (auto simp: Let_def par_def)

lemma heap_up_ordered:
  assumes "heap_wf p" and "n \<le> length (itemHeap p)" and "j < n"
    and "but_both (pkey p) n j" and "below_children (pkey p) n j"
  shows "reorders n p (heap_up p j) \<and> ordered (pkey (heap_up p j)) n"
  using assms
proof (induction j arbitrary: p rule: less_induct)
  case (less j)
  have len: "j < length (itemHeap p)" "par j < length (itemHeap p)" "par j < n"
    using less.prems(2,3) par_le [of j] by simp_all
  show ?case
  proof (cases "0 < j \<and> ihLess p j (par j)")
    case True
    let ?q = "ihSwap p (par j) j"
    have k: "pkey ?q = kswap (pkey p) (par j) j" using pkey_ihSwap len by blast
    have lt: "pkey p j < pkey p (par j)" using True ihLess_pkey len by blast
    have r: "reorders n p ?q" using ihSwap_reorders less.prems(1-3) len(3) by blast
    have "reorders n ?q (heap_up ?q (par j)) \<and> ordered (pkey (heap_up ?q (par j))) n"
    proof (rule less.IH)
      show "par j < j" using par_less True by blast
      show "heap_wf ?q" using r by (rule reorders_wf)
      show "n \<le> length (itemHeap ?q)" using reorders_length [OF r] less.prems(2) by simp
      show "par j < n" by (rule len(3))
      show "but_both (pkey ?q) n (par j)" "below_children (pkey ?q) n (par j)"
        unfolding k using up_step [OF less.prems(4,5) _ less.prems(3) lt] True by auto
    qed
    then show ?thesis using reorders_trans [OF r] True heap_up_step [of p j] by simp
  next
    case False
    then have "above_parent (pkey p) j" using ihLess_pkey [OF len(1,2)] by (auto simp: above_parent_def)
    then have "ordered (pkey p) n" by (rule ordered_from [OF less.prems(4,5)])
    moreover have "heap_up p j = p" unfolding heap_up_step [of p j] using False by (rule if_not_P)
    ultimately show ?thesis using reorders_refl [OF less.prems(1)] by simp
  qed
qed

subsection \<open>Moving down\<close>

lemma min_child_spec:
  assumes "2 * i + 1 < n" and "n \<le> length (itemHeap p)"
  shows "min_child p i n < n" and "0 < min_child p i n" and "par (min_child p i n) = i"
    and "below_children ((pkey p)(i := pkey p (min_child p i n))) n i"
proof -
  have l: "ihLess p (2 * i + 2) (2 * i + 1) \<longleftrightarrow> pkey p (2 * i + 2) < pkey p (2 * i + 1)" if "2 * i + 2 < n"
    using ihLess_pkey [of "2 * i + 2" p "2 * i + 1"] assms that by simp
  show "min_child p i n < n" "0 < min_child p i n" "par (min_child p i n) = i"
    using assms by (auto simp: min_child_def Let_def par_def)
  show "below_children ((pkey p)(i := pkey p (min_child p i n))) n i"
    unfolding below_children_def
  proof (intro allI impI)
    fix c assume c: "c < n" "0 < c" "par c = i"
    then have "c = 2 * i + 1 \<or> c = 2 * i + 2" using par_children [of c i] by simp
    then show "((pkey p)(i := pkey p (min_child p i n))) i \<le> ((pkey p)(i := pkey p (min_child p i n))) c"
      using l c by (auto simp: min_child_def Let_def)
  qed
qed

lemma below_children_mono:
  assumes "below_children (k(i := x)) n i" and "k i \<le> x"
  shows "below_children k n i"
  unfolding below_children_def
proof (intro allI impI)
  fix c assume c: "c < n" "0 < c" "par c = i"
  then have "x \<le> k c" using assms(1) par_neq [of c] by (auto simp: below_children_def)
  then show "k i \<le> k c" using assms(2) by simp
qed

lemma no_children: "n \<le> 2 * i + 1 \<Longrightarrow> below_children k n i"
  unfolding below_children_def
proof (intro allI impI)
  fix c assume "n \<le> 2 * i + 1" "c < n" "0 < c" "par c = i"
  then show "k i \<le> k c" using par_children [of c i] by simp
qed

lemma heap_down_ordered:
  assumes "heap_wf p" and "n \<le> length (itemHeap p)" and "but_both (pkey p) n i" and "heap_down p i n = (q, i1)"
  shows "reorders n p q \<and> but_both (pkey q) n i1 \<and> below_children (pkey q) n i1 \<and>
    i \<le> i1 \<and> (if i1 = i then q = p else above_parent (pkey q) i1)"
  using assms
proof (induction p i n rule: heap_down.induct)
  case (1 p i n)
  let ?j = "min_child p i n"
  consider (leaf) "n \<le> 2 * i + 1" | (stay) "2 * i + 1 < n" "\<not> ihLess p ?j i" | (go) "2 * i + 1 < n" "ihLess p ?j i"
    by linarith
  then show ?case
  proof cases
    case leaf
    then have "q = p \<and> i1 = i" using 1(5) by (simp add: heap_down.simps [of p i n])
    then show ?thesis using 1(4) reorders_refl [OF 1(2)] no_children [OF leaf] by simp
  next
    case stay
    note c = min_child_spec [OF stay(1) 1(3)]
    have "q = p \<and> i1 = i" using 1(5) stay by (simp add: heap_down.simps [of p i n] Let_def)
    moreover have "pkey p i \<le> pkey p ?j" using ihLess_pkey [of ?j p i] stay c(1) 1(3) by simp
    then have "below_children (pkey p) n i" using below_children_mono [OF c(4)] by simp
    ultimately show ?thesis using 1(4) reorders_refl [OF 1(2)] by simp
  next
    case go
    note c = min_child_spec [OF go(1) 1(3)]
    let ?q = "ihSwap p i ?j"
    have len: "i < n" "i < length (itemHeap p)" "?j < length (itemHeap p)" using go(1) c(1) 1(3) by auto
    have r: "reorders n p ?q" using ihSwap_reorders [OF 1(2) len(1) c(1) 1(3)] .
    have k: "pkey ?q = kswap (pkey p) i ?j" using pkey_ihSwap len(2,3) by blast
    have lt: "pkey p ?j < pkey p i" using go(2) ihLess_pkey len(2,3) by blast
    note d = down_step [OF 1(4) c(2) c(1) c(3) c(4) lt, folded k]
    have q: "heap_down ?q ?j n = (q, i1)" using 1(5) go by (simp add: heap_down.simps [of p i n] Let_def)
    have "n \<le> length (itemHeap ?q)" using reorders_length [OF r] 1(3) by simp
    from 1(1) [OF _ refl _ reorders_wf [OF r] this d(1) q] go
    have IH: "reorders n ?q q" "but_both (pkey q) n i1" "below_children (pkey q) n i1" "?j \<le> i1"
      "if i1 = ?j then q = ?q else above_parent (pkey q) i1" by auto
    have "i < i1" using IH(4) par_less [OF c(2)] c(3) by simp
    moreover have "above_parent (pkey q) i1" using IH(5) d(2) by (auto split: if_splits)
    ultimately show ?thesis using reorders_trans [OF r IH(1)] IH(2,3) by simp
  qed
qed

lemma sift_ordered:
  assumes "heap_wf p" and "n \<le> length (itemHeap p)" and "but_both (pkey p) n i" and "i < n"
  shows "reorders n p (sift p i n) \<and> ordered (pkey (sift p i n)) n"
proof -
  obtain q i1 where d: "heap_down p i n = (q, i1)" by fastforce
  note h = heap_down_ordered [OF assms(1-3) d]
  show ?thesis
  proof (cases "i1 > i")
    case True
    with h d show ?thesis using ordered_from [of "pkey q" n i1] by (simp add: sift_def)
  next
    case False
    with h have "q = p" "below_children (pkey p) n i" by (auto split: if_splits)
    with False d show ?thesis using heap_up_ordered [OF assms(1,2,4,3)] by (simp add: sift_def)
  qed
qed

section \<open>Invariant and refinement\<close>

definition pq_ok :: "'v PriorityQueue \<Rightarrow> bool" where
  "pq_ok p \<longleftrightarrow> heap_wf p \<and> ordered (pkey p) (length (itemHeap p)) \<and>
     (\<forall>v a. lookup p v = Some a \<longleftrightarrow> a \<in> set (itemHeap p) \<and> itValue (the_item p a) = v) \<and>
     (\<forall>a\<in>set (itemHeap p). a < nextItem p)"

definition pq_map :: "'v PriorityQueue \<Rightarrow> 'v \<rightharpoonup> int" where
  "pq_map p v = map_option (prio p) (lookup p v)"

lemma pq_ok_lookup: "pq_ok p \<Longrightarrow> lookup p v = Some a \<longleftrightarrow> a \<in> set (itemHeap p) \<and> itValue (the_item p a) = v"
  by (simp add: pq_ok_def)

lemma pq_ok_New: "pq_ok NewPriorityQueue" and pq_map_New: "pq_map NewPriorityQueue = Map.empty"
  by (simp_all add: pq_ok_def pq_map_def NewPriorityQueue_def heap_wf_def ordered_def fun_eq_iff)

lemma pq_ok_index:
  assumes "pq_ok p" and "lookup p v = Some a"
  shows "itIndex (the_item p a) < length (itemHeap p)" and "itemHeap p ! itIndex (the_item p a) = a"
proof -
  from assms have "a \<in> set (itemHeap p)" by (simp add: pq_ok_def)
  then obtain i where "i < length (itemHeap p)" "a = itemHeap p ! i" by (auto simp: in_set_conv_nth)
  with assms(1) show "itIndex (the_item p a) < length (itemHeap p)" "itemHeap p ! itIndex (the_item p a) = a"
    by (simp_all add: pq_ok_def heap_wf_def)
qed

text \<open>The number of elements is the size of the map.\<close>

lemma PqLen_card:
  assumes "pq_ok p"
  shows "PqLen p = int (card (dom (pq_map p)))"
proof -
  have "dom (pq_map p) = (\<lambda>a. itValue (the_item p a)) ` set (itemHeap p)"
    using pq_ok_lookup [OF assms] by (auto simp: pq_map_def dom_def image_iff)
  moreover have "inj_on (\<lambda>a. itValue (the_item p a)) (set (itemHeap p))"
    by (rule inj_onI) (metis assms option.inject pq_ok_lookup)
  moreover have "card (set (itemHeap p)) = length (itemHeap p)"
    using assms by (simp add: pq_ok_def heap_wf_def distinct_card)
  ultimately show ?thesis by (simp add: PqLen_def card_image)
qed

subsection \<open>Insert\<close>

lemma heap_Push_ordered:
  assumes "heap_wf p" and "ordered (pkey p) (length (itemHeap p))" and "a \<notin> set (itemHeap p)"
  shows "reorders (Suc (length (itemHeap p))) (ihPush p a) (heap_Push p a) \<and>
    ordered (pkey (heap_Push p a)) (Suc (length (itemHeap p)))"
proof -
  let ?q = "ihPush p a" and ?n = "Suc (length (itemHeap p))"
  have h: "itemHeap ?q = itemHeap p @ [a]" by (simp add: ihPush_def)
  have it: "the_item ?q b = (if b = a then (the_item p a)\<lparr>itIndex := length (itemHeap p)\<rparr> else the_item p b)" for b
    by (simp add: ihPush_def the_item_set_index frame_simps)
  have wf: "heap_wf ?q"
    using assms(1,3) nth_mem [of _ "itemHeap p"] unfolding heap_wf_def h it by (auto simp: nth_append less_Suc_eq)
  have k: "pkey ?q c = pkey p c" if "c < length (itemHeap p)" for c
    using assms(3) nth_mem [OF that] that by (auto simp: pkey_def h prio_def it nth_append)
  have b: "but_both (pkey ?q) ?n (length (itemHeap p))"
    unfolding but_both_def
  proof (intro allI impI conjI)
    fix c assume c: "c < ?n" "0 < c"
    show "pkey ?q (par c) \<le> pkey ?q c" if "c \<noteq> length (itemHeap p)"
      using assms(2) k [of c] k [of "par c"] par_less [OF c(2)] c that by (simp add: ordered_def)
    show "pkey ?q (par (length (itemHeap p))) \<le> pkey ?q c" if "par c = length (itemHeap p)"
      using par_less [OF c(2)] c that by simp
  qed
  have "below_children (pkey ?q) ?n (length (itemHeap p))" by (rule no_children) simp
  from heap_up_ordered [OF wf _ _ b this] h show ?thesis by (simp add: heap_Push_def Let_def)
qed

text \<open>Reordering the items of a queue that is well formed up to the order.\<close>

lemma pq_ok_reorders:
  assumes r: "reorders n p q" and "ordered (pkey q) (length (itemHeap p))"
    and "\<And>v a. lk v = Some a \<longleftrightarrow> a \<in> set (itemHeap p) \<and> itValue (the_item p a) = v"
    and "\<And>a. a \<in> set (itemHeap p) \<Longrightarrow> a < nextItem p"
  shows "pq_ok (q\<lparr>lookup := lk\<rparr>) \<and> pq_map (q\<lparr>lookup := lk\<rparr>) = (\<lambda>v. map_option (prio p) (lk v))"
proof -
  let ?q = "q\<lparr>lookup := lk\<rparr>"
  have s: "set (itemHeap q) = set (itemHeap p)" using r unfolding reorders_def by (metis set_mset_mset)
  have t: "the_item ?q a = the_item q a" for a by (simp add: the_item_def)
  have "heap_wf ?q" using reorders_wf [OF r] by (simp add: heap_wf_def t)
  moreover have "pkey ?q = pkey q" by (simp add: fun_eq_iff pkey_def prio_def t)
  moreover have "prio ?q = prio p" using r by (simp add: fun_eq_iff prio_def t reorders_def)
  moreover from this have "pq_map ?q = (\<lambda>v. map_option (prio p) (lk v))" by (intro ext) (simp add: pq_map_def)
  ultimately show ?thesis
    using assms(2-4) r reorders_length [OF r] by (simp add: pq_ok_def t s reorders_def)
qed

lemma PqInsert_spec:
  assumes ok: "pq_ok p"
  shows "pq_ok (PqInsert p v k) \<and>
    pq_map (PqInsert p v k) = (if lookup p v = None then (pq_map p)(v \<mapsto> k) else pq_map p)"
proof (cases "lookup p v")
  case None
  let ?a = "nextItem p" and ?n = "length (itemHeap p)"
  let ?p1 = "p\<lparr>itemStore := (itemStore p)(?a \<mapsto> \<lparr>itValue = v, itPriority = k, itIndex = 0\<rparr>), nextItem := Suc ?a\<rparr>"
  let ?q = "ihPush ?p1 ?a" and ?lk = "(lookup p)(v \<mapsto> ?a)"
  have new: "b \<noteq> ?a" if "b \<in> set (itemHeap p)" for b using ok that by (auto simp: pq_ok_def)
  have it: "the_item ?p1 b = (if b = ?a then \<lparr>itValue = v, itPriority = k, itIndex = 0\<rparr> else the_item p b)" for b
    by (simp add: the_item_def)
  have nth: "itemHeap p ! c \<noteq> ?a" if "c < ?n" for c using new nth_mem [OF that] by blast
  have wf: "heap_wf ?p1" using ok nth by (auto simp: heap_wf_def pq_ok_def it)
  have "pkey ?p1 = pkey p" using nth by (auto simp: fun_eq_iff pkey_def prio_def it)
  then have o: "ordered (pkey ?p1) (length (itemHeap ?p1))" using ok by (simp add: pq_ok_def)
  have "?a \<notin> set (itemHeap ?p1)" using new by auto
  note h = heap_Push_ordered [OF wf o this]
  have q: "itemHeap ?q = itemHeap p @ [?a]" "nextItem ?q = Suc ?a" "lookup ?q = lookup p"
    by (simp_all add: ihPush_def frame_simps)
  have val: "itValue (the_item ?q b) = (if b = ?a then v else itValue (the_item p b))"
    "prio ?q b = (if b = ?a then k else prio p b)" for b
    by (simp_all add: ihPush_def prio_def the_item_set_index it frame_simps)
  have lk: "?lk w = Some b \<longleftrightarrow> b \<in> set (itemHeap ?q) \<and> itValue (the_item ?q b) = w" for w b
    using pq_ok_lookup [OF ok, of w b] pq_ok_lookup [OF ok, of v b] None new [of b] unfolding q val by auto
  have bound: "b < nextItem ?q" if "b \<in> set (itemHeap ?q)" for b using ok that unfolding q by (auto simp: pq_ok_def)
  have e: "PqInsert p v k = (heap_Push ?p1 ?a)\<lparr>lookup := ?lk\<rparr>"
    using None conjunct1 [OF h] by (simp add: PqInsert_def Let_def reorders_def q(3))
  have m: "(\<lambda>w. map_option (prio ?q) (?lk w)) = (pq_map p)(v \<mapsto> k)"
    using pq_ok_lookup [OF ok] new by (auto simp: fun_eq_iff pq_map_def val option.map_comp intro!: option.map_cong)
  have "ordered (pkey (heap_Push ?p1 ?a)) (length (itemHeap ?q))" using h by (simp add: q(1))
  from pq_ok_reorders [OF conjunct1 [OF h] this lk bound] show ?thesis unfolding e if_P [OF None] m .
next
  case (Some a)
  then show ?thesis using ok by (simp add: PqInsert_def)
qed

subsection \<open>Remove and Pop\<close>

lemma reorders_weaken: "reorders n p q \<Longrightarrow> n \<le> m \<Longrightarrow> reorders m p q"
  unfolding reorders_def by (metis drop_drop le_add_diff_inverse2)

lemma ihPop_spec:
  assumes ok: "pq_ok p" and r: "reorders n p q" and o: "ordered (pkey q) l" and l: "Suc l = length (itemHeap p)"
    and a: "last (itemHeap q) = a" and v: "v = itValue (the_item p a)"
  shows "fst (ihPop q) = a" and "itValue (the_item (snd (ihPop q)) a) = v"
    and "pq_ok ((snd (ihPop q))\<lparr>lookup := (lookup q)(v := None)\<rparr>)"
    and "pq_map ((snd (ihPop q))\<lparr>lookup := (lookup q)(v := None)\<rparr>) = (pq_map p)(v := None)"
    and "lookup p v = Some a"
proof -
  let ?q = "snd (ihPop q)"
  have len: "length (itemHeap q) = Suc l" using reorders_length [OF r] l by simp
  then have h: "itemHeap q = butlast (itemHeap q) @ [a]" using a by (metis append_butlast_last_id length_0_conv nat.simps(3))
  have d: "distinct (itemHeap q)" using reorders_wf [OF r] by (simp add: heap_wf_def)
  have q: "itemHeap ?q = butlast (itemHeap q)" "lookup ?q = lookup q" "nextItem ?q = nextItem q"
    "the_item ?q b = the_item q b" for b
    by (simp_all add: ihPop_def the_item_def)
  have s: "set (itemHeap q) = set (itemHeap p)" using r unfolding reorders_def by (metis set_mset_mset)
  have an: "a \<in> set (itemHeap p)" using s h by (metis in_set_conv_decomp)
  have sq: "set (butlast (itemHeap q)) = set (itemHeap p) - {a}"
    using arg_cong [OF h, of set] d h s by (metis Diff_insert_absorb Un_insert_right distinct.simps(2) distinct_append
        list.set(1) list.simps(15) not_distinct_conv_prefix set_append sup_bot.right_neutral)
  show "fst (ihPop q) = a" using a by (simp add: ihPop_def)
  show "itValue (the_item ?q a) = v" using r v by (simp add: q reorders_def)
  show lv: "lookup p v = Some a" using an v pq_ok_lookup [OF ok] by blast
  let ?f = "?q\<lparr>lookup := (lookup q)(v := None)\<rparr>"
  have t: "the_item (?q\<lparr>lookup := z\<rparr>) b = the_item q b" for z b by (simp add: the_item_def ihPop_def)
  have pr: "prio ?f b = prio p b" "itValue (the_item q b) = itValue (the_item p b)" for b
    using r by (simp_all add: prio_def t reorders_def)
  have "heap_wf ?f" using reorders_wf [OF r] len by (simp add: heap_wf_def q t distinct_butlast nth_butlast)
  moreover have "pkey ?f c = pkey q c" if "c < l" for c
    using len that t by (simp add: pkey_def q nth_butlast prio_def)
  then have "ordered (pkey ?f) l" using o ordered_cong [of l "pkey ?f" "pkey q"] by simp
  moreover have "((lookup q)(v := None)) w = Some b \<longleftrightarrow> b \<in> set (itemHeap p) - {a} \<and> itValue (the_item p b) = w" for w b
    using pq_ok_lookup [OF ok, of w b] lv v r by (auto simp: reorders_def)
  moreover have "b < nextItem q" if "b \<in> set (itemHeap p) - {a}" for b using ok r that by (simp add: pq_ok_def reorders_def)
  ultimately show "pq_ok ?f" using len by (simp add: pq_ok_def q t pr sq)
  show "pq_map ?f = (pq_map p)(v := None)" using r by (auto simp: fun_eq_iff pq_map_def pr reorders_def option.map_comp intro!: option.map_cong)
qed

text \<open>Both operations exchange the item with the last one, restore the order of the others and take it off.\<close>

lemma exchange_last:
  assumes ok: "pq_ok p" and i: "i < length (itemHeap p)" and n: "Suc n = length (itemHeap p)"
  shows "heap_wf (ihSwap p i n)" and "n \<le> length (itemHeap (ihSwap p i n))" and "but_both (pkey (ihSwap p i n)) n i"
    and "reorders (Suc n) p (ihSwap p i n)" and "drop n (itemHeap (ihSwap p i n)) = [itemHeap p ! i]"
proof -
  have wf: "heap_wf p" and o: "ordered (pkey p) (Suc n)" using ok n by (simp_all add: pq_ok_def)
  show r: "reorders (Suc n) p (ihSwap p i n)" using ihSwap_reorders [OF wf, of i "Suc n" n] i n by simp
  show "heap_wf (ihSwap p i n)" using reorders_wf [OF r] .
  show "n \<le> length (itemHeap (ihSwap p i n))" using reorders_length [OF r] n by simp
  show "but_both (pkey (ihSwap p i n)) n i"
    using but_both_upd [OF o, of n i] i n by (simp add: pkey_ihSwap)
  have "drop n xs = [xs ! n]" if "length xs = Suc n" for xs :: "nat list"
    using that by (simp add: Cons_nth_drop_Suc [symmetric])
  then show "drop n (itemHeap (ihSwap p i n)) = [itemHeap p ! i]"
    using i n by (simp add: ihSwap_heap)
qed

lemma last_from_drop: "Suc n = length xs \<Longrightarrow> drop n xs = [a] \<Longrightarrow> last xs = a"
  by (metis last_ConsL last_drop lessI)

lemma take_out:
  assumes ok: "pq_ok p" and i: "i < length (itemHeap p)" and n: "Suc n = length (itemHeap p)"
    and r: "reorders n (ihSwap p i n) q" and o: "ordered (pkey q) n" and v: "v = itValue (the_item p (itemHeap p ! i))"
  shows "fst (ihPop q) = itemHeap p ! i" and "itValue (the_item (snd (ihPop q)) (itemHeap p ! i)) = v"
    and "pq_ok ((snd (ihPop q))\<lparr>lookup := (lookup q)(v := None)\<rparr>)"
    and "pq_map ((snd (ihPop q))\<lparr>lookup := (lookup q)(v := None)\<rparr>) = (pq_map p)(v := None)"
    and "lookup p v = Some (itemHeap p ! i)"
proof -
  note x = exchange_last [OF ok i n]
  have l: "Suc n = length (itemHeap q)" using reorders_length [OF r] reorders_length [OF x(4)] n by simp
  have "last (itemHeap q) = itemHeap p ! i"
    using last_from_drop [OF l] r x(5) by (simp add: reorders_def)
  moreover have "reorders (Suc n) p q" using reorders_trans [OF x(4) reorders_weaken [OF r]] by simp
  ultimately show "fst (ihPop q) = itemHeap p ! i" "itValue (the_item (snd (ihPop q)) (itemHeap p ! i)) = v"
    "pq_ok ((snd (ihPop q))\<lparr>lookup := (lookup q)(v := None)\<rparr>)"
    "pq_map ((snd (ihPop q))\<lparr>lookup := (lookup q)(v := None)\<rparr>) = (pq_map p)(v := None)"
    "lookup p v = Some (itemHeap p ! i)"
    using ihPop_spec [OF ok _ o n _ v] by blast+
qed

lemma PqRemove_spec:
  assumes ok: "pq_ok p"
  shows "\<exists>p1. PqRemove p v =
      Some (if lookup p v = None then Some ''the value does not exist in the priority queue'' else None, p1) \<and>
    pq_ok p1 \<and> pq_map p1 = (pq_map p)(v := None)"
proof (cases "lookup p v")
  case None
  then have "(pq_map p)(v := None) = pq_map p" by (auto simp: pq_map_def)
  with None ok show ?thesis by (simp add: PqRemove_def)
next
  case (Some a)
  let ?i = "itIndex (the_item p a)"
  note ix = pq_ok_index [OF ok Some]
  have vv: "v = itValue (the_item p (itemHeap p ! ?i))" using pq_ok_lookup [OF ok, of v a] Some ix(2) by simp
  obtain n where n: "Suc n = length (itemHeap p)" using ix(1) by (metis Suc_pred gr_zeroI less_nat_zero_code)
  note x = exchange_last [OF ok ix(1) n]
  define q where "q = (if n = ?i then p else sift (ihSwap p ?i n) ?i n)"
  have l: "length (itemHeap p) - Suc 0 = n" using n by simp
  have "heap_Remove p ?i = Some (ihPop q)"
    using ix(1) by (simp add: heap_Remove_def Let_def q_def l)
  then have e: "PqRemove p v = Some (None, (snd (ihPop q))\<lparr>lookup := (lookup (snd (ihPop q)))(v := None)\<rparr>)"
    using Some by (cases "ihPop q") (simp add: PqRemove_def)
  have lk: "lookup (snd (ihPop q)) = lookup q" by (simp add: ihPop_def)
  have "pq_ok ((snd (ihPop q))\<lparr>lookup := (lookup q)(v := None)\<rparr>) \<and>
    pq_map ((snd (ihPop q))\<lparr>lookup := (lookup q)(v := None)\<rparr>) = (pq_map p)(v := None)"
  proof (cases "n = ?i")
    case True
    have wf: "heap_wf p" and o: "ordered (pkey p) n" using ok n by (auto simp: pq_ok_def ordered_def)
    have "last (itemHeap p) = a" using ix True n by (metis diff_Suc_1 last_conv_nth length_0_conv nat.simps(3))
    from ihPop_spec(3,4) [OF ok reorders_refl [OF wf] o n this] vv ix(2) True show ?thesis by (simp add: q_def)
  next
    case False
    then have "?i < n" using ix(1) n by simp
    from sift_ordered [OF x(1-3) this] False
    have "reorders n (ihSwap p ?i n) q" "ordered (pkey q) n" by (simp_all add: q_def)
    from take_out(3,4) [OF ok ix(1) n this vv] show ?thesis by simp
  qed
  then show ?thesis using Some by (simp add: e lk)
qed

lemma PqPop_spec:
  assumes ok: "pq_ok p"
  shows "if pq_map p = Map.empty then PqPop p = (Inl ''empty queue'', p)
    else \<exists>v k p1. PqPop p = (Inr v, p1) \<and> pq_map p v = Some k \<and> (\<forall>w l. pq_map p w = Some l \<longrightarrow> k \<le> l) \<and>
      pq_ok p1 \<and> pq_map p1 = (pq_map p)(v := None)"
proof (cases "itemHeap p = []")
  case True
  then have "pq_map p = Map.empty" using pq_ok_lookup [OF ok] by (force simp: pq_map_def fun_eq_iff option.map_disc_iff)
  with True show ?thesis by (simp add: PqPop_def)
next
  case False
  then obtain n where n: "Suc n = length (itemHeap p)" by (metis length_0_conv not0_implies_Suc)
  then have i: "0 < length (itemHeap p)" by linarith
  define v where "v = itValue (the_item p (itemHeap p ! 0))"
  note x = exchange_last [OF ok i n]
  obtain q i1 where d: "heap_down (ihSwap p 0 n) 0 n = (q, i1)" by fastforce
  note h = heap_down_ordered [OF x(1-3) d]
  have "above_parent (pkey q) i1" using h by (cases "i1 = 0") (auto simp: above_parent_def)
  then have o: "ordered (pkey q) n" using h ordered_from by blast
  from h have r: "reorders n (ihSwap p 0 n) q" by blast
  note t = take_out [OF ok i n r o v_def]
  have l: "length (itemHeap p) - Suc 0 = n" using n by simp
  have lk: "lookup (snd (ihPop q)) = lookup q" by (simp add: ihPop_def)
  have hp: "heap_Pop p = (itemHeap p ! 0, snd (ihPop q))"
    using t(1) by (simp add: heap_Pop_def Let_def l d prod_eq_iff)
  have e: "PqPop p = (Inr v, (snd (ihPop q))\<lparr>lookup := (lookup q)(v := None)\<rparr>)"
    using False t(2) by (simp add: PqPop_def hp Let_def lk)
  have pv: "pq_map p v = Some (pkey p 0)" using t(5) i by (simp add: pq_map_def pkey_def)
  have "pkey p 0 \<le> m" if m: "pq_map p w = Some m" for w m
  proof -
    from m obtain b where b: "lookup p w = Some b" "m = prio p b" by (auto simp: pq_map_def)
    then have "b \<in> set (itemHeap p)" using pq_ok_lookup [OF ok] by blast
    then obtain c where "c < length (itemHeap p)" "b = itemHeap p ! c" by (auto simp: in_set_conv_nth)
    then show ?thesis using ordered_root [of "pkey p" "length (itemHeap p)" c] ok b(2) by (simp add: pq_ok_def pkey_def)
  qed
  then show ?thesis using e pv t(3,4) by auto
qed

lemma UpdatePriority_spec:
  assumes ok: "pq_ok p"
  shows "\<exists>p1. UpdatePriority p v k = Some p1 \<and> pq_ok p1 \<and>
    pq_map p1 = (if lookup p v = None then pq_map p else (pq_map p)(v \<mapsto> k))"
proof (cases "lookup p v")
  case None
  with ok show ?thesis by (simp add: UpdatePriority_def)
next
  case (Some a)
  let ?i = "itIndex (the_item p a)" and ?n = "length (itemHeap p)"
  let ?p1 = "p\<lparr>itemStore := (itemStore p)(a \<mapsto> (the_item p a)\<lparr>itPriority := k\<rparr>)\<rparr>"
  note ix = pq_ok_index [OF ok Some]
  have it: "the_item ?p1 b = (if b = a then (the_item p a)\<lparr>itPriority := k\<rparr> else the_item p b)" for b
    by (simp add: the_item_def)
  have "itIndex (the_item ?p1 b) = itIndex (the_item p b)" for b by (simp add: it)
  then have wf: "heap_wf ?p1" using ok by (simp add: heap_wf_def pq_ok_def)
  have "pkey ?p1 c = pkey p c" if "c < ?n" "c \<noteq> ?i" for c
    using that ix ok nth_eq_iff_index_eq [of "itemHeap p" c ?i] by (auto simp: pkey_def prio_def it pq_ok_def heap_wf_def)
  then have b: "but_both (pkey ?p1) ?n ?i"
    using but_both_upd [of "pkey p" ?n ?n ?i "pkey ?p1"] ok ix(1) by (simp add: pq_ok_def)
  have s: "reorders ?n ?p1 (sift ?p1 ?i ?n) \<and> ordered (pkey (sift ?p1 ?i ?n)) ?n"
    using sift_ordered [OF wf _ b ix(1)] by simp
  let ?q = "sift ?p1 ?i ?n"
  have "lookup p w = Some b \<longleftrightarrow> b \<in> set (itemHeap ?p1) \<and> itValue (the_item ?p1 b) = w" for w b
    using pq_ok_lookup [OF ok, of w b] by (auto simp: it)
  from pq_ok_reorders [OF conjunct1 [OF s] _ this] s ok
  have o: "pq_ok (?q\<lparr>lookup := lookup p\<rparr>)" "pq_map (?q\<lparr>lookup := lookup p\<rparr>) = (\<lambda>w. map_option (prio ?p1) (lookup p w))"
    by (simp_all add: pq_ok_def)
  have "lookup ?q = lookup p" using s by (simp add: reorders_def)
  then have q: "?q\<lparr>lookup := lookup p\<rparr> = ?q" by simp
  have m: "(\<lambda>w. map_option (prio ?p1) (lookup p w)) = (pq_map p)(v \<mapsto> k)"
    using pq_ok_lookup [OF ok] Some by (auto simp: fun_eq_iff pq_map_def prio_def it intro!: option.map_cong)
  have "UpdatePriority p v k = Some ?q"
    using Some ix(1) by (simp add: UpdatePriority_def Let_def heap_Fix_def it)
  with o Some show ?thesis unfolding q m by simp
qed

section \<open>Contract\<close>

text \<open>
  A queue with priorities, as its clients see it: a finite map from values to priorities from which \<open>pop\<close> takes a
  value of least priority.  \<open>pops\<close> is a client's loop that takes up to \<open>n\<close> values and stops at an empty queue.
\<close>

fun pops :: "('q \<Rightarrow> (error + 'v) \<times> 'q) \<Rightarrow> nat \<Rightarrow> 'q \<Rightarrow> 'v list \<times> 'q" where
  "pops pop 0 q = ([], q)"
| "pops pop (Suc n) q =
     (case pop q of
        (Inl _, q1) \<Rightarrow> ([], q1)
      | (Inr v, q1) \<Rightarrow> (case pops pop n q1 of (vs, q2) \<Rightarrow> (v # vs, q2)))"

locale priority_queue =
  fixes ok :: "'q \<Rightarrow> bool"
    and contents :: "'q \<Rightarrow> 'v \<rightharpoonup> int"
    and insert_q :: "'q \<Rightarrow> 'v \<Rightarrow> int \<Rightarrow> 'q"
    and remove_q :: "'q \<Rightarrow> 'v \<Rightarrow> (error option \<times> 'q) option"
    and pop_q :: "'q \<Rightarrow> (error + 'v) \<times> 'q"
    and update_q :: "'q \<Rightarrow> 'v \<Rightarrow> int \<Rightarrow> 'q option"
    and len_q :: "'q \<Rightarrow> int"
  assumes finite_contents: "ok q \<Longrightarrow> finite (dom (contents q))"
    and len_card: "ok q \<Longrightarrow> len_q q = int (card (dom (contents q)))"
    and insert_ok: "ok q \<Longrightarrow> ok (insert_q q v k)"
    and insert_contents: "ok q \<Longrightarrow> contents (insert_q q v k) =
      (if contents q v = None then (contents q)(v \<mapsto> k) else contents q)"
    and remove_total: "ok q \<Longrightarrow> \<exists>e q1. remove_q q v = Some (e, q1) \<and> (e = None \<longleftrightarrow> contents q v \<noteq> None) \<and> ok q1 \<and>
      contents q1 = (contents q)(v := None)"
    and pop_empty: "ok q \<Longrightarrow> contents q = Map.empty \<Longrightarrow> \<exists>e. pop_q q = (Inl e, q)"
    and pop_least: "ok q \<Longrightarrow> contents q \<noteq> Map.empty \<Longrightarrow> \<exists>v k q1. pop_q q = (Inr v, q1) \<and> contents q v = Some k \<and>
      (\<forall>w l. contents q w = Some l \<longrightarrow> k \<le> l) \<and> ok q1 \<and> contents q1 = (contents q)(v := None)"
    and update_total: "ok q \<Longrightarrow> \<exists>q1. update_q q v k = Some q1 \<and> ok q1 \<and>
      contents q1 = (if contents q v = None then contents q else (contents q)(v \<mapsto> k))"
begin

lemma pops_sorted:
  assumes "ok q" and "pops pop_q n q = (vs, q1)"
  shows "ok q1 \<and> distinct vs \<and> set vs \<subseteq> dom (contents q) \<and> sorted (map (\<lambda>v. the (contents q v)) vs) \<and>
    contents q1 = contents q |` (- set vs) \<and> length vs = min n (card (dom (contents q))) \<and>
    (\<forall>v\<in>set vs. \<forall>w l. contents q1 w = Some l \<longrightarrow> the (contents q v) \<le> l)"
  using assms
proof (induction n arbitrary: q vs)
  case 0
  then show ?case by simp
next
  case (Suc n)
  show ?case
  proof (cases "contents q = Map.empty")
    case True
    then obtain e where "pop_q q = (Inl e, q)" using pop_empty [OF Suc.prems(1)] by blast
    with Suc.prems True show ?thesis by simp
  next
    case False
    then obtain v k q' where v: "pop_q q = (Inr v, q')" "contents q v = Some k"
      and least: "\<And>w l. contents q w = Some l \<Longrightarrow> k \<le> l" and q': "ok q'" "contents q' = (contents q)(v := None)"
      using pop_least [OF Suc.prems(1)] by blast
    obtain ws where w: "pops pop_q n q' = (ws, q1)" and r: "vs = v # ws"
      using Suc.prems(2) v(1) by (auto split: prod.splits)
    note IH = Suc.IH [OF q'(1) w]
    have dq: "dom (contents q') = dom (contents q) - {v}" using q'(2) by auto
    then have ws: "v \<notin> set ws" "set ws \<subseteq> dom (contents q)" using IH by auto
    have same: "contents q' x = contents q x" if "x \<in> set ws" for x using ws(1) that q'(2) by auto
    have m: "map (\<lambda>v. the (contents q v)) ws = map (\<lambda>v. the (contents q' v)) ws" using same by simp
    have "sorted (map (\<lambda>v. the (contents q v)) ws)" unfolding m using IH by blast
    moreover have "k \<le> the (contents q x)" if "x \<in> set ws" for x
      using least [of x "the (contents q x)"] ws(2) that by (auto simp: dom_def)
    ultimately have "sorted (map (\<lambda>v. the (contents q v)) vs)" using v(2) by (simp add: r)
    moreover have "contents q1 = contents q |` (- set vs)"
      using IH q'(2) by (auto simp: r restrict_map_def fun_eq_iff)
    moreover have "card (dom (contents q)) = Suc (card (dom (contents q')))"
      unfolding dq by (rule card.remove [OF finite_contents [OF Suc.prems(1)]]) (use v(2) in auto)
    then have "length vs = min (Suc n) (card (dom (contents q)))" using IH by (simp add: r)
    moreover have "the (contents q x) \<le> l" if "x \<in> set vs" "contents q1 w = Some l" for x w l
    proof (cases "x = v")
      case True
      have "contents q w = Some l" using that(2) IH q'(2) by (auto simp: restrict_map_def split: if_splits)
      then show ?thesis using least v(2) True by auto
    next
      case False
      then have "x \<in> set ws" using that(1) r by simp
      then show ?thesis using IH that(2) same by metis
    qed
    ultimately show ?thesis using IH ws v(2) by (auto simp: r)
  qed
qed

end

interpretation pqi: priority_queue pq_ok pq_map PqInsert PqRemove PqPop UpdatePriority PqLen
proof
  fix p :: "'v PriorityQueue" and v k
  assume ok: "pq_ok p"
  have n: "pq_map p v = None \<longleftrightarrow> lookup p v = None" by (simp add: pq_map_def)
  have "dom (pq_map p) \<subseteq> (\<lambda>a. itValue (the_item p a)) ` set (itemHeap p)"
    using pq_ok_lookup [OF ok] by (auto simp: pq_map_def dom_def image_iff)
  then show "finite (dom (pq_map p))" by (rule finite_subset) simp
  show "PqLen p = int (card (dom (pq_map p)))" by (rule PqLen_card [OF ok])
  show "pq_ok (PqInsert p v k)" "pq_map (PqInsert p v k) = (if pq_map p v = None then (pq_map p)(v \<mapsto> k) else pq_map p)"
    using PqInsert_spec [OF ok] n by auto
  show "\<exists>e q1. PqRemove p v = Some (e, q1) \<and> (e = None \<longleftrightarrow> pq_map p v \<noteq> None) \<and> pq_ok q1 \<and>
      pq_map q1 = (pq_map p)(v := None)"
    using PqRemove_spec [OF ok, of v] n by auto
  show "\<exists>q1. UpdatePriority p v k = Some q1 \<and> pq_ok q1 \<and>
      pq_map q1 = (if pq_map p v = None then pq_map p else (pq_map p)(v \<mapsto> k))"
    using UpdatePriority_spec [OF ok, of v k] n by auto
  show "\<exists>e. PqPop p = (Inl e, p)" if "pq_map p = Map.empty"
    using PqPop_spec [OF ok] that by auto
  show "\<exists>v k q1. PqPop p = (Inr v, q1) \<and> pq_map p v = Some k \<and> (\<forall>w l. pq_map p w = Some l \<longrightarrow> k \<le> l) \<and>
      pq_ok q1 \<and> pq_map q1 = (pq_map p)(v := None)" if "pq_map p \<noteq> Map.empty"
    using PqPop_spec [OF ok] that by simp
qed

section \<open>Runs\<close>

datatype 'v pq_call = PqcInsert 'v int | PqcRemove 'v | PqcPop | PqcUpdate 'v int

fun pq_step :: "'v PriorityQueue \<Rightarrow> 'v pq_call \<Rightarrow> ('v option \<times> 'v PriorityQueue) option" where
  "pq_step p (PqcInsert v k) = Some (None, PqInsert p v k)"
| "pq_step p (PqcRemove v) = do { (_, p1) \<leftarrow> PqRemove p v; Some (None, p1) }"
| "pq_step p PqcPop = (case PqPop p of (Inl _, p1) \<Rightarrow> Some (None, p1) | (Inr v, p1) \<Rightarrow> Some (Some v, p1))"
| "pq_step p (PqcUpdate v k) = do { p1 \<leftarrow> UpdatePriority p v k; Some (None, p1) }"

text \<open>The specification: a map, changed in place; \<open>Pop\<close> may take any value of least priority.\<close>

inductive map_step :: "('v \<rightharpoonup> int) \<Rightarrow> 'v pq_call \<Rightarrow> 'v option \<Rightarrow> ('v \<rightharpoonup> int) \<Rightarrow> bool" where
  insert_new: "m v = None \<Longrightarrow> map_step m (PqcInsert v k) None (m(v \<mapsto> k))"
| insert_old: "m v \<noteq> None \<Longrightarrow> map_step m (PqcInsert v k) None m"
| remove_any: "map_step m (PqcRemove v) None (m(v := None))"
| pop_none: "m = Map.empty \<Longrightarrow> map_step m PqcPop None m"
| pop_some: "m v = Some k \<Longrightarrow> (\<And>w l. m w = Some l \<Longrightarrow> k \<le> l) \<Longrightarrow> map_step m PqcPop (Some v) (m(v := None))"
| update_old: "m v \<noteq> None \<Longrightarrow> map_step m (PqcUpdate v k) None (m(v \<mapsto> k))"
| update_new: "m v = None \<Longrightarrow> map_step m (PqcUpdate v k) None m"

inductive map_run :: "('v \<rightharpoonup> int) \<Rightarrow> 'v pq_call list \<Rightarrow> 'v option list \<Rightarrow> ('v \<rightharpoonup> int) \<Rightarrow> bool" where
  run_nil: "map_run m [] [] m"
| run_cons: "map_step m c r m1 \<Longrightarrow> map_run m1 cs rs m2 \<Longrightarrow> map_run m (c # cs) (r # rs) m2"

fun pq_run :: "'v PriorityQueue \<Rightarrow> 'v pq_call list \<Rightarrow> ('v option list \<times> 'v PriorityQueue) option" where
  "pq_run p [] = Some ([], p)"
| "pq_run p (c # cs) = do { (r, p1) \<leftarrow> pq_step p c; (rs, p2) \<leftarrow> pq_run p1 cs; Some (r # rs, p2) }"

lemma pq_step_refines:
  assumes ok: "pq_ok p"
  shows "\<exists>r p1. pq_step p c = Some (r, p1) \<and> pq_ok p1 \<and> map_step (pq_map p) c r (pq_map p1)"
proof (cases c)
  case (PqcInsert v k)
  then show ?thesis using pqi.insert_ok [OF ok] pqi.insert_contents [OF ok, of v k]
    by (cases "pq_map p v") (auto intro: insert_new insert_old)
next
  case (PqcRemove v)
  then show ?thesis using pqi.remove_total [OF ok, of v] by (auto intro: remove_any)
next
  case PqcPop
  show ?thesis
  proof (cases "pq_map p = Map.empty")
    case True
    then show ?thesis using pqi.pop_empty [OF ok] PqcPop ok by (auto intro: pop_none)
  next
    case False
    from pqi.pop_least [OF ok this] obtain v k q1 where "PqPop p = (Inr v, q1)" "pq_map p v = Some k"
      "\<And>w l. pq_map p w = Some l \<Longrightarrow> k \<le> l" "pq_ok q1" "pq_map q1 = (pq_map p)(v := None)" by blast
    then show ?thesis using pop_some [of "pq_map p" v k] PqcPop by auto
  qed
next
  case (PqcUpdate v k)
  then show ?thesis using pqi.update_total [OF ok, of v k] update_old [of "pq_map p" v k] update_new [of "pq_map p" v k]
    by (cases "pq_map p v") auto
qed

lemma pq_run_refines:
  "pq_ok p \<Longrightarrow> \<exists>rs p1. pq_run p cs = Some (rs, p1) \<and> pq_ok p1 \<and> map_run (pq_map p) cs rs (pq_map p1)"
proof (induction cs arbitrary: p)
  case Nil
  then show ?case by (auto intro: run_nil)
next
  case (Cons c cs)
  from pq_step_refines [OF Cons.prems, of c] obtain r p1 where
    s: "pq_step p c = Some (r, p1)" "pq_ok p1" "map_step (pq_map p) c r (pq_map p1)" by blast
  from Cons.IH [OF s(2)] obtain rs p2 where "pq_run p1 cs = Some (rs, p2)" "pq_ok p2" "map_run (pq_map p1) cs rs (pq_map p2)" by blast
  with s show ?case by (auto intro: run_cons)
qed

text \<open>C18 (refinement): every sequence of calls on a new priority queue returns without a panic, and behaves as a map from
  values to priorities from which Pop takes a value of least priority.\<close>

theorem priority_queue_refines_map:
  "\<exists>rs p. pq_run NewPriorityQueue cs = Some (rs, p) \<and> pq_ok p \<and> map_run Map.empty cs rs (pq_map p) \<and>
     PqLen p = int (card (dom (pq_map p)))"
  using pq_run_refines [OF pq_ok_New, of cs] PqLen_card unfolding pq_map_New by blast

end
