(* ===== verification/TimeMem.thy ===== *)
theory TimeMem
  imports Mempool PriorityQueue
begin

text \<open>
  The mempool ordered by time (src/mempool/timemem.go).

  Microblocks are queued by reference (an address with the microblock it points to), with the reading of their
  \<open>FutureTimestamp\<close> as priority.  The queue is that of \<open>PriorityQueue\<close>; the proofs use its contract only.
\<close>

section \<open>State\<close>

type_synonym TmRef = "nat \<times> MicroBlock"

record TmEnv =
  teGob :: "Transaction \<Rightarrow> Bytes"
  teHash :: HashEnv
  teRandIntn :: "int \<Rightarrow> int"
  teGroupNum :: int

record Timemem =
  mbpq :: "TmRef PriorityQueue"
  tmTxnList :: "Transaction list"
  microblockMap :: "Identifier \<rightharpoonup> TmRef"
  tmBsize :: int
  tmMsize :: int
  tmMemsize :: int
  tmCurrSize :: int

definition NewTimemem :: "int \<Rightarrow> int \<Rightarrow> int \<Rightarrow> Timemem" where
  "NewTimemem bsize msize memsize =
     \<lparr>mbpq = NewPriorityQueue, tmTxnList = [], microblockMap = Map.empty, tmBsize = bsize, tmMsize = msize,
      tmMemsize = memsize, tmCurrSize = 0\<rparr>"

section \<open>Operations\<close>

text \<open>\<open>time.Time.UnixNano\<close> is the 64-bit count of nanoseconds.\<close>

definition UnixNano :: "Time \<Rightarrow> int" where
  "UnixNano t = i64 t"

definition TmAddTxn ::
  "TmEnv \<Rightarrow> Time \<Rightarrow> Time \<Rightarrow> Timemem \<Rightarrow> Transaction \<Rightarrow> ((bool \<times> MicroBlock option) \<times> Timemem) option" where
  "TmAddTxn e now1 now2 tm txn =
     (if PqLen (mbpq tm) \<ge> tmMemsize tm then Some ((False, None), tm)
      else
        let tranSize = SizeOf (teGob e) txn in
        if tranSize > tmMsize tm then Some ((False, None), tm)
        else do {
          (r, cur, txns) \<leftarrow> batch_txn (NewMicroblock (teHash e) (teRandIntn e) (teGroupNum e) now1 now2 0)
                             (tmMsize tm) tranSize (tmCurrSize tm) (tmTxnList tm) txn;
          Some (r, tm\<lparr>tmCurrSize := cur, tmTxnList := txns\<rparr>) })"

definition TmAddMicroblock :: "Timemem \<Rightarrow> TmRef \<Rightarrow> Timemem" where
  "TmAddMicroblock tm r =
     (if microblockMap tm (mbHash (snd r)) \<noteq> None then tm
      else tm\<lparr>mbpq := PqInsert (mbpq tm) r (UnixNano (mbFutureTimestamp (snd r))),
              microblockMap := (microblockMap tm)(mbHash (snd r) \<mapsto> r)\<rparr>)"

definition tm_batch :: "Timemem \<Rightarrow> TmRef list \<times> Timemem" where
  "tm_batch tm =
     (let batchSize = (if PqLen (mbpq tm) \<ge> tmBsize tm then tmBsize tm else PqLen (mbpq tm)) in
      case pops PqPop (nat batchSize) (mbpq tm) of (rs, q) \<Rightarrow> (rs, tm\<lparr>mbpq := q\<rparr>))"

definition TmGeneratePayload :: "Timemem \<Rightarrow> Payload \<times> Timemem" where
  "TmGeneratePayload tm =
     (case tm_batch tm of (rs, tm1) \<Rightarrow> (NewPayload (map (\<lambda>r. Some (snd r)) rs) Map.empty [] [], tm1))"

definition TmCheckExistence :: "Timemem \<Rightarrow> Proposal \<Rightarrow> bool \<times> Identifier list" where
  "TmCheckExistence tm p = (False, [])"

definition TmRemoveMicroblock :: "Timemem \<Rightarrow> Identifier \<Rightarrow> error option \<times> Timemem" where
  "TmRemoveMicroblock tm x = (None, tm)"

definition TmFindMicroblock :: "Timemem \<Rightarrow> Identifier \<Rightarrow> bool \<times> MicroBlock option" where
  "TmFindMicroblock tm x = (case microblockMap tm x of None \<Rightarrow> (False, None) | Some r \<Rightarrow> (True, Some (snd r)))"

text \<open>The result counts the removals that failed, which the code only logs.\<close>

fun tm_fill ::
  "Timemem \<Rightarrow> Identifier list \<Rightarrow> MicroBlock list \<Rightarrow> Identifier set \<Rightarrow>
   ((MicroBlock list \<times> Identifier set) \<times> Timemem) option" where
  "tm_fill tm [] existing missing = Some ((existing, missing), tm)"
| "tm_fill tm (x # xs) existing missing =
     (case microblockMap tm x of
        Some r \<Rightarrow>
          do { (_, q) \<leftarrow> PqRemove (mbpq tm) r;
               tm_fill (tm\<lparr>mbpq := q, microblockMap := (microblockMap tm)(mbHash (snd r) := None)\<rparr>) xs
                 (existing @ [snd r]) missing }
      | None \<Rightarrow> tm_fill tm xs existing (insert x missing))"

definition TmFillProposal :: "Timemem \<Rightarrow> Proposal \<Rightarrow> (PendingBlock \<times> Timemem) option" where
  "TmFillProposal tm p =
     do { ((existing, missing), tm1) \<leftarrow> tm_fill tm (ppHashList p) [] {};
          Some (NewPendingBlock p missing (map Some existing), tm1) }"

definition TmIsStable :: "Timemem \<Rightarrow> Identifier \<Rightarrow> bool" where "TmIsStable tm x \<longleftrightarrow> False"

definition TmAddAck :: "Timemem \<Rightarrow> Ack \<Rightarrow> Timemem" where "TmAddAck tm ack = tm"

definition TmAckList :: "Timemem \<Rightarrow> Identifier \<Rightarrow> NodeID list" where "TmAckList tm x = []"

section \<open>Invariant\<close>

text \<open>What relates the queue to the map: a queued element is in the map under its key and has its time as priority.\<close>

definition queue_in_map :: "('r \<Rightarrow> 'x) \<Rightarrow> ('r \<Rightarrow> int) \<Rightarrow> ('r \<rightharpoonup> int) \<Rightarrow> ('x \<rightharpoonup> 'r) \<Rightarrow> bool" where
  "queue_in_map h t c m \<longleftrightarrow> (\<forall>x r. m x = Some r \<longrightarrow> h r = x) \<and>
     (\<forall>r k. c r = Some k \<longrightarrow> m (h r) = Some r \<and> k = t r)"

lemma queue_in_map_empty: "queue_in_map h t Map.empty Map.empty"
  by (simp add: queue_in_map_def)

lemma queue_in_mapD:
  "queue_in_map h t c m \<Longrightarrow> c r = Some k \<Longrightarrow> k = t r"
  "queue_in_map h t c m \<Longrightarrow> c r = Some k \<Longrightarrow> m (h r) = Some r"
  "queue_in_map h t c m \<Longrightarrow> m x = Some r \<Longrightarrow> h r = x"
  by (simp_all add: queue_in_map_def)

lemma queue_in_map_add:
  assumes "queue_in_map h t c m" and "m (h r) = None"
  shows "queue_in_map h t (c(r \<mapsto> t r)) (m(h r \<mapsto> r))" and "c r = None"
proof -
  have new: "h a \<noteq> h r" if "c a = Some k" for a k
    using queue_in_mapD(2) [OF assms(1) that] assms(2) by auto
  show "c r = None" using new [of r] by (cases "c r") simp_all
  show "queue_in_map h t (c(r \<mapsto> t r)) (m(h r \<mapsto> r))"
    using new queue_in_mapD [OF assms(1)] by (simp add: queue_in_map_def)
qed

lemma queue_in_map_restrict: "queue_in_map h t c m \<Longrightarrow> queue_in_map h t (c |` A) m"
  by (auto simp: queue_in_map_def restrict_map_def split: if_splits)

lemma queue_in_map_remove:
  assumes "queue_in_map h t c m" and "m x = Some r"
  shows "queue_in_map h t (c(r := None)) (m(x := None))"
proof -
  have "h a \<noteq> x" if "c a = Some k" "a \<noteq> r" for a k
    using queue_in_mapD(2) [OF assms(1) that(1)] assms(2) that(2) by auto
  then show ?thesis using queue_in_mapD [OF assms(1)] by (simp add: queue_in_map_def)
qed

abbreviation tm_hash :: "TmRef \<Rightarrow> Identifier" where "tm_hash r \<equiv> mbHash (snd r)"

abbreviation tm_time :: "TmRef \<Rightarrow> int" where "tm_time r \<equiv> UnixNano (mbFutureTimestamp (snd r))"

definition tm_ok :: "Timemem \<Rightarrow> bool" where
  "tm_ok tm \<longleftrightarrow> pq_ok (mbpq tm) \<and> queue_in_map tm_hash tm_time (pq_map (mbpq tm)) (microblockMap tm)"

lemma tm_ok_New [inv_intros]: "tm_ok (NewTimemem b m k)"
  by (simp add: tm_ok_def NewTimemem_def pq_ok_New pq_map_New queue_in_map_empty)

lemma tm_ok_Add [inv_intros]:
  assumes "tm_ok tm"
  shows "tm_ok (TmAddMicroblock tm r)"
proof (cases "microblockMap tm (tm_hash r)")
  case None
  have q: "pq_ok (mbpq tm)" and m: "queue_in_map tm_hash tm_time (pq_map (mbpq tm)) (microblockMap tm)"
    using assms by (simp_all add: tm_ok_def)
  from queue_in_map_add [OF m None] pqi.insert_ok [OF q] pqi.insert_contents [OF q, of r "tm_time r"] None
  show ?thesis by (simp add: tm_ok_def TmAddMicroblock_def)
qed (use assms in \<open>simp add: TmAddMicroblock_def\<close>)

lemma tm_ok_AddTxn [inv_intros]: "tm_ok tm \<Longrightarrow> TmAddTxn e t1 t2 tm t = Some (r, tm1) \<Longrightarrow> tm_ok tm1"
  by (auto simp: TmAddTxn_def tm_ok_def Let_def bind_Some_conv split: if_splits)

text \<open>A batch: the earliest microblocks, in order of time.\<close>

lemma tm_batch_spec:
  assumes ok: "tm_ok tm" and b: "tm_batch tm = (rs, tm1)"
  shows "tm_ok tm1 \<and> distinct rs \<and> set rs \<subseteq> dom (pq_map (mbpq tm)) \<and>
    sorted (map (\<lambda>r. tm_time r) rs) \<and>
    dom (pq_map (mbpq tm1)) = dom (pq_map (mbpq tm)) - set rs \<and>
    length rs = min (nat (tmBsize tm)) (card (dom (pq_map (mbpq tm)))) \<and>
    (\<forall>r\<in>set rs. \<forall>w\<in>dom (pq_map (mbpq tm1)). tm_time r \<le> tm_time w)"
proof -
  let ?q = "mbpq tm" and ?n = "nat (if PqLen (mbpq tm) \<ge> tmBsize tm then tmBsize tm else PqLen (mbpq tm))"
  have q: "pq_ok ?q" using ok by (simp add: tm_ok_def)
  have m: "queue_in_map tm_hash tm_time (pq_map ?q) (microblockMap tm)" using ok by (simp add: tm_ok_def)
  have t: "the (pq_map ?q r) = tm_time r" if "r \<in> dom (pq_map ?q)" for r
    using queue_in_mapD(1) [OF m] that by fastforce
  from b obtain q1 where p: "pops PqPop ?n ?q = (rs, q1)" and tm1: "tm1 = tm\<lparr>mbpq := q1\<rparr>"
    by (auto simp: tm_batch_def Let_def split: prod.splits)
  note P = pqi.pops_sorted [OF q p]
  have ms: "map (\<lambda>r. tm_time r) rs = map (\<lambda>v. the (pq_map ?q v)) rs"
  proof (rule map_cong [OF refl])
    fix r assume "r \<in> set rs"
    then have "r \<in> dom (pq_map ?q)" using P by blast
    then show "tm_time r = the (pq_map ?q r)" using t by simp
  qed
  have d: "dom (pq_map q1) = dom (pq_map ?q) - set rs" using P by auto
  have "tm_ok tm1" using P queue_in_map_restrict [OF m, of "- set rs"] by (simp add: tm_ok_def tm1)
  moreover have "length rs = min (nat (tmBsize tm)) (card (dom (pq_map ?q)))"
    using P PqLen_card [OF q] by (auto simp: min_def)
  moreover have "tm_time r \<le> tm_time w"
    if "r \<in> set rs" "w \<in> dom (pq_map q1)" for r w
  proof -
    from that(2) obtain l where l: "pq_map q1 w = Some l" by auto
    then have w: "pq_map ?q w = Some l" using P by (auto simp: restrict_map_def split: if_splits)
    have "the (pq_map ?q r) \<le> l" using P that(1) l by blast
    moreover have "r \<in> dom (pq_map ?q)" using P that(1) by blast
    ultimately show ?thesis using t [of r] t [of w] w by auto
  qed
  moreover have "sorted (map (\<lambda>r. tm_time r) rs)" unfolding ms using P by blast
  ultimately show ?thesis using P d tm1 by simp
qed

text \<open>Filling a proposal.\<close>

lemma tm_fill_facts:
  assumes "tm_ok tm" and "distinct xs"
  shows "\<exists>ex' mi' tm'. tm_fill tm xs ex mi = Some ((ex', mi'), tm') \<and> tm_ok tm' \<and>
    mbHash ` set ex' = mbHash ` set ex \<union> (set xs \<inter> dom (microblockMap tm)) \<and>
    mi' = mi \<union> (set xs - dom (microblockMap tm)) \<and> microblockMap tm' = microblockMap tm |` (- set xs)"
  using assms
proof (induction xs arbitrary: tm ex mi)
  case Nil
  then show ?case by (simp add: restrict_map_def)
next
  case (Cons x xs)
  show ?case
  proof (cases "microblockMap tm x")
    case None
    have e: "microblockMap tm |` (- set xs) = microblockMap tm |` (- set (x # xs))"
      using None by (auto simp: restrict_map_def fun_eq_iff)
    from Cons.IH [OF Cons.prems(1), of ex "insert x mi"] Cons.prems(2) None show ?thesis unfolding e by auto
  next
    case (Some r)
    have q: "pq_ok (mbpq tm)" and m: "queue_in_map tm_hash tm_time (pq_map (mbpq tm)) (microblockMap tm)"
      using Cons.prems(1) by (simp_all add: tm_ok_def)
    have h: "tm_hash r = x" using queue_in_mapD(3) [OF m Some] .
    obtain er q1 where r: "PqRemove (mbpq tm) r = Some (er, q1)" "pq_ok q1" "pq_map q1 = (pq_map (mbpq tm))(r := None)"
      using pqi.remove_total [OF q, of r] by blast
    let ?tm = "tm\<lparr>mbpq := q1, microblockMap := (microblockMap tm)(x := None)\<rparr>"
    have ok: "tm_ok ?tm" using r queue_in_map_remove [OF m Some] by (simp add: tm_ok_def)
    have e: "microblockMap ?tm |` (- set xs) = microblockMap tm |` (- set (x # xs))"
      by (auto simp: restrict_map_def fun_eq_iff)
    have d: "set xs \<inter> dom (microblockMap ?tm) = set xs \<inter> dom (microblockMap tm)"
      "set xs - dom (microblockMap ?tm) = set xs - dom (microblockMap tm)" using Cons.prems(2) by auto
    from Cons.IH [OF ok, of "ex @ [snd r]" mi] Cons.prems(2) obtain ex' mi' tm' where
      f: "tm_fill ?tm xs (ex @ [snd r]) mi = Some ((ex', mi'), tm')" "tm_ok tm'"
        "mbHash ` set ex' = mbHash ` set (ex @ [snd r]) \<union> (set xs \<inter> dom (microblockMap tm))"
        "mi' = mi \<union> (set xs - dom (microblockMap tm))" "microblockMap tm' = microblockMap tm |` (- set (x # xs))"
      unfolding e d by auto
    have "tm_fill tm (x # xs) ex mi = Some ((ex', mi'), tm')" using Some h r(1) f(1) by simp
    with f Some h show ?thesis by auto
  qed
qed

text \<open>An identifier that the proposal repeats is looked up again after its microblock was removed.\<close>

lemma tm_fill_total: "tm_ok tm \<Longrightarrow> \<exists>r tm'. tm_fill tm xs ex mi = Some (r, tm') \<and> tm_ok tm'"
proof (induction xs arbitrary: tm ex mi)
  case Nil
  then show ?case by simp
next
  case (Cons x xs)
  show ?case
  proof (cases "microblockMap tm x")
    case None
    with Cons show ?thesis by simp
  next
    case (Some r)
    from tm_fill_facts [OF Cons.prems, of "[x]" ex mi] Some
    obtain ex' mi' tm' where f: "tm_fill tm [x] ex mi = Some ((ex', mi'), tm')" "tm_ok tm'" by auto
    then obtain er q where "PqRemove (mbpq tm) r = Some (er, q)" and
      "tm' = tm\<lparr>mbpq := q, microblockMap := (microblockMap tm)(mbHash (snd r) := None)\<rparr>"
      using Some by (auto simp: bind_Some_conv)
    with Cons.IH [OF f(2)] Some show ?thesis by simp
  qed
qed

lemma TmFillProposal_facts:
  assumes "tm_ok tm"
  shows "\<exists>pd tm'. TmFillProposal tm p = Some (pd, tm') \<and> tm_ok tm' \<and> pdProposal pd = p \<and>
    (distinct (ppHashList p) \<longrightarrow> pd_ok pd)"
proof -
  from tm_fill_total [OF assms] obtain ex mi tm' where
    f: "tm_fill tm (ppHashList p) [] {} = Some ((ex, mi), tm')" "tm_ok tm'" by (metis prod.exhaust)
  have "pd_ok (NewPendingBlock p mi (map Some ex))" if "distinct (ppHashList p)"
    using tm_fill_facts [OF assms that, of "[]" "{}"] f(1)
    by (auto simp: pd_ok_def NewPendingBlock_def GenerateHashList_def NewPayload_def)
  with f show ?thesis by (simp add: TmFillProposal_def NewPendingBlock_def)
qed

interpretation tmf: proposal_filler "\<lambda>tm p. the (TmFillProposal tm p)" tm_ok
proof
  fix tm p
  assume ok: "tm_ok tm"
  from TmFillProposal_facts [OF this, of p] obtain pd tm' where
    f: "TmFillProposal tm p = Some (pd, tm')" "tm_ok tm'" "pdProposal pd = p" "distinct (ppHashList p) \<longrightarrow> pd_ok pd" by blast
  from f show "pdProposal (fst (the (TmFillProposal tm p))) = p" "tm_ok (snd (the (TmFillProposal tm p)))" by simp_all
  from f show "pd_ok (fst (the (TmFillProposal tm p)))" if "distinct (ppHashList p)" using that by simp
qed

definition tm_batch_inv :: "TmEnv \<Rightarrow> int \<Rightarrow> Timemem \<Rightarrow> bool" where
  "tm_batch_inv e m tm \<longleftrightarrow> tmMsize tm = m \<and> m < 2 ^ 62 \<and> batch_ok (SizeOf (teGob e)) m (tmCurrSize tm) (tmTxnList tm)"

lemma TmAddTxn_batch:
  assumes i: "tm_batch_inv e m tm" and a: "TmAddTxn e t1 t2 tm t = Some ((r, mbo), tm')"
  shows "batch_step (SizeOf (teGob e)) m (tmTxnList tm) t mbo (tmTxnList tm') \<and> tm_batch_inv e m tm'"
proof (cases "PqLen (mbpq tm) \<ge> tmMemsize tm \<or> SizeOf (teGob e) t > tmMsize tm")
  case True
  with a have "mbo = None" and "tm' = tm" by (auto simp: TmAddTxn_def Let_def split: if_splits)
  with i show ?thesis by (simp add: batch_step_def)
next
  case False
  with a obtain cur txns where b: "batch_txn (NewMicroblock (teHash e) (teRandIntn e) (teGroupNum e) t1 t2 0)
      (tmMsize tm) (SizeOf (teGob e) t) (tmCurrSize tm) (tmTxnList tm) t = Some ((r, mbo), cur, txns)"
    and tm': "tmCurrSize tm' = cur" "tmTxnList tm' = txns" "tmMsize tm' = tmMsize tm"
    by (auto simp: TmAddTxn_def Let_def bind_Some_conv)
  have "0 \<le> SizeOf (teGob e) t" "SizeOf (teGob e) t \<le> tmMsize tm" using False by (auto simp: SizeOf_def)
  from batch_txn_step [where sz = "SizeOf (teGob e)", OF b NewMicroblock_txns _ this] i tm' show ?thesis
    by (simp add: tm_batch_inv_def)
qed

interpretation tmb: txn_batcher "TmAddTxn e t1 t2" tmTxnList "tm_batch_inv e m" "SizeOf (teGob e)" m for e t1 t2 m
  by unfold_locales (use TmAddTxn_batch in blast)+

section \<open>Earliest first\<close>

datatype tm_event = TmAdd TmRef | TmPropose | TmFill Proposal

fun tm_step :: "Timemem \<Rightarrow> tm_event \<Rightarrow> Timemem option" where
  "tm_step tm (TmAdd r) = Some (TmAddMicroblock tm r)"
| "tm_step tm TmPropose = Some (snd (TmGeneratePayload tm))"
| "tm_step tm (TmFill p) = do { (_, tm1) \<leftarrow> TmFillProposal tm p; Some tm1 }"

fun tm_run :: "Timemem \<Rightarrow> tm_event list \<Rightarrow> Timemem option" where
  "tm_run tm [] = Some tm"
| "tm_run tm (ev # evs) = do { tm1 \<leftarrow> tm_step tm ev; tm_run tm1 evs }"

definition queued :: "Timemem \<Rightarrow> TmRef set" where
  "queued tm = dom (pq_map (mbpq tm))"

definition no_later :: "TmRef list \<Rightarrow> TmRef set \<Rightarrow> bool" where
  "no_later rs Q \<longleftrightarrow> (\<forall>r\<in>set rs. \<forall>w\<in>Q. tm_time r \<le> tm_time w)"

lemma TmGeneratePayload_batch:
  "TmGeneratePayload tm = (NewPayload (map (\<lambda>r. Some (snd r)) (fst (tm_batch tm))) Map.empty [] [], snd (tm_batch tm))"
  by (simp add: TmGeneratePayload_def split: prod.split)

lemma tm_step_ok: "tm_ok tm \<Longrightarrow> \<exists>tm1. tm_step tm ev = Some tm1 \<and> tm_ok tm1"
proof (cases ev)
  case TmPropose
  moreover assume "tm_ok tm"
  ultimately show ?thesis using tm_batch_spec [of tm "fst (tm_batch tm)" "snd (tm_batch tm)"]
    by (simp add: TmGeneratePayload_batch)
next
  case (TmFill p)
  moreover assume "tm_ok tm"
  ultimately show ?thesis using TmFillProposal_facts [of tm p] by auto
qed (simp add: tm_ok_Add)

lemma tm_run_ok: "tm_ok tm \<Longrightarrow> \<exists>tm1. tm_run tm evs = Some tm1 \<and> tm_ok tm1"
proof (induction evs arbitrary: tm)
  case (Cons ev evs)
  from tm_step_ok [OF Cons.prems, of ev] obtain tm1 where "tm_step tm ev = Some tm1" "tm_ok tm1" by blast
  with Cons.IH [of tm1] show ?case by simp
qed simp

text \<open>C19 (earliest first): after any sequence of arrivals, payload requests and filled proposals, which never panics, the next
  payload holds different queued microblocks in the order of their times, as many as the batch size allows; they leave the
  queue, and every microblock that stays is not earlier than any of them.\<close>

theorem timemem_proposes_earliest:
  "\<exists>tm rs tm1. tm_run (NewTimemem b m k) evs = Some tm \<and>
     TmGeneratePayload tm = (NewPayload (map (\<lambda>r. Some (snd r)) rs) Map.empty [] [], tm1) \<and>
     distinct rs \<and> set rs \<subseteq> queued tm \<and> queued tm1 = queued tm - set rs \<and>
     int (length rs) = min (max 0 (tmBsize tm)) (PqLen (mbpq tm)) \<and>
     sorted (map tm_time rs) \<and> no_later rs (queued tm1)"
proof -
  from tm_run_ok [OF tm_ok_New, of b m k evs] obtain tm where r: "tm_run (NewTimemem b m k) evs = Some tm" and ok: "tm_ok tm"
    by blast
  obtain rs tm1 where b: "tm_batch tm = (rs, tm1)" by fastforce
  have "pq_ok (mbpq tm)" using ok by (simp add: tm_ok_def)
  note L = PqLen_card [OF this]
  show ?thesis
    using tm_batch_spec [OF ok b] r L b by (intro exI [of _ tm] exI [of _ rs] exI [of _ tm1])
      (auto simp: TmGeneratePayload_batch queued_def no_later_def)
qed

text \<open>Filling a proposal forgets its microblocks, so that one that arrives once more is queued again.\<close>

lemma timemem_requeues_filled:
  assumes ok: "tm_ok tm" and d: "distinct (ppHashList p)" and r: "tm_hash r \<in> set (ppHashList p)"
    and f: "TmFillProposal tm p = Some (pd, tm1)"
  shows "r \<in> queued (TmAddMicroblock tm1 r)"
proof -
  from tm_fill_facts [OF ok d, of "[]" "{}"] f r have ok1: "tm_ok tm1" and n: "microblockMap tm1 (tm_hash r) = None"
    by (auto simp: TmFillProposal_def)
  from ok1 have "pq_ok (mbpq tm1)" by (simp add: tm_ok_def)
  from pqi.insert_contents [OF this, of r "tm_time r"] n show ?thesis
    by (auto simp: queued_def TmAddMicroblock_def split: if_splits)
qed

end
