(* ===== verification/Txpool.thy ===== *)
theory Txpool
  imports Mempool
begin

text \<open>
  The pool of generated transactions (src/txpool/txpool.go).

  The random payload and the clock readings of \<open>generateTx\<close> are the argument \<open>gen\<close>.  \<open>FetchSignal\<close> is a
  buffered channel: its length is a counter, and a send on a full channel blocks.  \<open>AddTx\<close> holds the
  lock while it sends; with nobody receiving, that send does not return (\<open>None\<close>).
\<close>

record Txpool =
  Transactions :: "Transaction list"
  Poolsize :: int
  poolLen :: int
  receiveNum :: int
  fetchSignal :: int

definition NewTxpool :: "int \<Rightarrow> Txpool" where
  "NewTxpool poolsize =
     \<lparr>Transactions = [], Poolsize = poolsize, poolLen = 0, receiveNum = 0, fetchSignal = 0\<rparr>"

definition generateTx :: "NodeID \<Rightarrow> Bytes \<Rightarrow> Time \<Rightarrow> string \<Rightarrow> Transaction" where
  "generateTx me value now x =
     \<lparr>txCommand = \<lparr>cmdKey = 1, cmdValue = Some value, cmdClientID = me, cmdCommandID = 1\<rparr>,
      txTimestamp = now, txNodeID = me, txID = x\<rparr>"

text \<open>A send on \<open>FetchSignal\<close>, whose capacity is the pool size.\<close>

definition signal :: "Txpool \<Rightarrow> Txpool option" where
  "signal pool = (if fetchSignal pool \<ge> Poolsize pool then None else Some (pool\<lparr>fetchSignal := fetchSignal pool + 1\<rparr>))"

text \<open>The loop of \<open>AddTx\<close>: \<open>k\<close> iterations are left, \<open>i\<close> is the loop variable.\<close>

fun add_loop :: "NodeID \<Rightarrow> (int \<Rightarrow> Bytes \<times> Time) \<Rightarrow> nat \<Rightarrow> int \<Rightarrow> Txpool \<Rightarrow> Txpool option" where
  "add_loop me gen 0 i pool = Some pool"
| "add_loop me gen (Suc k) i pool =
     (if poolLen pool = Poolsize pool then signal pool
      else
        let pool1 = pool\<lparr>poolLen := poolLen pool + 1, receiveNum := receiveNum pool + 1\<rparr>;
            tx = generateTx me (fst (gen i)) (snd (gen i)) (Itoa (poolLen pool1 + i));
            pool2 = pool1\<lparr>Transactions := Transactions pool1 @ [tx]\<rparr>
        in do { pool3 \<leftarrow> signal pool2; add_loop me gen k (i + 1) pool3 })"

definition AddTx :: "NodeID \<Rightarrow> (int \<Rightarrow> Bytes \<times> Time) \<Rightarrow> Txpool \<Rightarrow> int \<Rightarrow> Txpool option" where
  "AddTx me gen pool nums = add_loop me gen (nat nums) 0 pool"

text \<open>A negative number slices out of range.\<close>

definition FetchTx :: "Txpool \<Rightarrow> int \<Rightarrow> (Transaction list \<times> Txpool) option" where
  "FetchTx pool nums =
     (if poolLen pool < nums then Some (Transactions pool, pool\<lparr>Transactions := [], poolLen := 0\<rparr>)
      else if nums < 0 \<or> int (length (Transactions pool)) < nums then None
      else Some (take (nat nums) (Transactions pool),
                 pool\<lparr>Transactions := drop (nat nums) (Transactions pool),
                      poolLen := int (length (drop (nat nums) (Transactions pool)))\<rparr>))"

definition TxLen :: "Txpool \<Rightarrow> int" where "TxLen pool = poolLen pool"

definition ReceiveNum :: "Txpool \<Rightarrow> int" where "ReceiveNum pool = receiveNum pool"

text \<open>Another goroutine receives one signal; on an empty channel it waits.\<close>

definition take_signal :: "Txpool \<Rightarrow> Txpool option" where
  "take_signal pool = (if fetchSignal pool \<le> 0 then None else Some (pool\<lparr>fetchSignal := fetchSignal pool - 1\<rparr>))"

section \<open>Invariant\<close>

definition pool_ok :: "Txpool \<Rightarrow> bool" where
  "pool_ok p \<longleftrightarrow> poolLen p = int (length (Transactions p)) \<and> poolLen p \<le> Poolsize p \<and>
     0 \<le> fetchSignal p \<and> fetchSignal p \<le> Poolsize p"

lemma pool_ok_New: "0 \<le> n \<Longrightarrow> pool_ok (NewTxpool n)"
  by (simp add: pool_ok_def NewTxpool_def)

lemma add_loop_facts:
  assumes "pool_ok p" and "add_loop me gen k i p = Some p'"
  shows "pool_ok p' \<and> Poolsize p' = Poolsize p \<and> (\<exists>new. Transactions p' = Transactions p @ new \<and> length new \<le> k \<and>
    receiveNum p' = receiveNum p + int (length new) \<and> (length new < k \<longrightarrow> poolLen p' = Poolsize p'))"
  using assms
proof (induction k arbitrary: i p)
  case 0
  then show ?case by simp
next
  case (Suc k)
  show ?case
  proof (cases "poolLen p = Poolsize p")
    case True
    with Suc.prems show ?thesis by (auto simp: signal_def pool_ok_def split: if_splits)
  next
    case False
    define tx where "tx = generateTx me (fst (gen i)) (snd (gen i)) (Itoa (poolLen p + 1 + i))"
    define p3 where "p3 = p\<lparr>poolLen := poolLen p + 1, receiveNum := receiveNum p + 1,
      Transactions := Transactions p @ [tx], fetchSignal := fetchSignal p + 1\<rparr>"
    from False Suc.prems(2) have l: "add_loop me gen k (i + 1) p3 = Some p'" and s: "fetchSignal p < Poolsize p"
      by (auto simp: Let_def signal_def p3_def tx_def bind_Some_conv split: if_splits)
    have "pool_ok p3" using Suc.prems(1) False s by (simp add: pool_ok_def p3_def)
    from Suc.IH [OF this l] obtain new where "pool_ok p'" "Poolsize p' = Poolsize p"
      "Transactions p' = (Transactions p @ [tx]) @ new" "length new \<le> k"
      "receiveNum p' = receiveNum p + 1 + int (length new)" "length new < k \<longrightarrow> poolLen p' = Poolsize p'"
      by (auto simp: p3_def)
    then show ?thesis by (intro conjI exI [of _ "tx # new"]) simp_all
  qed
qed

lemma FetchTx_facts:
  assumes "pool_ok p" and "0 \<le> nums"
  shows "\<exists>p'. FetchTx p nums = Some (take (nat nums) (Transactions p), p') \<and> pool_ok p' \<and>
    Transactions p' = drop (nat nums) (Transactions p) \<and> receiveNum p' = receiveNum p \<and> Poolsize p' = Poolsize p"
  using assms by (auto simp: FetchTx_def pool_ok_def)

section \<open>Runs\<close>

datatype pool_event = PoolAdd int | PoolFetch int | PoolSignal

fun pool_step :: "NodeID \<Rightarrow> (int \<Rightarrow> Bytes \<times> Time) \<Rightarrow> Txpool \<times> Transaction list \<Rightarrow> pool_event \<Rightarrow> (Txpool \<times> Transaction list) option" where
  "pool_step me gen (p, out) (PoolAdd n) = do { p1 \<leftarrow> AddTx me gen p n; Some (p1, out) }"
| "pool_step me gen (p, out) (PoolFetch n) = do { (txs, p1) \<leftarrow> FetchTx p n; Some (p1, out @ txs) }"
| "pool_step me gen (p, out) PoolSignal = do { p1 \<leftarrow> take_signal p; Some (p1, out) }"

fun pool_run :: "NodeID \<Rightarrow> (int \<Rightarrow> Bytes \<times> Time) \<Rightarrow> Txpool \<times> Transaction list \<Rightarrow> pool_event list \<Rightarrow> (Txpool \<times> Transaction list) option" where
  "pool_run me gen s [] = Some s"
| "pool_run me gen s (e # es) = do { s1 \<leftarrow> pool_step me gen s e; pool_run me gen s1 es }"

definition pool_inv :: "Txpool \<times> Transaction list \<Rightarrow> bool" where
  "pool_inv s \<longleftrightarrow> pool_ok (fst s) \<and> receiveNum (fst s) = int (length (snd s)) + poolLen (fst s)"

lemma pool_step_inv:
  assumes "pool_inv s" and "pool_step me gen s e = Some s'"
  shows "pool_inv s' \<and> Poolsize (fst s') = Poolsize (fst s)"
proof -
  obtain p out where s: "s = (p, out)" by fastforce
  have ok: "pool_ok p" and r: "receiveNum p = int (length out) + poolLen p" using assms(1) s by (simp_all add: pool_inv_def)
  show ?thesis
  proof (cases e)
    case (PoolAdd n)
    with assms(2) s obtain p1 where a: "add_loop me gen (nat n) 0 p = Some p1" and s': "s' = (p1, out)"
      by (auto simp: AddTx_def bind_Some_conv)
    from add_loop_facts [OF ok a] s' s r ok show ?thesis by (auto simp: pool_inv_def pool_ok_def)
  next
    case (PoolFetch n)
    with assms(2) s obtain txs p1 where f: "FetchTx p n = Some (txs, p1)" and s': "s' = (p1, out @ txs)"
      by (auto simp: bind_Some_conv)
    have "0 \<le> n" using f ok by (auto simp: FetchTx_def pool_ok_def split: if_splits)
    from FetchTx_facts [OF ok this] f have "pool_ok p1" "txs = take (nat n) (Transactions p)"
      "Transactions p1 = drop (nat n) (Transactions p)" "receiveNum p1 = receiveNum p" "Poolsize p1 = Poolsize p" by auto
    then show ?thesis using s' s r ok by (simp add: pool_inv_def pool_ok_def)
  next
    case PoolSignal
    with assms(2) s ok r show ?thesis
      by (auto simp: take_signal_def bind_Some_conv pool_inv_def pool_ok_def split: if_splits)
  qed
qed

lemma pool_run_inv:
  "pool_inv s \<Longrightarrow> pool_run me gen s es = Some s' \<Longrightarrow> pool_inv s' \<and> Poolsize (fst s') = Poolsize (fst s)"
proof (induction es arbitrary: s)
  case (Cons e es)
  then obtain s1 where a: "pool_step me gen s e = Some s1" and r: "pool_run me gen s1 es = Some s'"
    by (auto simp: bind_Some_conv)
  from pool_step_inv [OF Cons.prems(1) a] Cons.IH [OF _ r] show ?case by simp
qed simp

text \<open>Transaction pool: over any sequence of additions, fetches and received signals on a new pool, the length
  counter is the number of waiting transactions and never exceeds the pool size, and every transaction
  ever counted as received has either been fetched or is still waiting.\<close>

theorem pool_accounts_for_transactions:
  assumes "0 \<le> n" and "pool_run me gen (NewTxpool n, []) es = Some (p, out)"
  shows "TxLen p = int (length (Transactions p)) \<and> TxLen p \<le> n \<and> ReceiveNum p = int (length out) + TxLen p"
proof -
  have "pool_inv (NewTxpool n, [])" using pool_ok_New [OF assms(1)] by (simp add: pool_inv_def) (simp add: NewTxpool_def)
  from pool_run_inv [OF this assms(2)] show ?thesis
    by (auto simp: pool_inv_def pool_ok_def TxLen_def ReceiveNum_def NewTxpool_def)
qed

theorem pool_accounts_for_transactions_witness:
  "\<exists>p out. pool_run ''1'' (\<lambda>_. ([], 0)) (NewTxpool 2, []) [PoolAdd 1, PoolFetch 5, PoolSignal, PoolAdd 1] = Some (p, out) \<and>
     ReceiveNum p = 2 \<and> length out = 1 \<and> TxLen p = 1"
proof -
  obtain p out where r: "pool_run ''1'' (\<lambda>_. ([], 0)) (NewTxpool 2, []) [PoolAdd 1, PoolFetch 5, PoolSignal, PoolAdd 1] = Some (p, out)"
    and o: "length out = 1" "length (Transactions p) = 1"
    by (simp add: NewTxpool_def AddTx_def FetchTx_def take_signal_def signal_def Let_def)
  from pool_accounts_for_transactions [OF _ r] r o show ?thesis by auto
qed

text \<open>
  A full pool does not drop the addition quietly: it sends one more signal, and when no signal has been
  received since the pool filled, that send blocks with the lock held.
\<close>

lemma full_pool_blocks:
  assumes "poolLen p = Poolsize p" and "fetchSignal p = Poolsize p" and "0 < n"
  shows "AddTx me gen p n = None"
proof -
  from assms(3) obtain k where "nat n = Suc k" by (metis gr0_implies_Suc zero_less_nat_eq)
  with assms show ?thesis by (simp add: AddTx_def signal_def)
qed

end
