(* ===== verification/Limiter.thy ===== *)
theory Limiter
  imports Mempool
begin

text \<open>
  The token bucket (src/limiter/ratelimit.go) and the rate-limited reader and writer (reader.go).

  The clock's readings are arguments; a call that sleeps returns the duration with its result.  Counts,
  ticks and durations are 64-bit and wrap.  Of \<open>NewBucketWithRateAndClock\<close> the floating-point
  expressions are parameters (the interval for a quantum, and whether the resulting rate is within the
  margin); its search for a quantum is modelled.  The wrapped \<open>io.Reader\<close> and \<open>io.Writer\<close> are functions.
\<close>

section \<open>Buckets\<close>

record Bucket =
  startTime :: Time
  capacity :: int
  quantum :: int
  fillInterval :: int
  availableTokens :: int
  latestTick :: int

definition NewBucketWithQuantumAndClock :: "int \<Rightarrow> int \<Rightarrow> int \<Rightarrow> Time \<Rightarrow> Bucket option" where
  "NewBucketWithQuantumAndClock fi cap q now =
     (if fi \<le> 0 then None
      else if cap \<le> 0 then None
      else if q \<le> 0 then None
      else Some \<lparr>startTime = now, capacity = cap, quantum = q, fillInterval = fi, availableTokens = cap,
                 latestTick = 0\<rparr>)"

definition NewBucketWithQuantum :: "int \<Rightarrow> int \<Rightarrow> int \<Rightarrow> Time \<Rightarrow> Bucket option" where
  "NewBucketWithQuantum fi cap q now = NewBucketWithQuantumAndClock fi cap q now"

definition NewBucketWithClock :: "int \<Rightarrow> int \<Rightarrow> Time \<Rightarrow> Bucket option" where
  "NewBucketWithClock fi cap now = NewBucketWithQuantumAndClock fi cap 1 now"

definition NewBucket :: "int \<Rightarrow> int \<Rightarrow> Time \<Rightarrow> Bucket option" where
  "NewBucket fi cap now = NewBucketWithClock fi cap now"

definition nextQuantum :: "int \<Rightarrow> int" where
  "nextQuantum q = (let q1 = go_quot (i64 (q * 11)) 10 in if q1 = q then q1 + 1 else q1)"

lemma nextQuantum_grows:
  assumes "1 \<le> q" and "q < 2 ^ 50"
  shows "q < nextQuantum q"
proof -
  have "i64 (q * 11) = q * 11" using assms by (intro i64_id) (simp add: in_i64_def)
  then have "go_quot (i64 (q * 11)) 10 = q * 11 div 10" using assms by (simp add: go_quot_nonneg)
  moreover have "q * 10 div 10 \<le> q * 11 div 10" using assms by (intro zdiv_mono1) simp_all
  ultimately show ?thesis by (simp add: nextQuantum_def Let_def)
qed

text \<open>The search loop: \<open>interval\<close> and \<open>close\<close> are the floating-point computations for the rate asked for.\<close>

function rate_search :: "(int \<Rightarrow> int) \<Rightarrow> (int \<Rightarrow> int \<Rightarrow> bool) \<Rightarrow> int \<Rightarrow> (int \<times> int) option" where
  "rate_search interval close q =
     (if 1 \<le> q \<and> q < 2 ^ 50 then
        if interval q \<le> 0 then rate_search interval close (nextQuantum q)
        else if close q (interval q) then Some (q, interval q)
        else rate_search interval close (nextQuantum q)
      else None)"
  by auto
termination
  by (relation "measure (\<lambda>(i, c, q). nat (2 ^ 50 - q))") (auto dest: nextQuantum_grows)

declare rate_search.simps [simp del]

definition NewBucketWithRateAndClock ::
  "(int \<Rightarrow> int) \<Rightarrow> (int \<Rightarrow> int \<Rightarrow> bool) \<Rightarrow> int \<Rightarrow> Time \<Rightarrow> Bucket option" where
  "NewBucketWithRateAndClock interval close cap now =
     do { tb \<leftarrow> NewBucketWithQuantumAndClock 1 cap 1 now;
          (q, fi) \<leftarrow> rate_search interval close 1;
          Some (tb\<lparr>fillInterval := fi, quantum := q\<rparr>) }"

definition NewBucketWithRate :: "(int \<Rightarrow> int) \<Rightarrow> (int \<Rightarrow> int \<Rightarrow> bool) \<Rightarrow> int \<Rightarrow> Time \<Rightarrow> Bucket option" where
  "NewBucketWithRate interval close cap now = NewBucketWithRateAndClock interval close cap now"

section \<open>Taking tokens\<close>

definition currentTick :: "Bucket \<Rightarrow> Time \<Rightarrow> int" where
  "currentTick tb now = go_quot (TimeSub now (startTime tb)) (fillInterval tb)"

definition adjustavailableTokens :: "Bucket \<Rightarrow> int \<Rightarrow> Bucket" where
  "adjustavailableTokens tb tick =
     (let lastTick = latestTick tb; tb1 = tb\<lparr>latestTick := tick\<rparr> in
      if availableTokens tb1 \<ge> capacity tb1 then tb1
      else
        let avail = i64 (availableTokens tb1 + i64 (i64 (tick - lastTick) * quantum tb1)) in
        tb1\<lparr>availableTokens := (if avail > capacity tb1 then capacity tb1 else avail)\<rparr>)"

definition infinityDuration :: int where "infinityDuration = 2 ^ 63 - 1"

definition take_tokens :: "Bucket \<Rightarrow> Time \<Rightarrow> int \<Rightarrow> int \<Rightarrow> (int \<times> bool) \<times> Bucket" where
  "take_tokens tb now count maxWait =
     (if count \<le> 0 then ((0, True), tb)
      else
        let tick = currentTick tb now;
            tb1 = adjustavailableTokens tb tick;
            avail = i64 (availableTokens tb1 - count)
        in if avail \<ge> 0 then ((0, True), tb1\<lparr>availableTokens := avail\<rparr>)
           else
             let endTick = i64 (tick + go_quot (i64 (i64 (i64 (- avail) + quantum tb1) - 1)) (quantum tb1));
                 endTime = startTime tb1 + i64 (endTick * fillInterval tb1);
                 waitTime = TimeSub endTime now
             in if waitTime > maxWait then ((0, False), tb1)
                else ((waitTime, True), tb1\<lparr>availableTokens := avail\<rparr>))"

definition Take :: "Bucket \<Rightarrow> Time \<Rightarrow> int \<Rightarrow> int \<times> Bucket" where
  "Take tb now count = (case take_tokens tb now count infinityDuration of ((d, _), tb1) \<Rightarrow> (d, tb1))"

definition TakeMaxDuration :: "Bucket \<Rightarrow> Time \<Rightarrow> int \<Rightarrow> int \<Rightarrow> (int \<times> bool) \<times> Bucket" where
  "TakeMaxDuration tb now count maxWait = take_tokens tb now count maxWait"

text \<open>The durations slept: zero when \<open>Sleep\<close> is not called.\<close>

definition Wait :: "Bucket \<Rightarrow> Time \<Rightarrow> int \<Rightarrow> int \<times> Bucket" where
  "Wait tb now count = (case Take tb now count of (d, tb1) \<Rightarrow> (if d > 0 then d else 0, tb1))"

definition WaitMaxDuration :: "Bucket \<Rightarrow> Time \<Rightarrow> int \<Rightarrow> int \<Rightarrow> (int \<times> bool) \<times> Bucket" where
  "WaitMaxDuration tb now count maxWait =
     (case TakeMaxDuration tb now count maxWait of ((d, ok), tb1) \<Rightarrow> ((if d > 0 then d else 0, ok), tb1))"

definition takeAvailable :: "Bucket \<Rightarrow> Time \<Rightarrow> int \<Rightarrow> int \<times> Bucket" where
  "takeAvailable tb now count =
     (if count \<le> 0 then (0, tb)
      else
        let tb1 = adjustavailableTokens tb (currentTick tb now) in
        if availableTokens tb1 \<le> 0 then (0, tb1)
        else
          let c = (if count > availableTokens tb1 then availableTokens tb1 else count) in
          (c, tb1\<lparr>availableTokens := i64 (availableTokens tb1 - c)\<rparr>))"

definition TakeAvailable :: "Bucket \<Rightarrow> Time \<Rightarrow> int \<Rightarrow> int \<times> Bucket" where
  "TakeAvailable tb now count = takeAvailable tb now count"

definition available :: "Bucket \<Rightarrow> Time \<Rightarrow> int \<times> Bucket" where
  "available tb now = (let tb1 = adjustavailableTokens tb (currentTick tb now) in (availableTokens tb1, tb1))"

definition Available :: "Bucket \<Rightarrow> Time \<Rightarrow> int \<times> Bucket" where
  "Available tb now = available tb now"

definition Capacity :: "Bucket \<Rightarrow> int" where "Capacity tb = capacity tb"

section \<open>Readers and writers\<close>

text \<open>\<open>r\<close> is the wrapped reader: the number of bytes read and the error.\<close>

definition reader_Read :: "(nat \<Rightarrow> int \<times> error option) \<Rightarrow> Bucket \<Rightarrow> Time \<Rightarrow> nat \<Rightarrow> (int \<times> error option) \<times> int \<times> Bucket" where
  "reader_Read r tb now len =
     (case r len of (n, err) \<Rightarrow>
        if n \<le> 0 then ((n, err), 0, tb)
        else (case Wait tb now n of (d, tb1) \<Rightarrow> ((n, err), d, tb1)))"

definition writer_Write :: "(Bytes \<Rightarrow> int \<times> error option) \<Rightarrow> Bucket \<Rightarrow> Time \<Rightarrow> Bytes \<Rightarrow> (int \<times> error option) \<times> int \<times> Bucket" where
  "writer_Write w tb now buf =
     (case Wait tb now (int (length buf)) of (d, tb1) \<Rightarrow> (w buf, d, tb1))"

section \<open>Invariant and accounting\<close>

text \<open>\<open>tb_ok tb G R\<close>: in a bucket from which \<open>G\<close> tokens were granted for requests that add up to \<open>R\<close>,
  the tokens granted and the tokens left are within what the capacity and the ticks so far account for, and
  the debt is at most what was requested.\<close>

definition tb_ok :: "Bucket \<Rightarrow> int \<Rightarrow> int \<Rightarrow> bool" where
  "tb_ok tb G R \<longleftrightarrow>
     0 < fillInterval tb \<and> 0 < quantum tb \<and> 0 < capacity tb \<and> 0 \<le> latestTick tb \<and> 0 \<le> R \<and>
     - R \<le> availableTokens tb \<and> availableTokens tb \<le> capacity tb \<and>
     G + availableTokens tb \<le> capacity tb + quantum tb * latestTick tb"

text \<open>The 64-bit range: up to the instant \<open>now\<close> and with requests adding up to \<open>R\<close> no counter overflows.\<close>

definition tb_range :: "Bucket \<Rightarrow> Time \<Rightarrow> int \<Rightarrow> bool" where
  "tb_range tb now R \<longleftrightarrow>
     startTime tb \<le> now \<and> now - startTime tb < 2 ^ 61 \<and> capacity tb < 2 ^ 61 \<and> R < 2 ^ 61 \<and> quantum tb < 2 ^ 61 \<and>
     quantum tb * ((now - startTime tb) div fillInterval tb) < 2 ^ 61 \<and>
     ((now - startTime tb) div fillInterval tb + R) * fillInterval tb < 2 ^ 62"

definition same_rate :: "Bucket \<Rightarrow> Bucket \<Rightarrow> bool" where
  "same_rate tb tb' \<longleftrightarrow> startTime tb' = startTime tb \<and> capacity tb' = capacity tb \<and> quantum tb' = quantum tb \<and>
     fillInterval tb' = fillInterval tb"

lemma NewBucket_ok: "NewBucketWithQuantumAndClock fi cap q now = Some tb \<Longrightarrow> tb_ok tb 0 0"
  by (auto simp: NewBucketWithQuantumAndClock_def tb_ok_def split: if_splits)

lemma currentTick_eq:
  assumes "0 < fillInterval tb" and "startTime tb \<le> now" and "now - startTime tb < 2 ^ 61"
  shows "currentTick tb now = (now - startTime tb) div fillInterval tb"
proof -
  have "TimeSub now (startTime tb) = now - startTime tb"
    using assms by (intro TimeSub_exact) (simp add: in_i64_def)
  then show ?thesis using assms by (simp add: currentTick_def go_quot_nonneg)
qed

lemma currentTick_nonneg:
  assumes "tb_ok tb G R" and "tb_range tb now R'"
  shows "0 \<le> currentTick tb now"
  using assms by (simp add: tb_ok_def tb_range_def currentTick_eq pos_imp_zdiv_nonneg_iff)

lemma in_i64_sum: "- (2 ^ 61) < a \<Longrightarrow> a < 2 ^ 61 \<Longrightarrow> b < 2 ^ 61 \<Longrightarrow> 0 \<le> b \<Longrightarrow> in_i64 (a + b)"
  by (simp add: in_i64_def)

text \<open>Adjusting is filling up: the tokens of the elapsed ticks are added, up to the capacity.\<close>

lemma adjust_eq:
  assumes ok: "tb_ok tb G R" and rg: "R < 2 ^ 61" "capacity tb < 2 ^ 61" "quantum tb * tick < 2 ^ 61"
    and later: "latestTick tb \<le> tick"
  shows "adjustavailableTokens tb tick =
    tb\<lparr>latestTick := tick,
       availableTokens := min (capacity tb) (availableTokens tb + quantum tb * (tick - latestTick tb))\<rparr>"
proof -
  let ?d = "tick - latestTick tb"
  have q: "1 \<le> quantum tb" "0 \<le> latestTick tb" using ok by (auto simp: tb_ok_def)
  have d: "0 \<le> ?d" "?d \<le> tick" using later q by auto
  have m: "0 \<le> quantum tb * ?d" "quantum tb * ?d \<le> quantum tb * tick"
    using q d by (auto intro: mult_left_mono)
  have "1 * tick \<le> quantum tb * tick" using q d by (intro mult_right_mono) auto
  then have t: "?d < 2 ^ 61" using d rg(3) by linarith
  have i1: "i64 ?d = ?d" using d t by (intro i64_id) (simp add: in_i64_def)
  have i2: "i64 (?d * quantum tb) = quantum tb * ?d"
    using m rg(3) by (subst i64_id) (simp_all add: in_i64_def mult.commute)
  have i3: "i64 (availableTokens tb + quantum tb * ?d) = availableTokens tb + quantum tb * ?d"
  proof (rule i64_id)
    have "- R \<le> availableTokens tb" "availableTokens tb \<le> capacity tb" using ok by (auto simp: tb_ok_def)
    then have "- (2 ^ 61) < availableTokens tb" "availableTokens tb < 2 ^ 61" "quantum tb * ?d < 2 ^ 61" using m rg by linarith+
    with m(1) show "in_i64 (availableTokens tb + quantum tb * ?d)" by (intro in_i64_sum)
  qed
  show ?thesis
  proof (cases "availableTokens tb \<ge> capacity tb")
    case True
    then have "availableTokens tb = capacity tb" using ok by (simp add: tb_ok_def)
    then have "min (capacity tb) (availableTokens tb + quantum tb * ?d) = availableTokens tb"
      using m by (simp add: min_def)
    with True show ?thesis by (simp add: adjustavailableTokens_def Let_def)
  next
    case False
    then show ?thesis using i1 i2 i3 by (simp add: adjustavailableTokens_def Let_def min_def)
  qed
qed

lemma adjust_ok:
  assumes ok: "tb_ok tb G R" and rg: "tb_range tb now R" and later: "latestTick tb \<le> currentTick tb now"
  shows "tb_ok (adjustavailableTokens tb (currentTick tb now)) G R"
    and "same_rate tb (adjustavailableTokens tb (currentTick tb now))"
    and "latestTick (adjustavailableTokens tb (currentTick tb now)) = currentTick tb now"
    and "availableTokens tb \<le> availableTokens (adjustavailableTokens tb (currentTick tb now))"
proof -
  let ?t = "currentTick tb now"
  have t: "?t = (now - startTime tb) div fillInterval tb"
    using ok rg by (intro currentTick_eq) (auto simp: tb_ok_def tb_range_def)
  have e: "adjustavailableTokens tb ?t = tb\<lparr>latestTick := ?t,
       availableTokens := min (capacity tb) (availableTokens tb + quantum tb * (?t - latestTick tb))\<rparr>"
    using rg t by (intro adjust_eq [OF ok _ _ _ later]) (simp_all add: tb_range_def)
  have m: "0 \<le> quantum tb * (?t - latestTick tb)" using ok later by (simp add: tb_ok_def)
  have s: "quantum tb * (?t - latestTick tb) = quantum tb * ?t - quantum tb * latestTick tb"
    by (simp add: right_diff_distrib)
  have a: "- R \<le> availableTokens tb" "G + availableTokens tb \<le> capacity tb + quantum tb * latestTick tb"
    "0 \<le> R" "0 < capacity tb" using ok by (auto simp: tb_ok_def)
  have "- R \<le> min (capacity tb) (availableTokens tb + quantum tb * (?t - latestTick tb))" using a m by linarith
  moreover have "G + min (capacity tb) (availableTokens tb + quantum tb * (?t - latestTick tb)) \<le>
      capacity tb + quantum tb * ?t" using a m s by linarith
  ultimately show "tb_ok (adjustavailableTokens tb ?t) G R" using ok later by (simp add: e tb_ok_def)
  show "same_rate tb (adjustavailableTokens tb ?t)" by (simp add: e same_rate_def)
  show "latestTick (adjustavailableTokens tb ?t) = ?t" by (simp add: e)
  show "availableTokens tb \<le> availableTokens (adjustavailableTokens tb ?t)" using ok m by (simp add: e tb_ok_def)
qed

text \<open>What \<open>take\<close> computes when nothing overflows: the debt \<open>D\<close> is paid off after \<open>\<lceil>D / quantum\<rceil>\<close> ticks.\<close>

lemma ceil_quot:
  fixes D q :: int
  assumes "0 < D" and "0 < q"
  shows "D \<le> q * ((D + q - 1) div q)" and "q * ((D + q - 1) div q - 1) < D" and "(D + q - 1) div q \<le> D"
    and "1 \<le> (D + q - 1) div q"
proof -
  let ?k = "(D + q - 1) div q"
  have e: "q * ?k + (D + q - 1) mod q = D + q - 1" by simp
  have m: "0 \<le> (D + q - 1) mod q" "(D + q - 1) mod q < q" using assms by simp_all
  show "D \<le> q * ?k" using e m by linarith
  show u: "q * (?k - 1) < D" unfolding right_diff_distrib using e m by linarith
  have "q * 1 div q \<le> ?k" using assms by (intro zdiv_mono1) simp_all
  with assms show k: "1 \<le> ?k" by simp
  have "1 * (?k - 1) \<le> q * (?k - 1)" using assms k by (intro mult_right_mono) auto
  then have "?k - 1 < D" using u by simp
  then show "?k \<le> D" by simp
qed

lemma end_tick_eq:
  assumes "0 < D" "D < 2 ^ 61" and "0 < q" "q < 2 ^ 61" and "0 \<le> t" "t < 2 ^ 61"
  shows "i64 (t + go_quot (i64 (i64 (i64 (- (- D)) + q) - 1)) q) = t + (D + q - 1) div q"
proof -
  have "i64 D = D" "i64 (D + q) = D + q" "i64 (D + q - 1) = D + q - 1"
    using assms by (auto intro!: i64_id simp: in_i64_def)
  moreover have "(D + q - 1) div q \<le> D" "1 \<le> (D + q - 1) div q" using ceil_quot assms by auto
  moreover have "i64 (t + (D + q - 1) div q) = t + (D + q - 1) div q"
    using assms calculation by (intro i64_id) (simp add: in_i64_def)
  ultimately show ?thesis using assms by (simp add: go_quot_nonneg)
qed

lemma tb_range_mono:
  assumes "tb_range tb now R'" and "R \<le> R'" and "0 < fillInterval tb"
  shows "tb_range tb now R"
proof -
  let ?t = "(now - startTime tb) div fillInterval tb"
  have "(?t + R) * fillInterval tb \<le> (?t + R') * fillInterval tb" using assms by (intro mult_right_mono) auto
  also have "\<dots> < 2 ^ 62" using assms(1) by (simp add: tb_range_def)
  finally show ?thesis using assms by (simp add: tb_range_def)
qed

text \<open>The end of the wait: the instant at which the tick that pays off the debt \<open>D\<close> begins.\<close>

definition paid_at :: "Bucket \<Rightarrow> int \<Rightarrow> int \<Rightarrow> int" where
  "paid_at tb tick D = tick + (D + quantum tb - 1) div quantum tb"

lemma take_eq:
  assumes ok: "tb_ok tb G R" and rg: "tb_range tb now (R + count)" and pos: "0 < count"
    and later: "latestTick tb \<le> currentTick tb now"
    and tb1: "tb1 = adjustavailableTokens tb (currentTick tb now)" and D: "D = count - availableTokens tb1"
    and w: "w = startTime tb + paid_at tb (currentTick tb now) D * fillInterval tb - now"
  shows "take_tokens tb now count maxWait =
    (if D \<le> 0 then ((0, True), tb1\<lparr>availableTokens := - D\<rparr>)
     else if w > maxWait then ((0, False), tb1)
     else ((w, True), tb1\<lparr>availableTokens := - D\<rparr>))"
proof -
  let ?t = "currentTick tb now" and ?q = "quantum tb" and ?fi = "fillInterval tb"
  let ?e = "paid_at tb ?t D"
  have q: "0 < ?q" "?q < 2 ^ 61" "0 < ?fi" "0 \<le> R" using ok rg by (auto simp: tb_ok_def tb_range_def)
  have rg1: "tb_range tb now R" using tb_range_mono [OF rg] pos q by simp
  note adj = adjust_ok [OF ok rg1 later, folded tb1]
  have sr: "quantum tb1 = ?q" "fillInterval tb1 = ?fi" "startTime tb1 = startTime tb"
    using adj(2) by (auto simp: same_rate_def)
  have t: "?t = (now - startTime tb) div ?fi" using rg q by (intro currentTick_eq) (auto simp: tb_range_def)
  have now: "startTime tb \<le> now" "now - startTime tb < 2 ^ 61" "R + count < 2 ^ 61" "capacity tb < 2 ^ 61"
    "(?t + (R + count)) * ?fi < 2 ^ 62" "?q * ?t < 2 ^ 61"
    using rg t by (auto simp: tb_range_def)
  have t0: "0 \<le> ?t" by (rule currentTick_nonneg [OF ok rg])
  have "1 * ?t \<le> ?q * ?t" using q t0 by (intro mult_right_mono) auto
  then have t1: "?t < 2 ^ 61" using now by linarith
  have av: "- R \<le> availableTokens tb1" "availableTokens tb1 \<le> capacity tb1" "capacity tb1 = capacity tb"
    using adj(1,2) by (auto simp: tb_ok_def same_rate_def)
  have a: "i64 (availableTokens tb1 - count) = - D"
    using av now pos D by (subst i64_id) (auto simp: in_i64_def)
  show ?thesis
  proof (cases "D \<le> 0")
    case True
    then show ?thesis using pos a by (simp add: take_tokens_def Let_def tb1)
  next
    case False
    then have D0: "0 < D" "D \<le> R + count" using av D by auto
    note c = ceil_quot [OF D0(1) q(1)]
    have et: "i64 (?t + go_quot (i64 (i64 (i64 (- (- D)) + ?q) - 1)) ?q) = ?e"
      unfolding paid_at_def using D0 now q t0 t1 by (intro end_tick_eq) linarith+
    have e: "?t + 1 \<le> ?e" "?e \<le> ?t + (R + count)" using c D0 by (auto simp: paid_at_def)
    then have "0 * ?fi \<le> ?e * ?fi" "?e * ?fi \<le> (?t + (R + count)) * ?fi"
      using q t0 by (auto intro!: mult_right_mono simp del: mult_zero_left)
    then have f: "0 \<le> ?e * ?fi" "?e * ?fi < 2 ^ 62" using now by auto
    then have fi: "i64 (?e * ?fi) = ?e * ?fi" by (intro i64_id) (simp add: in_i64_def)
    have "TimeSub (startTime tb + ?e * ?fi) now = w"
      unfolding w using f now by (intro TimeSub_exact) (simp add: in_i64_def)
    with False pos a et fi sr show ?thesis by (simp add: take_tokens_def Let_def flip: tb1)
  qed
qed

lemma same_rate_trans: "same_rate a b \<Longrightarrow> same_rate b c \<Longrightarrow> same_rate a c"
  by (simp add: same_rate_def)

lemma same_rate_tick: "same_rate a b \<Longrightarrow> currentTick b now = currentTick a now"
  by (simp add: same_rate_def currentTick_def)

lemma tick_mono:
  assumes "0 < fillInterval tb" and "startTime tb \<le> t" and "t \<le> u" and "u - startTime tb < 2 ^ 61"
  shows "currentTick tb t \<le> currentTick tb u"
  using assms by (simp add: currentTick_eq zdiv_mono1)

lemma tb_range_earlier:
  assumes rg: "tb_range tb T R" and ok: "0 < fillInterval tb" "0 < quantum tb" and t: "startTime tb \<le> t" "t \<le> T"
  shows "tb_range tb t R"
proof -
  let ?a = "(t - startTime tb) div fillInterval tb" and ?b = "(T - startTime tb) div fillInterval tb"
  have ab: "?a \<le> ?b" using ok t by (intro zdiv_mono1) auto
  have "quantum tb * ?a \<le> quantum tb * ?b" using ab ok by (intro mult_left_mono) auto
  also have "\<dots> < 2 ^ 61" using rg by (simp add: tb_range_def)
  finally have p: "quantum tb * ?a < 2 ^ 61" .
  have "(?a + R) * fillInterval tb \<le> (?b + R) * fillInterval tb" using ab ok by (intro mult_right_mono) auto
  also have "\<dots> < 2 ^ 62" using rg by (simp add: tb_range_def)
  finally show ?thesis using p rg t by (simp add: tb_range_def)
qed

section \<open>Runs of requests\<close>

datatype tb_event = TbTake Time int int | TbTakeAvailable Time int

primrec ev_time :: "tb_event \<Rightarrow> Time" where
  "ev_time (TbTake t c w) = t"
| "ev_time (TbTakeAvailable t c) = t"

primrec ev_count :: "tb_event \<Rightarrow> int" where
  "ev_count (TbTake t c w) = max 0 c"
| "ev_count (TbTakeAvailable t c) = max 0 c"

text \<open>The log has, for each request that was granted tokens, the instant at which its caller may go ahead and
  the tokens granted from the start up to and including it.\<close>

primrec tb_step :: "Bucket \<times> int \<times> (Time \<times> int) list \<Rightarrow> tb_event \<Rightarrow> Bucket \<times> int \<times> (Time \<times> int) list" where
  "tb_step s (TbTake now count maxWait) =
     (case s of (tb, G, log) \<Rightarrow>
        case TakeMaxDuration tb now count maxWait of ((d, ok), tb1) \<Rightarrow>
          if ok \<and> 0 < count then (tb1, G + count, log @ [(now + d, G + count)]) else (tb1, G, log))"
| "tb_step s (TbTakeAvailable now count) =
     (case s of (tb, G, log) \<Rightarrow>
        case TakeAvailable tb now count of (c, tb1) \<Rightarrow>
          if 0 < c then (tb1, G + c, log @ [(now, G + c)]) else (tb1, G, log))"

definition within_rate :: "Bucket \<Rightarrow> Time \<times> int \<Rightarrow> bool" where
  "within_rate tb r \<longleftrightarrow> snd r \<le> capacity tb + quantum tb * ((fst r - startTime tb) div fillInterval tb)"

text \<open>One request at an instant that is not before the bucket's latest tick.\<close>

lemma take_ok:
  assumes ok: "tb_ok tb G R" and rg: "tb_range tb now (R + count)" and pos: "0 < count"
    and later: "latestTick tb \<le> currentTick tb now"
    and tk: "take_tokens tb now count maxWait = ((d, g), tb')"
  shows "tb_ok tb' (if g then G + count else G) (R + count) \<and> same_rate tb tb' \<and>
    latestTick tb' = currentTick tb now \<and> (g \<longrightarrow> within_rate tb (now + d, G + count))"
proof -
  let ?t = "currentTick tb now"
  define tb1 where "tb1 = adjustavailableTokens tb ?t"
  define D where "D = count - availableTokens tb1"
  define w where "w = startTime tb + paid_at tb ?t D * fillInterval tb - now"
  have q: "0 < quantum tb" "0 < fillInterval tb" using ok by (auto simp: tb_ok_def)
  have rg1: "tb_range tb now R" using tb_range_mono [OF rg] pos q by simp
  note adj = adjust_ok [OF ok rg1 later, folded tb1_def]
  have t: "?t = (now - startTime tb) div fillInterval tb" using rg q by (intro currentTick_eq) (auto simp: tb_range_def)
  have sr: "capacity tb1 = capacity tb" "quantum tb1 = quantum tb" using adj(2) by (auto simp: same_rate_def)
  have b: "G + availableTokens tb1 \<le> capacity tb + quantum tb * ?t" "- R \<le> availableTokens tb1"
    using adj(1,3) sr by (auto simp: tb_ok_def)
  have ok1: "tb_ok tb1 G (R + count)" using adj(1) pos by (simp add: tb_ok_def)
  have ok2: "tb_ok (tb1\<lparr>availableTokens := - D\<rparr>) (G + count) (R + count)"
    using adj(1) pos b by (simp add: tb_ok_def D_def)
  have same: "same_rate tb (tb1\<lparr>availableTokens := x\<rparr>)" for x using adj(2) by (simp add: same_rate_def)
  note tk' = tk [unfolded take_eq [OF ok rg pos later tb1_def D_def w_def]]
  show ?thesis
  proof (cases "D \<le> 0")
    case True
    then have "within_rate tb (now, G + count)" using b t by (simp add: within_rate_def D_def)
    with True tk' ok2 same adj(3) show ?thesis by auto
  next
    case False
    have "(now + w - startTime tb) div fillInterval tb = paid_at tb ?t D" using q by (simp add: w_def)
    moreover have "D \<le> quantum tb * (paid_at tb ?t D - ?t)" using ceil_quot(1) [of D] False q by (simp add: paid_at_def)
    ultimately have "within_rate tb (now + w, G + count)"
      using b by (simp add: within_rate_def D_def right_diff_distrib)
    with False tk' ok1 ok2 same adj(2,3) show ?thesis by (auto split: if_splits)
  qed
qed

lemma takeAvailable_ok:
  assumes ok: "tb_ok tb G R" and rg: "tb_range tb now R"
    and later: "latestTick tb \<le> currentTick tb now"
    and tk: "takeAvailable tb now count = (c, tb')"
  shows "tb_ok tb' (G + c) R \<and> same_rate tb tb' \<and>
    latestTick tb' \<le> currentTick tb now \<and> 0 \<le> c \<and> c \<le> max 0 count \<and> (0 < c \<longrightarrow> within_rate tb (now, G + c))"
proof (cases "count \<le> 0")
  case True
  then show ?thesis using tk ok later by (simp add: takeAvailable_def same_rate_def)
next
  case False
  let ?t = "currentTick tb now"
  define tb1 where "tb1 = adjustavailableTokens tb ?t"
  have q: "0 < quantum tb" "0 < fillInterval tb" using ok by (auto simp: tb_ok_def)
  note adj = adjust_ok [OF ok rg later, folded tb1_def]
  have t: "?t = (now - startTime tb) div fillInterval tb" using rg q by (intro currentTick_eq) (auto simp: tb_range_def)
  have sr: "capacity tb1 = capacity tb" "quantum tb1 = quantum tb" using adj(2) by (auto simp: same_rate_def)
  have b: "G + availableTokens tb1 \<le> capacity tb + quantum tb * ?t" "availableTokens tb1 \<le> capacity tb"
    using adj(1,3) sr by (auto simp: tb_ok_def)
  show ?thesis
  proof (cases "availableTokens tb1 \<le> 0")
    case True
    with False tk have "c = 0" "tb' = tb1" by (auto simp: takeAvailable_def Let_def simp flip: tb1_def)
    then show ?thesis using adj by simp
  next
    case pos: False
    define k where "k = min count (availableTokens tb1)"
    have k: "0 < k" "k \<le> availableTokens tb1" "k \<le> count" using pos False by (auto simp: k_def)
    have "i64 (availableTokens tb1 - k) = availableTokens tb1 - k"
      using k b rg by (intro i64_id) (simp add: in_i64_def tb_range_def)
    then have e: "c = k" "tb' = tb1\<lparr>availableTokens := availableTokens tb1 - k\<rparr>"
      using tk pos False by (auto simp: takeAvailable_def Let_def k_def min_def simp flip: tb1_def split: if_splits)
    have "within_rate tb (now, G + k)" using b k t by (simp add: within_rate_def)
    moreover have "tb_ok tb' (G + k) R" using adj(1) k unfolding e by (simp add: tb_ok_def)
    ultimately show ?thesis using adj(2,3) k e by (simp add: same_rate_def)
  qed
qed

definition tb_state_ok :: "Bucket \<Rightarrow> Time \<Rightarrow> int \<Rightarrow> Bucket \<times> int \<times> (Time \<times> int) list \<Rightarrow> bool" where
  "tb_state_ok tb0 t R s \<longleftrightarrow> tb_ok (fst s) (fst (snd s)) R \<and> same_rate tb0 (fst s) \<and>
     latestTick (fst s) \<le> currentTick tb0 t \<and> (\<forall>r \<in> set (snd (snd s)). within_rate tb0 r)"

lemma within_rate_cong: "same_rate a b \<Longrightarrow> within_rate b r = within_rate a r"
  by (simp add: within_rate_def same_rate_def)

lemma tb_range_cong: "same_rate a b \<Longrightarrow> tb_range b t R = tb_range a t R"
  by (simp add: tb_range_def same_rate_def)

lemma tb_ok_more: "tb_ok tb G R \<Longrightarrow> R \<le> R' \<Longrightarrow> tb_ok tb G R'"
  by (auto simp: tb_ok_def)

lemma tb_step_ok:
  assumes s: "tb_state_ok tb0 t R s" and rg: "tb_range tb0 (ev_time ev) (R + ev_count ev)"
    and t: "startTime tb0 \<le> t" "t \<le> ev_time ev"
  shows "tb_state_ok tb0 (ev_time ev) (R + ev_count ev) (tb_step s ev)"
proof -
  obtain tb G log where s_eq: "s = (tb, G, log)" by (cases s)
  have ok: "tb_ok tb G R" and sr: "same_rate tb0 tb" and lt: "latestTick tb \<le> currentTick tb0 t"
    and log: "\<forall>r \<in> set log. within_rate tb0 r" using s by (auto simp: tb_state_ok_def s_eq)
  have fi: "0 < fillInterval tb0" using ok sr by (simp add: tb_ok_def same_rate_def)
  have "currentTick tb0 t \<le> currentTick tb0 (ev_time ev)"
    using rg t fi by (intro tick_mono) (auto simp: tb_range_def)
  with lt have later: "latestTick tb \<le> currentTick tb (ev_time ev)" by (simp add: same_rate_tick [OF sr])
  have rgb: "tb_range tb (ev_time ev) (R + ev_count ev)" using rg by (simp add: tb_range_cong [OF sr])
  note cong = same_rate_tick [OF sr] within_rate_cong [OF sr]
  show ?thesis
  proof (cases ev)
    case (TbTake now count mw)
    obtain d g tb' where tk: "take_tokens tb now count mw = ((d, g), tb')" by (metis prod.exhaust)
    show ?thesis
    proof (cases "0 < count")
      case True
      have "tb_ok tb' (if g then G + count else G) (R + count) \<and> same_rate tb tb' \<and>
          latestTick tb' = currentTick tb now \<and> (g \<longrightarrow> within_rate tb (now + d, G + count))"
        using rgb later TbTake True by (intro take_ok [OF ok _ True _ tk]) simp_all
      then show ?thesis using tk TbTake True sr log
        by (auto simp: s_eq tb_state_ok_def TakeMaxDuration_def cong intro: same_rate_trans)
    next
      case False
      then have "tb' = tb" using tk by (simp add: take_tokens_def)
      then show ?thesis using tk TbTake False sr log ok later
        by (simp add: s_eq tb_state_ok_def TakeMaxDuration_def cong)
    qed
  next
    case (TbTakeAvailable now count)
    obtain c tb' where tk: "takeAvailable tb now count = (c, tb')" by (metis prod.exhaust)
    have "tb_range tb now R" using tb_range_mono [OF rgb] TbTakeAvailable ok by (simp add: tb_ok_def)
    then have r: "tb_ok tb' (G + c) R \<and> same_rate tb tb' \<and> latestTick tb' \<le> currentTick tb now \<and> 0 \<le> c \<and>
        c \<le> max 0 count \<and> (0 < c \<longrightarrow> within_rate tb (now, G + c))"
      using later TbTakeAvailable by (intro takeAvailable_ok [OF ok _ _ tk]) simp_all
    then have "tb_ok tb' (G + c) (R + max 0 count)" by (auto intro: tb_ok_more)
    with r show ?thesis using tk TbTakeAvailable sr log
      by (auto simp: s_eq tb_state_ok_def TakeAvailable_def cong intro: same_rate_trans)
  qed
qed

definition tb_run :: "Bucket \<Rightarrow> tb_event list \<Rightarrow> Bucket \<times> int \<times> (Time \<times> int) list" where
  "tb_run tb evs = foldl tb_step (tb, 0, []) evs"

lemma ev_count_nonneg [simp]: "0 \<le> ev_count ev" by (cases ev) simp_all

lemma tb_fold_ok:
  assumes "tb_state_ok tb0 t R s" and "startTime tb0 \<le> t" and "sorted (t # map ev_time evs @ [T])"
    and "tb_range tb0 T (R + sum_list (map ev_count evs))" and "0 < fillInterval tb0" "0 < quantum tb0"
  shows "tb_state_ok tb0 (last (t # map ev_time evs)) (R + sum_list (map ev_count evs)) (foldl tb_step s evs)"
  using assms
proof (induction evs arbitrary: t R s)
  case Nil
  then show ?case by simp
next
  case (Cons ev evs)
  have t: "t \<le> ev_time ev" "ev_time ev \<le> T" using Cons.prems(3) by auto
  have "0 \<le> sum_list (map ev_count evs)" by (rule sum_list_nonneg) auto
  with Cons.prems have "tb_range tb0 T (R + ev_count ev)" by (intro tb_range_mono [OF Cons.prems(4)]) auto
  from tb_range_earlier [OF this Cons.prems(5,6) _ t(2)] Cons.prems(2) t(1)
  have "tb_range tb0 (ev_time ev) (R + ev_count ev)" by simp
  from tb_step_ok [OF Cons.prems(1) this Cons.prems(2) t(1)]
  have "tb_state_ok tb0 (ev_time ev) (R + ev_count ev) (tb_step s ev)" .
  from Cons.IH [OF this] Cons.prems t show ?case by (auto simp: add.assoc)
qed

lemma rate_search_result:
  "rate_search interval close q = Some (q', fi) \<Longrightarrow> q \<le> q' \<and> q' < 2 ^ 50 \<and> 0 < fi \<and> fi = interval q' \<and> close q' fi"
proof (induction interval close q rule: rate_search.induct)
  case (1 interval close q)
  have range: "1 \<le> q \<and> q < 2 ^ 50" using "1.prems" by (subst (asm) rate_search.simps) (simp split: if_splits)
  show ?case
  proof (cases "0 < interval q \<and> close q (interval q)")
    case True
    then show ?thesis using "1.prems" range by (subst (asm) rate_search.simps) auto
  next
    case False
    then have "rate_search interval close (nextQuantum q) = Some (q', fi)"
      using "1.prems" range by (subst (asm) rate_search.simps) (auto split: if_splits)
    with False range "1.IH" nextQuantum_grows [of q] show ?thesis by fastforce
  qed
qed

text \<open>C27 (rate limit): on a new bucket, whatever sequence of blocking and non-blocking requests is made with a clock that
  does not go back, and as long as the counters stay in the 64-bit range, at the instant at which a granted
  request may go ahead the tokens granted from the start up to and including it are at most the capacity plus
  the quantum for every interval that has elapsed; the bucket never holds more than its capacity.\<close>

theorem token_bucket_rate_limit:
  assumes "NewBucketWithQuantumAndClock fi cap q start = Some tb" and "sorted (start # map ev_time evs @ [T])"
    and "tb_range tb T (sum_list (map ev_count evs))" and "tb_run tb evs = (tb', G, log)"
  shows "(\<forall>(t, g) \<in> set log. g \<le> cap + q * ((t - start) div fi)) \<and> availableTokens tb' \<le> cap"
proof -
  have tb: "startTime tb = start" "capacity tb = cap" "quantum tb = q" "fillInterval tb = fi" "latestTick tb = 0"
    using assms(1) by (auto simp: NewBucketWithQuantumAndClock_def split: if_splits)
  have ok: "tb_ok tb 0 0" by (rule NewBucket_ok [OF assms(1)])
  then have pos: "0 < fillInterval tb" "0 < quantum tb" by (auto simp: tb_ok_def)
  have "currentTick tb start = 0" by (simp add: currentTick_def tb TimeSub_def go_quot_def)
  then have "tb_state_ok tb start 0 (tb, 0, [])" using ok by (simp add: tb_state_ok_def same_rate_def tb)
  from tb_fold_ok [OF this _ assms(2) _ pos] assms(3,4) have r: "\<exists>t R. tb_state_ok tb t R (tb', G, log)"
    by (auto simp: tb_run_def tb)
  then show ?thesis by (fastforce simp: tb_state_ok_def within_rate_def tb_ok_def same_rate_def tb)
qed

definition sample_bucket :: Bucket where
  "sample_bucket = \<lparr>startTime = 100, capacity = 5, quantum = 2, fillInterval = 10, availableTokens = 5, latestTick = 0\<rparr>"

theorem token_bucket_rate_limit_witness:
  "NewBucketWithQuantumAndClock 10 5 2 100 = Some sample_bucket \<and>
   snd (snd (tb_run sample_bucket [TbTake 101 4 0, TbTake 105 5 50, TbTake 106 9 5, TbTakeAvailable 135 1])) =
     [(101, 4), (120, 9), (135, 10)] \<and>
   (4 :: int) \<le> 5 + 2 * ((101 - 100) div 10) \<and> (9 :: int) \<le> 5 + 2 * ((120 - 100) div 10) \<and>
   (10 :: int) \<le> 5 + 2 * ((135 - 100) div 10)"
proof -
  let ?evs = "[TbTake 101 4 0, TbTake 105 5 50, TbTake 106 9 5, TbTakeAvailable 135 1]"
  have b: "NewBucketWithQuantumAndClock 10 5 2 100 = Some sample_bucket"
    by (simp add: NewBucketWithQuantumAndClock_def sample_bucket_def)
  have r: "tb_run sample_bucket ?evs = (sample_bucket\<lparr>latestTick := 3, availableTokens := 1\<rparr>, 10, [(101, 4), (120, 9), (135, 10)])"
    by code_simp
  from token_bucket_rate_limit [OF b _ _ r, of 200] b r show ?thesis by (simp add: tb_range_def sample_bucket_def)
qed

text \<open>Exact wait: a blocking request within the 64-bit range is refused only if its wait exceeds the limit, and a refused
  request removes nothing; a granted one removes exactly what was asked, and its wait ends at the first tick at which
  the bucket, refilled at its rate, has paid for it.\<close>

theorem take_waits_exactly:
  assumes "tb_ok tb G R" and "tb_range tb now (R + count)" and "0 < count"
    and "latestTick tb \<le> currentTick tb now" and "take_tokens tb now count maxWait = ((d, g), tb')"
    and "tb1 = adjustavailableTokens tb (currentTick tb now)"
  shows "(\<not> g \<longrightarrow> d = 0 \<and> tb' = tb1 \<and> availableTokens tb1 < count) \<and>
    (g \<longrightarrow> availableTokens tb' = availableTokens tb1 - count \<and> (d = 0 \<or> d \<le> maxWait) \<and>
      (availableTokens tb' < 0 \<longrightarrow> (\<exists>n. now + d = startTime tb + n * fillInterval tb \<and>
          0 \<le> availableTokens tb' + quantum tb * (n - currentTick tb now) \<and>
          availableTokens tb' + quantum tb * (n - 1 - currentTick tb now) < 0)))"
proof -
  let ?t = "currentTick tb now"
  define D where "D = count - availableTokens tb1"
  define w where "w = startTime tb + paid_at tb ?t D * fillInterval tb - now"
  have q: "0 < quantum tb" using assms(1) by (simp add: tb_ok_def)
  note tk = assms(5) [unfolded take_eq [OF assms(1-4,6) D_def w_def]]
  show ?thesis
  proof (cases "D \<le> 0")
    case True
    then show ?thesis using tk by (auto simp: D_def)
  next
    case False
    let ?n = "paid_at tb ?t D"
    have "now + w = startTime tb + ?n * fillInterval tb" by (simp add: w_def)
    moreover have "D \<le> quantum tb * (?n - ?t)" "quantum tb * (?n - 1 - ?t) < D"
      using ceil_quot(1,2) [of D "quantum tb"] False q by (auto simp: paid_at_def algebra_simps)
    ultimately have "\<exists>n. now + w = startTime tb + n * fillInterval tb \<and> 0 \<le> - D + quantum tb * (n - ?t) \<and>
        - D + quantum tb * (n - 1 - ?t) < 0" by (intro exI [of _ ?n]) simp
    with False tk show ?thesis by (auto simp: D_def split: if_splits)
  qed
qed

theorem take_waits_exactly_witness:
  "take_tokens sample_bucket 105 8 50 = ((15, True), sample_bucket\<lparr>availableTokens := - 3\<rparr>) \<and>
   (\<exists>n. 105 + 15 = 100 + n * 10 \<and> 0 \<le> - 3 + 2 * (n - 0) \<and> - 3 + 2 * (n - 1 - 0) < (0 :: int))"
proof -
  have t: "take_tokens sample_bucket 105 8 50 = ((15, True), sample_bucket\<lparr>availableTokens := - 3\<rparr>)" by code_simp
  have a: "adjustavailableTokens sample_bucket (currentTick sample_bucket 105) = sample_bucket" by code_simp
  have c: "currentTick sample_bucket 105 = 0" by code_simp
  have "tb_ok sample_bucket 0 0" "tb_range sample_bucket 105 (0 + 8)" by (simp_all add: tb_ok_def tb_range_def sample_bucket_def)
  from take_waits_exactly [OF this _ _ t a [symmetric]] t show ?thesis by (simp add: c sample_bucket_def)
qed

text \<open>Quantum search: constructing a bucket for a rate ends for every rate; if it does not panic, the bucket it
  returns has the capacity asked for, is full, has a positive interval, and meets the margin on the rate.\<close>

theorem rate_bucket_meets_margin:
  assumes "NewBucketWithRate interval close cap now = Some tb"
  shows "close (quantum tb) (fillInterval tb) \<and> fillInterval tb = interval (quantum tb) \<and> 0 < fillInterval tb \<and>
    1 \<le> quantum tb \<and> quantum tb < 2 ^ 50 \<and> capacity tb = cap \<and> availableTokens tb = cap"
proof -
  from assms obtain q fi where "rate_search interval close 1 = Some (q, fi)"
    and tb: "tb = \<lparr>startTime = now, capacity = cap, quantum = q, fillInterval = fi, availableTokens = cap, latestTick = 0\<rparr>"
    by (auto simp: NewBucketWithRate_def NewBucketWithRateAndClock_def NewBucketWithQuantumAndClock_def
        split: if_splits bind_splits)
  with rate_search_result [OF this(1)] show ?thesis by auto
qed

theorem rate_bucket_meets_margin_witness:
  "\<exists>tb. NewBucketWithRate (\<lambda>q. q * 3) (\<lambda>q fi. 7 \<le> fi) 4 0 = Some tb \<and> 7 \<le> fillInterval tb \<and> quantum tb = 3"
proof -
  have e: "NewBucketWithRate (\<lambda>q. q * 3) (\<lambda>q fi. 7 \<le> fi) 4 0 =
    Some \<lparr>startTime = 0, capacity = 4, quantum = 3, fillInterval = 9, availableTokens = 4, latestTick = 0\<rparr>"
    by (simp add: NewBucketWithRate_def NewBucketWithRateAndClock_def NewBucketWithQuantumAndClock_def rate_search.simps
        nextQuantum_def i64_def go_quot_def)
  from rate_bucket_meets_margin [OF this] e show ?thesis by simp
qed

end
