(* ===== verification/Utils.thy ===== *)
theory Utils
  imports Block
begin

text \<open>
  Helpers (src/utils/utils.go): membership, maxima, random choice of nodes, and retrying.

  The random generator is the parameter \<open>intn\<close>: \<open>intn k n\<close> is the \<open>k\<close>-th draw of the program when it is made by
  \<open>rand.Intn(n)\<close>.  \<open>draws_ok\<close> states what is documented of it (a draw is below its bound), and \<open>fair\<close> that
  every value keeps coming up.  A draw loop that never ends is \<open>None\<close>.  The shuffle is a parameter too.
\<close>

section \<open>Slices\<close>

fun FindIntSlice :: "int list \<Rightarrow> int \<Rightarrow> bool" where
  "FindIntSlice [] val \<longleftrightarrow> False"
| "FindIntSlice (item # items) val \<longleftrightarrow> (if item = val then True else FindIntSlice items val)"

definition Max_int :: "int \<Rightarrow> int \<Rightarrow> int" where
  "Max_int a b = (if a < b then b else a)"

text \<open>The loop of \<open>VMax\<close>; with no argument \<open>v[0]\<close> panics.\<close>

fun vmax_loop :: "int \<Rightarrow> int list \<Rightarrow> int" where
  "vmax_loop m [] = m"
| "vmax_loop m (i # v) = vmax_loop (if m < i then i else m) v"

definition VMax :: "int list \<Rightarrow> int option" where
  "VMax v = do { m \<leftarrow> go_index v 0; Some (vmax_loop m v) }"

definition BitmapToNodes :: "(Bitmap \<Rightarrow> nat list) \<Rightarrow> Bitmap \<Rightarrow> NodeID list" where
  "BitmapToNodes bmRange bm = map (\<lambda>x. Itoa (int x)) (bmRange bm)"

section \<open>Retrying\<close>

text \<open>\<open>f i\<close> is the outcome of attempt \<open>i\<close>.  The loop makes at least one attempt; the error carries the last one.\<close>

fun retry_loop :: "(nat \<Rightarrow> error option) \<Rightarrow> int \<Rightarrow> nat \<Rightarrow> nat \<Rightarrow> error option" where
  "retry_loop f attempts i 0 = f i"
| "retry_loop f attempts i (Suc k) =
     (case f i of
        None \<Rightarrow> None
      | Some err \<Rightarrow> if int i \<ge> attempts - 1 then Some err else retry_loop f attempts (Suc i) k)"

definition Retry :: "(nat \<Rightarrow> error option) \<Rightarrow> int \<Rightarrow> error option" where
  "Retry f attempts =
     (case retry_loop f attempts 0 (nat (attempts - 1)) of
        None \<Rightarrow> None
      | Some err \<Rightarrow> Some (''after '' @ Itoa attempts @ '' attempts, last error: '' @ err))"

section \<open>Random choice\<close>

type_synonym Draws = "nat \<Rightarrow> int \<Rightarrow> int"

definition draws_ok :: "Draws \<Rightarrow> bool" where
  "draws_ok intn \<longleftrightarrow> (\<forall>k n. 0 < n \<longrightarrow> 0 \<le> intn k n \<and> intn k n < n)"

definition fair :: "Draws \<Rightarrow> bool" where
  "fair intn \<longleftrightarrow> (\<forall>n x k. 0 \<le> x \<and> x < n \<longrightarrow> (\<exists>j \<ge> k. intn j n = x))"

text \<open>The inner loop of \<open>RandomPick\<close>: draw until the number is new.  \<open>Intn\<close> panics unless its argument is positive.\<close>

partial_function (option) pick_new :: "Draws \<Rightarrow> int \<Rightarrow> int list \<Rightarrow> nat \<Rightarrow> (int \<times> nat) option" where
  "pick_new intn n picked k =
     (if n \<le> 0 then None
      else if FindIntSlice picked (intn k n) then pick_new intn n picked (Suc k)
      else Some (intn k n, Suc k))"

fun pick_loop :: "Draws \<Rightarrow> int \<Rightarrow> nat \<Rightarrow> int list \<Rightarrow> nat \<Rightarrow> (int list \<times> nat) option" where
  "pick_loop intn n 0 picked k = Some (picked, k)"
| "pick_loop intn n (Suc f) picked k =
     do { (r, k1) \<leftarrow> pick_new intn n picked k; pick_loop intn n f (picked @ [r]) k1 }"

definition RandomPick :: "Draws \<Rightarrow> int \<Rightarrow> int \<Rightarrow> nat \<Rightarrow> (int list \<times> nat) option" where
  "RandomPick intn n f k = pick_loop intn n (nat f) [] k"

text \<open>The map \<open>used\<close> has the numbers of the result as its keys.\<close>

partial_function (option) unique_loop ::
  "Draws \<Rightarrow> int \<Rightarrow> int \<Rightarrow> int \<Rightarrow> int set \<Rightarrow> int list \<Rightarrow> nat \<Rightarrow> (int list \<times> nat) option" where
  "unique_loop intn t minValue N used result k =
     (if \<not> int (length result) < t then Some (result, k)
      else if N - minValue + 1 \<le> 0 then None
      else let num = intn k (N - minValue + 1) + minValue in
           if num \<notin> used then unique_loop intn t minValue N (insert num used) (result @ [num]) (Suc k)
           else unique_loop intn t minValue N used result (Suc k))"

text \<open>\<open>make\<close> panics on a negative capacity.\<close>

definition GenerateUniqueRandomArray :: "Draws \<Rightarrow> int \<Rightarrow> int \<Rightarrow> int \<Rightarrow> nat \<Rightarrow> ((error + int list) \<times> nat) option" where
  "GenerateUniqueRandomArray intn t minValue N k =
     (if t > N - minValue + 1 then Some (Inl ''not enough elements in the range'', k)
      else if t < 0 then None
      else do { (r, k1) \<leftarrow> unique_loop intn t minValue N {} [] k; Some (Inr r, k1) })"

text \<open>\<open>addrs\<close> is the number of addresses of the configuration.  A negative fan-out slices out of range.\<close>

fun nodes_not_sent :: "NodeID list \<Rightarrow> int \<Rightarrow> nat \<Rightarrow> NodeID list" where
  "nodes_not_sent sent i 0 = []"
| "nodes_not_sent sent i (Suc k) =
     (if list_ex (\<lambda>x. i = i64 (Node x - 1)) sent then nodes_not_sent sent (i + 1) k
      else NewNodeID (i + 1) # nodes_not_sent sent (i + 1) k)"

definition PickRandomNodes :: "(NodeID list \<Rightarrow> NodeID list) \<Rightarrow> nat \<Rightarrow> int \<Rightarrow> NodeID list \<Rightarrow> NodeID list option" where
  "PickRandomNodes shuffle addrs fanout sentNodes =
     (let b = nodes_not_sent sentNodes 0 addrs in
      if int (length b) \<le> fanout then Some b
      else if fanout < 0 then None
      else Some (take (nat fanout) (shuffle b)))"

section \<open>Lemmas\<close>

lemma FindIntSlice_iff [simp]: "FindIntSlice xs v \<longleftrightarrow> v \<in> set xs"
  by (induction xs) auto

lemma VMax_is_Max: "VMax v = (if v = [] then None else Some (Max (set v)))"
proof -
  have l: "vmax_loop m v = Max (insert m (set v))" for m v
  proof (induction v arbitrary: m)
    case (Cons i v)
    have "Max (insert (if m < i then i else m) (set v)) = Max (insert m (insert i (set v)))"
      by (cases "set v = {}") (auto simp: max_def)
    with Cons show ?case by simp
  qed simp
  show ?thesis
  proof (cases v)
    case (Cons x xs)
    then show ?thesis by (simp add: VMax_def go_index_def l insert_absorb)
  qed (simp add: VMax_def go_index_def)
qed

lemma fairD: "fair intn \<Longrightarrow> 0 \<le> x \<Longrightarrow> x < n \<Longrightarrow> \<exists>j \<ge> k. intn j n = x"
  by (auto simp: fair_def)

lemma draws_okD: "draws_ok intn \<Longrightarrow> 0 < n \<Longrightarrow> 0 \<le> intn k n \<and> intn k n < n"
  by (auto simp: draws_ok_def)

text \<open>With room for another number, a fair generator gives a new one.\<close>

lemma fresh_value:
  assumes "set xs \<subseteq> {lo..<lo + n}" and "int (length xs) < n"
  shows "\<exists>x. lo \<le> x \<and> x < lo + n \<and> x \<notin> set xs"
proof (rule ccontr)
  assume "\<nexists>x. lo \<le> x \<and> x < lo + n \<and> x \<notin> set xs"
  then have "{lo..<lo + n} \<subseteq> set xs" by auto
  then have "card {lo..<lo + n} \<le> card (set xs)" by (intro card_mono) simp_all
  also have "\<dots> \<le> length xs" by (rule card_length)
  finally show False using assms(2) by simp
qed

lemma fresh_draw:
  assumes "fair intn" and "set xs \<subseteq> {lo..<lo + n}" and "int (length xs) < n"
  shows "\<exists>j \<ge> k. intn j n + lo \<notin> set xs"
proof -
  from fresh_value [OF assms(2,3)] obtain x where "lo \<le> x" "x < lo + n" "x \<notin> set xs" by blast
  with fairD [OF assms(1), of "x - lo" n k] show ?thesis by fastforce
qed

lemma pick_new_returns:
  assumes "0 < n" and "k \<le> j" and "intn j n \<notin> set picked"
  shows "\<exists>i \<ge> k. pick_new intn n picked k = Some (intn i n, Suc i) \<and> intn i n \<notin> set picked"
  using assms(2)
proof (induction rule: inc_induct)
  case base
  then show ?case using assms by (intro exI [of _ j]) (simp add: pick_new.simps)
next
  case (step i)
  show ?case
  proof (cases "intn i n \<in> set picked")
    case True
    then have "pick_new intn n picked i = pick_new intn n picked (Suc i)"
      using assms(1) by (subst pick_new.simps) simp
    with step.IH show ?thesis using Suc_leD by fastforce
  next
    case False
    then show ?thesis using assms(1) by (intro exI [of _ i]) (simp add: pick_new.simps)
  qed
qed

lemma pick_loop_returns:
  assumes "draws_ok intn" and "fair intn" and "0 < n"
  shows "distinct picked \<Longrightarrow> set picked \<subseteq> {0..<n} \<Longrightarrow> int (length picked + f) \<le> n \<Longrightarrow>
    \<exists>r k'. pick_loop intn n f picked k = Some (r, k') \<and> distinct r \<and> set r \<subseteq> {0..<n} \<and> length r = length picked + f"
proof (induction f arbitrary: picked k)
  case 0
  then show ?case by simp
next
  case (Suc f)
  from fresh_draw [OF assms(2), of picked 0 n k] Suc.prems obtain j where "k \<le> j" "intn j n \<notin> set picked" by auto
  from pick_new_returns [where intn = intn, OF assms(3) this] obtain i where p: "pick_new intn n picked k = Some (intn i n, Suc i)"
    and new: "intn i n \<notin> set picked" by blast
  have "intn i n \<in> {0..<n}" using draws_okD [OF assms(1,3), of i] by simp
  with Suc.IH [of "picked @ [intn i n]" "Suc i"] Suc.prems new show ?case by (simp add: p)
qed

lemma unique_loop_skips:
  assumes "int (length result) < t" and "0 < N - lo + 1" and "k \<le> j" and "intn j (N - lo + 1) + lo \<notin> used"
  shows "\<exists>i \<ge> k. intn i (N - lo + 1) + lo \<notin> used \<and> unique_loop intn t lo N used result k =
    unique_loop intn t lo N (insert (intn i (N - lo + 1) + lo) used) (result @ [intn i (N - lo + 1) + lo]) (Suc i)"
  using assms(3)
proof (induction rule: inc_induct)
  case base
  show ?case using assms by (intro exI [of _ j]) (subst unique_loop.simps, simp add: Let_def)
next
  case (step i)
  show ?case
  proof (cases "intn i (N - lo + 1) + lo \<in> used")
    case True
    then have "unique_loop intn t lo N used result i = unique_loop intn t lo N used result (Suc i)"
      using assms(1,2) by (subst unique_loop.simps) (simp add: Let_def)
    with step.IH show ?thesis using Suc_leD by fastforce
  next
    case False
    then show ?thesis using assms(1,2) by (intro exI [of _ i]) (subst unique_loop.simps, simp add: Let_def)
  qed
qed

lemma unique_loop_returns:
  assumes "draws_ok intn" and "fair intn" and "t \<le> N - lo + 1"
  shows "distinct xs \<Longrightarrow> set xs \<subseteq> {lo..N} \<Longrightarrow> int (length xs) + int d = t \<Longrightarrow>
    \<exists>r k'. unique_loop intn t lo N (set xs) xs k = Some (r, k') \<and> distinct r \<and> set r \<subseteq> {lo..N} \<and> int (length r) = t"
proof (induction d arbitrary: xs k)
  case 0
  then show ?case by (simp add: unique_loop.simps)
next
  case (Suc d)
  let ?n = "N - lo + 1"
  have sub: "set xs \<subseteq> {lo..<lo + ?n}" "int (length xs) < ?n" "0 < ?n" using Suc.prems assms(3) by auto
  from fresh_draw [OF assms(2) sub(1,2)] obtain j where "k \<le> j" "intn j ?n + lo \<notin> set xs" by blast
  from unique_loop_skips [of xs t N lo k j intn "set xs", OF _ sub(3) this] Suc.prems(3) obtain i where
    new: "intn i ?n + lo \<notin> set xs" and u: "unique_loop intn t lo N (set xs) xs k =
      unique_loop intn t lo N (set (xs @ [intn i ?n + lo])) (xs @ [intn i ?n + lo]) (Suc i)" by auto
  have "intn i ?n + lo \<in> {lo..N}" using draws_okD [OF assms(1) sub(3), of i] by simp
  with Suc.IH [of "xs @ [intn i ?n + lo]" "Suc i"] Suc.prems new show ?case by (simp add: u)
qed

text \<open>When every number has been drawn, \<open>RandomPick\<close> looks for another one without end.\<close>

lemma pick_new_loops:
  assumes "\<forall>k. intn k n \<in> set picked"
  shows "pick_new intn n picked k = None"
proof -
  have "(\<forall>k. intn k n \<in> set picked) \<longrightarrow> False" if "pick_new intn n picked k = Some y" for y
    using that by (rule pick_new.raw_induct [rotated]) (auto split: if_splits)
  with assms show ?thesis by (cases "pick_new intn n picked k") auto
qed

section \<open>Properties\<close>

text \<open>Random sample: with a generator that keeps drawing every value, a request for at most as many numbers as the range
  has returns, with exactly that many different numbers of the range; a larger request is an error at once.\<close>

theorem unique_sample_returns:
  assumes "draws_ok intn" and "fair intn" and "0 \<le> t"
  shows "\<exists>r k'. GenerateUniqueRandomArray intn t lo N k = Some (r, k') \<and>
    (case r of Inl err \<Rightarrow> N - lo + 1 < t
     | Inr xs \<Rightarrow> t \<le> N - lo + 1 \<and> distinct xs \<and> int (length xs) = t \<and> set xs \<subseteq> {lo..N})"
proof (cases "t > N - lo + 1")
  case True
  then show ?thesis by (simp add: GenerateUniqueRandomArray_def)
next
  case False
  with unique_loop_returns [OF assms(1,2), of t N lo "[]" "nat t" k] assms(3) show ?thesis
    by (auto simp: GenerateUniqueRandomArray_def)
qed

lemma modulus_fair: "draws_ok (\<lambda>k n. int k mod n)" "fair (\<lambda>k n. int k mod n)"
proof -
  show "draws_ok (\<lambda>k n. int k mod n)" by (simp add: draws_ok_def)
  have "\<exists>j \<ge> k. int j mod n = x" if "0 \<le> x" "x < n" for n x :: int and k
  proof (intro exI conjI)
    have "int k * 1 \<le> int k * n" using that by (intro mult_left_mono) auto
    with that show "k \<le> nat (int k * n + x)" by (simp add: le_nat_iff)
    from that have "0 \<le> int k * n" by simp
    with that show "int (nat (int k * n + x)) mod n = x" by simp
  qed
  then show "fair (\<lambda>k n. int k mod n)" by (simp add: fair_def)
qed

theorem unique_sample_returns_witness:
  "\<exists>xs k'. GenerateUniqueRandomArray (\<lambda>k n. int k mod n) 3 1 4 7 = Some (Inr xs, k') \<and> distinct xs \<and>
     length xs = 3 \<and> set xs \<subseteq> {1..4}"
proof -
  from unique_sample_returns [OF modulus_fair, of 3 1 4 7] obtain r k' where
    "GenerateUniqueRandomArray (\<lambda>k n. int k mod n) 3 1 4 7 = Some (r, k')"
    "case r of Inl err \<Rightarrow> 4 - 1 + 1 < (3 :: int)
     | Inr xs \<Rightarrow> 3 \<le> 4 - 1 + (1 :: int) \<and> distinct xs \<and> int (length xs) = 3 \<and> set xs \<subseteq> {1..4}" by auto
  then show ?thesis by (cases r) auto
qed

end
