(* ===== verification/Executor.thy ===== *)
theory Executor
  imports Monitor GroupMgr Quorum Mempool "HOL-Library.Sublist"
begin

text \<open>
  The executor of committed microblocks (src/execute/execute.go).

  \<open>ExEnv\<close> holds the configuration, the node's identity, its keys, floating point, and the clock:
  \<open>exNow e k\<close> is the \<open>k\<close>-th reading, and the state counts the readings made.  Messages handed to the node
  are collected in \<open>exSent\<close>, and the lines that \<open>Execute\<close> and \<open>updateState\<close> log in \<open>exLog\<close>.  Queue entries
  are values: \<open>*mbp = *mb\<close> replaces the entry.  The pointers that reach the queue are not nil, since
  \<open>processCommittedBlock\<close> has dereferenced them.  \<open>table\<close> and \<open>ResultBuffer\<close> are never read or written after
  their creation and are left out, as are the lines logged for debugging.
\<close>

section \<open>State\<close>

record ExecuteResult =
  erPropsalId :: NodeID
  erSig :: Signature
  erMb :: Identifier
  erNo :: int
  erResult :: string
  erBuildTime :: Time

definition zeroResult :: ExecuteResult where
  "zeroResult = \<lparr>erPropsalId = [], erSig = [], erMb = 0, erNo = 0, erResult = [], erBuildTime = 0\<rparr>"

datatype ex_msg =
    ExBroadcast ExecuteResult
  | ExBroadcastByGroup ExecuteResult "NodeID set"
  | ExMulticastMissing "NodeID list" Identifier
  | ExGroupMissing Identifier "NodeID set"

datatype ex_line = Executed Identifier | Updated Identifier

record ExEnv =
  exID :: NodeID
  exBroadcastByGroup :: bool
  exBroadcastBySample :: bool
  exQ :: int
  exKeys :: KeyRing
  exFloat :: FloatEnv
  exNow :: "nat \<Rightarrow> Time"

record Executor =
  exState :: "string \<rightharpoonup> int"
  executedTxsTotal :: int
  executedTxsForQuery :: int
  delayTotal :: int
  delayTotalForQuery :: int
  exGm :: GroupManager
  exMbs :: "MicroBlock list"
  exDone :: "int \<rightharpoonup> (NodeID \<rightharpoonup> Signature)"
  exMonitor :: MonitorManager
  exReadings :: nat
  exSent :: "ex_msg list"
  exLog :: "ex_line list"

text \<open>The executor is a process-wide singleton: \<open>inst\<close> is the global variable.\<close>

definition NewExecutor :: "GroupManager \<Rightarrow> MonitorManager option \<Rightarrow> Executor option \<Rightarrow> Executor" where
  "NewExecutor gm mon inst =
     (case inst of
        Some ex \<Rightarrow> ex
      | None \<Rightarrow>
          \<lparr>exState = Map.empty, executedTxsTotal = 0, executedTxsForQuery = 0, delayTotal = 0, delayTotalForQuery = 0,
           exGm = gm, exMbs = [], exDone = Map.empty, exMonitor = NewMonitorManager mon, exReadings = 0,
           exSent = [], exLog = []\<rparr>)"

definition ex_now :: "ExEnv \<Rightarrow> Executor \<Rightarrow> Time \<times> Executor" where
  "ex_now e ex = (exNow e (exReadings ex), ex\<lparr>exReadings := Suc (exReadings ex)\<rparr>)"

section \<open>Executing one microblock\<close>

definition bump :: "string \<Rightarrow> (string \<rightharpoonup> int) \<Rightarrow> (string \<rightharpoonup> int)" where
  "bump k m = m(k \<mapsto> i64 (case m k of None \<Rightarrow> 1 | Some n \<Rightarrow> n + 1))"

definition execute_txn :: "ExEnv \<Rightarrow> Executor \<Rightarrow> Transaction \<Rightarrow> Executor" where
  "execute_txn e ex txn =
     (let ex1 = ex\<lparr>exState := bump ''2'' (bump ''1'' (exState ex)),
                   executedTxsTotal := i64 (executedTxsTotal ex + 1),
                   executedTxsForQuery := i64 (executedTxsForQuery ex + 1)\<rparr>;
          (t1, ex2) = ex_now e ex1;
          ex3 = ex2\<lparr>delayTotal := i64 (delayTotal ex2 + TimeSub t1 (txTimestamp txn))\<rparr>;
          (t2, ex4) = ex_now e ex3
      in ex4\<lparr>delayTotalForQuery := i64 (delayTotalForQuery ex4 + TimeSub t2 (txTimestamp txn))\<rparr>)"

definition ExExecute :: "ExEnv \<Rightarrow> Executor \<Rightarrow> MicroBlock \<Rightarrow> Executor" where
  "ExExecute e ex mb =
     (let (t, ex1) = ex_now e ex;
          ex2 = ex1\<lparr>exMonitor := CollectExecuteTime (exFloat e) (exMonitor ex1) (mbHash mb) (TimeSub t (mbCreateTimeStamp mb)),
                    exLog := exLog ex1 @ [Executed (mbHash mb)]\<rparr>
      in foldl (execute_txn e) ex2 (mbTxns mb))"

definition update_txn :: "ExEnv \<Rightarrow> Executor \<Rightarrow> Transaction \<Rightarrow> Executor" where
  "update_txn e ex txn =
     (let ex1 = ex\<lparr>executedTxsTotal := i64 (executedTxsTotal ex + 1)\<rparr>; (t, ex2) = ex_now e ex1
      in ex2\<lparr>delayTotal := i64 (delayTotal ex2 + TimeSub t (txTimestamp txn))\<rparr>)"

definition updateState :: "ExEnv \<Rightarrow> Executor \<Rightarrow> MicroBlock \<Rightarrow> Executor" where
  "updateState e ex mb = foldl (update_txn e) (ex\<lparr>exLog := exLog ex @ [Updated (mbHash mb)]\<rparr>) (mbTxns mb)"

definition fakestate :: string where
  "fakestate = concat (replicate 200 ''0x112312912480:32'')"

text \<open>When signing fails the zero result is returned and broadcast.\<close>

definition generateExecuteResult :: "ExEnv \<Rightarrow> Executor \<Rightarrow> MicroBlock \<Rightarrow> (ExecuteResult \<times> Executor) option" where
  "generateExecuteResult e ex mb =
     do { (sig, err) \<leftarrow> PrivSign (exKeys e) (IDToByte (mbHash mb)) (exID e);
          if err \<noteq> None then Some (zeroResult, ex)
          else case ex_now e ex of
            (t, ex1) \<Rightarrow> Some (\<lparr>erPropsalId = exID e, erSig = sig, erMb = mbHash mb, erNo = mbCommittedNo mb,
                               erResult = fakestate, erBuildTime = t\<rparr>, ex1) }"

definition stateBroadcastByGroup :: "Executor \<Rightarrow> int \<Rightarrow> ExecuteResult \<Rightarrow> Executor option" where
  "stateBroadcastByGroup ex curIndex res =
     (if curIndex \<noteq> int (length (exMbs ex)) - 1 then
        do { currentMb \<leftarrow> go_index (exMbs ex) curIndex;
             nextMb \<leftarrow> go_index (exMbs ex) (curIndex + 1);
             currentMemberList \<leftarrow> GetGroupListByGroupId (exGm ex) (mbGroupId currentMb);
             nextMemberList \<leftarrow> GetGroupListByGroupId (exGm ex) (mbGroupId nextMb);
             Some (ex\<lparr>exSent := exSent ex @ [ExBroadcastByGroup res (nextMemberList - currentMemberList)]\<rparr>) }
      else
        do { currentMb \<leftarrow> go_index (exMbs ex) curIndex; Some (ex\<lparr>exSent := exSent ex @ [ExBroadcast res]\<rparr>) })"

definition stateBroadcastBySample :: "Executor \<Rightarrow> int \<Rightarrow> ExecuteResult \<Rightarrow> Executor option" where
  "stateBroadcastBySample ex curIndex res =
     (if curIndex \<noteq> int (length (exMbs ex)) - 1 then
        do { currentMb \<leftarrow> go_index (exMbs ex) curIndex;
             nextMb \<leftarrow> go_index (exMbs ex) (curIndex + 1);
             Some (ex\<lparr>exSent := exSent ex @
               [ExBroadcastByGroup res (mbGenerateNodeList nextMb - mbGenerateNodeList currentMb)]\<rparr>) }
      else
        do { currentMb \<leftarrow> go_index (exMbs ex) curIndex; Some (ex\<lparr>exSent := exSent ex @ [ExBroadcast res]\<rparr>) })"

section \<open>The queue\<close>

text \<open>The three loops of \<open>ExecuteThread\<close> range over the queue as it was at the start, from index \<open>i\<close> on.  \<open>n\<close> is
  \<open>successNum\<close>.  In group mode the list of nodes asked for a missing microblock is empty.\<close>

fun group_loop :: "ExEnv \<Rightarrow> int \<Rightarrow> MicroBlock list \<Rightarrow> nat \<Rightarrow> Executor \<Rightarrow> (nat \<times> Executor) option" where
  "group_loop e i [] n ex = Some (n, ex)"
| "group_loop e i (mb # rest) n ex =
     (if IsInMyGroup (exGm ex) (mbGroupId mb) then
        if mbIsFake mb then Some (n, ex\<lparr>exSent := exSent ex @ [ExMulticastMissing [] (mbHash mb)]\<rparr>)
        else do { (res, ex1) \<leftarrow> generateExecuteResult e (ExExecute e ex mb) mb;
                  ex2 \<leftarrow> stateBroadcastByGroup ex1 i res;
                  group_loop e (i + 1) rest (Suc n) ex2 }
      else Some (n, ex))"

fun sample_loop :: "ExEnv \<Rightarrow> int \<Rightarrow> MicroBlock list \<Rightarrow> nat \<Rightarrow> Executor \<Rightarrow> (nat \<times> Executor) option" where
  "sample_loop e i [] n ex = Some (n, ex)"
| "sample_loop e i (mb # rest) n ex =
     (if mbIsFake mb then
        if exID e \<in> mbGenerateNodeList mb then
          Some (n, ex\<lparr>exSent := exSent ex @ [ExGroupMissing (mbHash mb) (mbGenerateNodeList mb)]\<rparr>)
        else sample_loop e (i + 1) rest n ex
      else do { (res, ex1) \<leftarrow> generateExecuteResult e (ExExecute e ex mb) mb;
                ex2 \<leftarrow> stateBroadcastBySample ex1 i res;
                sample_loop e (i + 1) rest (Suc n) ex2 })"

fun plain_loop :: "ExEnv \<Rightarrow> MicroBlock list \<Rightarrow> Executor \<Rightarrow> Executor" where
  "plain_loop e [] ex = ex"
| "plain_loop e (mb # rest) ex =
     (if mbIsFake mb then ex
      else let ex1 = ExExecute e ex mb in plain_loop e rest (ex1\<lparr>exMbs := drop 1 (exMbs ex1)\<rparr>))"

definition ExecuteThread :: "ExEnv \<Rightarrow> Executor \<Rightarrow> Executor option" where
  "ExecuteThread e ex =
     (if exBroadcastByGroup e then
        do { (n, ex1) \<leftarrow> group_loop e 0 (exMbs ex) 0 ex; Some (ex1\<lparr>exMbs := drop n (exMbs ex1)\<rparr>) }
      else if exBroadcastBySample e then
        do { (n, ex1) \<leftarrow> sample_loop e 0 (exMbs ex) 0 ex; Some (ex1\<lparr>exMbs := drop n (exMbs ex1)\<rparr>) }
      else Some (plain_loop e (exMbs ex) ex))"

text \<open>The loops that take \<open>n\<close> microblocks from the front because others have executed them.\<close>

fun update_front :: "ExEnv \<Rightarrow> nat \<Rightarrow> Executor \<Rightarrow> Executor option" where
  "update_front e 0 ex = Some ex"
| "update_front e (Suc n) ex =
     (case exMbs ex of
        [] \<Rightarrow> None
      | mb # _ \<Rightarrow> let ex1 = updateState e ex mb in update_front e n (ex1\<lparr>exMbs := drop 1 (exMbs ex1)\<rparr>))"

text \<open>One more than the index of the last element that satisfies the test, 0 when none does.\<close>

fun last_match :: "('a \<Rightarrow> bool) \<Rightarrow> 'a list \<Rightarrow> nat" where
  "last_match p [] = 0"
| "last_match p (x # xs) = (if last_match p xs = 0 then (if p x then 1 else 0) else Suc (last_match p xs))"

definition done_len :: "Executor \<Rightarrow> int \<Rightarrow> int" where
  "done_len ex i = (case exDone ex i of None \<Rightarrow> 0 | Some m \<Rightarrow> int (maplen m))"

definition CheckResult :: "ExEnv \<Rightarrow> Executor \<Rightarrow> MicroBlock \<Rightarrow> bool" where
  "CheckResult e ex mb \<longleftrightarrow> done_len ex (mbCommittedNo mb) \<ge> exQ e"

definition AddMbToExecute :: "ExEnv \<Rightarrow> Executor \<Rightarrow> MicroBlock list \<Rightarrow> Executor option" where
  "AddMbToExecute e ex mbs =
     (let ex1 = ex\<lparr>exMbs := exMbs ex @ mbs\<rparr> in
      do { ex2 \<leftarrow> (if exBroadcastByGroup e then update_front e (last_match (CheckResult e ex1) (exMbs ex1)) ex1
                   else Some ex1);
           ExecuteThread e ex2 })"

definition mbReady :: "ExEnv \<Rightarrow> Executor \<Rightarrow> int \<Rightarrow> Executor option" where
  "mbReady e ex commitNo =
     do { ex1 \<leftarrow> update_front e (last_match (\<lambda>mb. mbCommittedNo mb = commitNo) (exMbs ex)) ex;
          ExecuteThread e ex1 }"

text \<open>One iteration of the loop of \<open>HandleResult\<close>; the second component is \<open>high_done_index\<close>.\<close>

definition record_result :: "ExEnv \<Rightarrow> ExecuteResult \<Rightarrow> Executor \<times> int \<Rightarrow> int \<Rightarrow> Executor \<times> int" where
  "record_result e res s i =
     (case s of (ex, high) \<Rightarrow>
        let row = (case exDone ex i of Some m \<Rightarrow> m(erPropsalId res \<mapsto> erSig res) | None \<Rightarrow> [erPropsalId res \<mapsto> erSig res]);
            ex1 = ex\<lparr>exDone := (exDone ex)(i \<mapsto> row)\<rparr>
        in (ex1, if done_len ex1 i \<ge> exQ e then i else high))"

definition HandleResult :: "ExEnv \<Rightarrow> Executor \<Rightarrow> ExecuteResult \<Rightarrow> Executor option" where
  "HandleResult e ex res =
     (let (t, ex1) = ex_now e ex;
          ex2 = ex1\<lparr>exMonitor := CollectResultTime (exFloat e) (exMonitor ex1) (erMb res) (TimeSub t (erBuildTime res))\<rparr>;
          (ex3, high) = foldl (record_result e res) (ex2, 0) [1..erNo res]
      in if high \<noteq> 0 then mbReady e ex3 high else Some ex3)"

definition HandleMiss :: "ExEnv \<Rightarrow> Executor \<Rightarrow> MicroBlock \<Rightarrow> Executor option" where
  "HandleMiss e ex mb =
     (let hit = (\<lambda>m. mbHash m = mbHash mb \<and> mbIsFake m);
          ex1 = ex\<lparr>exMbs := map (\<lambda>m. if hit m then mb else m) (exMbs ex)\<rparr>
      in if list_ex hit (exMbs ex) then ExecuteThread e ex1 else Some ex1)"

text \<open>\<open>HandleMB\<close> serves its three channels one message at a time.\<close>

datatype ex_event = ExMbReceive "MicroBlock list" | ExMissReceive MicroBlock | ExReceiveResult ExecuteResult

primrec HandleMB :: "ExEnv \<Rightarrow> Executor \<Rightarrow> ex_event \<Rightarrow> Executor option" where
  "HandleMB e ex (ExMbReceive mbs) = AddMbToExecute e ex mbs"
| "HandleMB e ex (ExMissReceive mb) = HandleMiss e ex mb"
| "HandleMB e ex (ExReceiveResult res) = HandleResult e ex res"

fun ex_run :: "ExEnv \<Rightarrow> Executor \<Rightarrow> ex_event list \<Rightarrow> Executor option" where
  "ex_run e ex [] = Some ex"
| "ex_run e ex (ev # evs) = do { ex1 \<leftarrow> HandleMB e ex ev; ex_run e ex1 evs }"

section \<open>Queries\<close>

definition Milliseconds :: "int \<Rightarrow> int" where "Milliseconds d = go_quot d 1000000"

definition DelayForQuery :: "ExEnv \<Rightarrow> Executor \<Rightarrow> float64" where
  "DelayForQuery e ex =
     flDiv (exFloat e) (flOfInt (exFloat e) (Milliseconds (delayTotalForQuery ex)))
       (flOfInt (exFloat e) (executedTxsForQuery ex))"

definition TotalNum :: "Executor \<Rightarrow> int" where "TotalNum ex = executedTxsTotal ex"

definition TotalNumForQuery :: "Executor \<Rightarrow> int" where "TotalNumForQuery ex = executedTxsForQuery ex"

definition Reset :: "Executor \<Rightarrow> Executor" where
  "Reset ex = ex\<lparr>delayTotalForQuery := 0, executedTxsForQuery := 0\<rparr>"

section \<open>What the operations leave alone\<close>

text \<open>Executing or updating one microblock adds one line to the log and touches neither the queue nor the confirmations.\<close>

definition one_line :: "ex_line list \<Rightarrow> Executor \<Rightarrow> Executor \<Rightarrow> bool" where
  "one_line ls ex ex' \<longleftrightarrow> exLog ex' = exLog ex @ ls \<and> exMbs ex' = exMbs ex \<and> exDone ex' = exDone ex \<and> exGm ex' = exGm ex"

lemma one_line_trans: "one_line ls a b \<Longrightarrow> one_line ms b c \<Longrightarrow> one_line (ls @ ms) a c"
  by (simp add: one_line_def)

lemma one_line_foldl:
  assumes "\<And>x t. one_line [] x (f x t)"
  shows "one_line [] ex (foldl f ex ts)"
proof (induction ts arbitrary: ex)
  case Nil
  then show ?case by (simp add: one_line_def)
next
  case (Cons t ts)
  from one_line_trans [OF assms [of ex t] Cons.IH] show ?case by simp
qed

lemma execute_txn_line: "one_line [] ex (execute_txn e ex t)"
  by (simp add: one_line_def execute_txn_def ex_now_def Let_def)

lemma update_txn_line: "one_line [] ex (update_txn e ex t)"
  by (simp add: one_line_def update_txn_def ex_now_def Let_def)

lemma ExExecute_line: "one_line [Executed (mbHash mb)] ex (ExExecute e ex mb)"
  using one_line_foldl [of "execute_txn e", OF execute_txn_line]
  by (simp add: ExExecute_def ex_now_def Let_def one_line_def)

lemma updateState_line: "one_line [Updated (mbHash mb)] ex (updateState e ex mb)"
  using one_line_foldl [of "update_txn e", OF update_txn_line]
  by (simp add: updateState_def one_line_def)

lemma generateExecuteResult_line: "generateExecuteResult e ex mb = Some (res, ex') \<Longrightarrow> one_line [] ex ex'"
  by (auto simp: generateExecuteResult_def one_line_def ex_now_def bind_Some_conv split: if_splits)

lemma stateBroadcastByGroup_line: "stateBroadcastByGroup ex i res = Some ex' \<Longrightarrow> one_line [] ex ex'"
  by (auto simp: stateBroadcastByGroup_def one_line_def bind_Some_conv split: if_splits)

lemma group_loop_lines:
  "group_loop e i mbs n ex = Some (n', ex') \<Longrightarrow>
   \<exists>k \<le> length mbs. n' = n + k \<and> one_line (map (\<lambda>m. Executed (mbHash m)) (take k mbs)) ex ex'"
proof (induction mbs arbitrary: i n ex)
  case Nil
  then show ?case by (simp add: one_line_def)
next
  case (Cons mb rest)
  show ?case
  proof (cases "IsInMyGroup (exGm ex) (mbGroupId mb) \<and> \<not> mbIsFake mb")
    case True
    with Cons.prems obtain res ex1 ex2 where g: "generateExecuteResult e (ExExecute e ex mb) mb = Some (res, ex1)"
      and s: "stateBroadcastByGroup ex1 i res = Some ex2" and l: "group_loop e (i + 1) rest (Suc n) ex2 = Some (n', ex')"
      by (auto simp: bind_Some_conv)
    from Cons.IH [OF l] obtain k where k: "k \<le> length rest" "n' = Suc n + k"
      and r: "one_line (map (\<lambda>m. Executed (mbHash m)) (take k rest)) ex2 ex'" by blast
    note a = one_line_trans [OF ExExecute_line generateExecuteResult_line [OF g]]
    from one_line_trans [OF one_line_trans [OF a stateBroadcastByGroup_line [OF s]] r]
    have "one_line (map (\<lambda>m. Executed (mbHash m)) (take (Suc k) (mb # rest))) ex ex'" by simp
    with k show ?thesis by (intro exI [of _ "Suc k"]) simp
  next
    case False
    then show ?thesis using Cons.prems by (intro exI [of _ 0]) (auto simp: one_line_def split: if_splits)
  qed
qed

lemma plain_loop_lines:
  "\<exists>k \<le> length mbs. exLog (plain_loop e mbs ex) = exLog ex @ map (\<lambda>m. Executed (mbHash m)) (take k mbs) \<and>
     exMbs (plain_loop e mbs ex) = drop k (exMbs ex) \<and> exDone (plain_loop e mbs ex) = exDone ex"
proof (induction mbs arbitrary: ex)
  case Nil
  then show ?case by simp
next
  case (Cons mb rest)
  show ?case
  proof (cases "mbIsFake mb")
    case True
    then show ?thesis by (intro exI [of _ 0]) simp
  next
    case False
    let ?ex = "ExExecute e ex mb"
    have l: "exLog ?ex = exLog ex @ [Executed (mbHash mb)]" "exMbs ?ex = exMbs ex" "exDone ?ex = exDone ex"
      using ExExecute_line [of mb ex e] by (auto simp: one_line_def)
    from Cons.IH [of "?ex\<lparr>exMbs := drop 1 (exMbs ?ex)\<rparr>"] obtain k where "k \<le> length rest"
      "exLog (plain_loop e (mb # rest) ex) = exLog ex @ map (\<lambda>m. Executed (mbHash m)) (take (Suc k) (mb # rest))"
      "exMbs (plain_loop e (mb # rest) ex) = drop (Suc k) (exMbs ex)" "exDone (plain_loop e (mb # rest) ex) = exDone ex"
      using False l by (auto simp: Let_def)
    then show ?thesis by (intro exI [of _ "Suc k"]) simp
  qed
qed

text \<open>Outside the sampling mode the thread executes a prefix of the queue and removes exactly that prefix.\<close>

abbreviation ordered_mode :: "ExEnv \<Rightarrow> bool" where
  "ordered_mode e \<equiv> exBroadcastByGroup e \<or> \<not> exBroadcastBySample e"

lemma ExecuteThread_prefix:
  assumes "ordered_mode e" and "ExecuteThread e ex = Some ex'"
  shows "\<exists>k. exLog ex' = exLog ex @ map (\<lambda>m. Executed (mbHash m)) (take k (exMbs ex)) \<and> exMbs ex' = drop k (exMbs ex) \<and>
    exDone ex' = exDone ex"
proof (cases "exBroadcastByGroup e")
  case True
  with assms(2) obtain n ex1 where l: "group_loop e 0 (exMbs ex) 0 ex = Some (n, ex1)"
    and ex': "ex' = ex1\<lparr>exMbs := drop n (exMbs ex1)\<rparr>" by (auto simp: ExecuteThread_def bind_Some_conv)
  from group_loop_lines [OF l] ex' show ?thesis by (auto simp: one_line_def)
next
  case False
  with assms have ex': "ex' = plain_loop e (exMbs ex) ex" by (simp add: ExecuteThread_def)
  from plain_loop_lines [of "exMbs ex" e ex] show ?thesis unfolding ex' by blast
qed

lemma update_front_prefix:
  "update_front e n ex = Some ex' \<Longrightarrow>
   exLog ex' = exLog ex @ map (\<lambda>m. Updated (mbHash m)) (take n (exMbs ex)) \<and> exMbs ex' = drop n (exMbs ex) \<and> exDone ex' = exDone ex"
proof (induction n arbitrary: ex)
  case 0
  then show ?case by simp
next
  case (Suc n)
  then obtain mb rest where q: "exMbs ex = mb # rest" by (auto split: list.splits)
  let ?ex = "updateState e ex mb"
  have l: "exLog ?ex = exLog ex @ [Updated (mbHash mb)]" "exMbs ?ex = exMbs ex" "exDone ?ex = exDone ex"
    using updateState_line [of mb ex e] by (auto simp: one_line_def)
  from Suc.prems q have "update_front e n (?ex\<lparr>exMbs := drop 1 (exMbs ?ex)\<rparr>) = Some ex'" by (simp add: Let_def)
  from Suc.IH [OF this] show ?case by (simp add: l q)
qed

section \<open>Order of execution\<close>

primrec line_hash :: "ex_line \<Rightarrow> Identifier" where
  "line_hash (Executed h) = h"
| "line_hash (Updated h) = h"

text \<open>The microblocks handled so far, followed by those waiting.\<close>

definition flow :: "Executor \<Rightarrow> Identifier list" where
  "flow ex = map line_hash (exLog ex) @ map mbHash (exMbs ex)"

lemma take_drop_map: "map f (take k xs) @ map f (drop k xs) = map f xs"
  by (simp flip: map_append)

lemma ExecuteThread_flow:
  assumes "ordered_mode e" and "ExecuteThread e ex = Some ex'"
  shows "flow ex' = flow ex"
proof -
  from ExecuteThread_prefix [OF assms] obtain k where "exLog ex' = exLog ex @ map (\<lambda>m. Executed (mbHash m)) (take k (exMbs ex))"
    "exMbs ex' = drop k (exMbs ex)" by blast
  then show ?thesis using take_drop_map [of mbHash k] by (simp add: flow_def comp_def)
qed

lemma update_front_flow: "update_front e n ex = Some ex' \<Longrightarrow> flow ex' = flow ex"
  using update_front_prefix [of e n ex ex'] take_drop_map [of mbHash n] by (simp add: flow_def comp_def)

lemma record_results_keep:
  "exMbs (fst (foldl (record_result e res) s is)) = exMbs (fst s) \<and> exLog (fst (foldl (record_result e res) s is)) = exLog (fst s)"
  by (induction "is" arbitrary: s) (auto simp: record_result_def Let_def split: prod.split)

primrec ev_added :: "ex_event \<Rightarrow> Identifier list" where
  "ev_added (ExMbReceive mbs) = map mbHash mbs"
| "ev_added (ExMissReceive mb) = []"
| "ev_added (ExReceiveResult res) = []"

lemma HandleResult_cases:
  assumes "HandleResult e ex res = Some ex'"
  obtains ex2 ex3 high where "exMbs ex3 = exMbs ex" and "exLog ex3 = exLog ex" and "exDone ex2 = exDone ex"
    and "foldl (record_result e res) (ex2, 0) [1..erNo res] = (ex3, high)"
    and "(if high \<noteq> 0 then mbReady e ex3 high else Some ex3) = Some ex'"
proof -
  let ?ex2 = "ex\<lparr>exReadings := Suc (exReadings ex),
        exMonitor := CollectResultTime (exFloat e) (exMonitor ex) (erMb res) (TimeSub (exNow e (exReadings ex)) (erBuildTime res))\<rparr>"
  obtain ex3 high where f: "foldl (record_result e res) (?ex2, 0) [1..erNo res] = (ex3, high)" by (metis prod.exhaust)
  then have "exMbs ex3 = exMbs ex" "exLog ex3 = exLog ex"
    using record_results_keep [of e res "(?ex2, 0)" "[1..erNo res]"] by simp_all
  then show thesis using that [OF _ _ _ f] f assms by (simp add: HandleResult_def ex_now_def Let_def)
qed

lemma HandleMB_flow:
  assumes "ordered_mode e" and "HandleMB e ex ev = Some ex'"
  shows "flow ex' = flow ex @ ev_added ev"
proof (cases ev)
  case (ExMbReceive mbs)
  let ?ex = "ex\<lparr>exMbs := exMbs ex @ mbs\<rparr>"
  from assms(2) ExMbReceive obtain ex2 where u: "flow ex2 = flow ?ex" and x: "ExecuteThread e ex2 = Some ex'"
    by (auto simp: AddMbToExecute_def Let_def bind_Some_conv dest: update_front_flow split: if_splits)
  from ExecuteThread_flow [OF assms(1) x] u show ?thesis using ExMbReceive by (simp add: flow_def)
next
  case (ExMissReceive mb)
  have "map mbHash (map (\<lambda>m. if mbHash m = mbHash mb \<and> mbIsFake m then mb else m) (exMbs ex)) = map mbHash (exMbs ex)"
    by simp
  then have "flow (ex\<lparr>exMbs := map (\<lambda>m. if mbHash m = mbHash mb \<and> mbIsFake m then mb else m) (exMbs ex)\<rparr>) = flow ex"
    by (simp add: flow_def del: map_map)
  with assms(2) ExMissReceive ExecuteThread_flow [OF assms(1)] show ?thesis
    by (auto simp: HandleMiss_def Let_def split: if_splits)
next
  case (ExReceiveResult res)
  with assms(2) have "HandleResult e ex res = Some ex'" by simp
  then show ?thesis
  proof (cases rule: HandleResult_cases)
    case (1 ex2 ex3 high)
    then have "flow ex3 = flow ex" by (simp add: flow_def)
    with 1(5) ExecuteThread_flow [OF assms(1)] ExReceiveResult show ?thesis
      by (auto simp: mbReady_def bind_Some_conv update_front_flow split: if_splits)
  qed
qed

lemma ex_run_flow:
  "ordered_mode e \<Longrightarrow> ex_run e ex evs = Some ex' \<Longrightarrow> flow ex' = flow ex @ concat (map ev_added evs)"
proof (induction evs arbitrary: ex)
  case Nil
  then show ?case by simp
next
  case (Cons ev evs)
  from Cons.prems(2) obtain ex1 where h: "HandleMB e ex ev = Some ex1" and r: "ex_run e ex1 evs = Some ex'"
    by (auto simp: bind_Some_conv)
  from Cons.IH [OF Cons.prems(1) r] HandleMB_flow [OF Cons.prems(1) h] show ?case by simp
qed

section \<open>Confirmations\<close>

text \<open>Who has reported a result at position \<open>i\<close> or beyond.\<close>

definition reporters :: "int \<Rightarrow> ex_event list \<Rightarrow> NodeID set" where
  "reporters i evs = {erPropsalId r | r. ExReceiveResult r \<in> set evs \<and> i \<le> erNo r}"

definition done_names :: "Executor \<Rightarrow> int \<Rightarrow> NodeID set" where
  "done_names ex i = (case exDone ex i of None \<Rightarrow> {} | Some m \<Rightarrow> dom m)"

lemma done_len_names: "done_len ex i = int (card (done_names ex i))"
  by (simp add: done_len_def done_names_def maplen_def split: option.split)

lemma record_result_names:
  "done_names (fst (record_result e res s j)) i = (if i = j then insert (erPropsalId res) (done_names (fst s) i) else done_names (fst s) i)"
  by (auto simp: record_result_def done_names_def Let_def split: prod.split option.split)

lemma record_results_names:
  "done_names (fst (foldl (record_result e res) s js)) i =
   (if i \<in> set js then insert (erPropsalId res) (done_names (fst s) i) else done_names (fst s) i)"
  by (induction js arbitrary: s) (simp_all add: record_result_names)

text \<open>\<open>high_done_index\<close> is a position whose confirmations reach the threshold.\<close>

lemma record_results_high:
  "distinct js \<Longrightarrow> snd (foldl (record_result e res) (ex, 0) js) = 0 \<or>
    (snd (foldl (record_result e res) (ex, 0) js) \<in> set js \<and>
     exQ e \<le> done_len (fst (foldl (record_result e res) (ex, 0) js)) (snd (foldl (record_result e res) (ex, 0) js)))"
proof (induction js rule: rev_induct)
  case Nil
  then show ?case by simp
next
  case (snoc j js)
  let ?s = "foldl (record_result e res) (ex, 0) js"
  have IH: "snd ?s = 0 \<or> (snd ?s \<in> set js \<and> exQ e \<le> done_len (fst ?s) (snd ?s))" using snoc by simp
  have high: "snd (record_result e res ?s j) = (if exQ e \<le> done_len (fst (record_result e res ?s j)) j then j else snd ?s)"
    by (simp add: record_result_def Let_def split: prod.split)
  have "snd ?s \<in> set js \<longrightarrow> done_len (fst (record_result e res ?s j)) (snd ?s) = done_len (fst ?s) (snd ?s)"
    using snoc.prems by (auto simp: done_len_names record_result_names)
  with IH high show ?case by (cases "exQ e \<le> done_len (fst (record_result e res ?s j)) j") auto
qed

text \<open>Nothing but a result changes the confirmations.\<close>

lemma ExecuteThread_done:
  assumes "ordered_mode e" and "ExecuteThread e ex = Some ex'"
  shows "done_names ex' = done_names ex"
proof -
  from ExecuteThread_prefix [OF assms] have "exDone ex' = exDone ex" by blast
  then show ?thesis by (simp add: done_names_def fun_eq_iff)
qed

lemma update_front_done: "update_front e n ex = Some ex' \<Longrightarrow> done_names ex' = done_names ex"
  using update_front_prefix [of e n ex ex'] by (simp add: done_names_def fun_eq_iff)

lemma HandleMB_names:
  assumes m: "ordered_mode e" and h: "HandleMB e ex ev = Some ex'"
  shows "done_names ex' i = done_names ex i \<union> (if 1 \<le> i then reporters i [ev] else {})"
proof (cases ev)
  case (ExMbReceive mbs)
  from h ExMbReceive obtain ex2 where u: "done_names ex2 = done_names (ex\<lparr>exMbs := exMbs ex @ mbs\<rparr>)" and x: "ExecuteThread e ex2 = Some ex'"
    by (auto simp: AddMbToExecute_def Let_def bind_Some_conv dest: update_front_done split: if_splits)
  from ExecuteThread_done [OF m x] u show ?thesis using ExMbReceive by (simp add: reporters_def done_names_def)
next
  case (ExMissReceive mb)
  have "done_names (ex\<lparr>exMbs := q\<rparr>) = done_names ex" for q by (simp add: done_names_def fun_eq_iff)
  with h ExMissReceive ExecuteThread_done [OF m] show ?thesis
    by (auto simp: HandleMiss_def Let_def reporters_def split: if_splits)
next
  case (ExReceiveResult res)
  with h have "HandleResult e ex res = Some ex'" by simp
  then show ?thesis
  proof (cases rule: HandleResult_cases)
    case (1 ex2 ex3 high)
    have "done_names ex3 i = (if i \<in> set [1..erNo res] then insert (erPropsalId res) (done_names ex2 i) else done_names ex2 i)"
      using record_results_names [of e res "(ex2, 0)" "[1..erNo res]" i] 1(4) by simp
    moreover have "done_names ex2 i = done_names ex i" using 1(3) by (simp add: done_names_def)
    ultimately have n: "done_names ex3 i = done_names ex i \<union> (if 1 \<le> i then reporters i [ev] else {})"
      using ExReceiveResult by (auto simp: reporters_def)
    have "done_names ex' = done_names ex3" using 1(5) ExecuteThread_done [OF m]
      by (auto simp: mbReady_def bind_Some_conv update_front_done split: if_splits)
    with n show ?thesis by simp
  qed
qed

lemma reporters_Cons: "reporters i (ev # evs) = reporters i [ev] \<union> reporters i evs"
  by (auto simp: reporters_def)

lemma reporters_append: "reporters i (xs @ ys) = reporters i xs \<union> reporters i ys"
  by (auto simp: reporters_def)

lemma reporters_Nil [simp]: "reporters i [] = {}"
  by (simp add: reporters_def)

lemma reporters_finite [simp]: "finite (reporters i evs)"
proof -
  have "reporters i evs \<subseteq> (\<lambda>ev. case ev of ExReceiveResult r \<Rightarrow> erPropsalId r | _ \<Rightarrow> []) ` set evs"
    by (force simp: reporters_def)
  then show ?thesis by (rule finite_subset) simp
qed

lemma reporters_antimono: "i \<le> j \<Longrightarrow> reporters j evs \<subseteq> reporters i evs"
  by (force simp: reporters_def)

lemma ex_run_names:
  "ordered_mode e \<Longrightarrow> ex_run e ex evs = Some ex' \<Longrightarrow>
   done_names ex' i = done_names ex i \<union> (if 1 \<le> i then reporters i evs else {})"
proof (induction evs arbitrary: ex)
  case Nil
  then show ?case by simp
next
  case (Cons ev evs)
  from Cons.prems(2) obtain ex1 where h: "HandleMB e ex ev = Some ex1" and r: "ex_run e ex1 evs = Some ex'"
    by (auto simp: bind_Some_conv)
  from Cons.IH [OF Cons.prems(1) r] HandleMB_names [OF Cons.prems(1) h, of i]
  show ?case by (simp add: reporters_Cons [of i ev evs] Un_assoc)
qed

lemma last_match_le: "last_match p xs \<le> length xs"
  by (induction xs) auto

lemma last_match_hit: "last_match p xs \<noteq> 0 \<Longrightarrow> p (xs ! (last_match p xs - 1))"
proof (induction xs)
  case Nil
  then show ?case by simp
next
  case (Cons x xs)
  then show ?case by (cases "last_match p xs") (auto split: if_splits)
qed

text \<open>The microblocks an event appends to the queue, and the prefix of the queue it takes over: the prefix ends with a
  microblock whose confirmations reach the threshold.\<close>

primrec ev_mbs :: "ex_event \<Rightarrow> MicroBlock list" where
  "ev_mbs (ExMbReceive mbs) = mbs"
| "ev_mbs (ExMissReceive mb) = []"
| "ev_mbs (ExReceiveResult res) = []"

definition takes_over :: "ExEnv \<Rightarrow> Executor \<Rightarrow> MicroBlock list \<Rightarrow> MicroBlock list \<Rightarrow> Executor \<Rightarrow> bool" where
  "takes_over e ex q us ex' \<longleftrightarrow> prefix us q \<and>
     (\<exists>xs. exLog ex' = exLog ex @ map (\<lambda>m. Updated (mbHash m)) us @ map Executed xs) \<and>
     (us \<noteq> [] \<longrightarrow> exQ e \<le> done_len ex' (mbCommittedNo (last us)))"

lemma update_then_execute:
  assumes m: "ordered_mode e" and u: "update_front e (last_match p (exMbs ex)) ex = Some ex1"
    and x: "ExecuteThread e ex1 = Some ex'"
    and q: "\<And>mb. mb \<in> set (exMbs ex) \<Longrightarrow> p mb \<Longrightarrow> exQ e \<le> done_len ex (mbCommittedNo mb)"
  shows "takes_over e ex (exMbs ex) (take (last_match p (exMbs ex)) (exMbs ex)) ex'"
proof -
  let ?n = "last_match p (exMbs ex)" and ?us = "take (last_match p (exMbs ex)) (exMbs ex)"
  note U = update_front_prefix [OF u]
  from ExecuteThread_prefix [OF m x] obtain k where
    k: "exLog ex' = exLog ex1 @ map (\<lambda>m. Executed (mbHash m)) (take k (exMbs ex1))" "exDone ex' = exDone ex1" by blast
  then have "exLog ex' = exLog ex @ map (\<lambda>m. Updated (mbHash m)) ?us @ map Executed (map mbHash (take k (exMbs ex1)))"
    using U by (simp add: comp_def)
  moreover have "exQ e \<le> done_len ex' (mbCommittedNo (last ?us))" if "?us \<noteq> []"
  proof -
    from that have n: "?n \<noteq> 0" "?n \<le> length (exMbs ex)" using last_match_le [of p "exMbs ex"] by auto
    then have l: "last ?us = exMbs ex ! (?n - 1)" by (subst last_conv_nth) (auto simp: min_absorb2)
    have "exQ e \<le> done_len ex (mbCommittedNo (last ?us))"
      unfolding l using n last_match_hit [of p "exMbs ex"] by (intro q) simp_all
    then show ?thesis using k(2) U by (simp add: done_len_def)
  qed
  ultimately show ?thesis unfolding takes_over_def by (blast intro: take_is_prefix)
qed

lemma execute_takes_nothing:
  assumes "ordered_mode e" and "ExecuteThread e ex = Some ex'"
  shows "takes_over e ex q [] ex'"
proof -
  from ExecuteThread_prefix [OF assms] obtain k where
    "exLog ex' = exLog ex @ map Executed (map mbHash (take k (exMbs ex)))" by (auto simp: comp_def)
  then show ?thesis unfolding takes_over_def by (intro conjI exI [of _ "map mbHash (take k (exMbs ex))"]) simp_all
qed

lemma takes_over_frame: "exLog ex1 = exLog ex \<Longrightarrow> takes_over e ex1 q us ex' \<Longrightarrow> takes_over e ex q us ex'"
  by (simp add: takes_over_def)

lemma HandleMB_takes_over:
  assumes m: "ordered_mode e" and h: "HandleMB e ex ev = Some ex'"
  shows "\<exists>us. takes_over e ex (exMbs ex @ ev_mbs ev) us ex'"
proof (cases ev)
  case (ExMbReceive mbs)
  let ?ex1 = "ex\<lparr>exMbs := exMbs ex @ mbs\<rparr>" and ?p = "CheckResult e (ex\<lparr>exMbs := exMbs ex @ mbs\<rparr>)"
  have "\<exists>us. takes_over e ?ex1 (exMbs ?ex1) us ex'"
  proof (cases "exBroadcastByGroup e")
    case True
    with h ExMbReceive obtain ex2 where u: "update_front e (last_match ?p (exMbs ?ex1)) ?ex1 = Some ex2"
      and x: "ExecuteThread e ex2 = Some ex'" by (auto simp: AddMbToExecute_def Let_def bind_Some_conv)
    from update_then_execute [OF m u x] show ?thesis by (auto simp: CheckResult_def)
  next
    case False
    with h ExMbReceive have "ExecuteThread e ?ex1 = Some ex'" by (simp add: AddMbToExecute_def Let_def)
    from execute_takes_nothing [OF m this] show ?thesis by blast
  qed
  then show ?thesis using ExMbReceive takes_over_frame [of ?ex1 ex] by fastforce
next
  case (ExMissReceive mb)
  obtain q where "ExecuteThread e (ex\<lparr>exMbs := q\<rparr>) = Some ex' \<or> ex' = ex\<lparr>exMbs := q\<rparr>"
    using h ExMissReceive by (auto simp: HandleMiss_def Let_def split: if_splits)
  then have "takes_over e ex (exMbs ex @ ev_mbs ev) [] ex'"
  proof
    assume "ExecuteThread e (ex\<lparr>exMbs := q\<rparr>) = Some ex'"
    from takes_over_frame [OF _ execute_takes_nothing [OF m this]] show ?thesis by simp
  qed (simp add: takes_over_def)
  then show ?thesis by blast
next
  case (ExReceiveResult res)
  with h have "HandleResult e ex res = Some ex'" by simp
  then show ?thesis
  proof (cases rule: HandleResult_cases)
    case (1 ex2 ex3 high)
    show ?thesis
    proof (cases "high = 0")
      case True
      with 1 have "takes_over e ex (exMbs ex @ ev_mbs ev) [] ex'" by (simp add: takes_over_def)
      then show ?thesis by blast
    next
      case False
      have h: "exQ e \<le> done_len ex3 high"
        using record_results_high [of "[1..erNo res]" e res ex2] 1(4) False by auto
      from 1(5) False obtain ex4 where
        u: "update_front e (last_match (\<lambda>mb. mbCommittedNo mb = high) (exMbs ex3)) ex3 = Some ex4"
        and x: "ExecuteThread e ex4 = Some ex'" by (auto simp: mbReady_def bind_Some_conv)
      from takes_over_frame [OF 1(2) update_then_execute [OF m u x]] h 1(1) ExReceiveResult show ?thesis by auto
    qed
  qed
qed

lemma NewExecutor_empty: "flow (NewExecutor gm mon None) = [] \<and> done_names (NewExecutor gm mon None) i = {}"
  by (simp add: flow_def done_names_def NewExecutor_def)

text \<open>Execution order: outside the sampling mode, over any interleaving of committed batches, fetched microblocks and
  results on a new executor, the microblocks handled so far followed by those waiting are the microblocks
  delivered, in the order of delivery: each is handled once, by executing it or by taking over the result of
  others, and none is skipped or overtaken.\<close>

theorem executes_in_delivery_order:
  assumes "exBroadcastByGroup e \<or> \<not> exBroadcastBySample e" and "ex_run e (NewExecutor gm mon None) evs = Some ex"
  shows "map line_hash (exLog ex) @ map mbHash (exMbs ex) = concat (map ev_added evs)"
  using ex_run_flow [OF assms] NewExecutor_empty [of gm mon] by (simp add: flow_def)

text \<open>C28 (confirmed results): outside the sampling mode, on whatever event after whatever run of a new executor, the microblocks
  that are taken over without executing them are a prefix of the queue, with the microblocks that just arrived at
  its end, and at least Q different replicas have reported results at the commit number of the last of them or beyond.
  When the queue is in the order of the commit numbers, this holds of each of them.  The reports count as they arrive: no
  signature is checked.\<close>

theorem taken_over_results_are_confirmed:
  assumes "exBroadcastByGroup e \<or> \<not> exBroadcastBySample e" and "ex_run e (NewExecutor gm mon None) evs = Some ex"
    and "HandleMB e ex ev = Some ex'"
  shows "\<exists>us xs. exLog ex' = exLog ex @ map (\<lambda>m. Updated (mbHash m)) us @ map Executed xs \<and> prefix us (exMbs ex @ ev_mbs ev) \<and>
    (us \<noteq> [] \<longrightarrow> exQ e \<le> int (card (reporters (mbCommittedNo (last us)) (evs @ [ev])))) \<and>
    (sorted (map mbCommittedNo (exMbs ex @ ev_mbs ev)) \<longrightarrow>
       (\<forall>m\<in>set us. exQ e \<le> int (card (reporters (mbCommittedNo m) (evs @ [ev])))))"
proof -
  let ?R = "\<lambda>i. reporters i (evs @ [ev])"
  from HandleMB_takes_over [OF assms(1,3)] obtain us xs where pre: "prefix us (exMbs ex @ ev_mbs ev)"
    and log: "exLog ex' = exLog ex @ map (\<lambda>m. Updated (mbHash m)) us @ map Executed xs"
    and q: "us \<noteq> [] \<Longrightarrow> exQ e \<le> done_len ex' (mbCommittedNo (last us))" by (auto simp: takes_over_def)
  have "done_names ex' i \<subseteq> ?R i" for i
    using ex_run_names [OF assms(1,2), of i] HandleMB_names [OF assms(1,3), of i] NewExecutor_empty [of gm mon i]
    by (auto simp: reporters_append split: if_splits)
  then have le: "done_len ex' i \<le> int (card (?R i))" for i by (simp add: done_len_names card_mono)
  have last: "exQ e \<le> int (card (?R (mbCommittedNo (last us))))" if "us \<noteq> []"
    using q [OF that] le [of "mbCommittedNo (last us)"] by simp
  moreover have "exQ e \<le> int (card (?R (mbCommittedNo m)))"
    if s: "sorted (map mbCommittedNo (exMbs ex @ ev_mbs ev))" and m: "m \<in> set us" for m
  proof -
    from m have ne: "us \<noteq> []" by auto
    obtain zs where z: "exMbs ex @ ev_mbs ev = us @ zs" using pre by (auto simp: prefix_def)
    with s have "sorted (map mbCommittedNo us)" by (simp add: sorted_append)
    then have "mbCommittedNo m \<le> mbCommittedNo (last us)"
      using m ne sorted_wrt_append [of "(\<le>)" "map mbCommittedNo (butlast us)" "[mbCommittedNo (last us)]"]
      by (cases us rule: rev_cases) (auto simp: sorted_append)
    then have "card (?R (mbCommittedNo (last us))) \<le> card (?R (mbCommittedNo m))"
      by (intro card_mono reporters_antimono) simp_all
    with last [OF ne] show ?thesis by simp
  qed
  ultimately show ?thesis using pre log by blast
qed

section \<open>Instances\<close>

definition ex_env :: "bool \<Rightarrow> bool \<Rightarrow> ExEnv" where
  "ex_env g s = \<lparr>exID = NewNodeID 1, exBroadcastByGroup = g, exBroadcastBySample = s, exQ = 2,
     exKeys = \<lparr>scheme = toy_ecdsa, keys = [Some [1]], pubKeys = [Some [1]]\<rparr>, exFloat = float_stub, exNow = int\<rparr>"

definition ex_group :: GroupManager where
  "ex_group = \<lparr>gmVersion = 0, groupNum = 2, memberNum = 1,
     groupList = [\<lparr>groupId = 0, content = {''1''}\<rparr>, \<lparr>groupId = 1, content = {''2''}\<rparr>], myGroup = {0}\<rparr>"

definition ex_new :: Executor where
  "ex_new = NewExecutor ex_group None None"

definition ex_mb :: "Identifier \<Rightarrow> int \<Rightarrow> int \<Rightarrow> bool \<Rightarrow> MicroBlock" where
  "ex_mb h gid no fake = zeroMicroBlock\<lparr>mbHash := h, mbGroupId := gid, mbCommittedNo := no, mbIsFake := fake\<rparr>"

definition ex_res :: "NodeID \<Rightarrow> int \<Rightarrow> ExecuteResult" where
  "ex_res p no = zeroResult\<lparr>erPropsalId := p, erNo := no\<rparr>"

lemmas ex_eval = ex_env_def ex_group_def ex_new_def ex_mb_def ex_res_def zeroResult_def zeroMicroBlock_def NewExecutor_def
  AddMbToExecute_def ExecuteThread_def ExExecute_def ex_now_def HandleResult_def record_result_def mbReady_def updateState_def
  CheckResult_def done_len_def HandleMiss_def IsInMyGroup_def Let_def upto.simps maplen_upd

text \<open>In group mode, with two replicas in groups of their own: the second microblock is the other's.\<close>

lemma ex_sign: "PrivSign (exKeys (ex_env g s)) data (exID (ex_env g s)) = Some ([[1], data], None)"
  by (simp add: PrivSign_def Sign_def ex_env_def toy_ecdsa_def Node_NewNodeID i64_def go_index_def)

text \<open>In the sampling mode a stand-in that the replica need not execute is passed over, but the queue loses as many microblocks
  from its front as were executed: the stand-in is dropped, and what stood behind it is executed a second time.\<close>

lemma sampling_repeats_execution:
  "\<exists>ex. ex_run (ex_env False True) ex_new [ExMbReceive [ex_mb 7 0 1 True, ex_mb 8 0 2 False], ExMbReceive []] = Some ex \<and>
     exLog ex = [Executed 8, Executed 8] \<and> exMbs ex = []"
  using ex_sign [of False True "IDToByte 8"]
  by (simp add: ex_eval generateExecuteResult_def stateBroadcastBySample_def go_index_def)

theorem executes_in_delivery_order_witness:
  "\<exists>ex. ex_run (ex_env False False) ex_new [ExMbReceive [ex_mb 7 0 1 False, ex_mb 8 0 2 True], ExMbReceive [ex_mb 9 0 3 False],
       ExMissReceive (ex_mb 8 0 2 False)] = Some ex \<and>
     map line_hash (exLog ex) @ map mbHash (exMbs ex) = [7, 8, 9]"
proof -
  let ?evs = "[ExMbReceive [ex_mb 7 0 1 False, ex_mb 8 0 2 True], ExMbReceive [ex_mb 9 0 3 False],
       ExMissReceive (ex_mb 8 0 2 False)]"
  obtain ex where r: "ex_run (ex_env False False) ex_new ?evs = Some ex" by (simp add: ex_eval)
  from executes_in_delivery_order [of "ex_env False False" ex_group None ?evs ex] r show ?thesis
    by (simp add: ex_new_def) (simp add: ex_env_def ex_mb_def)
qed

theorem taken_over_results_are_confirmed_witness:
  "\<exists>ex ex'. ex_run (ex_env True False) ex_new [ExMbReceive [ex_mb 7 1 1 False], ExReceiveResult (ex_res ''2'' 1)] = Some ex \<and>
     HandleMB (ex_env True False) ex (ExReceiveResult (ex_res ''3'' 1)) = Some ex' \<and> exLog ex' = [Updated 7] \<and>
     2 \<le> int (card (reporters 1 [ExMbReceive [ex_mb 7 1 1 False], ExReceiveResult (ex_res ''2'' 1), ExReceiveResult (ex_res ''3'' 1)]))"
proof -
  let ?e = "ex_env True False" and ?evs = "[ExMbReceive [ex_mb 7 1 1 False], ExReceiveResult (ex_res ''2'' 1)]"
  let ?ev = "ExReceiveResult (ex_res ''3'' 1)"
  obtain ex ex' where r: "ex_run ?e ex_new ?evs = Some ex" and h: "HandleMB ?e ex ?ev = Some ex'"
    and q: "exMbs ex = [ex_mb 7 1 1 False]" and l: "exLog ex = []" "exLog ex' = [Updated 7]"
    by (simp add: ex_eval)
  have m: "exBroadcastByGroup ?e \<or> \<not> exBroadcastBySample ?e" by (simp add: ex_env_def)
  from taken_over_results_are_confirmed [OF m r [unfolded ex_new_def] h] obtain us xs
    where a: "exLog ex' = exLog ex @ map (\<lambda>m. Updated (mbHash m)) us @ map Executed xs" and b: "prefix us (exMbs ex @ ev_mbs ?ev)"
      and c: "us \<noteq> [] \<longrightarrow> exQ ?e \<le> int (card (reporters (mbCommittedNo (last us)) (?evs @ [?ev])))"
    by blast
  from a l have "us \<noteq> []" by (cases us; cases xs) simp_all
  with b q have "us = [ex_mb 7 1 1 False]" by (cases us) auto
  with c have "2 \<le> int (card (reporters 1 (?evs @ [?ev])))" by (simp add: ex_env_def ex_mb_def)
  with r h l show ?thesis by auto
qed

text \<open>A fetched microblock replaces the stand-in together with its commit number.  The fetched one was numbered by the replica
  that sent it, or not at all, so that the queue leaves the order of the commit numbers: a confirmation of number 1
  then takes over the microblock of number 2 that stands before it, which nobody has confirmed.\<close>

lemma fetched_number_misplaces_confirmation:
  "\<exists>ex ex'. ex_run (ex_env True False) ex_new
       [ExMbReceive [ex_mb 7 1 2 False, ex_mb 8 1 3 True], ExMissReceive (ex_mb 8 1 1 False), ExReceiveResult (ex_res ''2'' 1)] = Some ex \<and>
     map mbCommittedNo (exMbs ex) = [2, 1] \<and>
     HandleMB (ex_env True False) ex (ExReceiveResult (ex_res ''3'' 1)) = Some ex' \<and> exLog ex' = [Updated 7, Updated 8]"
  by (simp add: ex_eval)

end
