(* ===== verification/Replica.thy ===== *)
theory Replica
  imports HotStuff AckMem Txpool Executor Utils Limiter
begin

text \<open>
  The replica (src/replica/replica.go): message handlers, dissemination, proposing, commitment, and the event loop.

  \<open>RpEnv\<close> holds the configuration and what comes from outside.  \<open>rpNow e s j\<close> is the \<open>j\<close>-th clock reading of the
  \<open>s\<close>-th handler call (\<open>rpNow2\<close> for the two nested loops of \<open>FetchMB\<close>), \<open>rpIntn\<close> the random draws.  A channel the
  replica only sends on is the list of what was sent: \<open>rEvents\<close> for \<open>eventChan\<close>, \<open>rExChan\<close> for the three channels
  of the executor, \<open>rOut\<close> for the messages handed to the node.  \<open>rViews\<close>, \<open>rDelivered\<close> and \<open>rHandled\<close> count what
  the goroutines have taken from \<open>newViewChan\<close>, \<open>committedBlocks\<close> and \<open>eventChan\<close>.  The monitor is the one of the
  mempool.  A goroutine that a handler starts runs at once.

  A microblock is a value here and an object in the source.  Where the source writes to an object that the
  mempool holds too, \<open>am_write\<close> repeats the write on the mempool's copies, which are told by their contents.

  Not modelled: \<open>gossip\<close> with \<open>pickFanoutNodes\<close> (never started), \<open>pickGroup\<close> and \<open>verifySigs\<close> (never called), the
  reports \<open>handleQuery\<close> and \<open>saveQuery\<close>, the load generator \<open>benchmark\<close>, and the file written by \<open>startMonitor\<close>.
\<close>

section \<open>State\<close>

datatype rp_event = EvView View | EvBlock Block | EvVote Vote | EvTMO TMO | EvResult ExecuteResult

datatype rp_payload = PMicroblock MicroBlock | PAck Ack | PProposal Proposal

datatype rp_msg =
    RSend NodeID rp_payload
  | RBroadcast rp_payload
  | RBroadcastByGroup rp_payload "NodeID set"
  | RMulticastQuorum "NodeID list" rp_payload

record RpEnv =
  rpAm :: AmEnv
  rpHs :: HsEnv
  rpMemType :: string
  rpMaster :: NodeID
  rpGossip :: bool
  rpR :: int
  rpLoadBalance :: bool
  rpForwardP :: int
  rpLoadedIndex :: int
  rpBroadcastBySample :: bool
  rpThreshold :: int
  rpN :: int
  rpSlowNo :: int
  rpMSize :: int
  rpPayloadSize :: int
  rpMb_broadcast :: nat
  rpNow :: "nat \<Rightarrow> nat \<Rightarrow> Time"
  rpNow2 :: "nat \<Rightarrow> nat \<Rightarrow> nat \<Rightarrow> Time"
  rpIntn :: Draws

abbreviation rpID :: "RpEnv \<Rightarrow> NodeID" where "rpID e \<equiv> hsID (rpHs e)"
abbreviation rpIsByz :: "RpEnv \<Rightarrow> bool" where "rpIsByz e \<equiv> hsIsByz (rpHs e)"
abbreviation rpStrategy :: "RpEnv \<Rightarrow> string" where "rpStrategy e \<equiv> hsStrategy (rpHs e)"
abbreviation rpKeys :: "RpEnv \<Rightarrow> KeyRing" where "rpKeys e \<equiv> hsKeys (rpHs e)"
abbreviation rpByGroup :: "RpEnv \<Rightarrow> bool" where "rpByGroup e \<equiv> aeBroadcastByGroup (rpAm e)"

record Replica =
  rSm :: AckMem
  rSafety :: HotStuff
  rGm :: GroupManager
  rPool :: Txpool
  rLimiter :: Bucket
  rEvents :: "rp_event list"
  rExChan :: "ex_event list"
  rOut :: "rp_msg list"
  rSelfMBChan :: "MicroBlock list"
  rOtherMBChan :: "MicroBlock list"
  rMbBroadcast :: nat
  rIsStarted :: bool
  rStart :: nat
  rStartTime :: Time
  rTmpTime :: Time
  rLastViewTime :: Time
  rVoteStart :: Time
  totalCreateDuration :: int
  totalProcessDuration :: int
  totalProposeDuration :: int
  totalDisseminationTime :: int
  totaRealDissminationTime :: int
  totalDelay :: int
  totalRoundTime :: int
  totalVoteTime :: int
  totalSlowDisemminationDur :: int
  totalSlowMBs :: int
  totalBlockSize :: int
  totalMicroblocks :: int
  totalProposedMBs :: int
  totalRealMBS :: int
  receivedNo :: int
  roundNo :: int
  voteNo :: int
  totalCommittedTx :: int
  latencyNo :: int
  proposedNo :: int
  processedNo :: int
  committedNo :: int
  totalHops :: int
  totalCommittedMBs :: int
  totalRedundantMBs :: int
  txNoInMB :: int
  commitMbNo :: int
  CommitedMb :: "Identifier set"
  missingCounts :: "NodeID \<Rightarrow> int"
  receivedMBs :: "Identifier set"
  totalTx :: int
  rViews :: nat
  rDelivered :: nat
  rHandled :: nat
  rDraw :: nat
  rCalls :: nat

text \<open>The fields set by \<open>new(Replica)\<close> and the \<open>make\<close> calls, around the components.\<close>

definition rp_init :: "AckMem \<Rightarrow> HotStuff \<Rightarrow> GroupManager \<Rightarrow> Txpool \<Rightarrow> Bucket \<Rightarrow> Replica" where
  "rp_init sm hs gm pool lim =
     \<lparr>rSm = sm, rSafety = hs, rGm = gm, rPool = pool, rLimiter = lim, rEvents = [], rExChan = [], rOut = [], rSelfMBChan = [],
      rOtherMBChan = [], rMbBroadcast = 0, rIsStarted = False, rStart = 0, rStartTime = 0, rTmpTime = 0,
      rLastViewTime = 0, rVoteStart = 0, totalCreateDuration = 0, totalProcessDuration = 0, totalProposeDuration = 0,
      totalDisseminationTime = 0, totaRealDissminationTime = 0, totalDelay = 0, totalRoundTime = 0, totalVoteTime = 0,
      totalSlowDisemminationDur = 0, totalSlowMBs = 0, totalBlockSize = 0, totalMicroblocks = 0, totalProposedMBs = 0,
      totalRealMBS = 0, receivedNo = 0, roundNo = 0, voteNo = 0, totalCommittedTx = 0, latencyNo = 0, proposedNo = 0,
      processedNo = 0, committedNo = 0, totalHops = 0, totalCommittedMBs = 0, totalRedundantMBs = 0, txNoInMB = 0,
      commitMbNo = 0, CommitedMb = {}, missingCounts = (\<lambda>_. 0), receivedMBs = {}, totalTx = 0, rViews = 0,
      rDelivered = 0, rHandled = 0, rDraw = 0, rCalls = 0\<rparr>"

record RpConfig =
  cfN :: int
  cfGroupNum :: int
  cfMemberNum :: int
  cfPoolsize :: int
  cfBSize :: int
  cfMSize :: int
  cfMemSize :: int
  cfQ :: int
  cfMemType :: string
  cfFillInterval :: int
  cfCapacity :: int

text \<open>Both \<open>alg\<close> cases build the HotStuff logic.  The election is part of \<open>HsEnv\<close>.  With another kind of mempool the field \<open>sm\<close>
  stays nil and the first use panics; such a replica is \<open>None\<close>.\<close>

definition NewReplica ::
  "RpConfig \<Rightarrow> NodeID \<Rightarrow> GroupManager option \<Rightarrow> MonitorManager option \<Rightarrow> Time \<Rightarrow> Replica option" where
  "NewReplica c myId gmInst monInst t =
     do { gm \<leftarrow> NewGroupManager (cfN c) (cfGroupNum c) (cfMemberNum c) myId gmInst;
          if cfPoolsize c < 0 then None
          else do {
            lim \<leftarrow> NewBucket (i64 (cfFillInterval c * 1000000)) (cfCapacity c) t;
            if cfMemType c = ''ack'' then
              Some (rp_init (NewAckMem (cfBSize c) (cfMSize c) (cfMemSize c) (cfQ c) myId gm monInst)
                (NewHotStuff (cfN c) (NewPacemaker (cfN c))) gm (NewTxpool (cfPoolsize c)) lim)
            else None } }"

text \<open>The clock reading \<open>j\<close> of the current call, and the beginning of a call.\<close>

definition now :: "RpEnv \<Rightarrow> Replica \<Rightarrow> nat \<Rightarrow> Time" where
  "now e r j = rpNow e (rCalls r) j"

definition call :: "Replica \<Rightarrow> Replica" where
  "call r = r\<lparr>rCalls := Suc (rCalls r)\<rparr>"

definition send :: "rp_msg \<Rightarrow> Replica \<Rightarrow> Replica" where
  "send m r = r\<lparr>rOut := rOut r @ [m]\<rparr>"

definition push_event :: "rp_event \<Rightarrow> Replica \<Rightarrow> Replica" where
  "push_event ev r = r\<lparr>rEvents := rEvents r @ [ev]\<rparr>"

definition push_ex :: "ex_event \<Rightarrow> Replica \<Rightarrow> Replica" where
  "push_ex ev r = r\<lparr>rExChan := rExChan r @ [ev]\<rparr>"

definition am_write :: "MicroBlock \<Rightarrow> (MicroBlock \<Rightarrow> MicroBlock) \<Rightarrow> AckMem \<Rightarrow> AckMem" where
  "am_write mb f am =
     (let w = (\<lambda>m. if m = mb then f m else m) in
      am\<lparr>amStable := map w (amStable am), amMap := (\<lambda>x. map_option w (amMap am x)),
         amPending := (\<lambda>x. map_option (\<lambda>p. p\<lparr>pmMicroblock := w (pmMicroblock p)\<rparr>) (amPending am x))\<rparr>)"

section \<open>Starting\<close>

definition startSignal :: "RpEnv \<Rightarrow> Replica \<Rightarrow> Replica" where
  "startSignal e r =
     (if \<not> rIsStarted r then
        r\<lparr>rStartTime := now e r 0, rTmpTime := now e r 1, rIsStarted := True, rStart := Suc (rStart r)\<rparr>
      else r)"

definition kickOff :: "RpEnv \<Rightarrow> Replica \<Rightarrow> Replica option" where
  "kickOff e r =
     (if GetCurView (pm (rSafety r)) = 0 then
        do { leader \<leftarrow> hsIsLeader (rpHs e) (rpID e) 1;
             Some (if leader then r\<lparr>rSafety := (rSafety r)\<lparr>pm := AdvanceView (pm (rSafety r)) 0\<rparr>\<rparr> else r) }
      else Some r)"

definition GetCurrentLeader :: "RpEnv \<Rightarrow> Replica \<Rightarrow> NodeID option" where
  "GetCurrentLeader e r = hsFindLeaderFor (rpHs e) (GetCurView (pm (rSafety r)))"

definition getTotalCommittedBlock :: "Replica \<Rightarrow> int" where
  "getTotalCommittedBlock r = totalCommittedMBs r"

section \<open>Acknowledgements\<close>

definition ack_verified :: "RpEnv \<Rightarrow> Ack \<Rightarrow> bool option" where
  "ack_verified e ack =
     (if ackReceiver ack \<noteq> rpID e then
        do { (voteIsVerified, err) \<leftarrow>
               PubVerify (rpKeys e) (ackSignature ack) (IDToByte (ackMicroblockID ack)) (ackReceiver ack);
             Some (err = None \<and> voteIsVerified) }
      else Some True)"

definition processAcks :: "RpEnv \<Rightarrow> Replica \<Rightarrow> Ack \<Rightarrow> Replica option" where
  "processAcks e r ack =
     (if rpMemType e = ''ack'' then
        if AmIsStable (rSm r) (ackMicroblockID ack) then Some r
        else do { ok \<leftarrow> ack_verified e ack;
                  Some (if ok then r\<lparr>rSm := AmAddAck (rpAm e) (now e r 20) (now e r 21) (rSm r) ack\<rparr> else r) }
      else Some r)"

definition HandleAck :: "RpEnv \<Rightarrow> Replica \<Rightarrow> Ack \<Rightarrow> Replica option" where
  "HandleAck e r ack = processAcks e r ack"

section \<open>Message handlers\<close>

definition HandleProposal :: "RpEnv \<Rightarrow> Replica \<Rightarrow> Proposal \<Rightarrow> Replica option" where
  "HandleProposal e r proposal =
     (let r1 = startSignal e (r\<lparr>receivedNo := receivedNo r + 1\<rparr>);
          r2 = r1\<lparr>totalProposeDuration := i64 (totalProposeDuration r1 + TimeSub (now e r1 2) (hTimestamp (ppHeader proposal))),
                  totalBlockSize := totalBlockSize r1 + int (length (ppHashList proposal))\<rparr>
      in do { (pendingBlock, sm) \<leftarrow> FetchMB (rpNow2 e (rCalls r2)) (rSm r2) proposal;
              let r3 = r2\<lparr>rSm := sm\<rparr> in
              case CompleteBlock pendingBlock of
                Some block \<Rightarrow> Some (push_event (EvBlock block) r3)
              | None \<Rightarrow> Some r3 })"

definition HandleStable :: "RpEnv \<Rightarrow> Replica \<Rightarrow> Stable \<Rightarrow> Replica option" where
  "HandleStable e r s =
     do { sm \<leftarrow> AmAddStable (rpAm e) (now e r 0) (now e r 1) (rpNow2 e (rCalls r) 0) (rSm r) s; Some (r\<lparr>rSm := sm\<rparr>) }"

text \<open>The acknowledgement of a microblock.  The one with the group mark is used only when the sender is the
  replica itself; to another sender a second, unmarked one is sent.\<close>

definition acknowledge :: "RpEnv \<Rightarrow> Replica \<Rightarrow> MicroBlock \<Rightarrow> Replica option" where
  "acknowledge e r mb =
     (if \<not> mbIsRequested mb \<and> rpMemType e = ''ack'' then
        do { ack0 \<leftarrow> MakeAck (rpKeys e) (rpID e) (mbHash mb);
             let ack = (if rpByGroup e \<and> \<not> IsInMyGroup (rGm r) (mbGroupId mb) then ack0\<lparr>ackOutGroup := True\<rparr> else ack0) in
             if mbSender mb \<noteq> rpID e then
               do { ack1 \<leftarrow> MakeAck (rpKeys e) (rpID e) (mbHash mb);
                    let r1 = send (RSend (mbSender mb) (PAck ack1)) r in
                    Some (r1\<lparr>rSm := (rSm r1)\<lparr>amMonitor := CollectMbReceiveTime (aeFloat (rpAm e)) (amMonitor (rSm r1)) (mbHash mb)
                             (TimeSub (now e r1 7) (mbCreateTimeStamp mb))\<rparr>\<rparr>) }
             else HandleAck e r ack }
      else Some r)"

text \<open>The statistics of a microblock that arrives for the first time.\<close>

definition count_microblock :: "RpEnv \<Rightarrow> Replica \<Rightarrow> MicroBlock \<Rightarrow> Replica" where
  "count_microblock e r mb =
     (let r1 = (if rpByGroup e \<and> IsInMyGroup (rGm r) (mbGroupId mb) then
                  r\<lparr>totaRealDissminationTime := i64 (totaRealDissminationTime r + TimeSub (now e r 2) (mbTimestamp mb)),
                    totalRealMBS := totalRealMBS r + 1\<rparr> else r);
          r2 = r1\<lparr>totalDisseminationTime := i64 (totalDisseminationTime r1 + TimeSub (now e r1 3) (mbTimestamp mb))\<rparr>;
          r3 = (if Node (mbSender mb) \<le> rpSlowNo e then
                  r2\<lparr>totalSlowDisemminationDur := i64 (totalSlowDisemminationDur r2 + TimeSub (now e r2 4) (mbTimestamp mb)),
                     totalSlowMBs := totalSlowMBs r2 + 1\<rparr> else r2)
      in r3\<lparr>receivedMBs := insert (mbHash mb) (receivedMBs r3), totalMicroblocks := totalMicroblocks r3 + 1\<rparr>)"

definition store_microblock :: "RpEnv \<Rightarrow> Replica \<Rightarrow> MicroBlock \<Rightarrow> Replica option" where
  "store_microblock e r mb =
     (if mbIsRequested mb then
        Some (push_ex (ExMissReceive mb) (r\<lparr>rSm := HandleMissingStableMb (rSm r) mb\<rparr>))
      else do { sm \<leftarrow> AmAddMicroblock (rpAm e) (now e r 6) (rSm r) mb;
                acknowledge e (r\<lparr>rSm := sm\<rparr>) mb })"

text \<open>The goroutine that queues a microblock for gossip, which also counts the hop on the microblock handled.\<close>

definition gossip_copy :: "RpEnv \<Rightarrow> Replica \<Rightarrow> MicroBlock \<Rightarrow> MicroBlock \<times> Replica" where
  "gossip_copy e r mb =
     (if rpGossip e \<and> \<not> mbIsRequested mb \<and> rpID e \<noteq> rpMaster e then
        let mb1 = mb\<lparr>mbHops := i64 (mbHops mb + 1)\<rparr> in
        (mb1, if mbHops mb1 \<le> rpR e then r\<lparr>rOtherMBChan := rOtherMBChan r @ [mb1]\<rparr> else r)
      else (mb, r))"

definition HandleMicroblock :: "RpEnv \<Rightarrow> Replica \<Rightarrow> MicroBlock \<Rightarrow> Replica option" where
  "HandleMicroblock e r mb0 =
     (let (mb, r1) = gossip_copy e (startSignal e r) mb0 in
      if rpLoadBalance e \<and> mbIsForward mb then Some (send (RBroadcast (PMicroblock (mb\<lparr>mbIsForward := False\<rparr>))) r1)
      else if mbHash mb \<in> receivedMBs r1 then Some (r1\<lparr>totalRedundantMBs := totalRedundantMBs r1 + 1\<rparr>)
      else do { r2 \<leftarrow> store_microblock e (count_microblock e r1 mb) (mb\<lparr>mbFutureTimestamp := now e r1 5\<rparr>);
                kickOff e r2 })"

text \<open>Answering a request for one microblock; the mempool's own copy is marked.\<close>

definition answer_missing :: "NodeID \<Rightarrow> Replica \<Rightarrow> Identifier \<Rightarrow> Replica" where
  "answer_missing requester r x =
     (case AmFindMicroblock (rSm r) x of
        (True, Some mb) \<Rightarrow>
          send (RSend requester (PMicroblock (mb\<lparr>mbIsRequested := True\<rparr>)))
            (r\<lparr>rSm := am_write mb (\<lambda>m. m\<lparr>mbIsRequested := True\<rparr>) (rSm r)\<rparr>)
      | _ \<Rightarrow> r)"

definition HandleMissingMBRequest :: "Replica \<Rightarrow> NodeID \<Rightarrow> Identifier list \<Rightarrow> Replica" where
  "HandleMissingMBRequest r requester missing =
     foldl (answer_missing requester)
       (r\<lparr>missingCounts := (missingCounts r)(requester := missingCounts r requester + int (length missing))\<rparr>) missing"

definition RpHandleMissingStableMb :: "Replica \<Rightarrow> NodeID \<Rightarrow> Identifier \<Rightarrow> Replica" where
  "RpHandleMissingStableMb r requester x = answer_missing requester r x"

definition HandleVote :: "RpEnv \<Rightarrow> Replica \<Rightarrow> Vote \<Rightarrow> Replica" where
  "HandleVote e r vote =
     (if voteView vote < GetCurView (pm (rSafety r)) then r
      else push_event (EvVote vote)
        (r\<lparr>totalVoteTime := i64 (totalVoteTime r + TimeSub (now e r 0) (voteTimestamp vote)), voteNo := voteNo r + 1\<rparr>))"

definition HandleTmo :: "Replica \<Rightarrow> TMO \<Rightarrow> Replica" where
  "HandleTmo r tmo = (if tmoView tmo < GetCurView (pm (rSafety r)) then r else push_event (EvTMO tmo) r)"

definition handleResult :: "Replica \<Rightarrow> ExecuteResult \<Rightarrow> Replica" where
  "handleResult r res = push_event (EvResult res) r"

section \<open>Dissemination\<close>

definition randomPick :: "RpEnv \<Rightarrow> Replica \<Rightarrow> (NodeID list \<times> Replica) option" where
  "randomPick e r =
     (let n = rpN e - 1; f = go_quot n 3 + 1 in
      do { (pick, k) \<leftarrow> RandomPick (rpIntn e) n f (rDraw r);
           if f < 0 then None else Some (map (\<lambda>item. NewNodeID (item + 2)) pick, r\<lparr>rDraw := k\<rparr>) })"

definition pickRandomNodes :: "RpEnv \<Rightarrow> Replica \<Rightarrow> int \<Rightarrow> int \<Rightarrow> int \<Rightarrow> (NodeID list \<times> Replica) option" where
  "pickRandomNodes e r n d index =
     do { (pick, k) \<leftarrow> RandomPick (rpIntn e) (n - index) d (rDraw r);
          if d < 0 then None else Some (map (\<lambda>item. NewNodeID (item + 1 + index)) pick, r\<lparr>rDraw := k\<rparr>) }"

text \<open>The attack that leaves replicas without the microblock, shared by both ways of building one.\<close>

definition withhold_mb :: "RpEnv \<Rightarrow> Replica \<Rightarrow> MicroBlock \<Rightarrow> Replica option" where
  "withhold_mb e r mb =
     (if rpMemType e = ''naive'' then
        do { leader \<leftarrow> GetCurrentLeader e r; Some (send (RSend leader (PMicroblock mb)) r) }
      else if rpMemType e = ''ack'' then
        do { (nodes, r1) \<leftarrow> randomPick e r; Some (send (RMulticastQuorum nodes (PMicroblock mb)) r1) }
      else Some r)"

text \<open>What both do with a built microblock before sending it: the sender is set, the mempool takes it, and the time is
  set on the object the mempool now holds.\<close>

definition own_microblock :: "RpEnv \<Rightarrow> Replica \<Rightarrow> MicroBlock \<Rightarrow> (MicroBlock \<times> Replica) option" where
  "own_microblock e r mb0 =
     (let mb = mb0\<lparr>mbSender := rpID e\<rparr>; t = now e r 11 in
      do { sm \<leftarrow> AmAddMicroblock (rpAm e) (now e r 10) (rSm r) mb;
           Some (mb\<lparr>mbTimestamp := t\<rparr>,
                 r\<lparr>txNoInMB := int (length (mbTxns mb)), rSm := am_write mb (\<lambda>m. m\<lparr>mbTimestamp := t\<rparr>) sm,
                   totalMicroblocks := totalMicroblocks r + 1, totalProposedMBs := totalProposedMBs r + 1\<rparr>) })"

definition self_mb :: "Replica \<Rightarrow> MicroBlock \<Rightarrow> Replica" where
  "self_mb r mb =
     (let mb1 = mb\<lparr>mbHops := i64 (mbHops mb + 1)\<rparr> in
      r\<lparr>rSm := am_write mb (\<lambda>m. m\<lparr>mbHops := i64 (mbHops m + 1)\<rparr>) (rSm r), rSelfMBChan := rSelfMBChan r @ [mb1]\<rparr>)"

definition disseminate_txn :: "RpEnv \<Rightarrow> Replica \<Rightarrow> MicroBlock \<Rightarrow> Replica option" where
  "disseminate_txn e r mb =
     (if \<not> rpLoadBalance e then
        if rpIsByz e \<and> rpStrategy e = ''missing'' then withhold_mb e r mb
        else if rpByGroup e then
          do { groupList \<leftarrow> GetGroupListByGroupId (rGm r) (mbGroupId mb);
               Some (send (RBroadcastByGroup (PMicroblock mb) groupList) r) }
        else Some (send (RBroadcast (PMicroblock mb)) r)
      else Some (self_mb r mb))"

definition handleTxn :: "RpEnv \<Rightarrow> Replica \<Rightarrow> Transaction \<Rightarrow> Replica option" where
  "handleTxn e r0 m0 =
     (let r = startSignal e r0; m = m0\<lparr>txTimestamp := now e r 2\<rparr> in
      do { ((isbuilt, mbo), sm) \<leftarrow> AmAddTxn (rpAm e) (now e r 3) (now e r 4) (rSm r) m;
           let r1 = r\<lparr>rSm := sm\<rparr> in
           do { r2 \<leftarrow> (if isbuilt then
                         do { mb0 \<leftarrow> mbo; (mb, r2) \<leftarrow> own_microblock e r1 mb0; disseminate_txn e r2 mb }
                       else Some r1);
                kickOff e r2 } })"

text \<open>The sample of the sampling mode; an error leaves it with the replica alone.\<close>

definition sample_members :: "RpEnv \<Rightarrow> Replica \<Rightarrow> (NodeID set \<times> Replica) option" where
  "sample_members e r =
     do { (res, k) \<leftarrow> GenerateUniqueRandomArray (rpIntn e) (rpThreshold e) 1 (rpN e) (rDraw r);
          Some (insert (rpID e) (case res of Inl _ \<Rightarrow> {} | Inr ns \<Rightarrow> NewNodeID ` set ns), r\<lparr>rDraw := k\<rparr>) }"

definition disseminate_pool :: "RpEnv \<Rightarrow> Replica \<Rightarrow> MicroBlock \<Rightarrow> Replica option" where
  "disseminate_pool e r mb =
     (if \<not> rpLoadBalance e then
        if rpIsByz e \<and> rpStrategy e = ''missing'' then withhold_mb e r mb
        else if rpByGroup e then
          do { groupList \<leftarrow> GetGroupListByGroupId (rGm r) (mbGroupId mb);
               Some (send (RBroadcastByGroup (PMicroblock mb) groupList) r) }
        else if rpBroadcastBySample e then
          do { (targetMember, r1) \<leftarrow> sample_members e r;
               Some (send (RBroadcastByGroup (PMicroblock (mb\<lparr>mbGenerateNodeList := targetMember\<rparr>)) targetMember)
                 (r1\<lparr>rSm := am_write mb (\<lambda>m. m\<lparr>mbGenerateNodeList := targetMember\<rparr>) (rSm r1)\<rparr>)) }
        else Some (send (RBroadcast (PMicroblock mb)) r)
      else Some (self_mb r mb))"

text \<open>One round of \<open>observePool\<close>.  \<open>None\<close> covers the waits on the two channels.  The goroutine beside it fills
  \<open>mbBroadcast\<close>, whose capacity is one round.\<close>

definition observePool :: "RpEnv \<Rightarrow> Replica \<Rightarrow> Replica option" where
  "observePool e r =
     (if rpPayloadSize e = 0 then None
      else
        let nums = go_quot (rpMSize e) (rpPayloadSize e) in
        do { pool \<leftarrow> take_signal (rPool r);
             let r1 = r\<lparr>rPool := pool\<rparr> in
             if TxLen pool > nums then
               do { (txs, pool1) \<leftarrow> FetchTx pool nums;
                    let r2 = r1\<lparr>rPool := pool1\<rparr> in
                    do { (isbuilt, mbo) \<leftarrow> GenerateMb (rpAm e) (now e r2 3) (now e r2 4) (rSm r2) txs;
                         if isbuilt then
                           do { mb0 \<leftarrow> mbo;
                                (mb, r3) \<leftarrow> own_microblock e r2 mb0;
                                if rMbBroadcast r3 = 0 then None
                                else disseminate_pool e (r3\<lparr>rMbBroadcast := rMbBroadcast r3 - 1\<rparr>) mb }
                         else Some r2 } }
             else Some r1 })"

definition fill_broadcast :: "RpEnv \<Rightarrow> Replica \<Rightarrow> Replica" where
  "fill_broadcast e r = r\<lparr>rMbBroadcast := rpMb_broadcast e\<rparr>"

text \<open>One round of \<open>loadbalance\<close> with a microblock in the channel.\<close>

definition loadbalance :: "RpEnv \<Rightarrow> Replica \<Rightarrow> Replica option" where
  "loadbalance e r =
     (case rSelfMBChan r of
        [] \<Rightarrow> Some r
      | mb # rest \<Rightarrow>
          let r1 = r\<lparr>rSelfMBChan := rest, rDraw := Suc (rDraw r)\<rparr> in
          if rpIntn e (rDraw r) 100 < rpForwardP e \<and> Node (rpID e) \<le> rpLoadedIndex e then
            do { (nodes, r2) \<leftarrow> pickRandomNodes e r1 (rpN e - 1) 1 (rpLoadedIndex e);
                 pick \<leftarrow> go_index nodes 0;
                 Some (send (RSend pick (PMicroblock (mb\<lparr>mbIsForward := True\<rparr>))) r2) }
          else Some (send (RBroadcast (PMicroblock mb)) r1))"

section \<open>Proposing\<close>

definition proposeBlock :: "RpEnv \<Rightarrow> Replica \<Rightarrow> View \<Rightarrow> Replica option" where
  "proposeBlock e r view =
     do { (payload, sm) \<leftarrow> AmGeneratePayload (rpAm e) (rSm r);
          let r1 = r\<lparr>rSm := sm\<rparr> in
          do { (proposal, hs) \<leftarrow> MakeProposal (rpHs e) (rSafety r1) view (GenerateHashList payload) (GenerateGroupList payload)
                 (plAckNode payload) (GenerateTimeList payload) (plTxNums payload);
               let r2 = r1\<lparr>rSafety := hs, totalBlockSize := totalBlockSize r1 + int (length (ppHashList proposal)),
                           proposedNo := proposedNo r1 + 1,
                           totalCreateDuration := i64 (totalCreateDuration r1 + TimeSub (now e r1 1) (now e r1 0))\<rparr>;
                   p = proposal\<lparr>ppHeader := (ppHeader proposal)\<lparr>hTimestamp := now e r2 2\<rparr>\<rparr>;
                   r3 = send (RBroadcast (PProposal p)) r2
               in do { (_, hs1) \<leftarrow> ProcessBlock (rpHs e) (rSafety r3) (BuildBlock p payload);
                       Some (r3\<lparr>rSafety := hs1, rVoteStart := now e r3 3\<rparr>) } } }"

definition processNewView :: "RpEnv \<Rightarrow> Replica \<Rightarrow> View \<Rightarrow> Replica option" where
  "processNewView e r newView =
     do { leader \<leftarrow> hsIsLeader (rpHs e) (rpID e) newView;
          if \<not> leader then Some r else proposeBlock e r newView }"

section \<open>Commitment\<close>

definition commit_txn :: "RpEnv \<Rightarrow> nat \<Rightarrow> Replica \<Rightarrow> Transaction \<Rightarrow> Replica" where
  "commit_txn e k r txn =
     r\<lparr>totalDelay := i64 (totalDelay r + TimeSub (rpNow2 e (rCalls r) k (nat (latencyNo r))) (txTimestamp txn)),
       latencyNo := latencyNo r + 1, totalCommittedTx := totalCommittedTx r + 1, totalTx := totalTx r + 1\<rparr>"

text \<open>One microblock of a committed block, at index \<open>k\<close>; a nil microblock panics.\<close>

definition commit_mb :: "RpEnv \<Rightarrow> nat \<Rightarrow> Replica \<times> MicroBlock list \<Rightarrow> MicroBlock option \<Rightarrow> (Replica \<times> MicroBlock list) option" where
  "commit_mb e k s mbo =
     (case s of (r, deliver) \<Rightarrow>
        do { mb0 \<leftarrow> mbo;
             let r1 = r\<lparr>rSm := (rSm r)\<lparr>amMonitor := CollectCommitteddTime (aeFloat (rpAm e)) (amMonitor (rSm r)) (mbHash mb0)
                         (TimeSub (now e r k) (mbCreateTimeStamp mb0))\<rparr>\<rparr> in
             if mbHash mb0 \<in> CommitedMb r1 then Some (r1, deliver)
             else
               let no = commitMbNo r1 + 1;
                   mb = mb0\<lparr>mbCommittedNo := no\<rparr>;
                   r2 = r1\<lparr>CommitedMb := insert (mbHash mb0) (CommitedMb r1), commitMbNo := no,
                           rSm := am_write mb0 (\<lambda>m. m\<lparr>mbCommittedNo := no\<rparr>) (rSm r1)\<rparr>;
                   r3 = foldl (commit_txn e k) r2 (mbTxns mb)
               in Some (r3\<lparr>totalHops := totalHops r3 + mbHops mb\<rparr>, deliver @ [mb]) })"

fun commit_loop :: "RpEnv \<Rightarrow> nat \<Rightarrow> MicroBlock option list \<Rightarrow> Replica \<times> MicroBlock list \<Rightarrow> (Replica \<times> MicroBlock list) option" where
  "commit_loop e k [] s = Some s"
| "commit_loop e k (m # ms) s = do { s1 \<leftarrow> commit_mb e k s m; commit_loop e (Suc k) ms s1 }"

definition processCommittedBlock :: "RpEnv \<Rightarrow> Replica \<Rightarrow> Block \<Rightarrow> Replica option" where
  "processCommittedBlock e r block =
     do { mbs \<leftarrow> MicroblockList block;
          (r1, deliver) \<leftarrow> commit_loop e 0 mbs (r\<lparr>totalCommittedMBs := totalCommittedMBs r + int (length mbs)\<rparr>, []);
          Some (push_ex (ExMbReceive deliver) (r1\<lparr>committedNo := committedNo r1 + 1\<rparr>)) }"

definition processForkedBlock :: "Replica \<Rightarrow> Block \<Rightarrow> Replica" where
  "processForkedBlock r block = r"

section \<open>Goroutines\<close>

text \<open>The beginning of \<open>ListenLocalEvent\<close>, and its two cases: a new view, and the timer.\<close>

definition ListenLocalEvent_begin :: "RpEnv \<Rightarrow> Replica \<Rightarrow> Replica" where
  "ListenLocalEvent_begin e r = r\<lparr>rLastViewTime := now e r 0\<rparr>"

definition ListenLocalEvent_view :: "RpEnv \<Rightarrow> Replica \<Rightarrow> Replica option" where
  "ListenLocalEvent_view e r =
     (if rViews r < length (newViewChan (pm (rSafety r))) then
        let view = newViewChan (pm (rSafety r)) ! rViews r; t = now e r 0 in
        Some (push_event (EvView view)
          (r\<lparr>rViews := Suc (rViews r), totalRoundTime := i64 (totalRoundTime r + TimeSub t (rLastViewTime r)),
             roundNo := roundNo r + 1, rLastViewTime := t\<rparr>))
      else None)"

definition ListenLocalEvent_timer :: "RpEnv \<Rightarrow> Replica \<Rightarrow> Replica option" where
  "ListenLocalEvent_timer e r =
     do { hs \<leftarrow> ProcessLocalTmo (rpHs e) (rSafety r) (GetCurView (pm (rSafety r))); Some (r\<lparr>rSafety := hs\<rparr>) }"

definition ListenCommittedBlocks :: "RpEnv \<Rightarrow> Replica \<Rightarrow> Replica option" where
  "ListenCommittedBlocks e r =
     (if rDelivered r < length (committedBlocks (rSafety r)) then
        processCommittedBlock e (r\<lparr>rDelivered := Suc (rDelivered r)\<rparr>) (committedBlocks (rSafety r) ! rDelivered r)
      else None)"

text \<open>One event of the loop of \<open>Start\<close>.\<close>

definition dispatch :: "RpEnv \<Rightarrow> Replica \<Rightarrow> rp_event \<Rightarrow> Replica option" where
  "dispatch e r ev =
     (case ev of
        EvView v \<Rightarrow> processNewView e r v
      | EvBlock b \<Rightarrow>
          do { (_, hs) \<leftarrow> ProcessBlock (rpHs e) (rSafety r) b;
               Some (r\<lparr>rSafety := hs, totalProcessDuration := i64 (totalProcessDuration r + TimeSub (now e r 1) (now e r 0)),
                       rVoteStart := now e r 2, processedNo := processedNo r + 1\<rparr>) }
      | EvVote v \<Rightarrow> do { hs \<leftarrow> ProcessVote (rpHs e) (rSafety r) v; Some (r\<lparr>rSafety := hs\<rparr>) }
      | EvTMO t \<Rightarrow> do { hs \<leftarrow> HsProcessRemoteTmo (rpHs e) (rSafety r) t; Some (r\<lparr>rSafety := hs\<rparr>) }
      | EvResult res \<Rightarrow> Some (push_ex (ExReceiveResult res) r))"

definition Start :: "RpEnv \<Rightarrow> Replica \<Rightarrow> Replica option" where
  "Start e r =
     (if rIsStarted r \<and> rHandled r < length (rEvents r) then
        dispatch e (r\<lparr>rHandled := Suc (rHandled r)\<rparr>) (rEvents r ! rHandled r)
      else None)"

section \<open>Runs\<close>

text \<open>What can happen at a replica: an arriving message, or a turn of one of its goroutines.\<close>

datatype rp_input =
    InProposal Proposal | InMicroblock MicroBlock | InVote Vote | InTmo TMO | InTxn Transaction
  | InMissing NodeID "Identifier list" | InMissingStable NodeID Identifier | InAck Ack | InResult ExecuteResult | InStable Stable
  | InPool | InFill | InLoadbalance | InListen | InView | InTimer | InCommitted | InEvent

primrec rp_handle :: "RpEnv \<Rightarrow> Replica \<Rightarrow> rp_input \<Rightarrow> Replica option" where
  "rp_handle e r (InProposal p) = HandleProposal e r p"
| "rp_handle e r (InMicroblock mb) = HandleMicroblock e r mb"
| "rp_handle e r (InVote v) = Some (HandleVote e r v)"
| "rp_handle e r (InTmo t) = Some (HandleTmo r t)"
| "rp_handle e r (InTxn t) = handleTxn e r t"
| "rp_handle e r (InMissing n xs) = Some (HandleMissingMBRequest r n xs)"
| "rp_handle e r (InMissingStable n x) = Some (RpHandleMissingStableMb r n x)"
| "rp_handle e r (InAck a) = HandleAck e r a"
| "rp_handle e r (InResult res) = Some (handleResult r res)"
| "rp_handle e r (InStable s) = HandleStable e r s"
| "rp_handle e r InPool = observePool e r"
| "rp_handle e r InFill = Some (fill_broadcast e r)"
| "rp_handle e r InLoadbalance = loadbalance e r"
| "rp_handle e r InListen = Some (ListenLocalEvent_begin e r)"
| "rp_handle e r InView = ListenLocalEvent_view e r"
| "rp_handle e r InTimer = ListenLocalEvent_timer e r"
| "rp_handle e r InCommitted = ListenCommittedBlocks e r"
| "rp_handle e r InEvent = Start e r"

fun rp_run :: "RpEnv \<Rightarrow> Replica \<Rightarrow> rp_input list \<Rightarrow> Replica option" where
  "rp_run e r [] = Some r"
| "rp_run e r (i # is) = do { r1 \<leftarrow> rp_handle e (call r) i; rp_run e r1 is }"

section \<open>Commit numbers\<close>

text \<open>The microblocks delivered to the executor, and the part of the state that numbers them and counts their transactions.\<close>

definition delivered :: "Replica \<Rightarrow> MicroBlock list" where
  "delivered r = concat (map ev_mbs (rExChan r))"

definition com :: "Replica \<Rightarrow> MicroBlock list \<times> int \<times> Identifier set \<times> int" where
  "com r = (delivered r, commitMbNo r, CommitedMb r, totalCommittedTx r)"

definition com_ok :: "MicroBlock list \<times> int \<times> Identifier set \<times> int \<Rightarrow> bool" where
  "com_ok c \<longleftrightarrow> (case c of (ds, n, seen, _) \<Rightarrow>
     n = int (length ds) \<and> map mbCommittedNo ds = [1..int (length ds)] \<and> seen = mbHash ` set ds \<and> distinct (map mbHash ds))"

named_theorems com_simps

lemma com_helpers [com_simps]:
  "com (call r) = com r" "com (send m r) = com r" "com (push_event ev r) = com r" "com (startSignal e r) = com r"
  "com (push_ex (ExMissReceive mb) r) = com r" "com (push_ex (ExReceiveResult res) r) = com r"
  "com (self_mb r mb) = com r" "com (count_microblock e r mb) = com r" "com (snd (gossip_copy e r mb)) = com r"
  "com (answer_missing n r x) = com r" "com (fill_broadcast e r) = com r" "com (ListenLocalEvent_begin e r) = com r"
  "com (HandleVote e r v) = com r" "com (HandleTmo r t) = com r" "com (handleResult r res) = com r"
  by (auto simp: com_def delivered_def call_def send_def push_event_def startSignal_def push_ex_def self_mb_def
      count_microblock_def gossip_copy_def answer_missing_def fill_broadcast_def ListenLocalEvent_begin_def HandleVote_def
      HandleTmo_def handleResult_def Let_def split: option.split bool.split prod.split)

lemma com_fields [com_simps]:
  "com (r\<lparr>rSm := x1\<rparr>) = com r" "com (r\<lparr>rSafety := x2\<rparr>) = com r" "com (r\<lparr>rPool := x3\<rparr>) = com r" "com (r\<lparr>rDraw := x4\<rparr>) = com r"
  "com (r\<lparr>rMbBroadcast := x4\<rparr>) = com r" "com (r\<lparr>rSelfMBChan := x5\<rparr>) = com r" "com (r\<lparr>receivedNo := x6\<rparr>) = com r"
  "com (r\<lparr>totalProposeDuration := x6\<rparr>) = com r" "com (r\<lparr>totalBlockSize := x6\<rparr>) = com r" "com (r\<lparr>totalRedundantMBs := x6\<rparr>) = com r"
  "com (r\<lparr>txNoInMB := x6\<rparr>) = com r" "com (r\<lparr>totalMicroblocks := x6\<rparr>) = com r" "com (r\<lparr>totalProposedMBs := x6\<rparr>) = com r"
  "com (r\<lparr>proposedNo := x6\<rparr>) = com r" "com (r\<lparr>totalCreateDuration := x6\<rparr>) = com r" "com (r\<lparr>rVoteStart := x6\<rparr>) = com r"
  "com (r\<lparr>totalProcessDuration := x6\<rparr>) = com r" "com (r\<lparr>processedNo := x6\<rparr>) = com r" "com (r\<lparr>rHandled := x4\<rparr>) = com r"
  "com (r\<lparr>rViews := x4\<rparr>) = com r" "com (r\<lparr>totalRoundTime := x6\<rparr>) = com r" "com (r\<lparr>roundNo := x6\<rparr>) = com r"
  "com (r\<lparr>rLastViewTime := x6\<rparr>) = com r" "com (r\<lparr>missingCounts := x7\<rparr>) = com r" "com (r\<lparr>rDelivered := x4\<rparr>) = com r"
  "com (r\<lparr>totalCommittedMBs := x6\<rparr>) = com r" "com (r\<lparr>committedNo := x6\<rparr>) = com r" "com (r\<lparr>totalHops := x6\<rparr>) = com r"
  by (simp_all add: com_def delivered_def)

lemma kickOff_com: "kickOff e r = Some r' \<Longrightarrow> com r' = com r"
  by (auto simp: kickOff_def bind_Some_conv com_simps split: if_splits)

lemma processAcks_com: "processAcks e r ack = Some r' \<Longrightarrow> com r' = com r"
  by (auto simp: processAcks_def bind_Some_conv com_simps split: if_splits)

lemma acknowledge_com: "acknowledge e r mb = Some r' \<Longrightarrow> com r' = com r"
  by (auto simp: acknowledge_def HandleAck_def Let_def bind_Some_conv com_simps dest: processAcks_com split: if_splits)

lemma HandleProposal_com: "HandleProposal e r p = Some r' \<Longrightarrow> com r' = com r"
  by (auto simp: HandleProposal_def Let_def bind_Some_conv com_simps split: option.splits)

lemma store_microblock_com: "store_microblock e r mb = Some r' \<Longrightarrow> com r' = com r"
  by (auto simp: store_microblock_def bind_Some_conv com_simps dest: acknowledge_com split: if_splits)

lemma HandleMicroblock_com:
  assumes "HandleMicroblock e r mb0 = Some r'"
  shows "com r' = com r"
proof -
  obtain mb r1 where g: "gossip_copy e (startSignal e r) mb0 = (mb, r1)" by (metis prod.exhaust)
  have c: "com r1 = com r" using com_helpers(9) [of e "startSignal e r" mb0] g by (simp add: com_simps)
  show ?thesis using assms g c
    by (auto simp: HandleMicroblock_def Let_def bind_Some_conv com_simps dest!: kickOff_com store_microblock_com split: if_splits)
qed

lemma HandleMissingMBRequest_com: "com (HandleMissingMBRequest r n xs) = com r"
proof -
  have "com (foldl (answer_missing n) s xs) = com s" for s
    by (induction xs arbitrary: s) (simp_all add: com_simps)
  then show ?thesis by (simp add: HandleMissingMBRequest_def com_simps)
qed

lemma withhold_mb_com: "withhold_mb e r mb = Some r' \<Longrightarrow> com r' = com r"
  by (auto simp: withhold_mb_def randomPick_def Let_def bind_Some_conv com_simps split: if_splits)

lemma own_microblock_com: "own_microblock e r mb0 = Some (mb, r') \<Longrightarrow> com r' = com r"
  by (auto simp: own_microblock_def Let_def bind_Some_conv com_simps)

lemma disseminate_txn_com: "disseminate_txn e r mb = Some r' \<Longrightarrow> com r' = com r"
  by (auto simp: disseminate_txn_def bind_Some_conv com_simps dest: withhold_mb_com split: if_splits)

lemma disseminate_pool_com: "disseminate_pool e r mb = Some r' \<Longrightarrow> com r' = com r"
  by (auto simp: disseminate_pool_def sample_members_def bind_Some_conv com_simps dest: withhold_mb_com split: if_splits)

lemma handleTxn_com: "handleTxn e r t = Some r' \<Longrightarrow> com r' = com r"
  by (auto simp: handleTxn_def Let_def bind_Some_conv com_simps
      dest!: kickOff_com disseminate_txn_com own_microblock_com split: if_splits)

lemma observePool_com: "observePool e r = Some r' \<Longrightarrow> com r' = com r"
  by (auto simp: observePool_def Let_def bind_Some_conv com_simps
      dest!: disseminate_pool_com own_microblock_com split: if_splits)

lemma loadbalance_com: "loadbalance e r = Some r' \<Longrightarrow> com r' = com r"
  by (auto simp: loadbalance_def pickRandomNodes_def Let_def bind_Some_conv com_simps split: list.splits if_splits)

lemma proposeBlock_com: "proposeBlock e r v = Some r' \<Longrightarrow> com r' = com r"
  by (auto simp: proposeBlock_def Let_def bind_Some_conv com_simps)

lemma dispatch_com: "dispatch e r ev = Some r' \<Longrightarrow> com r' = com r"
  by (auto simp: dispatch_def processNewView_def bind_Some_conv com_simps dest: proposeBlock_com
      split: rp_event.splits if_splits)

text \<open>Committing keeps the invariant: every new microblock gets the next number.\<close>

lemma commit_txns_com:
  "com (foldl (commit_txn e k) r ts) = (delivered r, commitMbNo r, CommitedMb r, totalCommittedTx r + int (length ts))"
  by (induction ts arbitrary: r) (simp_all add: commit_txn_def com_def delivered_def)

lemma upto_snoc_int: "0 \<le> n \<Longrightarrow> [1..n] @ [n + 1] = [1..n + (1 :: int)]"
  by (simp add: upto_rec2)

lemma com_ok_snoc:
  assumes "com_ok (ds, n, seen, x)" and "mbHash mb \<notin> seen"
  shows "com_ok (ds @ [mb\<lparr>mbCommittedNo := n + 1\<rparr>], n + 1, insert (mbHash mb) seen, y)"
proof -
  have n: "n = int (length ds)" "map mbCommittedNo ds = [1..n]" using assms(1) by (auto simp: com_ok_def)
  then have "map mbCommittedNo (ds @ [mb\<lparr>mbCommittedNo := n + 1\<rparr>]) = [1..n + 1]" using upto_snoc_int [of n] by simp
  with n assms show ?thesis by (auto simp: com_ok_def add.commute)
qed

definition com_add :: "Replica \<times> MicroBlock list \<Rightarrow> MicroBlock list \<times> int \<times> Identifier set \<times> int" where
  "com_add s = (delivered (fst s) @ snd s, commitMbNo (fst s), CommitedMb (fst s), totalCommittedTx (fst s))"

lemma commit_mb_cases:
  assumes "commit_mb e k s m = Some s'"
  obtains (seen) "com_add s' = com_add s"
  | (new) mb where "mbHash mb \<notin> CommitedMb (fst s)"
      "com_add s' = (delivered (fst s) @ snd s @ [mb\<lparr>mbCommittedNo := commitMbNo (fst s) + 1\<rparr>], commitMbNo (fst s) + 1,
         insert (mbHash mb) (CommitedMb (fst s)), totalCommittedTx (fst s) + int (length (mbTxns mb)))"
proof -
  obtain r ds where s: "s = (r, ds)" by (cases s)
  from assms obtain mb where m: "m = Some mb" by (auto simp: commit_mb_def s bind_Some_conv)
  show thesis
  proof (cases "mbHash mb \<in> CommitedMb r")
    case True
    then show ?thesis using assms seen by (auto simp: commit_mb_def s m Let_def com_add_def delivered_def)
  next
    case False
    let ?n = "commitMbNo r + 1"
    from assms False obtain r' where s': "s' = (r', ds @ [mb\<lparr>mbCommittedNo := ?n\<rparr>])"
      and c: "com r' = (delivered r, ?n, insert (mbHash mb) (CommitedMb r), totalCommittedTx r + int (length (mbTxns mb)))"
      by (auto simp: commit_mb_def s m Let_def com_simps commit_txns_com) (simp add: delivered_def)
    then show ?thesis using new [of mb] False by (simp add: com_add_def com_def s)
  qed
qed

lemma commit_mb_ok:
  assumes "commit_mb e k s m = Some s'" and "com_ok (com_add s)"
  shows "com_ok (com_add s')"
  using assms(1)
proof (cases rule: commit_mb_cases)
  case (new mb)
  with com_ok_snoc [of "delivered (fst s) @ snd s" _ _ _ mb] assms(2) show ?thesis by (simp add: com_add_def)
qed (use assms(2) in simp)

text \<open>Committed transactions are counted once per microblock delivered.\<close>

definition txs_of :: "MicroBlock list \<Rightarrow> int" where
  "txs_of mbs = sum_list (map (\<lambda>mb. int (length (mbTxns mb))) mbs)"

definition uncounted :: "MicroBlock list \<times> int \<times> Identifier set \<times> int \<Rightarrow> int" where
  "uncounted c = (case c of (ds, _, _, x) \<Rightarrow> txs_of ds - x)"

lemma commit_mb_counts:
  assumes "commit_mb e k s m = Some s'"
  shows "uncounted (com_add s') = uncounted (com_add s)"
  using assms by (cases rule: commit_mb_cases) (simp_all add: com_add_def uncounted_def txs_of_def)

lemma commit_loop_counts: "commit_loop e k ms s = Some s' \<Longrightarrow> uncounted (com_add s') = uncounted (com_add s)"
  by (induction e k ms s rule: commit_loop.induct) (auto simp: bind_Some_conv dest: commit_mb_counts)

lemma commit_loop_ok: "commit_loop e k ms s = Some s' \<Longrightarrow> com_ok (com_add s) \<Longrightarrow> com_ok (com_add s')"
  by (induction e k ms s rule: commit_loop.induct) (auto simp: bind_Some_conv dest: commit_mb_ok)

lemma processCommittedBlock_com:
  assumes "processCommittedBlock e r b = Some r'"
  obtains mbs s s' where "commit_loop e 0 mbs s = Some s'" "com_add s = com r" "com_add s' = com r'"
proof -
  from assms obtain mbs r1 ds where l: "commit_loop e 0 mbs (r\<lparr>totalCommittedMBs := totalCommittedMBs r + int (length mbs)\<rparr>, []) = Some (r1, ds)"
    and r': "r' = push_ex (ExMbReceive ds) (r1\<lparr>committedNo := committedNo r1 + 1\<rparr>)"
    by (auto simp: processCommittedBlock_def bind_Some_conv)
  show thesis
    by (rule that [OF l]) (simp_all add: r' com_def com_add_def delivered_def push_ex_def)
qed

lemma processCommittedBlock_ok: "processCommittedBlock e r b = Some r' \<Longrightarrow> com_ok (com r) \<Longrightarrow> com_ok (com r')"
  using commit_loop_ok by (auto elim!: processCommittedBlock_com) metis

lemma processCommittedBlock_counts: "processCommittedBlock e r b = Some r' \<Longrightarrow> uncounted (com r') = uncounted (com r)"
  using commit_loop_counts by (auto elim!: processCommittedBlock_com) metis

text \<open>Only the delivery of a committed block changes the part of the state that numbers microblocks.\<close>

lemma rp_handle_com:
  assumes "rp_handle e r i = Some r'"
  obtains (commit) b where "processCommittedBlock e (r\<lparr>rDelivered := Suc (rDelivered r)\<rparr>) b = Some r'"
  | (other) "com r' = com r"
proof (cases "i = InCommitted")
  case True
  with assms commit show ?thesis by (auto simp: ListenCommittedBlocks_def split: if_splits)
next
  case False
  have "com r' = com r"
    using assms False by (cases i) (auto simp: com_simps HandleMissingMBRequest_com RpHandleMissingStableMb_def HandleAck_def
      HandleStable_def ListenLocalEvent_view_def ListenLocalEvent_timer_def Start_def Let_def bind_Some_conv
      dest!: HandleProposal_com HandleMicroblock_com handleTxn_com processAcks_com observePool_com loadbalance_com dispatch_com
      split: if_splits)
  with other show ?thesis by simp
qed

lemma rp_handle_ok:
  assumes "rp_handle e r i = Some r'" and "com_ok (com r)"
  shows "com_ok (com r')"
  using assms(1)
proof (cases rule: rp_handle_com)
  case (commit b)
  from processCommittedBlock_ok [OF this] assms(2) show ?thesis by (simp add: com_simps)
qed (use assms(2) in simp)

lemma rp_handle_counts:
  assumes "rp_handle e r i = Some r'"
  shows "uncounted (com r') = uncounted (com r)"
  using assms
proof (cases rule: rp_handle_com)
  case (commit b)
  from processCommittedBlock_counts [OF this] show ?thesis by (simp add: com_simps)
qed simp

lemma rp_run_ok: "rp_run e r is = Some r' \<Longrightarrow> com_ok (com r) \<Longrightarrow> com_ok (com r')"
  by (induction "is" arbitrary: r) (auto simp: bind_Some_conv com_simps dest: rp_handle_ok)

lemma com_ok_New: "com_ok (com (rp_init sm hs gm pool lim))"
  by (simp add: com_ok_def com_def delivered_def rp_init_def)

section \<open>A replica to evaluate\<close>

definition rp_env :: RpEnv where
  "rp_env = \<lparr>rpAm = am_env, rpHs = sample_env, rpMemType = ''ack'', rpMaster = ''1'', rpGossip = False, rpR = 1,
     rpLoadBalance = False, rpForwardP = 0, rpLoadedIndex = 0, rpBroadcastBySample = False, rpThreshold = 1, rpN = 4,
     rpSlowNo = 0, rpMSize = 8, rpPayloadSize = 1, rpMb_broadcast = 1, rpNow = (\<lambda>s j. 0), rpNow2 = (\<lambda>s i j. 0),
     rpIntn = (\<lambda>k n. int k mod n)\<rparr>"

definition rp_block :: "Identifier list \<Rightarrow> Block" where
  "rp_block hs = \<lparr>blkHeader = zeroHeader,
     blkPayload = Some (NewPayload (map (\<lambda>h. Some (zeroMicroBlock\<lparr>mbHash := h\<rparr>)) hs) Map.empty [] [])\<rparr>"

definition rp_new :: "Block list \<Rightarrow> Replica" where
  "rp_new bs = rp_init am0 ((NewHotStuff 4 (NewPacemaker 4))\<lparr>committedBlocks := bs\<rparr>) one_group (NewTxpool 5) sample_bucket"

lemmas rp_eval = rp_env_def rp_block_def rp_new_def rp_init_def NewHotStuff_def NewPayload_def zeroMicroBlock_def
  ListenCommittedBlocks_def processCommittedBlock_def MicroblockList_def commit_mb_def delivered_def push_ex_def call_def Let_def

section \<open>Properties\<close>

text \<open>C7 (commit numbers): along every sequence of messages and turns of the goroutines at a new replica, the microblocks handed
  to the executor are all different, and they carry the numbers 1, 2, 3, ... in the order in which they were
  handed over, however often committed blocks repeat a microblock.\<close>

theorem delivered_once_and_numbered:
  assumes "rp_run e (rp_init sm hs gm pool lim) is = Some r"
  shows "distinct (map mbHash (delivered r)) \<and> map mbCommittedNo (delivered r) = [1..int (length (delivered r))] \<and>
    commitMbNo r = int (length (delivered r))"
  using rp_run_ok [OF assms com_ok_New] by (simp add: com_ok_def com_def)

theorem delivered_once_and_numbered_witness:
  "\<exists>r. rp_run rp_env (rp_new [rp_block [5, 6], rp_block [5, 7]]) [InCommitted, InCommitted] = Some r \<and>
     map mbHash (delivered r) = [5, 6, 7] \<and> map mbCommittedNo (delivered r) = [1, 2, 3]"
proof -
  obtain r where r: "rp_run rp_env (rp_new [rp_block [5, 6], rp_block [5, 7]]) [InCommitted, InCommitted] = Some r"
    and d: "map mbHash (delivered r) = [5, 6, 7]"
    by (simp add: rp_eval numeral_2_eq_2)
  have l: "length (delivered r) = 3" using arg_cong [OF d, of length] by simp
  from delivered_once_and_numbered [OF r [unfolded rp_new_def]] l have "map mbCommittedNo (delivered r) = [1..3]" by simp
  with r d show ?thesis by (auto simp: upto.simps)
qed

text \<open>Checked acknowledgements: an acknowledgement that arrives at a replica changes its mempool only if the mempool
  counts it for a microblock that is not yet stable, and it is the replica's own or its signature verifies
  for the replica it names.\<close>

theorem only_verified_acks_count:
  assumes "HandleAck e r ack = Some r'" and "rSm r' \<noteq> rSm r"
  shows "\<not> AmIsStable (rSm r) (ackMicroblockID ack) \<and> rSm r' = AmAddAck (rpAm e) (now e r 20) (now e r 21) (rSm r) ack \<and>
    (ackReceiver ack = rpID e \<or>
     PubVerify (rpKeys e) (ackSignature ack) (IDToByte (ackMicroblockID ack)) (ackReceiver ack) = Some (True, None))"
  using assms by (auto simp: HandleAck_def processAcks_def ack_verified_def bind_Some_conv split: if_splits)

theorem only_verified_acks_count_witness:
  "\<exists>r'. HandleAck rp_env (rp_new []) \<lparr>ackReceiver = NewNodeID 1, ackMicroblockID = 5, ackSignature = [[1], IDToByte 5], ackOutGroup = False\<rparr> = Some r' \<and>
     rSm r' \<noteq> rSm (rp_new []) \<and> PubVerify ring4 [[1], IDToByte 5] (IDToByte 5) (NewNodeID 1) = Some (True, None)"
proof -
  let ?a = "\<lparr>ackReceiver = NewNodeID 1, ackMicroblockID = 5, ackSignature = [[1], IDToByte 5], ackOutGroup = False\<rparr>"
  have "Node (NewNodeID 1) = 1" "Node (NewNodeID 2) = 2" by (simp_all add: Node_NewNodeID)
  then have n: "Node (NewNodeID 1) = 1" "NewNodeID 1 \<noteq> NewNodeID 2" by (auto dest: arg_cong [of _ _ Node])
  have v: "PubVerify ring4 [[1], IDToByte 5] (IDToByte 5) (NewNodeID 1) = Some (True, None)"
    by (simp add: PubVerify_def Verify_def ring4_def toy_ecdsa_def n i64_def go_index_def)
  obtain r' where h: "HandleAck rp_env (rp_new []) ?a = Some r'" and b: "amAckBuffer (rSm r') 5 \<noteq> None"
    using v n by (simp add: HandleAck_def processAcks_def ack_verified_def AmIsStable_def AmAddAck_def rp_eval am0_def NewAckMem_def
        sample_env_def)
  moreover have "amAckBuffer (rSm (rp_new [])) 5 = None" by (simp add: rp_eval am0_def NewAckMem_def)
  ultimately have d: "rSm r' \<noteq> rSm (rp_new [])" by auto
  from only_verified_acks_count [OF h d] n h d show ?thesis by (auto simp: rp_env_def sample_env_def)
qed

end
