(* ===== verification/KeyPath.thy ===== *)
theory KeyPath
  imports Crypto
begin

text \<open>
  Key paths of chained Merkle proofs (src/crypto/merkle/proof_key_path.go) and the length-prefixed byte slices of
  src/crypto/merkle/types.go.  A Go string is its bytes.  Of the standard library the theory models
  \<open>url.PathEscape\<close>, \<open>url.PathUnescape\<close>, \<open>hex.DecodeString\<close>, the verb \<open>%X\<close>, \<open>strings.Split\<close> and
  \<open>binary.PutUvarint\<close>.  The lemmas show that a printed path parses to its keys, for which keys it does not, and
  that length-prefixed slices can be taken apart in one way only.
\<close>

section \<open>Hexadecimal digits\<close>

definition upperhex :: "nat \<Rightarrow> 8 word" where
  "upperhex d = (if d < 10 then of_nat (48 + d) else of_nat (55 + d))"

definition hex_val :: "8 word \<Rightarrow> nat option" where
  "hex_val c =
     (let n = unat c in
      if 48 \<le> n \<and> n \<le> 57 then Some (n - 48)
      else if 97 \<le> n \<and> n \<le> 102 then Some (n - 87)
      else if 65 \<le> n \<and> n \<le> 70 then Some (n - 55)
      else None)"

definition hex_byte :: "8 word \<Rightarrow> Bytes" where
  "hex_byte b = [upperhex (unat b div 16), upperhex (unat b mod 16)]"

definition unhex :: "8 word \<Rightarrow> 8 word \<Rightarrow> 8 word option" where
  "unhex c d = do { h \<leftarrow> hex_val c; l \<leftarrow> hex_val d; Some (of_nat (16 * h + l)) }"

lemma unat_small: "n < 256 \<Longrightarrow> unat (of_nat n :: 8 word) = n"
  by (simp add: unat_of_nat)

lemma hex_val_upperhex: "d < 16 \<Longrightarrow> hex_val (upperhex d) = Some d"
proof -
  assume d: "d < 16"
  have "unat (of_nat (48 + d) :: 8 word) = 48 + d" "unat (of_nat (55 + d) :: 8 word) = 55 + d"
    using d by (simp_all only: unat_small)
  with d show ?thesis by (auto simp: hex_val_def upperhex_def Let_def)
qed

lemma unat_byte: "unat (b :: 8 word) < 256"
  using unsigned_less [of b] by simp

lemma unhex_hex_byte: "unhex (upperhex (unat b div 16)) (upperhex (unat b mod 16)) = Some b"
proof -
  have "unat b div 16 < 16" "unat b mod 16 < 16" using unat_byte [of b] by simp_all
  moreover have "of_nat (16 * (unat b div 16) + unat b mod 16) = b" by (simp only: mult_div_mod_eq) simp
  ultimately show ?thesis by (simp only: unhex_def hex_val_upperhex bind.bind_lunit)
qed

text \<open>\<open>hex.DecodeString\<close>: an odd length and a byte that is no digit are errors.\<close>

fun hex_decode :: "Bytes \<Rightarrow> Bytes option" where
  "hex_decode [] = Some []"
| "hex_decode [c] = None"
| "hex_decode (c # d # cs) = do { b \<leftarrow> unhex c d; bs \<leftarrow> hex_decode cs; Some (b # bs) }"

lemma hex_decode_concat: "hex_decode (concat (map hex_byte bs)) = Some bs"
  by (induction bs) (simp_all add: hex_byte_def unhex_hex_byte)

section \<open>Escaping\<close>

definition slash :: "8 word" where "slash = 47"

definition percent :: "8 word" where "percent = 37"

definition colon :: "8 word" where "colon = 58"

definition letter_x :: "8 word" where "letter_x = 120"

text \<open>A path segment keeps letters, digits, \<open>- _ . ~\<close> and \<open>$ & + : = @\<close>.\<close>

definition should_escape :: "8 word \<Rightarrow> bool" where
  "should_escape c =
     (let n = unat c in
      \<not> (97 \<le> n \<and> n \<le> 122 \<or> 65 \<le> n \<and> n \<le> 90 \<or> 48 \<le> n \<and> n \<le> 57 \<or> n \<in> {45, 95, 46, 126} \<or> n \<in> {36, 38, 43, 58, 61, 64}))"

definition path_escape :: "Bytes \<Rightarrow> Bytes" where
  "path_escape s = concat (map (\<lambda>c. if should_escape c then percent # hex_byte c else [c]) s)"

fun path_unescape :: "Bytes \<Rightarrow> Bytes option" where
  "path_unescape [] = Some []"
| "path_unescape (c # cs) =
     (if c = percent then
        (case cs of
           d1 # d2 # ds \<Rightarrow> do { b \<leftarrow> unhex d1 d2; bs \<leftarrow> path_unescape ds; Some (b # bs) }
         | _ \<Rightarrow> None)
      else do { bs \<leftarrow> path_unescape cs; Some (c # bs) })"

lemma path_unescape_escape: "path_unescape (path_escape s) = Some s"
proof (induction s)
  case (Cons c s)
  have "c \<noteq> percent" if "\<not> should_escape c" using that by (auto simp: should_escape_def percent_def Let_def)
  with Cons show ?case by (auto simp: path_escape_def hex_byte_def unhex_hex_byte)
qed (simp add: path_escape_def)

section \<open>Splitting\<close>

fun go_split :: "'a \<Rightarrow> 'a list \<Rightarrow> 'a list list" where
  "go_split c [] = [[]]"
| "go_split c (x # xs) =
     (if x = c then [] # go_split c xs
      else (case go_split c xs of [] \<Rightarrow> [[x]] | p # ps \<Rightarrow> (x # p) # ps))"

lemma go_split_nonempty [simp]: "go_split c xs \<noteq> []"
  by (induction xs) (auto split: list.splits)

lemma go_split_part: "c \<notin> set xs \<Longrightarrow> go_split c xs = [xs]"
  by (induction xs) auto

lemma go_split_parts: "c \<notin> set xs \<Longrightarrow> go_split c (xs @ c # ys) = xs # go_split c ys"
  by (induction xs) auto

section \<open>Key paths\<close>

definition KeyEncodingURL :: int where "KeyEncodingURL = 0"

definition KeyEncodingHex :: int where "KeyEncodingHex = 1"

definition KeyEncodingMax :: int where "KeyEncodingMax = 2"

record Key =
  keyName :: Bytes
  keyEnc :: int

type_synonym KeyPath = "Key list"

definition AppendKey :: "KeyPath \<Rightarrow> Bytes \<Rightarrow> int \<Rightarrow> KeyPath" where
  "AppendKey pth key enc = pth @ [\<lparr>keyName = key, keyEnc = enc\<rparr>]"

definition key_string :: "Key \<Rightarrow> Bytes option" where
  "key_string key =
     (if keyEnc key = KeyEncodingURL then Some (slash # path_escape (keyName key))
      else if keyEnc key = KeyEncodingHex then Some ([slash, letter_x, colon] @ concat (map hex_byte (keyName key)))
      else None)"

fun key_strings :: "Bytes \<Rightarrow> KeyPath \<Rightarrow> Bytes option" where
  "key_strings res [] = Some res"
| "key_strings res (key # pth) = do { s \<leftarrow> key_string key; key_strings (res @ s) pth }"

definition KeyPathString :: "KeyPath \<Rightarrow> Bytes option" where
  "KeyPathString pth = key_strings [] pth"

definition part_key :: "Bytes \<Rightarrow> Bytes option" where
  "part_key part =
     (if take 2 part = [letter_x, colon] then hex_decode (drop 2 part) else path_unescape part)"

fun part_keys :: "Bytes list \<Rightarrow> error + Bytes list" where
  "part_keys [] = Inr []"
| "part_keys (part # parts) =
     (case part_key part of
        None \<Rightarrow> Inl ''decoding a part''
      | Some key \<Rightarrow> (case part_keys parts of Inl e \<Rightarrow> Inl e | Inr ks \<Rightarrow> Inr (key # ks)))"

definition KeyPathToKeys :: "Bytes \<Rightarrow> error + Bytes list" where
  "KeyPathToKeys path =
     (if path = [] \<or> hd path \<noteq> slash then Inl ''key path string must start with a forward slash''
      else part_keys (go_split slash (tl path)))"

section \<open>Length-prefixed slices\<close>

fun PutUvarint :: "nat \<Rightarrow> Bytes" where
  "PutUvarint x = (if x < 128 then [of_nat x] else of_nat (x mod 128 + 128) # PutUvarint (x div 128))"

declare PutUvarint.simps [simp del]

definition encodeByteSlice :: "Bytes \<Rightarrow> Bytes \<Rightarrow> Bytes" where
  "encodeByteSlice w bz = w @ PutUvarint (length bz) @ bz"

text \<open>A prefix is recognised by its own bytes, so that the slice after it can be cut off.\<close>

lemma PutUvarint_inj:
  assumes "PutUvarint x @ xs = PutUvarint y @ ys"
  shows "x = y \<and> xs = ys"
  using assms
proof (induction x arbitrary: y rule: PutUvarint.induct)
  case (1 x)
  have big: "z mod 128 + 128 < 256" for z :: nat using mod_less_divisor [of 128 z] by linarith
  have eq: "of_nat a = (of_nat b :: 8 word) \<Longrightarrow> a = b" if "a < 256" "b < 256" for a b
    using unat_small [OF that(1)] unat_small [OF that(2)] by metis
  show ?case
  proof (cases "x < 128"; cases "y < 128")
    assume "x < 128" "y < 128"
    with 1(2) eq [of x y] show ?thesis by (simp add: PutUvarint.simps [of x] PutUvarint.simps [of y])
  next
    assume "x < 128" "\<not> y < 128"
    with 1(2) eq [of x "y mod 128 + 128"] big [of y] show ?thesis
      by (simp add: PutUvarint.simps [of x] PutUvarint.simps [of y])
  next
    assume "\<not> x < 128" "y < 128"
    with 1(2) eq [of "x mod 128 + 128" y] big [of x] show ?thesis
      by (simp add: PutUvarint.simps [of x] PutUvarint.simps [of y])
  next
    assume a: "\<not> x < 128" "\<not> y < 128"
    with 1(2) have h: "of_nat (x mod 128 + 128) = (of_nat (y mod 128 + 128) :: 8 word)"
      and t: "PutUvarint (x div 128) @ xs = PutUvarint (y div 128) @ ys"
      by (simp_all add: PutUvarint.simps [of x] PutUvarint.simps [of y])
    from eq [OF big big h] have "x mod 128 = y mod 128" by simp
    moreover from "1.IH" [OF a(1) t] have "x div 128 = y div 128" "xs = ys" by auto
    ultimately show ?thesis by (metis div_mult_mod_eq)
  qed
qed

lemma encodeByteSlice_inj: "encodeByteSlice w x @ xs = encodeByteSlice w y @ ys \<Longrightarrow> x = y \<and> xs = ys"
  using PutUvarint_inj [of "length x" "x @ xs" "length y" "y @ ys"] by (auto simp: encodeByteSlice_def)

section \<open>Properties\<close>

definition url_safe :: "Key \<Rightarrow> bool" where
  "url_safe key \<longleftrightarrow> keyEnc key = KeyEncodingURL \<and> take 2 (keyName key) \<noteq> [letter_x, colon] \<or> keyEnc key = KeyEncodingHex"

lemma slash_hex: "slash \<notin> set (hex_byte b)"
proof -
  have n: "upperhex d \<noteq> slash" if "d < 16" for d using hex_val_upperhex [OF that] by (auto simp: hex_val_def slash_def)
  have "unat b div 16 < 16" "unat b mod 16 < 16" using unat_byte [of b] by simp_all
  from n [OF this(1)] n [OF this(2)] show ?thesis by (simp add: hex_byte_def)
qed

lemma slash_escape: "slash \<notin> set (path_escape s)"
proof (induction s)
  case (Cons c s)
  have "c \<noteq> slash" if "\<not> should_escape c" using that by (auto simp: should_escape_def slash_def Let_def)
  moreover have "slash \<noteq> percent" by (simp add: slash_def percent_def)
  ultimately show ?case using Cons slash_hex [of c] by (auto simp: path_escape_def)
qed (simp add: path_escape_def)

text \<open>An escaped key starts with \<open>x:\<close> only if the key does.\<close>

lemma escape_prefix: "take 2 (path_escape s) = [letter_x, colon] \<Longrightarrow> take 2 s = [letter_x, colon]"
proof -
  have keep: "\<not> should_escape letter_x" "\<not> should_escape colon"
    by (simp_all add: should_escape_def letter_x_def colon_def Let_def)
  have pc: "percent \<noteq> letter_x" "percent \<noteq> colon" by (simp_all add: percent_def letter_x_def colon_def)
  assume p: "take 2 (path_escape s) = [letter_x, colon]"
  show ?thesis
  proof (cases s)
    case Nil
    with p show ?thesis by (simp add: path_escape_def)
  next
    case (Cons a t)
    with p pc have a: "\<not> should_escape a" "a = letter_x" "take 1 (path_escape t) = [colon]"
      by (auto simp: path_escape_def numeral_2_eq_2 split: if_splits)
    show ?thesis
    proof (cases t)
      case Nil
      with a show ?thesis by (simp add: path_escape_def)
    next
      case (Cons b u)
      with a pc have "b = colon" by (auto simp: path_escape_def split: if_splits)
      with a Cons \<open>s = a # t\<close> show ?thesis by simp
    qed
  qed
qed

lemma part_key_string:
  assumes "url_safe key"
  shows "\<exists>part. key_string key = Some (slash # part) \<and> slash \<notin> set part \<and> part_key part = Some (keyName key)"
proof (cases "keyEnc key = KeyEncodingURL")
  case True
  with assms have "take 2 (path_escape (keyName key)) \<noteq> [letter_x, colon]"
    using escape_prefix by (auto simp: url_safe_def KeyEncodingURL_def KeyEncodingHex_def)
  with True show ?thesis
    using slash_escape path_unescape_escape by (simp add: key_string_def part_key_def)
next
  case False
  with assms have "keyEnc key = KeyEncodingHex" by (auto simp: url_safe_def)
  moreover have "slash \<noteq> letter_x" "slash \<noteq> colon" by (simp_all add: slash_def letter_x_def colon_def)
  ultimately show ?thesis
    using False slash_hex by (auto simp: key_string_def part_key_def hex_decode_concat)
qed

lemma key_strings_append: "key_strings res pth = map_option ((@) res) (key_strings [] pth)"
proof (induction pth arbitrary: res)
  case (Cons key pth)
  show ?case
  proof (cases "key_string key")
    case (Some s)
    with Cons [of "res @ s"] Cons [of s] show ?thesis by (cases "key_strings [] pth") simp_all
  qed simp
qed simp

lemma key_strings_parse:
  assumes "pth \<noteq> []" and "list_all url_safe pth"
  shows "\<exists>s. key_strings [] pth = Some (slash # s) \<and> part_keys (go_split slash s) = Inr (map keyName pth)"
  using assms
proof (induction pth)
  case (Cons key pth)
  from Cons.prems part_key_string obtain part where part: "key_string key = Some (slash # part)" "slash \<notin> set part"
    "part_key part = Some (keyName key)" by auto
  show ?case
  proof (cases "pth = []")
    case True
    with part show ?thesis by (simp add: go_split_part)
  next
    case False
    with Cons obtain s where s: "key_strings [] pth = Some (slash # s)" "part_keys (go_split slash s) = Inr (map keyName pth)"
      by auto
    have "key_strings [] (key # pth) = Some (slash # part @ slash # s)"
      using part(1) s(1) key_strings_append [of "slash # part" pth] by simp
    moreover have "part_keys (go_split slash (part @ slash # s)) = Inr (map keyName (key # pth))"
      using part(2,3) s(2) by (simp add: go_split_parts)
    ultimately show ?thesis by blast
  qed
qed simp

text \<open>C21 (key paths): the text of a non-empty key path parses to the names of its keys in order, whatever the encoding of each
  key, unless a key in URL encoding starts with \<open>x:\<close>.\<close>

theorem keypath_roundtrip:
  assumes "pth \<noteq> []" and "list_all url_safe pth"
  shows "\<exists>s. KeyPathString pth = Some s \<and> KeyPathToKeys s = Inr (map keyName pth)"
  using key_strings_parse [OF assms] by (auto simp: KeyPathString_def KeyPathToKeys_def)

theorem keypath_roundtrip_witness:
  "\<exists>s. KeyPathString (AppendKey (AppendKey [] [65, 112, 112] KeyEncodingURL) [1, 2, 47] KeyEncodingHex) = Some s \<and>
     KeyPathToKeys s = Inr [[65, 112, 112], [1, 2, 47]]"
proof -
  let ?p = "AppendKey (AppendKey [] [65, 112, 112] KeyEncodingURL) [1, 2, 47] KeyEncodingHex"
  have "?p \<noteq> []" "list_all url_safe ?p" by (simp_all add: AppendKey_def url_safe_def letter_x_def)
  from keypath_roundtrip [OF this] show ?thesis by (simp add: AppendKey_def)
qed

text \<open>The key \<open>x:01\<close> in URL encoding is printed unchanged and read back as the byte 1.\<close>

lemma keypath_ambiguous:
  "\<exists>s. KeyPathString [\<lparr>keyName = [120, 58, 48, 49], keyEnc = KeyEncodingURL\<rparr>] = Some s \<and> KeyPathToKeys s = Inr [[1]]"
  by (simp add: KeyPathString_def key_string_def path_escape_def should_escape_def KeyPathToKeys_def slash_def letter_x_def colon_def
      part_key_def unhex_def hex_val_def Let_def)

end
