(* ===== verification/ProofOps.thy ===== *)
theory ProofOps
  imports Merkle KeyPath
begin

text \<open>
  Chained Merkle proofs: proof operators and the runtime that decodes and runs them (src/crypto/merkle/proof_op.go), the
  operator for values of a map (proof_value.go), and the conversion of proofs from and to messages (proof.go).

  The interface \<open>ProofOperator\<close> is a record of its three methods.  The generated protobuf code is the record \<open>ProtoEnv\<close>;
  \<open>proto_ok\<close> states that what it marshals it unmarshals again.  A panic is \<open>None\<close>; the inner \<open>None\<close> of \<open>error option\<close> is
  the nil error.
\<close>

section \<open>Proof messages (proof.go)\<close>

definition ToProto :: "Proof option \<Rightarrow> Proof option" where
  "ToProto sp = map_option (\<lambda>p. \<lparr>prTotal = prTotal p, prIndex = prIndex p, prLeafHash = prLeafHash p, prAunts = prAunts p\<rparr>) sp"

definition ProofFromProto :: "Proof option \<Rightarrow> Proof option \<times> error option" where
  "ProofFromProto pb =
     (case pb of
        None \<Rightarrow> (None, Some ''nil proof'')
      | Some p \<Rightarrow>
          let sp = \<lparr>prTotal = prTotal p, prIndex = prIndex p, prLeafHash = prLeafHash p, prAunts = prAunts p\<rparr>
          in (Some sp, ValidateBasic sp))"

lemma proof_copy [simp]:
  "\<lparr>prTotal = prTotal p, prIndex = prIndex p, prLeafHash = prLeafHash p, prAunts = prAunts p\<rparr> = (p :: Proof)"
  by simp

section \<open>Operators (proof_op.go)\<close>

record ProofOpMsg =
  poType :: string
  poKey :: Bytes
  poData :: Bytes

record ProofOperator =
  opRun :: "Bytes list \<Rightarrow> (error + Bytes list) option"
  opGetKey :: Bytes
  opProofOp :: "ProofOpMsg option"

fun run_operators :: "ProofOperator list \<Rightarrow> Bytes list \<Rightarrow> Bytes list \<Rightarrow> (error + Bytes list \<times> Bytes list) option" where
  "run_operators [] ks args = Some (Inr (ks, args))"
| "run_operators (op # poz) ks args =
     (let key = opGetKey op in
      if key \<noteq> [] \<and> ks = [] then Some (Inl ''key path has insufficient parts'')
      else if key \<noteq> [] \<and> last ks \<noteq> key then Some (Inl ''key mismatch on operation'')
      else
        let ks1 = (if key \<noteq> [] then butlast ks else ks) in
        do { r \<leftarrow> opRun op args;
             case r of Inl e \<Rightarrow> Some (Inl e) | Inr args1 \<Rightarrow> run_operators poz ks1 args1 })"

definition PoVerify :: "ProofOperator list \<Rightarrow> Bytes \<Rightarrow> Bytes \<Rightarrow> Bytes list \<Rightarrow> error option option" where
  "PoVerify poz root keypath args =
     (case KeyPathToKeys keypath of
        Inl e \<Rightarrow> Some (Some e)
      | Inr ks \<Rightarrow>
          do { r \<leftarrow> run_operators poz ks args;
               case r of
                 Inl e \<Rightarrow> Some (Some e)
               | Inr (ks1, args1) \<Rightarrow>
                   do { a \<leftarrow> go_index args1 0;
                        if root \<noteq> a then Some (Some ''calculated root hash is invalid'')
                        else if ks1 \<noteq> [] then Some (Some ''keypath not consumed all'')
                        else Some None } })"

definition PoVerifyValue :: "ProofOperator list \<Rightarrow> Bytes \<Rightarrow> Bytes \<Rightarrow> Bytes \<Rightarrow> error option option" where
  "PoVerifyValue poz root keypath v = PoVerify poz root keypath [v]"

section \<open>The runtime (proof_op.go)\<close>

type_synonym OpDecoder = "ProofOpMsg \<Rightarrow> error + ProofOperator"

record ProofRuntime =
  decoders :: "string \<rightharpoonup> OpDecoder"

definition NewProofRuntime :: ProofRuntime where
  "NewProofRuntime = \<lparr>decoders = Map.empty\<rparr>"

definition RegisterOpDecoder :: "ProofRuntime \<Rightarrow> string \<Rightarrow> OpDecoder \<Rightarrow> ProofRuntime option" where
  "RegisterOpDecoder prt typ d =
     (if decoders prt typ \<noteq> None then None else Some (prt\<lparr>decoders := (decoders prt)(typ \<mapsto> d)\<rparr>))"

definition RtDecode :: "ProofRuntime \<Rightarrow> ProofOpMsg \<Rightarrow> error + ProofOperator" where
  "RtDecode prt pop = (case decoders prt (poType pop) of None \<Rightarrow> Inl ''unrecognized proof type'' | Some d \<Rightarrow> d pop)"

fun DecodeProof :: "ProofRuntime \<Rightarrow> ProofOpMsg list \<Rightarrow> error + ProofOperator list" where
  "DecodeProof prt [] = Inr []"
| "DecodeProof prt (pop # ops) =
     (case RtDecode prt pop of
        Inl e \<Rightarrow> Inl ''decoding a proof operator''
      | Inr op \<Rightarrow> (case DecodeProof prt ops of Inl e \<Rightarrow> Inl e | Inr poz \<Rightarrow> Inr (op # poz)))"

definition RtVerify :: "ProofRuntime \<Rightarrow> ProofOpMsg list \<Rightarrow> Bytes \<Rightarrow> Bytes \<Rightarrow> Bytes list \<Rightarrow> error option option" where
  "RtVerify prt ops root keypath args =
     (case DecodeProof prt ops of
        Inl e \<Rightarrow> Some (Some ''decoding proof'')
      | Inr poz \<Rightarrow> PoVerify poz root keypath args)"

definition RtVerifyValue :: "ProofRuntime \<Rightarrow> ProofOpMsg list \<Rightarrow> Bytes \<Rightarrow> Bytes \<Rightarrow> Bytes \<Rightarrow> error option option" where
  "RtVerifyValue prt ops root keypath v = RtVerify prt ops root keypath [v]"

definition VerifyAbsence :: "ProofRuntime \<Rightarrow> ProofOpMsg list \<Rightarrow> Bytes \<Rightarrow> Bytes \<Rightarrow> error option option" where
  "VerifyAbsence prt ops root keypath = RtVerify prt ops root keypath []"

section \<open>The value operator (proof_value.go)\<close>

definition ProofOpValue :: string where "ProofOpValue = ''simple:v''"

record ProtoEnv =
  peMarshal :: "Bytes \<times> Proof option \<Rightarrow> Bytes option"
  peUnmarshal :: "Bytes \<Rightarrow> error + Bytes \<times> Proof option"

definition proto_ok :: "ProtoEnv \<Rightarrow> bool" where
  "proto_ok pe \<longleftrightarrow> (\<forall>x bz. peMarshal pe x = Some bz \<longrightarrow> peUnmarshal pe bz = Inr x)"

record ValueOp =
  voKey :: Bytes
  voProof :: "Proof option"

definition NewValueOp :: "Bytes \<Rightarrow> Proof option \<Rightarrow> ValueOp" where
  "NewValueOp key sp = \<lparr>voKey = key, voProof = sp\<rparr>"

text \<open>The bytes hashed for a key and the hash of its value.\<close>

definition kv_bytes :: "Bytes \<Rightarrow> Bytes \<Rightarrow> Bytes" where
  "kv_bytes key vhash = encodeByteSlice (encodeByteSlice [] key) vhash"

definition VoRun :: "(Bytes \<Rightarrow> Bytes) \<Rightarrow> ValueOp \<Rightarrow> Bytes list \<Rightarrow> (error + Bytes list) option" where
  "VoRun H op args =
     (if length args \<noteq> 1 then Some (Inl ''expected 1 arg'')
      else
        let vhash = H (args ! 0); kvhash = leafHash H (kv_bytes (voKey op) vhash) in
        do { sp \<leftarrow> voProof op;
             if kvhash \<noteq> prLeafHash sp then Some (Inl ''leaf hash mismatch'')
             else Some (Inr [bytes_of (ComputeRootHash H sp)]) })"

definition VoGetKey :: "ValueOp \<Rightarrow> Bytes" where
  "VoGetKey op = voKey op"

definition VoProofOp :: "ProtoEnv \<Rightarrow> ValueOp \<Rightarrow> ProofOpMsg option" where
  "VoProofOp pe op =
     do { bz \<leftarrow> peMarshal pe (voKey op, ToProto (voProof op));
          Some \<lparr>poType = ProofOpValue, poKey = voKey op, poData = bz\<rparr> }"

definition value_operator :: "(Bytes \<Rightarrow> Bytes) \<Rightarrow> ProtoEnv \<Rightarrow> ValueOp \<Rightarrow> ProofOperator" where
  "value_operator H pe op = \<lparr>opRun = VoRun H op, opGetKey = VoGetKey op, opProofOp = VoProofOp pe op\<rparr>"

definition ValueOpDecoder :: "(Bytes \<Rightarrow> Bytes) \<Rightarrow> ProtoEnv \<Rightarrow> OpDecoder" where
  "ValueOpDecoder H pe pop =
     (if poType pop \<noteq> ProofOpValue then Inl ''unexpected ProofOp.Type''
      else case peUnmarshal pe (poData pop) of
        Inl e \<Rightarrow> Inl ''decoding ProofOp.Data into ValueOp''
      | Inr (_, pb) \<Rightarrow>
          (case ProofFromProto pb of
             (sp, Some e) \<Rightarrow> Inl e
           | (sp, None) \<Rightarrow> Inr (value_operator H pe (NewValueOp (poKey pop) sp))))"

definition DefaultProofRuntime :: "(Bytes \<Rightarrow> Bytes) \<Rightarrow> ProtoEnv \<Rightarrow> ProofRuntime option" where
  "DefaultProofRuntime H pe = RegisterOpDecoder NewProofRuntime ProofOpValue (ValueOpDecoder H pe)"

section \<open>What verification establishes\<close>

fun run_chain :: "ProofOperator list \<Rightarrow> Bytes list \<Rightarrow> (error + Bytes list) option" where
  "run_chain [] args = Some (Inr args)"
| "run_chain (op # poz) args =
     do { r \<leftarrow> opRun op args; case r of Inl e \<Rightarrow> Some (Inl e) | Inr args1 \<Rightarrow> run_chain poz args1 }"

definition op_keys :: "ProofOperator list \<Rightarrow> Bytes list" where
  "op_keys poz = filter (\<lambda>k. k \<noteq> []) (map opGetKey poz)"

lemma bind_sum_iff:
  "do { r \<leftarrow> m; case r of Inl e \<Rightarrow> Some (Inl e) | Inr a \<Rightarrow> f a } = Some (Inr x) \<longleftrightarrow> (\<exists>a. m = Some (Inr a) \<and> f a = Some (Inr x))"
  "do { r \<leftarrow> m; case r of Inl e \<Rightarrow> Some (Some e) | Inr p \<Rightarrow> g p } = Some None \<longleftrightarrow> (\<exists>p. m = Some (Inr p) \<and> g p = Some None)"
  by (cases m; cases "the m"; auto)+

lemma run_operators_iff:
  "run_operators poz ks args = Some (Inr (ks1, args1)) \<longleftrightarrow>
     ks = ks1 @ rev (op_keys poz) \<and> run_chain poz args = Some (Inr args1)"
proof (induction poz arbitrary: ks args)
  case Nil
  then show ?case by (auto simp: op_keys_def)
next
  case (Cons op poz)
  let ?key = "opGetKey op" and ?ks1 = "if opGetKey op \<noteq> [] then butlast ks else ks"
  have last: "?ks1 = ks1 @ rev (op_keys poz) \<and> (?key \<noteq> [] \<longrightarrow> ks \<noteq> [] \<and> last ks = ?key) \<longleftrightarrow>
      ks = ks1 @ rev (op_keys (op # poz))"
    by (cases ks rule: rev_cases) (auto simp: op_keys_def)
  have step: "run_operators (op # poz) ks args = Some (Inr (ks1, args1)) \<longleftrightarrow>
      (?key \<noteq> [] \<longrightarrow> ks \<noteq> [] \<and> last ks = ?key) \<and>
      (\<exists>a. opRun op args = Some (Inr a) \<and> run_operators poz ?ks1 a = Some (Inr (ks1, args1)))"
    by (auto simp: Let_def bind_sum_iff)
  have chain: "run_chain (op # poz) args = Some (Inr args1) \<longleftrightarrow>
      (\<exists>a. opRun op args = Some (Inr a) \<and> run_chain poz a = Some (Inr args1))"
    by (simp add: bind_sum_iff)
  show ?case unfolding step chain last [symmetric] Cons.IH by blast
qed

text \<open>Chained proofs: verification succeeds exactly when the key path parses to the non-empty keys of the operators in
  reverse, and running the operators one after the other on the arguments gives a list that starts with the root.\<close>

theorem operators_verify_iff:
  "PoVerify poz root keypath args = Some None \<longleftrightarrow>
     KeyPathToKeys keypath = Inr (rev (op_keys poz)) \<and> (\<exists>out. run_chain poz args = Some (Inr (root # out)))"
proof -
  have "PoVerify poz root keypath args = Some None \<longleftrightarrow>
      (\<exists>ks args1. KeyPathToKeys keypath = Inr ks \<and> run_operators poz ks args = Some (Inr ([], args1)) \<and>
         go_index args1 0 = Some root)"
    by (cases "KeyPathToKeys keypath"; simp add: PoVerify_def bind_sum_iff) (auto simp: bind_Some_conv split: if_splits)
  moreover have "go_index xs 0 = Some root \<longleftrightarrow> (\<exists>out. xs = root # out)" for xs
    by (cases xs) (auto simp: go_index_def)
  ultimately show ?thesis unfolding run_operators_iff by auto
qed

text \<open>With no operator and no argument, as an absence proof may have it, the first argument is missing.\<close>

lemma empty_absence_proof_panics:
  assumes "KeyPathToKeys keypath = Inr ks"
  shows "VerifyAbsence prt [] root keypath = None"
  using assms by (simp add: VerifyAbsence_def RtVerify_def PoVerify_def go_index_def)

subsection \<open>Value proofs\<close>

definition kv_items :: "(Bytes \<times> Bytes) list \<Rightarrow> Bytes list" where
  "kv_items kvs = map (\<lambda>kv. kv_bytes (fst kv) (snd kv)) kvs"

lemma kv_items_simps [simp]:
  "length (kv_items kvs) = length kvs" "i < length kvs \<Longrightarrow> kv_items kvs ! i = kv_bytes (fst (kvs ! i)) (snd (kvs ! i))"
  by (simp_all add: kv_items_def)

lemma kv_bytes_inj: "kv_bytes k v = kv_bytes k' v' \<Longrightarrow> k = k' \<and> v = v'"
proof -
  assume e: "kv_bytes k v = kv_bytes k' v'"
  then have "encodeByteSlice [] k @ PutUvarint (length v) @ v = encodeByteSlice [] k' @ PutUvarint (length v') @ v'"
    by (simp add: kv_bytes_def encodeByteSlice_def)
  from encodeByteSlice_inj [OF this] have "k = k'" and "PutUvarint (length v) @ v = PutUvarint (length v') @ v'" by auto
  with PutUvarint_inj [of "length v" v "length v'" v'] show ?thesis by simp
qed

lemma VoRun_verifies:
  assumes "VoRun H op [v] = Some (Inr [root])" and "ValidateBasic sp = None" and "voProof op = Some sp"
  shows "ProofVerify H sp root (kv_bytes (voKey op) (H v)) = None"
  using assms by (auto simp: VoRun_def ProofVerify_def ValidateBasic_def Let_def split: if_splits)

lemma ValueOpDecoder_Inr:
  assumes "ValueOpDecoder H pe pop = Inr op"
  obtains k sp where "peUnmarshal pe (poData pop) = Inr (k, Some sp)" and "ValidateBasic sp = None"
    and "op = value_operator H pe (NewValueOp (poKey pop) (Some sp))"
  using assms by (auto simp: ValueOpDecoder_def ProofFromProto_def Let_def split: if_splits sum.splits option.splits prod.splits)

lemma value_runtime_verify_iff:
  assumes "DefaultProofRuntime H pe = Some prt"
  shows "RtVerifyValue prt [pop] root keypath v = Some None \<longleftrightarrow>
    poType pop = ProofOpValue \<and>
    (\<exists>op. ValueOpDecoder H pe pop = Inr op \<and> PoVerify [op] root keypath [v] = Some None)"
proof -
  have "decoders prt = [ProofOpValue \<mapsto> ValueOpDecoder H pe]"
    using assms by (auto simp: DefaultProofRuntime_def RegisterOpDecoder_def NewProofRuntime_def)
  then show ?thesis by (auto simp: RtVerifyValue_def RtVerify_def RtDecode_def split: sum.splits)
qed

lemma kv_items_mem: "kv_bytes k h \<in> set (kv_items kvs) \<longleftrightarrow> (k, h) \<in> set kvs"
  by (force simp: kv_items_def dest: kv_bytes_inj)

lemma kv_items_nth: "i < length kvs \<Longrightarrow> kv_items kvs ! i = kv_bytes k h \<longleftrightarrow> kvs ! i = (k, h)"
  by (auto simp: prod_eq_iff dest: kv_bytes_inj)

text \<open>An accepted message, taken apart.\<close>

lemma value_proof_accepted:
  assumes "DefaultProofRuntime H pe = Some prt" and "RtVerifyValue prt [pop] root keypath v = Some None"
  obtains k sp where "peUnmarshal pe (poData pop) = Inr (k, Some sp)" and "ValidateBasic sp = None"
    and "KeyPathToKeys keypath = Inr (if poKey pop = [] then [] else [poKey pop])"
    and "ProofVerify H sp root (kv_bytes (poKey pop) (H v)) = None"
proof -
  from assms obtain op where op: "ValueOpDecoder H pe pop = Inr op" and v: "PoVerify [op] root keypath [v] = Some None"
    by (auto simp: value_runtime_verify_iff)
  from op obtain k sp where d: "peUnmarshal pe (poData pop) = Inr (k, Some sp)" "ValidateBasic sp = None"
    "op = value_operator H pe (NewValueOp (poKey pop) (Some sp))" by (rule ValueOpDecoder_Inr)
  note V = v [unfolded operators_verify_iff]
  from V d(3) have path: "KeyPathToKeys keypath = Inr (if poKey pop = [] then [] else [poKey pop])"
    by (simp add: op_keys_def value_operator_def VoGetKey_def NewValueOp_def)
  from V d(3) have "VoRun H (NewValueOp (poKey pop) (Some sp)) [v] = Some (Inr [root])"
    by (auto simp: value_operator_def VoRun_def NewValueOp_def bind_sum_iff Let_def split: if_splits)
  from VoRun_verifies [OF this d(2)] have "ProofVerify H sp root (kv_bytes (poKey pop) (H v)) = None"
    by (simp add: NewValueOp_def)
  from that [OF d(1,2) path this] show ?thesis .
qed

text \<open>C22 (value proofs are sound): if the default runtime accepts a message of one value proof for a path and a value against
  the root of a map, then the path consists of the key of the message, and of nothing when that key is empty, and the map
  holds that key with the hash of the value, unless one of the strings hashed for the map collides with one hashed for the
  proof.  The total that the proof states is not compared with the size of the map; when it is that size, the index of
  the proof is the position of the entry.\<close>

theorem value_proof_sound:
  assumes "\<forall>x. length (H x) = tmhash_Size" and "DefaultProofRuntime H pe = Some prt"
    and "RtVerifyValue prt [pop] (HashFromByteSlices H (kv_items kvs)) keypath v = Some None"
  shows "\<exists>k sp. peUnmarshal pe (poData pop) = Inr (k, Some sp) \<and>
    KeyPathToKeys keypath = Inr (if poKey pop = [] then [] else [poKey pop]) \<and>
    (collision_between H (tree_inputs H (kv_items kvs))
       (proof_inputs H (prIndex sp) (prTotal sp) (kv_bytes (poKey pop) (H v)) (prAunts sp)) \<or>
     (poKey pop, H v) \<in> set kvs \<and>
     (prTotal sp = int (length kvs) \<longrightarrow>
        0 \<le> prIndex sp \<and> prIndex sp < int (length kvs) \<and> kvs ! nat (prIndex sp) = (poKey pop, H v)))"
proof -
  from assms(2,3) obtain k sp where p: "peUnmarshal pe (poData pop) = Inr (k, Some sp)" "ValidateBasic sp = None"
    "KeyPathToKeys keypath = Inr (if poKey pop = [] then [] else [poKey pop])"
    "ProofVerify H sp (HashFromByteSlices H (kv_items kvs)) (kv_bytes (poKey pop) (H v)) = None"
    by (rule value_proof_accepted)
  note any = proof_verified_any_total [OF assms(1) p(2,4), unfolded kv_items_mem]
  note at = proof_verified_at [OF assms(1) p(2) _ p(4)]
  have "0 \<le> prIndex sp \<and> prIndex sp < int (length kvs) \<and> (kvs ! nat (prIndex sp) = (poKey pop, H v) \<or>
      collision_between H (tree_inputs H (kv_items kvs))
        (proof_inputs H (prIndex sp) (prTotal sp) (kv_bytes (poKey pop) (H v)) (prAunts sp)))"
    if "prTotal sp = int (length kvs)"
    using at that kv_items_nth [of "nat (prIndex sp)" kvs "poKey pop" "H v"] by auto
  with any p(1,3) show ?thesis by blast
qed

text \<open>The number of aunts is at most the logarithm of the number of items.\<close>

lemma length_aunts_of: "length items \<le> 2 ^ d \<Longrightarrow> length (aunts_of H items i) \<le> d"
proof (induction H items i arbitrary: d rule: aunts_of.induct)
  case (1 H items i)
  let ?n = "length items" and ?k = "split_point (length items)"
  show ?case
  proof (cases "?n = 0 \<or> ?n = 1")
    case True
    then show ?thesis by (simp add: aunts_of.simps [of H items i])
  next
    case False
    then have "is_split ?n ?k" by (intro split_point_is_split) linarith
    then obtain e where e: "?k = 2 ^ e" "?k < ?n" "?n \<le> 2 * ?k" by (auto simp: is_split_def)
    with "1.prems" have "(2::nat) ^ e < 2 ^ d" by linarith
    then have "e < d" by simp
    then obtain d' where d: "d = Suc d'" "e \<le> d'" by (cases d) auto
    then have k: "?k \<le> 2 ^ d'" using e(1) by simp
    have "length (aunts_of H (take ?k items) i) \<le> d'" if "i < ?k"
      by (rule "1.IH"(1) [OF False refl that]) (use k in simp)
    moreover have "length (aunts_of H (drop ?k items) (i - ?k)) \<le> d'" if "\<not> i < ?k"
      by (rule "1.IH"(2) [OF False refl that]) (use k e(3) in simp)
    ultimately show ?thesis using False d(1) by (simp add: aunts_of.simps [of H items i] Let_def)
  qed
qed

lemma aunts_of_size:
  assumes "\<And>x. length (H x) = n"
  shows "\<forall>a\<in>set (aunts_of H items i). length a = n"
  using assms
proof (induction H items i rule: aunts_of.induct)
  case (1 H items i)
  note h = HashFromByteSlices_length [of H n, OF "1.prems"]
  show ?case
  proof (cases "length items = 0 \<or> length items = 1")
    case True
    then show ?thesis by (simp add: aunts_of.simps [of H items i])
  next
    case False
    show ?thesis
      using "1.IH"(1) [OF False refl _ "1.prems"] "1.IH"(2) [OF False refl _ "1.prems"] h False
      by (simp add: aunts_of.simps [of H items i] Let_def)
  qed
qed

lemma proof_for_valid:
  assumes "\<forall>x. length (H x) = tmhash_Size" and "length items \<le> 2 ^ MaxAunts"
  shows "ValidateBasic (proof_for H items i) = None"
  using length_aunts_of [OF assms(2), of H i] aunts_of_size [of H tmhash_Size items i] assms(1)
  by (simp add: ValidateBasic_def proof_for_def leafHash_def)

text \<open>Value proofs are complete: for every entry of a map whose proof is built, put into a message and decoded again, the
  default runtime accepts the message together with the printed path of the key and the value.\<close>

theorem value_proof_complete:
  assumes "\<forall>x. length (H x) = tmhash_Size" and "proto_ok pe" and "DefaultProofRuntime H pe = Some prt"
    and "ProofsFromByteSlices H (kv_items kvs) = Some (root, proofs)"
    and "i < length kvs" and "length kvs \<le> 2 ^ MaxAunts" and "kvs ! i = (key, H v)" and "key \<noteq> []"
    and "VoProofOp pe (NewValueOp key (Some (proofs ! i))) = Some pop"
    and "url_safe \<lparr>keyName = key, keyEnc = enc\<rparr>" and "KeyPathString [\<lparr>keyName = key, keyEnc = enc\<rparr>] = Some keypath"
  shows "RtVerifyValue prt [pop] root keypath v = Some None"
proof -
  let ?items = "kv_items kvs" and ?sp = "proof_for H (kv_items kvs) i"
  have p: "proofs ! i = ?sp" "root = HashFromByteSlices H ?items"
    using assms(4,5) ProofsFromByteSlices_eq [of H ?items] by auto
  have valid: "ValidateBasic ?sp = None" using assms(1,6) by (intro proof_for_valid) simp_all
  from assms(9) p obtain bz where bz: "peMarshal pe (key, Some ?sp) = Some bz"
    and pop: "pop = \<lparr>poType = ProofOpValue, poKey = key, poData = bz\<rparr>"
    by (auto simp: VoProofOp_def NewValueOp_def ToProto_def bind_Some_conv)
  from bz assms(2) have u: "peUnmarshal pe bz = Inr (key, Some ?sp)" by (simp add: proto_ok_def)
  have d: "ValueOpDecoder H pe pop = Inr (value_operator H pe (NewValueOp key (Some ?sp)))"
    using u valid by (simp add: ValueOpDecoder_def pop ProofFromProto_def)
  have item: "?items ! i = kv_bytes key (H v)" using assms(5,7) by simp
  have leaf: "prLeafHash ?sp = leafHash H (kv_bytes key (H v))" using item by (simp add: proof_for_def)
  have "bytes_of (ComputeRootHash H ?sp) = root"
    using computeHashFromAunts_aunts_of [of i ?items H] assms(5) p(2)
    by (simp add: ComputeRootHash_def proof_for_def bytes_of_def)
  with leaf have r: "run_chain [value_operator H pe (NewValueOp key (Some ?sp))] [v] = Some (Inr [root])"
    by (simp add: value_operator_def VoRun_def NewValueOp_def)
  have "KeyPathToKeys keypath = Inr [key]"
    using key_strings_parse [of "[\<lparr>keyName = key, keyEnc = enc\<rparr>]"] assms(10,11)
    by (auto simp: KeyPathString_def KeyPathToKeys_def)
  with r assms(8) have "PoVerify [value_operator H pe (NewValueOp key (Some ?sp))] root keypath [v] = Some None"
    by (simp add: operators_verify_iff op_keys_def value_operator_def VoGetKey_def NewValueOp_def)
  with d show ?thesis unfolding value_runtime_verify_iff [OF assms(3)] by (simp add: pop)
qed

subsection \<open>A map to evaluate\<close>

text \<open>Protobuf code for the witnesses that only knows one message.\<close>

definition one_kvs :: "(Bytes \<times> Bytes) list" where
  "one_kvs = [([65], pad_hash [7])]"

definition one_proof :: Proof where
  "one_proof = \<lparr>prTotal = 1, prIndex = 0, prLeafHash = leafHash pad_hash (kv_bytes [65] (pad_hash [7])), prAunts = []\<rparr>"

definition one_proto :: ProtoEnv where
  "one_proto = \<lparr>peMarshal = (\<lambda>x. if x = ([65], Some one_proof) then Some [1] else None),
     peUnmarshal = (\<lambda>bz. if bz = [1] then Inr ([65], Some one_proof) else Inl ''unexpected EOF'')\<rparr>"

definition one_msg :: ProofOpMsg where
  "one_msg = \<lparr>poType = ProofOpValue, poKey = [65], poData = [1]\<rparr>"

lemma pad_hash_size: "\<forall>x. length (pad_hash x) = tmhash_Size"
  by (auto simp: pad_hash_def tmhash_Size_def min_def)

lemma one_facts:
  "proto_ok one_proto" "VoProofOp one_proto (NewValueOp [65] (Some one_proof)) = Some one_msg"
  "peUnmarshal one_proto (poData one_msg) = Inr ([65], Some one_proof)"
  "\<exists>prt. DefaultProofRuntime pad_hash one_proto = Some prt"
  "KeyPathString [\<lparr>keyName = [65], keyEnc = KeyEncodingURL\<rparr>] = Some [47, 65]"
  "ProofsFromByteSlices pad_hash (kv_items one_kvs) = Some (HashFromByteSlices pad_hash (kv_items one_kvs), [one_proof])"
  by (auto simp: proto_ok_def one_proto_def VoProofOp_def NewValueOp_def ToProto_def one_msg_def DefaultProofRuntime_def
      RegisterOpDecoder_def NewProofRuntime_def KeyPathString_def key_string_def path_escape_def should_escape_def slash_def Let_def
      ProofsFromByteSlices_eq proof_for_def one_proof_def one_kvs_def kv_items_def aunts_of.simps)

lemma one_verifies:
  assumes "DefaultProofRuntime pad_hash one_proto = Some prt"
  shows "RtVerifyValue prt [one_msg] (HashFromByteSlices pad_hash (kv_items one_kvs)) [47, 65] [7] = Some None"
proof -
  have "ValidateBasic one_proof = None"
    using pad_hash_size by (simp add: ValidateBasic_def one_proof_def leafHash_def)
  moreover have "bytes_of (ComputeRootHash pad_hash one_proof) = HashFromByteSlices pad_hash (kv_items one_kvs)"
    by (simp add: ComputeRootHash_def one_proof_def computeHashFromAunts.simps bytes_of_def HashFromByteSlices.simps one_kvs_def kv_items_def)
  moreover have "KeyPathToKeys [47, 65] = Inr [[65]]"
    by (simp add: KeyPathToKeys_def slash_def part_key_def percent_def letter_x_def)
  ultimately show ?thesis
    unfolding value_runtime_verify_iff [OF assms] operators_verify_iff
    using one_facts(3)
    by (simp add: ValueOpDecoder_def one_msg_def ProofFromProto_def value_operator_def NewValueOp_def VoGetKey_def op_keys_def VoRun_def)
      (simp add: one_proof_def)
qed

theorem value_proof_complete_witness:
  "\<exists>prt. DefaultProofRuntime pad_hash one_proto = Some prt \<and>
     RtVerifyValue prt [one_msg] (HashFromByteSlices pad_hash (kv_items one_kvs)) [47, 65] [7] = Some None"
proof -
  obtain prt where prt: "DefaultProofRuntime pad_hash one_proto = Some prt" using one_facts(4) by blast
  have "url_safe \<lparr>keyName = [65], keyEnc = KeyEncodingURL\<rparr>" by (simp add: url_safe_def letter_x_def)
  from value_proof_complete [OF pad_hash_size one_facts(1) prt one_facts(6) _ _ _ _ _ this one_facts(5), of 0 "[7]" one_msg]
  show ?thesis using prt one_facts(2) by (simp add: one_kvs_def)
qed

theorem value_proof_sound_witness:
  "\<exists>prt. DefaultProofRuntime pad_hash one_proto = Some prt \<and>
     RtVerifyValue prt [one_msg] (HashFromByteSlices pad_hash (kv_items one_kvs)) [47, 65] [7] = Some None \<and>
     KeyPathToKeys [47, 65] = Inr [poKey one_msg]"
proof -
  obtain prt where prt: "DefaultProofRuntime pad_hash one_proto = Some prt" using one_facts(4) by blast
  from value_proof_sound [OF pad_hash_size prt one_verifies [OF prt]] have "KeyPathToKeys [47, 65] = Inr [poKey one_msg]"
    by (auto simp: one_msg_def)
  with prt one_verifies [OF prt] show ?thesis by blast
qed

end
