(* ===== verification/Transport.thy ===== *)
theory Transport
  imports Utils
begin

text \<open>
  Message transports (src/transport/transport.go).

  A transport has a buffered channel of outgoing messages and one of incoming messages; goroutines started by
  \<open>Dial\<close> and \<open>Listen\<close> move messages between these channels and the connection.  A goroutine is modelled by
  the effect of one iteration of its loop.  The operating system's sockets, \<open>url.Parse\<close> and the gob encoder are
  arguments: the outcome of a call, and the size of an encoding.  A send on a full or closed channel and a
  receive from an empty one do not return (\<open>None\<close>).

  The in-process transport (scheme \<open>chan\<close>) is modelled completely, as a system of transports, shared
  queues and goroutines: \<open>channel_transport_fifo\<close> shows that it neither loses, repeats nor reorders messages.
\<close>

section \<open>Transports\<close>

record 'm transport =
  uriScheme :: string
  uriHost :: string
  tSend :: "'m list"
  tRecv :: "'m list"
  startSendingTime :: Time
  startRecvTime :: Time
  totalSentBits :: int
  totalRecvBits :: int
  tClosed :: bool

definition chan_cap :: nat where "chan_cap = 1024"

definition chan_put :: "nat \<Rightarrow> 'm list \<Rightarrow> 'm \<Rightarrow> 'm list option" where
  "chan_put n q m = (if length q < n then Some (q @ [m]) else None)"

fun str_contains :: "string \<Rightarrow> string \<Rightarrow> bool" where
  "str_contains [] p \<longleftrightarrow> p = []"
| "str_contains (c # s) p \<longleftrightarrow> take (length p) (c # s) = p \<or> str_contains s p"

type_synonym uri_parser = "string \<Rightarrow> (string \<times> string) option"

definition full_address :: "string \<Rightarrow> string \<Rightarrow> string" where
  "full_address dflt addr = (if \<not> str_contains addr ''://'' then dflt @ ''://'' @ addr else addr)"

definition NewTransport :: "string \<Rightarrow> uri_parser \<Rightarrow> string \<Rightarrow> 'm transport option" where
  "NewTransport dflt parse addr =
     (case parse (full_address dflt addr) of
        None \<Rightarrow> None
      | Some (sch, host) \<Rightarrow>
          if sch \<in> {''chan'', ''tcp'', ''udp''}
          then Some \<lparr>uriScheme = sch, uriHost = host, tSend = [], tRecv = [], startSendingTime = 0, startRecvTime = 0,
                     totalSentBits = 0, totalRecvBits = 0, tClosed = False\<rparr>
          else None)"

definition TrSend :: "'m transport \<Rightarrow> 'm \<Rightarrow> 'm transport option" where
  "TrSend t m =
     (if tClosed t then None
      else do { q \<leftarrow> chan_put chan_cap (tSend t) m; Some (t\<lparr>tSend := q\<rparr>) })"

definition TrRecv :: "'m transport \<Rightarrow> ('m \<times> 'm transport) option" where
  "TrRecv t = (case tRecv t of [] \<Rightarrow> None | m # ms \<Rightarrow> Some (m, t\<lparr>tRecv := ms\<rparr>))"

definition TrClose :: "'m transport \<Rightarrow> 'm transport option" where
  "TrClose t = (if tClosed t then None else Some (t\<lparr>tClosed := True\<rparr>))"

text \<open>\<open>rate bits d\<close> is the floating-point division of the bits by the seconds in \<open>d\<close>; the clock is read twice.\<close>

definition SendBitsCount :: "(int \<Rightarrow> Time \<Rightarrow> int) \<Rightarrow> Time \<Rightarrow> Time \<Rightarrow> 'm transport \<Rightarrow> int \<times> 'm transport" where
  "SendBitsCount rate now now' t =
     (rate (totalSentBits t) (now - startSendingTime t), t\<lparr>totalSentBits := 0, startSendingTime := now'\<rparr>)"

definition RecvBitsCount :: "(int \<Rightarrow> Time \<Rightarrow> int) \<Rightarrow> Time \<Rightarrow> Time \<Rightarrow> 'm transport \<Rightarrow> int \<times> 'm transport" where
  "RecvBitsCount rate now now' t =
     (rate (totalRecvBits t) (now - startRecvTime t), t\<lparr>totalRecvBits := 0, startRecvTime := now'\<rparr>)"

section \<open>TCP and UDP\<close>

text \<open>\<open>dialled\<close> is the outcome of \<open>net.Dial\<close>, \<open>conn\<close> the values written to the connection so far, \<open>encoded\<close> the
  outcome of encoding a value onto the connection, and \<open>sz\<close> the length of a fresh encoding.\<close>

definition TrDial :: "error option \<Rightarrow> Time \<Rightarrow> 'm transport \<Rightarrow> error option \<times> 'm transport" where
  "TrDial dialled now t = (case dialled of Some err \<Rightarrow> (Some err, t) | None \<Rightarrow> (None, t\<lparr>startSendingTime := now\<rparr>))"

definition tcp_sender ::
  "('m \<Rightarrow> error option) \<Rightarrow> ('m \<Rightarrow> nat) \<Rightarrow> 'm transport \<Rightarrow> 'm list \<Rightarrow> ('m transport \<times> 'm list) option" where
  "tcp_sender encoded sz t conn =
     (case tSend t of
        [] \<Rightarrow> None
      | m # ms \<Rightarrow>
          Some (t\<lparr>tSend := ms, totalSentBits := i64 (totalSentBits t + int (sz m) * 8)\<rparr>,
                conn @ (case encoded m of None \<Rightarrow> [m] | Some err \<Rightarrow> [])))"

definition TcpListen :: "error option \<Rightarrow> Time \<Rightarrow> 'm transport \<Rightarrow> 'm transport option" where
  "TcpListen listening now t = (case listening of Some err \<Rightarrow> None | None \<Rightarrow> Some (t\<lparr>startRecvTime := now\<rparr>))"

text \<open>\<open>decoded\<close> is the outcome of decoding the next value.  The goroutine returns when the transport is closed, and tries
  again after an error.\<close>

definition tcp_receiver :: "('m \<Rightarrow> nat) \<Rightarrow> error + 'm \<Rightarrow> 'm transport \<Rightarrow> 'm transport option" where
  "tcp_receiver sz decoded t =
     (if tClosed t then None
      else
        case decoded of
          Inl err \<Rightarrow> Some t
        | Inr m \<Rightarrow>
            do { q \<leftarrow> chan_put chan_cap (tRecv t) m;
                 Some (t\<lparr>tRecv := q, totalRecvBits := i64 (totalRecvBits t + int (sz m) * 8)\<rparr>) })"

definition UdpDial :: "error option \<Rightarrow> error option \<Rightarrow> Time \<Rightarrow> 'm transport \<Rightarrow> (error option \<times> 'm transport) option" where
  "UdpDial resolved dialled now t =
     (case resolved of
        Some err \<Rightarrow> None
      | None \<Rightarrow> Some (case dialled of Some err \<Rightarrow> (Some err, t) | None \<Rightarrow> (None, t\<lparr>startSendingTime := now\<rparr>)))"

text \<open>The error of the encoder is dropped, so every message leads to a packet; \<open>written\<close> is the outcome of the write.\<close>

definition udp_sender ::
  "('m \<Rightarrow> error option) \<Rightarrow> ('m \<Rightarrow> nat) \<Rightarrow> 'm transport \<Rightarrow> 'm list \<Rightarrow> ('m transport \<times> 'm list) option" where
  "udp_sender written sz t conn =
     (case tSend t of
        [] \<Rightarrow> None
      | m # ms \<Rightarrow>
          Some (t\<lparr>tSend := ms, totalSentBits := i64 (totalSentBits t + int (sz m) * 8)\<rparr>,
                conn @ (case written m of None \<Rightarrow> [m] | Some err \<Rightarrow> [])))"

definition UdpListen :: "error option \<Rightarrow> error option \<Rightarrow> Time \<Rightarrow> 'm transport \<Rightarrow> 'm transport option" where
  "UdpListen resolved listening now t =
     (if resolved \<noteq> None \<or> listening \<noteq> None then None else Some (t\<lparr>startRecvTime := now\<rparr>))"

text \<open>\<open>received\<close> is the outcome of reading a packet: an error, or what the decoder makes of it.  The error of the decoder
  is dropped: then the value is still \<open>nil_value\<close>, and it is passed on like a message.\<close>

definition udp_receiver :: "'m \<Rightarrow> error + (error + 'm) \<Rightarrow> 'm transport \<Rightarrow> 'm transport option" where
  "udp_receiver nil_value received t =
     (if tClosed t then None
      else
        case received of
          Inl err \<Rightarrow> Some t
        | Inr decoded \<Rightarrow>
            do { q \<leftarrow> chan_put chan_cap (tRecv t) (case decoded of Inl err \<Rightarrow> nil_value | Inr m \<Rightarrow> m);
                 Some (t\<lparr>tRecv := q, totalRecvBits := i64 (totalRecvBits t + 1500 * 8)\<rparr>) })"

section \<open>The in-process transport\<close>

text \<open>
  The channels of \<open>chans\<close> are references into the list \<open>queues\<close>.  A goroutine keeps its transport, its channel, and
  the message it has taken and not yet passed on.  \<open>Listen\<close> makes a channel and starts the one goroutine that
  reads it, so the channel and the goroutine have the same index.
\<close>

record 'm goroutine =
  gTransport :: nat
  gQueue :: nat
  gHand :: "'m option"
  gStopped :: bool

record 'm chan_sys =
  chans :: "string \<rightharpoonup> nat"
  queues :: "'m list list"
  transports :: "'m transport list"
  senders :: "'m goroutine list"
  receivers :: "'m goroutine list"

definition NewChanSys :: "'m chan_sys" where
  "NewChanSys = \<lparr>chans = Map.empty, queues = [], transports = [], senders = [], receivers = []\<rparr>"

definition set_transport :: "nat \<Rightarrow> 'm transport \<Rightarrow> 'm chan_sys \<Rightarrow> 'm chan_sys" where
  "set_transport i t s = s\<lparr>transports := (transports s)[i := t]\<rparr>"

definition ChDial :: "Time \<Rightarrow> nat \<Rightarrow> 'm chan_sys \<Rightarrow> error option \<times> 'm chan_sys" where
  "ChDial now i s =
     (case chans s (uriHost (transports s ! i)) of
        None \<Rightarrow> (Some ''server not ready'', s)
      | Some q \<Rightarrow>
          (None, set_transport i ((transports s ! i)\<lparr>startSendingTime := now\<rparr>)
             (s\<lparr>senders := senders s @ [\<lparr>gTransport = i, gQueue = q, gHand = None, gStopped = False\<rparr>]\<rparr>)))"

definition ChListen :: "Time \<Rightarrow> nat \<Rightarrow> 'm chan_sys \<Rightarrow> 'm chan_sys" where
  "ChListen now i s =
     set_transport i ((transports s ! i)\<lparr>startRecvTime := now\<rparr>)
       (s\<lparr>chans := (chans s)(uriHost (transports s ! i) \<mapsto> length (queues s)), queues := queues s @ [[]],
          receivers := receivers s @ [\<lparr>gTransport = i, gQueue = length (queues s), gHand = None, gStopped = False\<rparr>]\<rparr>)"

text \<open>The two halves of an iteration of each loop: taking a message and passing it on.\<close>

definition sender_take :: "nat \<Rightarrow> 'm chan_sys \<Rightarrow> 'm chan_sys option" where
  "sender_take k s =
     (let g = senders s ! k; t = transports s ! gTransport g in
      if gHand g \<noteq> None then None
      else
        case tSend t of
          [] \<Rightarrow> None
        | m # ms \<Rightarrow>
            Some (set_transport (gTransport g) (t\<lparr>tSend := ms\<rparr>) (s\<lparr>senders := (senders s)[k := g\<lparr>gHand := Some m\<rparr>]\<rparr>)))"

definition sender_put :: "nat \<Rightarrow> 'm chan_sys \<Rightarrow> 'm chan_sys option" where
  "sender_put k s =
     (let g = senders s ! k in
      do { m \<leftarrow> gHand g;
           q \<leftarrow> chan_put chan_cap (queues s ! gQueue g) m;
           Some (s\<lparr>queues := (queues s)[gQueue g := q], senders := (senders s)[k := g\<lparr>gHand := None\<rparr>]\<rparr>) })"

definition receiver_take :: "nat \<Rightarrow> 'm chan_sys \<Rightarrow> 'm chan_sys option" where
  "receiver_take k s =
     (let g = receivers s ! k in
      if gHand g \<noteq> None \<or> gStopped g then None
      else
        case queues s ! gQueue g of
          [] \<Rightarrow> None
        | m # ms \<Rightarrow>
            Some (s\<lparr>queues := (queues s)[gQueue g := ms], receivers := (receivers s)[k := g\<lparr>gHand := Some m\<rparr>]\<rparr>))"

definition receiver_put :: "nat \<Rightarrow> 'm chan_sys \<Rightarrow> 'm chan_sys option" where
  "receiver_put k s =
     (let g = receivers s ! k; t = transports s ! gTransport g in
      do { m \<leftarrow> gHand g;
           q \<leftarrow> chan_put chan_cap (tRecv t) m;
           Some (set_transport (gTransport g) (t\<lparr>tRecv := q\<rparr>) (s\<lparr>receivers := (receivers s)[k := g\<lparr>gHand := None\<rparr>]\<rparr>)) })"

definition receiver_stop :: "nat \<Rightarrow> 'm chan_sys \<Rightarrow> 'm chan_sys option" where
  "receiver_stop k s =
     (let g = receivers s ! k in
      if gHand g = None \<and> tClosed (transports s ! gTransport g)
      then Some (s\<lparr>receivers := (receivers s)[k := g\<lparr>gStopped := True\<rparr>]\<rparr>) else None)"

datatype 'm chan_event =
    EvNew string
  | EvDial Time nat
  | EvListen Time nat
  | EvSend nat 'm
  | EvRecv nat
  | EvClose nat
  | EvSenderTake nat
  | EvSenderPut nat
  | EvReceiverTake nat
  | EvReceiverPut nat
  | EvReceiverStop nat

text \<open>A step, with the message that a call of \<open>Recv\<close> returns.\<close>

fun chan_step :: "string \<Rightarrow> uri_parser \<Rightarrow> 'm chan_event \<Rightarrow> 'm chan_sys \<Rightarrow> ((nat \<times> 'm) list \<times> 'm chan_sys) option" where
  "chan_step sch parse (EvNew addr) s =
     do { t \<leftarrow> NewTransport sch parse addr; Some ([], s\<lparr>transports := transports s @ [t]\<rparr>) }"
| "chan_step sch parse (EvDial now i) s = (if i < length (transports s) then Some ([], snd (ChDial now i s)) else None)"
| "chan_step sch parse (EvListen now i) s = (if i < length (transports s) then Some ([], ChListen now i s) else None)"
| "chan_step sch parse (EvSend i m) s =
     (if i < length (transports s)
      then do { t \<leftarrow> TrSend (transports s ! i) m; Some ([], set_transport i t s) } else None)"
| "chan_step sch parse (EvRecv i) s =
     (if i < length (transports s)
      then do { (m, t) \<leftarrow> TrRecv (transports s ! i); Some ([(i, m)], set_transport i t s) } else None)"
| "chan_step sch parse (EvClose i) s =
     (if i < length (transports s)
      then do { t \<leftarrow> TrClose (transports s ! i); Some ([], set_transport i t s) } else None)"
| "chan_step sch parse (EvSenderTake k) s =
     (if k < length (senders s) then do { s' \<leftarrow> sender_take k s; Some ([], s') } else None)"
| "chan_step sch parse (EvSenderPut k) s =
     (if k < length (senders s) then do { s' \<leftarrow> sender_put k s; Some ([], s') } else None)"
| "chan_step sch parse (EvReceiverTake k) s =
     (if k < length (receivers s) then do { s' \<leftarrow> receiver_take k s; Some ([], s') } else None)"
| "chan_step sch parse (EvReceiverPut k) s =
     (if k < length (receivers s) then do { s' \<leftarrow> receiver_put k s; Some ([], s') } else None)"
| "chan_step sch parse (EvReceiverStop k) s =
     (if k < length (receivers s) then do { s' \<leftarrow> receiver_stop k s; Some ([], s') } else None)"

fun chan_run :: "string \<Rightarrow> uri_parser \<Rightarrow> 'm chan_event list \<Rightarrow> 'm chan_sys \<Rightarrow> ((nat \<times> 'm) list \<times> 'm chan_sys) option" where
  "chan_run sch parse [] s = Some ([], s)"
| "chan_run sch parse (e # es) s =
     do { (out, s1) \<leftarrow> chan_step sch parse e s; (outs, s2) \<leftarrow> chan_run sch parse es s1; Some (out @ outs, s2) }"

section \<open>Nothing is lost, repeated or reordered\<close>

definition hand :: "'m goroutine \<Rightarrow> 'm list" where
  "hand g = (case gHand g of None \<Rightarrow> [] | Some m \<Rightarrow> [m])"

text \<open>What came out of a channel or is still in it: returned by \<open>Recv\<close>, waiting in the listening transport, in the hand of
  its goroutine, or in the queue.\<close>

definition pipeline :: "(nat \<Rightarrow> 'm list) \<Rightarrow> 'm chan_sys \<Rightarrow> nat \<Rightarrow> 'm list" where
  "pipeline got s q =
     (let g = receivers s ! q in
      got (gTransport g) @ tRecv (transports s ! gTransport g) @ hand g @ queues s ! q)"

definition chan_wf :: "'m chan_sys \<Rightarrow> bool" where
  "chan_wf s \<longleftrightarrow>
     length (receivers s) = length (queues s) \<and>
     (\<forall>q < length (queues s). gQueue (receivers s ! q) = q \<and> gTransport (receivers s ! q) < length (transports s)) \<and>
     (\<forall>k < length (senders s). gTransport (senders s ! k) < length (transports s) \<and> gQueue (senders s ! k) < length (queues s)) \<and>
     (\<forall>h q. chans s h = Some q \<longrightarrow> q < length (queues s))"

text \<open>\<open>sent\<close> and \<open>got\<close> are what was sent on and received from each transport so far.\<close>

definition chan_ok :: "('m \<Rightarrow> nat) \<Rightarrow> (nat \<Rightarrow> 'm list) \<Rightarrow> (nat \<Rightarrow> 'm list) \<Rightarrow> 'm chan_sys \<Rightarrow> bool" where
  "chan_ok origin sent got s \<longleftrightarrow>
     (\<forall>i \<ge> length (transports s). sent i = [] \<and> got i = []) \<and>
     (\<forall>i < length (transports s). i \<notin> set (map gTransport (senders s)) \<longrightarrow> tSend (transports s ! i) = sent i) \<and>
     (\<forall>k < length (senders s).
        filter (\<lambda>m. origin m = gTransport (senders s ! k)) (pipeline got s (gQueue (senders s ! k))) @
          hand (senders s ! k) @ tSend (transports s ! gTransport (senders s ! k)) = sent (gTransport (senders s ! k))) \<and>
     (\<forall>q < length (queues s). \<forall>m \<in> set (hand (receivers s ! q) @ queues s ! q).
        \<exists>k < length (senders s). gTransport (senders s ! k) = origin m \<and> gQueue (senders s ! k) = q) \<and>
     (\<forall>i < length (transports s). \<forall>m \<in> set (got i @ tRecv (transports s ! i)).
        \<exists>k < length (senders s). gTransport (senders s ! k) = origin m)"

lemma hand_simps [simp]:
  "hand (g\<lparr>gHand := None\<rparr>) = []" "hand (g\<lparr>gHand := Some m\<rparr>) = [m]" "hand (g\<lparr>gStopped := b\<rparr>) = hand g"
  "hand \<lparr>gTransport = i, gQueue = q, gHand = None, gStopped = b\<rparr> = []"
  "gHand g = None \<Longrightarrow> hand g = []" "gHand g = Some m \<Longrightarrow> hand g = [m]"
  by (simp_all add: hand_def)

lemma set_transport_simps [simp]:
  "transports (set_transport i t s) = (transports s)[i := t]" "senders (set_transport i t s) = senders s"
  "receivers (set_transport i t s) = receivers s" "queues (set_transport i t s) = queues s" "chans (set_transport i t s) = chans s"
  by (simp_all add: set_transport_def)

lemma chan_put_Some [simp]: "chan_put n q m = Some q' \<longleftrightarrow> length q < n \<and> q' = q @ [m]"
  by (auto simp: chan_put_def)

lemmas chan_ops = ChDial_def ChListen_def sender_take_def sender_put_def receiver_take_def receiver_put_def receiver_stop_def
  TrSend_def TrRecv_def TrClose_def NewTransport_def

lemma chan_step_wf:
  assumes "chan_step dflt parse e s = Some (out, s')" and "chan_wf s"
  shows "chan_wf s'"
  using assms
  by (cases e) (auto simp: chan_ops chan_wf_def Let_def bind_Some_conv nth_list_update nth_append less_Suc_eq
      split: option.splits list.splits if_splits prod.splits)

definition add_sent :: "'m chan_event \<Rightarrow> (nat \<Rightarrow> 'm list) \<Rightarrow> nat \<Rightarrow> 'm list" where
  "add_sent e sent = (case e of EvSend i m \<Rightarrow> sent(i := sent i @ [m]) | _ \<Rightarrow> sent)"

definition add_got :: "(nat \<times> 'm) list \<Rightarrow> (nat \<Rightarrow> 'm list) \<Rightarrow> nat \<Rightarrow> 'm list" where
  "add_got out got = (\<lambda>i. got i @ map snd (filter (\<lambda>p. fst p = i) out))"

definition origins :: "('m \<Rightarrow> nat) \<Rightarrow> (nat \<Rightarrow> 'm list) \<Rightarrow> bool" where
  "origins origin sent \<longleftrightarrow> (\<forall>i. \<forall>m \<in> set (sent i). origin m = i)"

lemma senders_unique:
  assumes "distinct (map gTransport (senders s))" and "j < length (senders s)" and "k < length (senders s)"
    and "gTransport (senders s ! j) = gTransport (senders s ! k)"
  shows "j = k"
  using assms nth_eq_iff_index_eq [of "map gTransport (senders s)" j k] by simp

lemma chan_ok_known:
  assumes "chan_ok origin sent got s"
  shows "q < length (queues s) \<Longrightarrow> m \<in> set (hand (receivers s ! q)) \<or> m \<in> set (queues s ! q) \<Longrightarrow>
      \<exists>k < length (senders s). gTransport (senders s ! k) = origin m \<and> gQueue (senders s ! k) = q"
    and "i < length (transports s) \<Longrightarrow> m \<in> set (got i) \<or> m \<in> set (tRecv (transports s ! i)) \<Longrightarrow>
      \<exists>k < length (senders s). gTransport (senders s ! k) = origin m"
  using assms by (simp_all add: chan_ok_def)

lemma chan_ok_new:
  assumes "chan_wf s" and "chan_ok origin sent got s" and "tSend t = []" and "tRecv t = []"
  shows "chan_ok origin sent got (s\<lparr>transports := transports s @ [t]\<rparr>)"
  using assms by (auto simp: chan_ok_def chan_wf_def pipeline_def Let_def nth_append less_Suc_eq)

lemma chan_ok_transport:
  assumes "chan_ok origin sent got s" and "i < length (transports s)" and "tSend t = tSend (transports s ! i)" and "tRecv t = tRecv (transports s ! i)"
  shows "chan_ok origin sent got (set_transport i t s)"
  using assms by (auto simp: chan_ok_def pipeline_def Let_def nth_list_update)

lemma chan_ok_send:
  assumes "chan_ok origin sent got s" and "i < length (transports s)" and "tSend t = tSend (transports s ! i) @ [m]" and "tRecv t = tRecv (transports s ! i)"
  shows "chan_ok origin (sent(i := sent i @ [m])) got (set_transport i t s)"
  using assms by (auto simp: chan_ok_def pipeline_def Let_def nth_list_update)

lemma chan_ok_recv:
  assumes "chan_ok origin sent got s" and "i < length (transports s)" and "tSend t = tSend (transports s ! i)" and "tRecv (transports s ! i) = m # tRecv t"
  shows "chan_ok origin sent (got(i := got i @ [m])) (set_transport i t s)"
  using assms by (auto simp: chan_ok_def pipeline_def Let_def nth_list_update)

lemma chan_ok_listen:
  assumes "chan_wf s" and "chan_ok origin sent got s" and "i < length (transports s)"
  shows "chan_ok origin sent got (ChListen now i s)"
proof -
  have "chan_ok origin sent got (s\<lparr>chans := c, queues := queues s @ [[]],
      receivers := receivers s @ [\<lparr>gTransport = i, gQueue = length (queues s), gHand = None, gStopped = False\<rparr>]\<rparr>)" for c
    using assms by (auto simp: chan_ok_def chan_wf_def pipeline_def Let_def nth_append less_Suc_eq)
  then show ?thesis unfolding ChListen_def by (rule chan_ok_transport) (use assms(3) in simp_all)
qed

lemma chan_ok_stop:
  assumes "chan_ok origin sent got s" and "receiver_stop k s = Some s'" and "k < length (receivers s)"
  shows "chan_ok origin sent got s'"
proof -
  have h: "hand ((receivers s)[k := (receivers s ! k)\<lparr>gStopped := True\<rparr>] ! q) = hand (receivers s ! q)"
    "gTransport ((receivers s)[k := (receivers s ! k)\<lparr>gStopped := True\<rparr>] ! q) = gTransport (receivers s ! q)" for q
    using assms(3) by (simp_all add: nth_list_update)
  show ?thesis using assms(1,2) by (auto simp: receiver_stop_def Let_def chan_ok_def pipeline_def h split: if_splits)
qed

lemma chan_ok_sender_take:
  assumes "chan_wf s" and "chan_ok origin sent got s" and "sender_take k s = Some s'" and "k < length (senders s)"
    and "distinct (map gTransport (senders s))"
  shows "chan_ok origin sent got s'"
proof -
  let ?g = "senders s ! k"
  let ?t = "transports s ! gTransport ?g"
  from assms(3) obtain m ms where m: "gHand ?g = None" "tSend ?t = m # ms"
    and s': "s' = set_transport (gTransport ?g) (?t\<lparr>tSend := ms\<rparr>) (s\<lparr>senders := (senders s)[k := ?g\<lparr>gHand := Some m\<rparr>]\<rparr>)"
    by (auto simp: sender_take_def Let_def split: list.splits if_splits)
  have g: "gTransport (senders s' ! j) = gTransport (senders s ! j)" "gQueue (senders s' ! j) = gQueue (senders s ! j)" for j
    using assms(4) by (simp_all add: s' nth_list_update)
  have l: "length (senders s') = length (senders s)" "map gTransport (senders s') = map gTransport (senders s)"
    "length (transports s') = length (transports s)" "queues s' = queues s" "receivers s' = receivers s"
    using assms(4) by (simp_all add: s' map_update list_update_same_conv)
  have i: "gTransport ?g < length (transports s)" using assms(1,4) by (simp add: chan_wf_def)
  have r: "tRecv (transports s' ! j) = tRecv (transports s ! j)" for j
    using i by (cases "j = gTransport ?g") (simp_all add: s')
  have p: "pipeline got s' q = pipeline got s q" for q by (simp add: pipeline_def l r)
  have f: "hand (senders s' ! j) @ tSend (transports s' ! gTransport (senders s ! j)) =
      hand (senders s ! j) @ tSend (transports s ! gTransport (senders s ! j))" if "j < length (senders s)" for j
    using that senders_unique [OF assms(5) that assms(4)] m i assms(4) by (cases "j = k") (auto simp: s' nth_list_update)
  have u: "tSend (transports s' ! j) = tSend (transports s ! j)" if "j \<notin> set (map gTransport (senders s))" for j
  proof -
    from that assms(4) have "j \<noteq> gTransport ?g" by auto
    then show ?thesis by (simp add: s')
  qed
  from assms(2) show ?thesis unfolding chan_ok_def l g p r by (simp add: f u)
qed

lemma chan_ok_receiver_take:
  assumes "chan_wf s" and "chan_ok origin sent got s" and "receiver_take k s = Some s'" and "k < length (receivers s)"
  shows "chan_ok origin sent got s'"
proof -
  let ?g = "receivers s ! k"
  have k: "gQueue ?g = k" "k < length (queues s)" using assms(1,4) by (simp_all add: chan_wf_def)
  from assms(3) k obtain m ms where m: "gHand ?g = None" "queues s ! k = m # ms"
    and s': "s' = s\<lparr>queues := (queues s)[k := ms], receivers := (receivers s)[k := ?g\<lparr>gHand := Some m\<rparr>]\<rparr>"
    by (auto simp: receiver_take_def Let_def split: list.splits if_splits)
  have g: "gTransport (receivers s' ! q) = gTransport (receivers s ! q)" for q
    using assms(4) by (simp add: s' nth_list_update)
  have h: "hand (receivers s' ! q) @ queues s' ! q = hand (receivers s ! q) @ queues s ! q" for q
    using m k(2) assms(4) by (cases "q = k") (simp_all add: s')
  have l: "senders s' = senders s" "transports s' = transports s" "length (queues s') = length (queues s)"
    by (simp_all add: s')
  have p: "pipeline got s' q = pipeline got s q" for q by (simp add: pipeline_def Let_def l g h)
  from assms(2) show ?thesis unfolding chan_ok_def l g p h .
qed

lemma chan_ok_sender_put:
  assumes "chan_wf s" and "chan_ok origin sent got s" and "sender_put k s = Some s'" and "k < length (senders s)"
    and "distinct (map gTransport (senders s))" and "origins origin sent"
  shows "chan_ok origin sent got s'"
proof -
  let ?g = "senders s ! k"
  let ?q = "gQueue ?g"
  have q: "?q < length (queues s)" using assms(1,4) by (simp add: chan_wf_def)
  from assms(3) obtain m where m: "hand ?g = [m]"
    and s': "s' = s\<lparr>queues := (queues s)[?q := queues s ! ?q @ [m]], senders := (senders s)[k := ?g\<lparr>gHand := None\<rparr>]\<rparr>"
    by (auto simp: sender_put_def Let_def bind_Some_conv)
  have fl: "filter (\<lambda>m. origin m = gTransport ?g) (pipeline got s ?q) @
      hand ?g @ tSend (transports s ! gTransport ?g) = sent (gTransport ?g)"
    using assms(2,4) by (simp add: chan_ok_def)
  have "m \<in> set (sent (gTransport ?g))" by (simp add: fl [symmetric] m)
  with assms(6) have om: "origin m = gTransport ?g" by (simp add: origins_def)
  have g: "gTransport (senders s' ! j) = gTransport (senders s ! j)" "gQueue (senders s' ! j) = gQueue (senders s ! j)" for j
    using assms(4) by (simp_all add: s' nth_list_update)
  have l: "length (senders s') = length (senders s)" "map gTransport (senders s') = map gTransport (senders s)"
    "transports s' = transports s" "length (queues s') = length (queues s)" "receivers s' = receivers s"
    using assms(4) by (simp_all add: s' map_update list_update_same_conv)
  have p: "pipeline got s' q = pipeline got s q @ (if q = ?q then [m] else [])" for q
    using q by (simp add: pipeline_def Let_def s')
  have hd': "hand (senders s' ! j) = (if j = k then [] else hand (senders s ! j))" for j
    using assms(4) by (simp add: s')
  have f: "filter (\<lambda>m. origin m = gTransport (senders s ! j)) (pipeline got s' (gQueue (senders s ! j))) @ hand (senders s' ! j) @ ms =
      filter (\<lambda>m. origin m = gTransport (senders s ! j)) (pipeline got s (gQueue (senders s ! j))) @ hand (senders s ! j) @ ms"
    if "j < length (senders s)" for j ms
    using that senders_unique [OF assms(5) that assms(4)] m om hd' by (cases "j = k") (auto simp: p)
  have o2: "x \<in> set (queues s ! q) \<or> q = ?q \<and> x = m" if "x \<in> set (queues s' ! q)" for x q
    using that q by (cases "q = ?q") (auto simp: s')
  show ?thesis
    unfolding chan_ok_def l g
  proof (intro conjI allI impI ballI)
    fix q x assume q: "q < length (queues s)" and x: "x \<in> set (hand (receivers s ! q) @ queues s' ! q)"
    from x o2 [of x q] have "(x \<in> set (hand (receivers s ! q)) \<or> x \<in> set (queues s ! q)) \<or> q = ?q \<and> x = m" by auto
    then show "\<exists>k < length (senders s). gTransport (senders s ! k) = origin x \<and> gQueue (senders s ! k) = q"
      using chan_ok_known(1) [OF assms(2) q, of x] assms(4) om by auto
  next
    fix j assume j: "j < length (senders s)"
    show "filter (\<lambda>m. origin m = gTransport (senders s ! j)) (pipeline got s' (gQueue (senders s ! j))) @
        hand (senders s' ! j) @ tSend (transports s ! gTransport (senders s ! j)) = sent (gTransport (senders s ! j))"
      unfolding f [OF j] using assms(2) j by (simp add: chan_ok_def)
  qed (use assms(2) in \<open>simp_all add: chan_ok_def\<close>)
qed

lemma chan_ok_receiver_put:
  assumes "chan_wf s" and "chan_ok origin sent got s" and "receiver_put k s = Some s'" and "k < length (receivers s)"
    and "distinct (map gTransport (senders s))"
  shows "chan_ok origin sent got s'"
proof -
  let ?g = "receivers s ! k"
  let ?l = "gTransport ?g"
  have k: "k < length (queues s)" "?l < length (transports s)" using assms(1,4) by (simp_all add: chan_wf_def)
  from assms(3) obtain m where m: "hand ?g = [m]"
    and s': "s' = set_transport ?l ((transports s ! ?l)\<lparr>tRecv := tRecv (transports s ! ?l) @ [m]\<rparr>)
      (s\<lparr>receivers := (receivers s)[k := ?g\<lparr>gHand := None\<rparr>]\<rparr>)"
    by (auto simp: receiver_put_def Let_def bind_Some_conv)
  from chan_ok_known(1) [OF assms(2) k(1), of m] m
  obtain j0 where j0: "j0 < length (senders s)" "gTransport (senders s ! j0) = origin m" "gQueue (senders s ! j0) = k" by auto
  have g: "gTransport (receivers s' ! q) = gTransport (receivers s ! q)" for q
    using assms(4) by (simp add: s' nth_list_update)
  have h: "hand (receivers s' ! q) = (if q = k then [] else hand (receivers s ! q))" for q
    using assms(4) by (simp add: s')
  have r: "tRecv (transports s' ! i) = tRecv (transports s ! i) @ (if i = ?l then [m] else [])" for i
    using k(2) by (simp add: s')
  have l: "senders s' = senders s" "length (transports s') = length (transports s)" "queues s' = queues s"
    by (simp_all add: s')
  have t: "tSend (transports s' ! i) = tSend (transports s ! i)" for i
    using k(2) by (cases "i = ?l") (simp_all add: s')
  have p: "filter (\<lambda>m. origin m = gTransport (senders s ! j)) (pipeline got s' (gQueue (senders s ! j))) =
      filter (\<lambda>m. origin m = gTransport (senders s ! j)) (pipeline got s (gQueue (senders s ! j)))" if "j < length (senders s)" for j
  proof (cases "gQueue (senders s ! j) = k")
    case True
    with m show ?thesis by (simp add: pipeline_def Let_def g h r l)
  next
    case False
    with j0 have "origin m \<noteq> gTransport (senders s ! j)" using senders_unique [OF assms(5) that j0(1)] by auto
    with False show ?thesis by (simp add: pipeline_def Let_def g h r l)
  qed
  show ?thesis
    unfolding chan_ok_def l t
  proof (intro conjI allI impI ballI)
    fix i x assume i: "i < length (transports s)" and x: "x \<in> set (got i @ tRecv (transports s' ! i))"
    from x have "(x \<in> set (got i) \<or> x \<in> set (tRecv (transports s ! i))) \<or> x = m" by (auto simp: r split: if_splits)
    then show "\<exists>k < length (senders s). gTransport (senders s ! k) = origin x"
      using chan_ok_known(2) [OF assms(2) i, of x] j0 by blast
  next
    fix q x assume q: "q < length (queues s)" and x: "x \<in> set (hand (receivers s' ! q) @ queues s ! q)"
    from x have "x \<in> set (hand (receivers s ! q)) \<or> x \<in> set (queues s ! q)" by (auto simp: h split: if_splits)
    then show "\<exists>k < length (senders s). gTransport (senders s ! k) = origin x \<and> gQueue (senders s ! k) = q"
      by (rule chan_ok_known(1) [OF assms(2) q])
  qed (use assms(2) p in \<open>simp_all add: chan_ok_def\<close>)
qed

lemma chan_ok_dial:
  assumes "chan_wf s" and "chan_ok origin sent got s" and "i < length (transports s)"
    and "distinct (map gTransport (senders (snd (ChDial now i s))))"
  shows "chan_ok origin sent got (snd (ChDial now i s))"
proof (cases "chans s (uriHost (transports s ! i))")
  case None
  then show ?thesis using assms(2) by (simp add: ChDial_def)
next
  case (Some q)
  let ?g = "\<lparr>gTransport = i, gQueue = q, gHand = None, gStopped = False\<rparr> :: 'a goroutine"
  let ?s = "s\<lparr>senders := senders s @ [?g]\<rparr>"
  from Some assms(1) have q: "q < length (queues s)" "gTransport (receivers s ! q) < length (transports s)"
    by (auto simp: chan_wf_def)
  from Some assms(4) have i: "i \<notin> set (map gTransport (senders s))" by (simp add: ChDial_def)
  have known: "origin m \<in> set (map gTransport (senders s))" if "m \<in> set (pipeline got s q)" for m
  proof -
    let ?l = "gTransport (receivers s ! q)"
    from that have "(m \<in> set (got ?l) \<or> m \<in> set (tRecv (transports s ! ?l))) \<or>
        m \<in> set (hand (receivers s ! q)) \<or> m \<in> set (queues s ! q)"
      by (auto simp: pipeline_def Let_def)
    then obtain k where "k < length (senders s)" "gTransport (senders s ! k) = origin m"
      using chan_ok_known(1) [OF assms(2) q(1), of m] chan_ok_known(2) [OF assms(2) q(2), of m] by blast
    then show ?thesis using nth_mem [of k "senders s"] by (metis image_eqI list.set_map)
  qed
  have p: "filter (\<lambda>m. origin m = i) (pipeline got s q) = []"
    using known i by (auto simp: filter_empty_conv)
  have ps: "pipeline got ?s q' = pipeline got s q'" for q' by (simp add: pipeline_def)
  have ex: "\<exists>k < length (senders ?s). P (senders ?s ! k)" if "\<exists>k < length (senders s). P (senders s ! k)" for P
  proof -
    from that obtain k where "k < length (senders s)" "P (senders s ! k)" by blast
    then show ?thesis by (intro exI [of _ k]) (simp add: nth_append)
  qed
  have "chan_ok origin sent got ?s"
    unfolding chan_ok_def ps
  proof (intro conjI allI impI ballI ex)
    fix k assume "k < length (senders ?s)"
    then have "k < length (senders s) \<or> k = length (senders s)" by auto
    with assms(2,3) i p show "filter (\<lambda>m. origin m = gTransport (senders ?s ! k)) (pipeline got s (gQueue (senders ?s ! k))) @
        hand (senders ?s ! k) @ tSend (transports ?s ! gTransport (senders ?s ! k)) = sent (gTransport (senders ?s ! k))"
      by (auto simp: chan_ok_def nth_append)
  qed (use assms(2) in \<open>auto simp: chan_ok_def\<close>)
  then have "chan_ok origin sent got (set_transport i ((transports s ! i)\<lparr>startSendingTime := now\<rparr>) ?s)"
    by (rule chan_ok_transport) (use assms(3) in simp_all)
  then show ?thesis using Some by (simp add: ChDial_def)
qed

lemma chan_step_ok:
  assumes "chan_step dflt parse e s = Some (out, s')" and "chan_wf s" and "chan_ok origin sent got s"
    and "distinct (map gTransport (senders s'))" and "distinct (map gTransport (senders s))" and "origins origin sent"
  shows "chan_ok origin (add_sent e sent) (add_got out got) s'"
proof (cases e)
  case (EvRecv i)
  with assms(1) obtain m t where i: "i < length (transports s)" and t: "TrRecv (transports s ! i) = Some (m, t)"
    and o: "out = [(i, m)]" "s' = set_transport i t s" by (auto simp: bind_Some_conv split: if_splits)
  have "add_got out got = got(i := got i @ [m])" by (auto simp: add_got_def o)
  moreover from t have "tSend t = tSend (transports s ! i)" "tRecv (transports s ! i) = m # tRecv t"
    by (auto simp: TrRecv_def split: list.splits)
  ultimately show ?thesis using chan_ok_recv [OF assms(3) i, of t m] EvRecv o by (simp add: add_sent_def)
qed (use assms in \<open>auto simp: add_sent_def add_got_def bind_Some_conv NewTransport_def TrSend_def TrClose_def
      intro: chan_ok_new chan_ok_dial chan_ok_listen chan_ok_send chan_ok_transport chan_ok_sender_take chan_ok_sender_put
        chan_ok_receiver_take chan_ok_receiver_put chan_ok_stop split: if_splits option.splits prod.splits\<close>)

definition sent_on :: "'m chan_event list \<Rightarrow> nat \<Rightarrow> 'm list" where
  "sent_on es i = concat (map (\<lambda>e. case e of EvSend j m \<Rightarrow> if j = i then [m] else [] | _ \<Rightarrow> []) es)"

definition got_from :: "(nat \<times> 'm) list \<Rightarrow> nat \<Rightarrow> 'm list" where
  "got_from outs i = map snd (filter (\<lambda>p. fst p = i) outs)"

lemma add_sent_sent_on: "add_sent e sent i @ sent_on es i = sent i @ sent_on (e # es) i"
  by (cases e) (auto simp: add_sent_def sent_on_def)

lemma map_update_same: "k < length xs \<Longrightarrow> (map f xs)[k := f (xs ! k)] = map f xs"
  by (simp add: list_update_same_conv)

lemma chan_step_senders:
  assumes "chan_step dflt parse e s = Some (out, s')"
  shows "\<exists>is. map gTransport (senders s') = map gTransport (senders s) @ is"
  using assms by (cases e) (auto simp: chan_ops Let_def bind_Some_conv map_update map_update_same
      split: option.splits list.splits if_splits prod.splits)

lemma chan_run_senders:
  "chan_run dflt parse es s = Some (outs, s') \<Longrightarrow> \<exists>is. map gTransport (senders s') = map gTransport (senders s) @ is"
proof (induction es arbitrary: s outs)
  case (Cons e es)
  then obtain out s1 outs1 where "chan_step dflt parse e s = Some (out, s1)" "chan_run dflt parse es s1 = Some (outs1, s')"
    by (auto simp: bind_Some_conv)
  with chan_step_senders [OF this(1)] Cons.IH [OF this(2)] show ?case by auto
qed simp

lemma chan_run_ok:
  assumes "chan_run dflt parse es s = Some (outs, s')" and "chan_wf s" and "chan_ok origin sent got s"
    and "distinct (map gTransport (senders s'))" and "origins origin (\<lambda>i. sent i @ sent_on es i)"
  shows "chan_ok origin (\<lambda>i. sent i @ sent_on es i) (\<lambda>i. got i @ got_from outs i) s'"
  using assms
proof (induction es arbitrary: s outs sent got)
  case (Cons e es)
  then obtain out s1 outs1 where step: "chan_step dflt parse e s = Some (out, s1)"
    and run: "chan_run dflt parse es s1 = Some (outs1, s')" and o: "outs = out @ outs1"
    by (auto simp: bind_Some_conv)
  from chan_run_senders [OF run] Cons.prems(4) have d1: "distinct (map gTransport (senders s1))"
    by (metis distinct_append)
  from chan_step_senders [OF step] d1 have d: "distinct (map gTransport (senders s))"
    by (metis distinct_append)
  have og: "origins origin (\<lambda>i. add_sent e sent i @ sent_on es i)" using Cons.prems(5) by (simp add: add_sent_sent_on)
  have "origins origin sent" using Cons.prems(5) by (simp add: origins_def)
  from Cons.IH [OF run chan_step_wf [OF step Cons.prems(2)] chan_step_ok [OF step Cons.prems(2,3) d1 d this] Cons.prems(4) og]
  show ?case by (simp add: add_sent_sent_on add_got_def got_from_def o)
qed (simp add: sent_on_def got_from_def)

text \<open>C32 (in-process delivery): in any run of the in-process transport in which no transport is dialled twice, the messages sent on a dialled
  transport are, in the order of sending, those returned by \<open>Recv\<close> at the listening side, those still waiting
  there, in the channel or in the hands of the two goroutines, and those not yet taken from the
  transport.  Messages of other senders, told apart by \<open>origin\<close>, may lie in between.\<close>

theorem channel_transport_fifo:
  assumes "chan_run dflt parse es NewChanSys = Some (outs, s)" and "origins origin (sent_on es)"
    and "distinct (map gTransport (senders s))" and "k < length (senders s)"
    and "g = senders s ! k" and "r = receivers s ! gQueue g"
  shows "filter (\<lambda>m. origin m = gTransport g)
      (got_from outs (gTransport r) @ tRecv (transports s ! gTransport r) @ hand r @ queues s ! gQueue g) @
      hand g @ tSend (transports s ! gTransport g) = sent_on es (gTransport g)"
proof -
  have "chan_wf (NewChanSys :: 'a chan_sys)" "chan_ok origin (\<lambda>i. []) (\<lambda>i. []) NewChanSys"
    by (simp_all add: NewChanSys_def chan_wf_def chan_ok_def)
  from chan_run_ok [OF assms(1) this assms(3)] assms(2)
  have "chan_ok origin (sent_on es) (got_from outs) s" by simp
  with assms(4-6) show ?thesis by (simp add: chan_ok_def pipeline_def Let_def)
qed

definition demo_events :: "(nat \<times> nat) chan_event list" where
  "demo_events =
     [EvNew ''a'', EvListen 0 0, EvNew ''a'', EvNew ''a'', EvSend 1 (1, 7), EvDial 0 1, EvDial 0 2, EvSend 2 (2, 5), EvSend 1 (1, 8),
      EvSenderTake 0, EvSenderTake 1, EvSenderPut 1, EvSenderPut 0, EvReceiverTake 0, EvReceiverPut 0, EvReceiverTake 0,
      EvReceiverPut 0, EvRecv 0, EvRecv 0]"

theorem channel_transport_fifo_witness:
  "\<exists>s. chan_run ''chan'' (\<lambda>a. Some (''chan'', a)) demo_events NewChanSys = Some ([(0, (2, 5)), (0, (1, 7))], s) \<and>
     tSend (transports s ! 1) = [(1, 8)] \<and>
     filter (\<lambda>m. fst m = 1) (got_from [(0, (2, 5)), (0, (1, 7))] 0) @ tSend (transports s ! 1) = sent_on demo_events 1"
proof -
  obtain s where s: "chan_run ''chan'' (\<lambda>a. Some (''chan'', a)) demo_events NewChanSys = Some ([(0, (2, 5)), (0, (1, 7))], s)"
    and v: "map gTransport (senders s) = [1, 2]" "map gQueue (senders s) = [0, 0]" "hand (senders s ! 0) = []"
      "length (senders s) = 2" "gTransport (receivers s ! 0) = 0" "hand (receivers s ! 0) = []" "queues s ! 0 = []"
      "tRecv (transports s ! 0) = []" "tSend (transports s ! 1) = [(1, 8)]"
    by (simp add: demo_events_def NewChanSys_def chan_ops set_transport_def full_address_def chan_put_def chan_cap_def Let_def hand_def)
  have o: "origins fst (sent_on demo_events)" by (auto simp: origins_def sent_on_def demo_events_def split: if_splits)
  have g: "gTransport (senders s ! 0) = 1" "gQueue (senders s ! 0) = 0"
    using v(1,2,4) by (metis (no_types, lifting) nth_Cons_0 nth_map zero_less_numeral)+
  have "0 < length (senders s)" "distinct (map gTransport (senders s))" using v by simp_all
  from channel_transport_fifo [OF s o this(2,1) refl refl] s g v show ?thesis by simp
qed

end
