(* ===== verification/Socket.thy ===== *)
theory Socket
  imports Transport Complex_Main
begin

text \<open>
  The socket of a node (src/socket/socket.go): lazily dialled transports to the other nodes, and fault injection.

  A socket has two tables of addresses and transports, for \<open>Send\<close> and \<open>Send2\<close>, whose texts are the same;
  the flag \<open>b\<close> selects the table.  A timer started by the code is an entry of \<open>timers\<close> with the time at which it is
  due, and \<open>fire\<close> runs one.  A delayed message keeps its transport, which the table never replaces.  Random draws are
  arguments, numbered by \<open>skRng\<close>.  A floating-point number is only compared, so it is a real number.
\<close>

section \<open>State\<close>

datatype 'm sk_timer =
    TmSend bool NodeID 'm
  | TmDrop NodeID
  | TmSlow NodeID
  | TmFlaky NodeID
  | TmCrash

record 'm socket =
  skId :: NodeID
  addresses :: "NodeID \<rightharpoonup> string"
  addresses2 :: "NodeID \<rightharpoonup> string"
  nodes :: "NodeID \<rightharpoonup> 'm transport"
  nodes2 :: "NodeID \<rightharpoonup> 'm transport"
  skCrash :: bool
  skDrop :: "NodeID \<rightharpoonup> bool"
  skSlow :: "NodeID \<rightharpoonup> int"
  skFlaky :: "NodeID \<rightharpoonup> real"
  timers :: "(Time \<times> 'm sk_timer) list"
  skRng :: nat

record 'm SockEnv =
  skScheme :: string
  skParse :: uri_parser
  skListen :: "'m transport \<Rightarrow> error option"
  skResolve :: "'m transport \<Rightarrow> error option"
  skDial :: "'m transport \<Rightarrow> nat \<Rightarrow> error option"
  skDelay :: int
  skDErr :: int
  skFloat :: "nat \<Rightarrow> real"
  skIntn :: Draws
  skRange :: "NodeID set \<Rightarrow> NodeID list"
  skSize :: "'m \<Rightarrow> nat"

definition addresses_of :: "bool \<Rightarrow> 'm socket \<Rightarrow> NodeID \<rightharpoonup> string" where
  "addresses_of b s = (if b then addresses2 s else addresses s)"

definition nodes_of :: "bool \<Rightarrow> 'm socket \<Rightarrow> NodeID \<rightharpoonup> 'm transport" where
  "nodes_of b s = (if b then nodes2 s else nodes s)"

definition set_node :: "bool \<Rightarrow> NodeID \<Rightarrow> 'm transport \<Rightarrow> 'm socket \<Rightarrow> 'm socket" where
  "set_node b x t s = (if b then s\<lparr>nodes2 := (nodes2 s)(x \<mapsto> t)\<rparr> else s\<lparr>nodes := (nodes s)(x \<mapsto> t)\<rparr>)"

text \<open>The listening transport of a node; an address that is missing from the table reads as the empty string.\<close>

definition listener :: "'m SockEnv \<Rightarrow> Time \<Rightarrow> string option \<Rightarrow> 'm transport option" where
  "listener e now addr =
     do { t \<leftarrow> NewTransport (skScheme e) (skParse e) (case addr of None \<Rightarrow> [] | Some a \<Rightarrow> a);
          if uriScheme t = ''udp'' then UdpListen (skResolve e t) (skListen e t) now t
          else if uriScheme t = ''tcp'' then TcpListen (skListen e t) now t
          else Some (t\<lparr>startRecvTime := now\<rparr>) }"

definition NewSocket ::
  "'m SockEnv \<Rightarrow> Time \<Rightarrow> NodeID \<Rightarrow> (NodeID \<rightharpoonup> string) \<Rightarrow> (NodeID \<rightharpoonup> string) \<Rightarrow> 'm socket option" where
  "NewSocket e now me addrs addrs2 =
     do { t \<leftarrow> listener e now (addrs me);
          t2 \<leftarrow> listener e now (addrs2 me);
          Some \<lparr>skId = me, addresses = addrs, addresses2 = addrs2, nodes = [me \<mapsto> t], nodes2 = [me \<mapsto> t2],
                skCrash = False, skDrop = Map.empty, skSlow = Map.empty, skFlaky = Map.empty, timers = [], skRng = 0\<rparr> }"

section \<open>Sending\<close>

definition millisecond :: int where "millisecond = 10 ^ 6"

definition seconds :: "int \<Rightarrow> int" where "seconds t = i64 (t * 10 ^ 9)"

text \<open>The transport to a node, dialled when there is none yet: \<open>Some None\<close> if the address is unknown, \<open>None\<close> if the
  process ends because the address is malformed or the node cannot be reached.\<close>

definition connect :: "'m SockEnv \<Rightarrow> Time \<Rightarrow> bool \<Rightarrow> 'm socket \<Rightarrow> NodeID \<Rightarrow> 'm transport option option" where
  "connect e now b s dst =
     (case nodes_of b s dst of
        Some t \<Rightarrow> Some (Some t)
      | None \<Rightarrow>
          (case addresses_of b s dst of
             None \<Rightarrow> Some None
           | Some address \<Rightarrow>
               do { t \<leftarrow> NewTransport (skScheme e) (skParse e) address;
                    if uriScheme t = ''udp'' \<and> skResolve e t \<noteq> None then None
                    else if Retry (skDial e t) 100 \<noteq> None then None
                    else Some (Some (snd (TrDial None now t))) }))"

definition add_timer :: "Time \<Rightarrow> 'm sk_timer \<Rightarrow> 'm socket \<Rightarrow> 'm socket" where
  "add_timer d x s = s\<lparr>timers := timers s @ [(d, x)]\<rparr>"

text \<open>From the simulated delay on.\<close>

definition transmit :: "'m SockEnv \<Rightarrow> Time \<Rightarrow> bool \<Rightarrow> 'm socket \<Rightarrow> NodeID \<Rightarrow> 'm transport \<Rightarrow> 'm \<Rightarrow> 'm socket option" where
  "transmit e now b s dst t m =
     (if skDelay e \<noteq> 0 then
        let hi = skDelay e + skDErr e; lo = skDelay e - skDErr e in
        if hi - lo + 1 \<le> 0 then None
        else Some (add_timer (now + (skIntn e (skRng s) (hi - lo + 1) + lo) * millisecond) (TmSend b dst m) (s\<lparr>skRng := Suc (skRng s)\<rparr>))
      else
        case skSlow s dst of
          Some d \<Rightarrow>
            if d > 0 then Some (add_timer (now + d * millisecond) (TmSend b dst m) s)
            else do { t' \<leftarrow> TrSend t m; Some (set_node b dst t' s) }
        | None \<Rightarrow> do { t' \<leftarrow> TrSend t m; Some (set_node b dst t' s) })"

definition send_on :: "bool \<Rightarrow> 'm SockEnv \<Rightarrow> Time \<Rightarrow> 'm socket \<Rightarrow> NodeID \<Rightarrow> 'm \<Rightarrow> 'm socket option" where
  "send_on b e now s dst m =
     (if skCrash s then Some s
      else if skDrop s dst = Some True then Some s
      else
        let drawn = (case skFlaky s dst of None \<Rightarrow> False | Some p \<Rightarrow> p > 0);
            s1 = (if drawn then s\<lparr>skRng := Suc (skRng s)\<rparr> else s) in
        if drawn \<and> skFloat e (skRng s) < the (skFlaky s dst) then Some s1
        else
          do { c \<leftarrow> connect e now b s1 dst;
               case c of None \<Rightarrow> Some s1 | Some t \<Rightarrow> transmit e now b (set_node b dst t s1) dst t m })"

definition Send :: "'m SockEnv \<Rightarrow> Time \<Rightarrow> 'm socket \<Rightarrow> NodeID \<Rightarrow> 'm \<Rightarrow> 'm socket option" where
  "Send = send_on False"

definition Send2 :: "'m SockEnv \<Rightarrow> Time \<Rightarrow> 'm socket \<Rightarrow> NodeID \<Rightarrow> 'm \<Rightarrow> 'm socket option" where
  "Send2 = send_on True"

text \<open>The loops over receivers; the node itself is skipped.\<close>

fun send_each :: "bool \<Rightarrow> 'm SockEnv \<Rightarrow> Time \<Rightarrow> 'm socket \<Rightarrow> NodeID list \<Rightarrow> 'm \<Rightarrow> 'm socket option" where
  "send_each b e now s [] m = Some s"
| "send_each b e now s (x # xs) m =
     (if x = skId s then send_each b e now s xs m
      else do { s1 \<leftarrow> send_on b e now s x m; send_each b e now s1 xs m })"

definition MulticastQuorum :: "'m SockEnv \<Rightarrow> Time \<Rightarrow> 'm socket \<Rightarrow> NodeID list \<Rightarrow> 'm \<Rightarrow> 'm socket option" where
  "MulticastQuorum e now s xs m = send_each False e now s xs m"

definition MulticastQuorum2 :: "'m SockEnv \<Rightarrow> Time \<Rightarrow> 'm socket \<Rightarrow> NodeID list \<Rightarrow> 'm \<Rightarrow> 'm socket option" where
  "MulticastQuorum2 e now s xs m = send_each True e now s xs m"

definition Broadcast :: "'m SockEnv \<Rightarrow> Time \<Rightarrow> 'm socket \<Rightarrow> 'm \<Rightarrow> 'm socket option" where
  "Broadcast e now s m = send_each False e now s (skRange e (dom (addresses s))) m"

text \<open>\<open>Broadcast2\<close> ranges over the first table of addresses.\<close>

definition Broadcast2 :: "'m SockEnv \<Rightarrow> Time \<Rightarrow> 'm socket \<Rightarrow> 'm \<Rightarrow> 'm socket option" where
  "Broadcast2 e now s m = send_each True e now s (skRange e (dom (addresses s))) m"

definition SkBroadcastByGroup :: "'m SockEnv \<Rightarrow> Time \<Rightarrow> 'm socket \<Rightarrow> 'm \<Rightarrow> NodeID set \<Rightarrow> 'm socket option" where
  "SkBroadcastByGroup e now s block memberList = send_each False e now s (skRange e memberList) block"

section \<open>Receiving, closing, rates\<close>

text \<open>An iteration of the loop of \<open>Recv\<close> or \<open>Recv2\<close>: a message is taken, and returned unless the node has crashed.\<close>

definition recv_on :: "bool \<Rightarrow> 'm socket \<Rightarrow> ('m option \<times> 'm socket) option" where
  "recv_on b s =
     do { t \<leftarrow> nodes_of b s (skId s);
          (m, t') \<leftarrow> TrRecv t;
          Some (if skCrash s then None else Some m, set_node b (skId s) t' s) }"

fun close_each :: "'m socket \<Rightarrow> NodeID list \<Rightarrow> 'm socket option" where
  "close_each s [] = Some s"
| "close_each s (x # xs) =
     do { t \<leftarrow> nodes s x; t' \<leftarrow> TrClose t; close_each (set_node False x t' s) xs }"

definition SkClose :: "'m SockEnv \<Rightarrow> 'm socket \<Rightarrow> 'm socket option" where
  "SkClose e s = close_each s (skRange e (dom (nodes s)))"

fun rate_each :: "(int \<Rightarrow> Time \<Rightarrow> int) \<Rightarrow> Time \<Rightarrow> int \<Rightarrow> 'm socket \<Rightarrow> NodeID list \<Rightarrow> (int \<times> 'm socket) option" where
  "rate_each rate now acc s [] = Some (acc, s)"
| "rate_each rate now acc s (x # xs) =
     do { t \<leftarrow> nodes s x;
          (let (r, t') = SendBitsCount rate now now t in rate_each rate now (i64 (acc + r)) (set_node False x t' s) xs) }"

text \<open>The rates before their conversion to megabits.\<close>

definition SendRate :: "'m SockEnv \<Rightarrow> (int \<Rightarrow> Time \<Rightarrow> int) \<Rightarrow> Time \<Rightarrow> 'm socket \<Rightarrow> (int \<times> 'm socket) option" where
  "SendRate e rate now s = rate_each rate now 0 s (skRange e (dom (nodes s)))"

definition RecvRate :: "(int \<Rightarrow> Time \<Rightarrow> int) \<Rightarrow> Time \<Rightarrow> 'm socket \<Rightarrow> (int \<times> 'm socket) option" where
  "RecvRate rate now s =
     do { t \<leftarrow> nodes s (skId s);
          (let (r, t') = RecvBitsCount rate now now t in Some (r, set_node False (skId s) t' s)) }"

section \<open>Fault injection\<close>

definition SkDrop :: "Time \<Rightarrow> 'm socket \<Rightarrow> NodeID \<Rightarrow> int \<Rightarrow> 'm socket" where
  "SkDrop now s x t = add_timer (now + seconds t) (TmDrop x) (s\<lparr>skDrop := (skDrop s)(x \<mapsto> True)\<rparr>)"

definition SkSlow :: "Time \<Rightarrow> 'm socket \<Rightarrow> NodeID \<Rightarrow> int \<Rightarrow> int \<Rightarrow> 'm socket" where
  "SkSlow now s x d t = add_timer (now + seconds t) (TmSlow x) (s\<lparr>skSlow := (skSlow s)(x \<mapsto> d)\<rparr>)"

definition SkFlaky :: "Time \<Rightarrow> 'm socket \<Rightarrow> NodeID \<Rightarrow> real \<Rightarrow> int \<Rightarrow> 'm socket" where
  "SkFlaky now s x p t = add_timer (now + seconds t) (TmFlaky x) (s\<lparr>skFlaky := (skFlaky s)(x \<mapsto> p)\<rparr>)"

definition SkCrash :: "Time \<Rightarrow> 'm socket \<Rightarrow> int \<Rightarrow> 'm socket" where
  "SkCrash now s t =
     (let s1 = s\<lparr>skCrash := True\<rparr> in if t > 0 then add_timer (now + seconds t) TmCrash s1 else s1)"

fun timer_action :: "'m sk_timer \<Rightarrow> 'm socket \<Rightarrow> 'm socket option" where
  "timer_action (TmSend b dst m) s = do { t \<leftarrow> nodes_of b s dst; t' \<leftarrow> TrSend t m; Some (set_node b dst t' s) }"
| "timer_action (TmDrop x) s = Some (s\<lparr>skDrop := (skDrop s)(x \<mapsto> False)\<rparr>)"
| "timer_action (TmSlow x) s = Some (s\<lparr>skSlow := (skSlow s)(x \<mapsto> 0)\<rparr>)"
| "timer_action (TmFlaky x) s = Some (s\<lparr>skFlaky := (skFlaky s)(x \<mapsto> 0)\<rparr>)"
| "timer_action TmCrash s = Some (s\<lparr>skCrash := False\<rparr>)"

definition fire :: "Time \<Rightarrow> nat \<Rightarrow> 'm socket \<Rightarrow> 'm socket option" where
  "fire now k s =
     (if k < length (timers s) \<and> fst (timers s ! k) \<le> now
      then timer_action (snd (timers s ! k)) (s\<lparr>timers := take k (timers s) @ drop (Suc k) (timers s)\<rparr>)
      else None)"

section \<open>A message leaves once, or not at all\<close>

text \<open>The messages handed to the transport of a node and not yet written by its goroutine.\<close>

definition outgoing :: "bool \<Rightarrow> 'm socket \<Rightarrow> NodeID \<Rightarrow> 'm list" where
  "outgoing b s x = (case nodes_of b s x of None \<Rightarrow> [] | Some t \<Rightarrow> tSend t)"

lemma nodes_of_set_node [simp]: "nodes_of b' (set_node b x t s) = (if b' = b then (nodes_of b s)(x \<mapsto> t) else nodes_of b' s)"
  by (auto simp: nodes_of_def set_node_def)

lemma set_node_fields [simp]:
  "skId (set_node b x t s) = skId s" "addresses (set_node b x t s) = addresses s" "addresses2 (set_node b x t s) = addresses2 s"
  "skCrash (set_node b x t s) = skCrash s" "skDrop (set_node b x t s) = skDrop s" "skSlow (set_node b x t s) = skSlow s"
  "skFlaky (set_node b x t s) = skFlaky s" "timers (set_node b x t s) = timers s" "skRng (set_node b x t s) = skRng s"
  by (simp_all add: set_node_def)

lemma add_timer_fields [simp]:
  "skId (add_timer d a s) = skId s" "addresses (add_timer d a s) = addresses s" "addresses2 (add_timer d a s) = addresses2 s"
  "skCrash (add_timer d a s) = skCrash s" "skDrop (add_timer d a s) = skDrop s" "skSlow (add_timer d a s) = skSlow s"
  "skFlaky (add_timer d a s) = skFlaky s" "timers (add_timer d a s) = timers s @ [(d, a)]" "skRng (add_timer d a s) = skRng s"
  "nodes_of b (add_timer d a s) = nodes_of b s"
  by (simp_all add: add_timer_def nodes_of_def)

lemma nodes_of_update [simp]:
  "nodes_of b (s\<lparr>skRng := k\<rparr>) = nodes_of b s" "nodes_of b (s\<lparr>skCrash := c\<rparr>) = nodes_of b s" "nodes_of b (s\<lparr>skDrop := d\<rparr>) = nodes_of b s"
  "nodes_of b (s\<lparr>skSlow := w\<rparr>) = nodes_of b s" "nodes_of b (s\<lparr>skFlaky := f\<rparr>) = nodes_of b s" "nodes_of b (s\<lparr>timers := ts\<rparr>) = nodes_of b s"
  by (simp_all add: nodes_of_def)

lemma TrSend_Some: "TrSend t m = Some t' \<longleftrightarrow> \<not> tClosed t \<and> length (tSend t) < chan_cap \<and> t' = t\<lparr>tSend := tSend t @ [m]\<rparr>"
  by (auto simp: TrSend_def bind_Some_conv)

text \<open>What \<open>send_on\<close> leaves alone: the faults and everything but the one transport.\<close>

lemma send_on_frame:
  assumes "send_on b e now s dst m = Some s'"
  shows "skId s' = skId s" "addresses s' = addresses s" "addresses2 s' = addresses2 s" "skCrash s' = skCrash s"
    "skDrop s' = skDrop s" "skSlow s' = skSlow s" "skFlaky s' = skFlaky s"
    "x \<noteq> dst \<or> b' \<noteq> b \<Longrightarrow> nodes_of b' s' x = nodes_of b' s x"
    "\<exists>ts. timers s' = timers s @ ts \<and> set (map snd ts) \<subseteq> {TmSend b dst m}"
  using assms
  by (auto simp: send_on_def transmit_def Let_def bind_Some_conv split: if_splits option.splits)

definition faultless :: "'m socket \<Rightarrow> NodeID \<Rightarrow> bool" where
  "faultless s x \<longleftrightarrow>
     \<not> skCrash s \<and> skDrop s x \<noteq> Some True \<and> (case skFlaky s x of None \<Rightarrow> True | Some p \<Rightarrow> p \<le> 0) \<and>
     (case skSlow s x of None \<Rightarrow> True | Some d \<Rightarrow> d \<le> 0)"

text \<open>There is a transport with room, or one can be dialled.\<close>

definition reachable :: "'m SockEnv \<Rightarrow> bool \<Rightarrow> 'm socket \<Rightarrow> NodeID \<Rightarrow> bool" where
  "reachable e b s x \<longleftrightarrow>
     (case nodes_of b s x of
        Some t \<Rightarrow> \<not> tClosed t \<and> length (tSend t) < chan_cap
      | None \<Rightarrow>
          (case addresses_of b s x of
             None \<Rightarrow> False
           | Some a \<Rightarrow>
               (case NewTransport (skScheme e) (skParse e) a of
                  None \<Rightarrow> False
                | Some t \<Rightarrow> (uriScheme t = ''udp'' \<longrightarrow> skResolve e t = None) \<and> Retry (skDial e t) 100 = None)))"

lemma NewTransport_fields:
  "NewTransport dflt parse a = Some t \<Longrightarrow> tSend t = [] \<and> tRecv t = [] \<and> \<not> tClosed t"
  by (auto simp: NewTransport_def split: option.splits if_splits)

lemma connect_reachable:
  assumes "reachable e b s x"
  shows "\<exists>t. connect e now b s x = Some (Some t) \<and> tSend t = outgoing b s x \<and> \<not> tClosed t \<and> length (tSend t) < chan_cap"
proof (cases "nodes_of b s x")
  case None
  with assms obtain a t where a: "addresses_of b s x = Some a" "NewTransport (skScheme e) (skParse e) a = Some t"
    "uriScheme t = ''udp'' \<longrightarrow> skResolve e t = None" "Retry (skDial e t) 100 = None"
    by (auto simp: reachable_def split: option.splits)
  with None NewTransport_fields [OF a(2)] show ?thesis by (auto simp: connect_def TrDial_def outgoing_def chan_cap_def)
qed (use assms in \<open>auto simp: reachable_def connect_def outgoing_def\<close>)

lemma set_node_twice [simp]: "set_node b x t2 (set_node b x t1 s) = set_node b x t2 s"
  by (simp add: set_node_def)

lemma send_on_faultless:
  assumes "faultless s x" and "reachable e b s x" and "skDelay e = 0"
  shows "\<exists>t. connect e now b s x = Some (Some t) \<and> tSend t = outgoing b s x \<and>
    send_on b e now s x m = Some (set_node b x (t\<lparr>tSend := tSend t @ [m]\<rparr>) s)"
proof -
  from connect_reachable [OF assms(2), of now] obtain t where t: "connect e now b s x = Some (Some t)"
    "tSend t = outgoing b s x" "\<not> tClosed t" "length (tSend t) < chan_cap" by blast
  have "TrSend t m = Some (t\<lparr>tSend := tSend t @ [m]\<rparr>)" using t by (simp add: TrSend_Some)
  with assms(1,3) t show ?thesis
    by (auto simp: faultless_def send_on_def transmit_def Let_def split: option.splits if_splits)
qed

lemma outgoing_frame:
  assumes "send_on b e now s dst m = Some s'" and "x \<noteq> dst \<or> b' \<noteq> b"
  shows "outgoing b' s' x = outgoing b' s x"
  using send_on_frame(8) [OF assms(1,2)] by (simp add: outgoing_def)

text \<open>All transports of one of the tables at once.\<close>

definition set_nodes :: "bool \<Rightarrow> (NodeID \<rightharpoonup> 'm transport) \<Rightarrow> 'm socket \<Rightarrow> 'm socket" where
  "set_nodes b ns s = (if b then s\<lparr>nodes2 := ns\<rparr> else s\<lparr>nodes := ns\<rparr>)"

lemma set_nodes_set_node [simp]: "set_nodes b ns (set_node b x t s) = set_nodes b ns s"
  by (simp add: set_nodes_def set_node_def)

lemma set_nodes_same [simp]: "set_nodes b (nodes_of b s) s = s"
  by (simp add: set_nodes_def nodes_of_def)

text \<open>The message was appended to the transport to \<open>x\<close>, after dialling where there was none.\<close>

definition handed :: "'m SockEnv \<Rightarrow> Time \<Rightarrow> bool \<Rightarrow> 'm socket \<Rightarrow> 'm \<Rightarrow> NodeID \<Rightarrow> 'm transport option \<Rightarrow> bool" where
  "handed e now b s m x r \<longleftrightarrow>
     (\<exists>t. connect e now b s x = Some (Some t) \<and> tSend t = outgoing b s x \<and> r = Some (t\<lparr>tSend := tSend t @ [m]\<rparr>))"

lemma send_each_reaches:
  assumes "list_all (\<lambda>x. faultless s x \<and> reachable e b s x) (filter (\<lambda>x. x \<noteq> skId s) xs)" and "distinct xs" and "skDelay e = 0"
  shows "\<exists>ns. send_each b e now s xs m = Some (set_nodes b ns s) \<and>
    (\<forall>x. if x \<in> set xs \<and> x \<noteq> skId s then handed e now b s m x (ns x) else ns x = nodes_of b s x)"
  using assms(1,2)
proof (induction xs arbitrary: s)
  case Nil
  show ?case by (rule exI [of _ "nodes_of b s"]) simp
next
  case (Cons x xs)
  show ?case
  proof (cases "x = skId s")
    case True
    with Cons.IH [of s] Cons.prems show ?thesis by auto
  next
    case False
    with Cons.prems have "faultless s x" "reachable e b s x" by simp_all
    from send_on_faultless [OF this assms(3), of now m] obtain t where t: "handed e now b s m x (Some t)"
      "send_on b e now s x m = Some (set_node b x t s)" by (auto simp: handed_def)
    let ?s1 = "set_node b x t s"
    have a: "addresses_of b ?s1 = addresses_of b s" by (simp add: addresses_of_def)
    have n: "nodes_of b ?s1 y = nodes_of b s y" if "y \<noteq> x" for y using that by simp
    have same: "faultless ?s1 y = faultless s y" "y \<noteq> x \<Longrightarrow> reachable e b ?s1 y = reachable e b s y"
      "y \<noteq> x \<Longrightarrow> handed e now b ?s1 m y r = handed e now b s m y r" for y r
      unfolding reachable_def handed_def connect_def outgoing_def a by (simp_all add: faultless_def n)
    have "list_all (\<lambda>x. faultless ?s1 x \<and> reachable e b ?s1 x) (filter (\<lambda>x. x \<noteq> skId ?s1) xs)"
      unfolding list_all_iff
    proof
      fix y assume "y \<in> set (filter (\<lambda>x. x \<noteq> skId ?s1) xs)"
      then have y: "y \<in> set xs" "y \<noteq> skId s" by simp_all
      with Cons.prems have "y \<noteq> x" "faultless s y" "reachable e b s y" by (auto simp: list_all_iff)
      with same(1,2) show "faultless ?s1 y \<and> reachable e b ?s1 y" by simp
    qed
    from Cons.IH [OF this] Cons.prems(2) obtain ns where ns: "send_each b e now ?s1 xs m = Some (set_nodes b ns s)"
      "\<forall>y. if y \<in> set xs \<and> y \<noteq> skId s then handed e now b ?s1 m y (ns y) else ns y = nodes_of b ?s1 y" by auto
    have "if y \<in> set (x # xs) \<and> y \<noteq> skId s then handed e now b s m y (ns y) else ns y = nodes_of b s y" for y
      using ns(2) [rule_format, of y] t(1) same(3) [of y] Cons.prems(2) False
      by (cases "y = x") (auto split: if_splits)
    with ns(1) t(2) False show ?thesis by (intro exI [of _ ns]) simp
  qed
qed

text \<open>C33 (broadcast): with no fault injected, no simulated delay and every other known node reachable, a broadcast returns.  It
  changes nothing of the socket but the transports to the known nodes other than the sender, which are dialled where
  there is none yet, and appends the message to what each of these has to send, once.\<close>

theorem broadcast_reaches_all:
  assumes "range_order (skRange e)" and "finite (dom (addresses s))" and "skDelay e = 0"
    and "\<forall>x \<in> dom (addresses s) - {skId s}. faultless s x \<and> reachable e False s x"
  shows "\<exists>ns. Broadcast e now s m = Some (s\<lparr>nodes := ns\<rparr>) \<and>
    (\<forall>x. if x \<in> dom (addresses s) - {skId s}
         then \<exists>t. connect e now False s x = Some (Some t) \<and> ns x = Some (t\<lparr>tSend := tSend t @ [m]\<rparr>)
         else ns x = nodes s x) \<and>
    (\<forall>b x. outgoing b (s\<lparr>nodes := ns\<rparr>) x =
       outgoing b s x @ (if \<not> b \<and> x \<in> dom (addresses s) - {skId s} then [m] else []))"
proof -
  have r: "set (skRange e (dom (addresses s))) = dom (addresses s)" "distinct (skRange e (dom (addresses s)))"
    using assms(1,2) by (simp_all add: range_order_def)
  have "list_all (\<lambda>x. faultless s x \<and> reachable e False s x) (filter (\<lambda>x. x \<noteq> skId s) (skRange e (dom (addresses s))))"
    using assms(4) r(1) by (simp add: list_all_iff)
  from send_each_reaches [OF this r(2) assms(3), of now m] r(1) obtain ns where
    ns: "Broadcast e now s m = Some (s\<lparr>nodes := ns\<rparr>)"
      "\<And>x. if x \<in> dom (addresses s) - {skId s} then handed e now False s m x (ns x) else ns x = nodes s x"
    by (auto simp: Broadcast_def set_nodes_def nodes_of_def)
  have "outgoing b (s\<lparr>nodes := ns\<rparr>) x = outgoing b s x @ (if \<not> b \<and> x \<in> dom (addresses s) - {skId s} then [m] else [])" for b x
  proof (cases "x \<in> dom (addresses s) - {skId s}")
    case True
    with ns(2) [of x] show ?thesis by (auto simp: handed_def outgoing_def nodes_of_def)
  next
    case False
    with ns(2) [of x] show ?thesis by (auto simp: outgoing_def nodes_of_def)
  qed
  moreover have "if x \<in> dom (addresses s) - {skId s}
      then \<exists>t. connect e now False s x = Some (Some t) \<and> ns x = Some (t\<lparr>tSend := tSend t @ [m]\<rparr>) else ns x = nodes s x" for x
    using ns(2) [of x] by (auto simp: handed_def split: if_splits)
  ultimately show ?thesis using ns(1) by blast
qed

definition sk_env :: "nat SockEnv" where
  "sk_env = \<lparr>skScheme = ''tcp'', skParse = (\<lambda>a. Some (''tcp'', a)), skListen = (\<lambda>t. None), skResolve = (\<lambda>t. None),
     skDial = (\<lambda>t k. if k < 3 then Some ''refused'' else None), skDelay = 0, skDErr = 0, skFloat = (\<lambda>k. 0), skIntn = (\<lambda>k n. 0),
     skRange = sorted_list_of_set, skSize = (\<lambda>m. 8)\<rparr>"

definition sk_addrs :: "NodeID \<rightharpoonup> string" where
  "sk_addrs = [''1'' \<mapsto> ''host1:80'', ''2'' \<mapsto> ''host2:80'', ''3'' \<mapsto> ''host3:80'']"

definition sk_start :: "nat socket" where
  "sk_start = the (NewSocket sk_env 0 ''1'' sk_addrs sk_addrs)"

lemma sk_start_fields:
  "skId sk_start = ''1''" "addresses sk_start = sk_addrs" "skCrash sk_start = False" "skDrop sk_start = Map.empty"
  "skSlow sk_start = Map.empty" "skFlaky sk_start = Map.empty" "timers sk_start = []" "x \<noteq> ''1'' \<Longrightarrow> nodes sk_start x = None"
  by (simp_all add: sk_start_def NewSocket_def listener_def sk_env_def sk_addrs_def NewTransport_def full_address_def TcpListen_def)

theorem broadcast_reaches_all_witness:
  "\<exists>s. Broadcast sk_env 5 sk_start 42 = Some s \<and> outgoing False s ''2'' = [42] \<and> outgoing False s ''3'' = [42] \<and>
     outgoing True s ''2'' = outgoing True sk_start ''2''"
proof -
  have ord: "range_order (skRange sk_env)" by (simp add: sk_env_def range_order_sorted)
  have fin: "finite (dom (addresses sk_start))" by (simp add: sk_start_fields sk_addrs_def)
  have dial: "Retry (skDial sk_env t) 100 = None" for t
    by (simp add: Retry_def sk_env_def eval_nat_numeral)
  have dial': "Retry (\<lambda>k. if k < 3 then Some ''refused'' else None) 100 = None" using dial by (simp add: sk_env_def)
  have "\<forall>x \<in> dom (addresses sk_start) - {skId sk_start}. faultless sk_start x \<and> reachable sk_env False sk_start x"
    by (auto simp: sk_start_fields faultless_def reachable_def nodes_of_def addresses_of_def dial' NewTransport_def
        sk_env_def sk_addrs_def full_address_def split: option.splits)
  moreover have "skDelay sk_env = 0" by (simp add: sk_env_def)
  ultimately obtain s where s: "Broadcast sk_env 5 sk_start 42 = Some s"
    "\<forall>b x. outgoing b s x = outgoing b sk_start x @ (if \<not> b \<and> x \<in> dom (addresses sk_start) - {skId sk_start} then [42] else [])"
    using broadcast_reaches_all [OF ord fin, of 5 42] by blast
  have "outgoing False sk_start ''2'' = []" "outgoing False sk_start ''3'' = []"
    by (simp_all add: outgoing_def nodes_of_def sk_start_fields)
  with s(1) s(2) [rule_format, of False "''2''"] s(2) [rule_format, of False "''3''"] s(2) [rule_format, of True "''2''"]
  show ?thesis by (simp add: sk_start_fields sk_addrs_def)
qed

section \<open>Faults last as long as they should\<close>

text \<open>The calls on a socket and the goroutines of its transports.  The listening transport has no goroutine that writes.\<close>

datatype 'm sk_op =
    OpSend bool NodeID 'm
  | OpMulticast bool "NodeID list" 'm
  | OpBroadcast bool 'm
  | OpGroup 'm "NodeID set"
  | OpRecv bool
  | OpDrop NodeID int
  | OpSlow NodeID int int
  | OpFlaky NodeID real int
  | OpCrash int
  | OpFire nat
  | OpArrive bool 'm
  | OpWrite bool NodeID

fun sk_step :: "'m SockEnv \<Rightarrow> Time \<Rightarrow> 'm sk_op \<Rightarrow> 'm socket \<Rightarrow> 'm socket option" where
  "sk_step e now (OpSend b x m) s = (if b then Send2 e now s x m else Send e now s x m)"
| "sk_step e now (OpMulticast b xs m) s = (if b then MulticastQuorum2 e now s xs m else MulticastQuorum e now s xs m)"
| "sk_step e now (OpBroadcast b m) s = (if b then Broadcast2 e now s m else Broadcast e now s m)"
| "sk_step e now (OpGroup m members) s = SkBroadcastByGroup e now s m members"
| "sk_step e now (OpRecv b) s = map_option snd (recv_on b s)"
| "sk_step e now (OpDrop x t) s = Some (SkDrop now s x t)"
| "sk_step e now (OpSlow x d t) s = Some (SkSlow now s x d t)"
| "sk_step e now (OpFlaky x p t) s = Some (SkFlaky now s x p t)"
| "sk_step e now (OpCrash t) s = Some (SkCrash now s t)"
| "sk_step e now (OpFire k) s = fire now k s"
| "sk_step e now (OpArrive b m) s =
     do { t \<leftarrow> nodes_of b s (skId s); t' \<leftarrow> tcp_receiver (skSize e) (Inr m) t; Some (set_node b (skId s) t' s) }"
| "sk_step e now (OpWrite b x) s =
     (if x = skId s then None
      else do { t \<leftarrow> nodes_of b s x; r \<leftarrow> tcp_sender (\<lambda>m. None) (skSize e) t []; Some (set_node b x (fst r) s) })"

fun timed_run :: "(Time \<Rightarrow> 'op \<Rightarrow> 's \<Rightarrow> 's option) \<Rightarrow> (Time \<times> 'op) list \<Rightarrow> 's \<Rightarrow> 's option" where
  "timed_run step [] s = Some s"
| "timed_run step (x # xs) s = do { s1 \<leftarrow> step (fst x) (snd x) s; timed_run step xs s1 }"

text \<open>
  The contract of an injected fault: it is active until one of its timers is due, unless a call sets it to something else,
  and timers are started only by the calls that inject it, each with the time it is due.
\<close>

locale timed_fault =
  fixes step :: "Time \<Rightarrow> 'op \<Rightarrow> 's \<Rightarrow> 's option"
    and active :: "'s \<Rightarrow> bool"
    and due :: "'s \<Rightarrow> Time set"
    and starts :: "Time \<Rightarrow> 'op \<Rightarrow> Time set"
    and resets :: "'op \<Rightarrow> bool"
  assumes stays_active: "step now x s = Some s' \<Longrightarrow> \<not> resets x \<Longrightarrow> active s \<Longrightarrow> \<forall>d \<in> due s. now < d \<Longrightarrow> active s'"
    and timers_started: "step now x s = Some s' \<Longrightarrow> due s' \<subseteq> due s \<union> starts now x"
begin

lemma lasts:
  assumes "timed_run step xs s = Some s'"
    and "list_all (\<lambda>x. fst x < until \<and> \<not> resets (snd x) \<and> (\<forall>d \<in> starts (fst x) (snd x). until \<le> d)) xs"
    and "active s" and "\<forall>d \<in> due s. until \<le> d"
  shows "active s' \<and> (\<forall>d \<in> due s'. until \<le> d)"
  using assms
proof (induction xs arbitrary: s)
  case (Cons x xs)
  then obtain s1 where s1: "step (fst x) (snd x) s = Some s1" "timed_run step xs s1 = Some s'"
    by (auto simp: bind_Some_conv)
  from Cons.prems(2) have x: "fst x < until" "\<not> resets (snd x)" "\<forall>d \<in> starts (fst x) (snd x). until \<le> d" by simp_all
  from x(1) Cons.prems(4) have "\<forall>d \<in> due s. fst x < d" by auto
  from stays_active [OF s1(1) x(2) Cons.prems(3) this] have "active s1" .
  moreover have "\<forall>d \<in> due s1. until \<le> d" using timers_started [OF s1(1)] x(3) Cons.prems(4) by blast
  ultimately show ?case using Cons.IH [OF s1(2)] Cons.prems(2) by simp
qed simp

end

definition due_times :: "'m sk_timer \<Rightarrow> 'm socket \<Rightarrow> Time set" where
  "due_times a s = {d. (d, a) \<in> set (timers s)}"

definition is_send :: "'m sk_timer \<Rightarrow> bool" where
  "is_send a \<longleftrightarrow> (case a of TmSend b x m \<Rightarrow> True | _ \<Rightarrow> False)"

lemma send_each_frame:
  "send_each b e now s xs m = Some s' \<Longrightarrow>
     skCrash s' = skCrash s \<and> skDrop s' = skDrop s \<and> skSlow s' = skSlow s \<and> skFlaky s' = skFlaky s \<and>
     (\<exists>ts. timers s' = timers s @ ts \<and> list_all (\<lambda>t. is_send (snd t)) ts)"
proof (induction xs arbitrary: s)
  case (Cons x xs)
  show ?case
  proof (cases "x = skId s")
    case True
    with Cons show ?thesis by simp
  next
    case False
    with Cons.prems obtain s1 where s1: "send_on b e now s x m = Some s1" "send_each b e now s1 xs m = Some s'"
      by (auto simp: bind_Some_conv)
    note fr = send_on_frame [OF s1(1)]
    from fr(9) obtain ts where ts: "timers s1 = timers s @ ts" "set (map snd ts) \<subseteq> {TmSend b x m}" by blast
    then have "list_all (\<lambda>t. is_send (snd t)) ts" by (auto simp: list_all_iff is_send_def)
    with ts(1) Cons.IH [OF s1(2)] fr(4-7) show ?thesis by auto
  qed
qed simp

fun injects :: "'m sk_timer \<Rightarrow> 'm sk_op \<Rightarrow> bool" where
  "injects (TmDrop x) (OpDrop y t) \<longleftrightarrow> x = y"
| "injects (TmSlow x) (OpSlow y d t) \<longleftrightarrow> x = y"
| "injects (TmFlaky x) (OpFlaky y p t) \<longleftrightarrow> x = y"
| "injects TmCrash (OpCrash t) \<longleftrightarrow> True"
| "injects _ _ \<longleftrightarrow> False"

text \<open>When the timers are due that a call starts.\<close>

fun starts :: "'m sk_timer \<Rightarrow> Time \<Rightarrow> 'm sk_op \<Rightarrow> Time set" where
  "starts (TmDrop x) now (OpDrop y t) = (if x = y then {now + seconds t} else {})"
| "starts (TmSlow x) now (OpSlow y d t) = (if x = y then {now + seconds t} else {})"
| "starts (TmFlaky x) now (OpFlaky y p t) = (if x = y then {now + seconds t} else {})"
| "starts TmCrash now (OpCrash t) = (if t > 0 then {now + seconds t} else {})"
| "starts _ _ _ = {}"

text \<open>A step other than one that injects a fault or fires a timer.\<close>

definition plain_step :: "'m socket \<Rightarrow> 'm socket \<Rightarrow> bool" where
  "plain_step s s' \<longleftrightarrow>
     skCrash s' = skCrash s \<and> skDrop s' = skDrop s \<and> skSlow s' = skSlow s \<and> skFlaky s' = skFlaky s \<and>
     (\<exists>ts. timers s' = timers s @ ts \<and> list_all (\<lambda>t. is_send (snd t)) ts)"

lemma plain_send_each: "send_each b e now s xs m = Some s' \<Longrightarrow> plain_step s s'"
  using send_each_frame by (simp add: plain_step_def)

lemma plain_send_on:
  assumes "send_on b e now s x m = Some s'"
  shows "plain_step s s'"
proof -
  note fr = send_on_frame [OF assms]
  from fr(9) obtain ts where "timers s' = timers s @ ts" "set (map snd ts) \<subseteq> {TmSend b x m}" by blast
  moreover from this(2) have "list_all (\<lambda>t. is_send (snd t)) ts" by (auto simp: list_all_iff is_send_def)
  ultimately show ?thesis using fr(4-7) by (simp add: plain_step_def)
qed

lemma plain_set_node: "plain_step s (set_node b x t s)"
  by (simp add: plain_step_def)

lemma plain_step_due: "plain_step s s' \<Longrightarrow> \<not> is_send a \<Longrightarrow> due_times a s' = due_times a s"
  by (force simp: plain_step_def due_times_def list_all_iff)

lemma sk_step_cases:
  assumes "sk_step e now x s = Some s'"
  obtains (plain) "plain_step s s'"
  | (drop) y t where "x = OpDrop y t" "s' = SkDrop now s y t"
  | (slow) y d t where "x = OpSlow y d t" "s' = SkSlow now s y d t"
  | (flaky) y p t where "x = OpFlaky y p t" "s' = SkFlaky now s y p t"
  | (crash) t where "x = OpCrash t" "s' = SkCrash now s t"
  | (fire) k d a where "k < length (timers s)" "timers s ! k = (d, a)" "d \<le> now"
      "timer_action a (s\<lparr>timers := take k (timers s) @ drop (Suc k) (timers s)\<rparr>) = Some s'"
proof (cases x)
  case (OpFire k)
  with assms fire show ?thesis by (cases "timers s ! k") (auto simp: fire_def split: if_splits)
qed (use assms plain drop slow flaky crash in \<open>auto simp: Send_def Send2_def MulticastQuorum_def MulticastQuorum2_def
      Broadcast_def Broadcast2_def SkBroadcastByGroup_def recv_on_def bind_Some_conv plain_set_node
      dest!: plain_send_each plain_send_on split: if_splits\<close>)

lemma timer_removed: "set (take k ts @ drop (Suc k) ts) \<subseteq> set ts"
  using set_take_subset [of k ts] set_drop_subset [of "Suc k" ts] by auto

lemma timer_action_timers: "timer_action a s = Some s' \<Longrightarrow> timers s' = timers s"
  by (cases a) (auto simp: bind_Some_conv)

lemma sk_step_due:
  assumes "sk_step e now x s = Some s'" and "\<not> is_send a"
  shows "due_times a s' \<subseteq> due_times a s \<union> starts a now x"
  using assms(1)
proof (cases rule: sk_step_cases)
  case plain
  with assms(2) show ?thesis by (simp add: plain_step_due)
next
  case (fire k d a')
  from timer_action_timers [OF fire(4)] timer_removed [of k "timers s"] show ?thesis by (auto simp: due_times_def)
qed (use assms(2) in \<open>auto simp: due_times_def SkDrop_def SkSlow_def SkFlaky_def SkCrash_def Let_def split: if_splits\<close>)

lemma fired_due: "k < length (timers s) \<Longrightarrow> timers s ! k = (d, a) \<Longrightarrow> d \<in> due_times a s"
  using nth_mem [of k "timers s"] by (simp add: due_times_def)

text \<open>Firing a timer of another kind leaves a fault alone.\<close>

lemma timer_action_frame:
  assumes "timer_action a s = Some s'"
  shows "a \<noteq> TmCrash \<Longrightarrow> skCrash s' = skCrash s" and "a \<noteq> TmDrop y \<Longrightarrow> skDrop s' y = skDrop s y"
    and "a \<noteq> TmSlow y \<Longrightarrow> skSlow s' y = skSlow s y" and "a \<noteq> TmFlaky y \<Longrightarrow> skFlaky s' y = skFlaky s y"
  using assms by (cases a; auto simp: bind_Some_conv)+

lemma sk_step_keeps:
  assumes "sk_step e now x s = Some s'"
  shows "(\<not> injects TmCrash x \<and> (\<forall>d \<in> due_times TmCrash s. now < d) \<longrightarrow> skCrash s' = skCrash s) \<and>
    (\<not> injects (TmDrop y) x \<and> (\<forall>d \<in> due_times (TmDrop y) s. now < d) \<longrightarrow> skDrop s' y = skDrop s y) \<and>
    (\<not> injects (TmSlow y) x \<and> (\<forall>d \<in> due_times (TmSlow y) s. now < d) \<longrightarrow> skSlow s' y = skSlow s y) \<and>
    (\<not> injects (TmFlaky y) x \<and> (\<forall>d \<in> due_times (TmFlaky y) s. now < d) \<longrightarrow> skFlaky s' y = skFlaky s y)"
  using assms
proof (cases rule: sk_step_cases)
  case (fire k d a)
  have "a \<noteq> c" if "\<forall>d \<in> due_times c s. now < d" for c
    using fired_due [OF fire(1,2)] fire(3) that by force
  with timer_action_frame(1) [OF fire(4)] timer_action_frame(2-4) [OF fire(4), of y] show ?thesis by auto
qed (auto simp: plain_step_def SkDrop_def SkSlow_def SkFlaky_def SkCrash_def add_timer_def Let_def)

lemmas sk_step_crash = sk_step_keeps [THEN conjunct1, rule_format, OF _ conjI]
lemmas sk_step_drop = sk_step_keeps [THEN conjunct2, THEN conjunct1, rule_format, OF _ conjI]
lemmas sk_step_slow = sk_step_keeps [THEN conjunct2, THEN conjunct2, THEN conjunct1, rule_format, OF _ conjI]
lemmas sk_step_flaky = sk_step_keeps [THEN conjunct2, THEN conjunct2, THEN conjunct2, rule_format, OF _ conjI]

text \<open>Injecting a crash or a drop again leaves it active.\<close>

lemma injected_again:
  assumes "sk_step e now x s = Some s'"
  shows "injects TmCrash x \<Longrightarrow> skCrash s'" and "injects (TmDrop y) x \<Longrightarrow> skDrop s' y = Some True"
  using assms by (cases x; auto simp: SkCrash_def SkDrop_def Let_def)+

interpretation crash_fault: timed_fault "sk_step e" skCrash "due_times TmCrash" "starts TmCrash" "\<lambda>_. False" for e :: "'m SockEnv"
proof unfold_locales
  fix now x and s s' :: "'m socket" assume s: "sk_step e now x s = Some s'"
  show "due_times TmCrash s' \<subseteq> due_times TmCrash s \<union> starts TmCrash now x" by (rule sk_step_due [OF s]) (simp add: is_send_def)
  show "skCrash s'" if "skCrash s" "\<forall>d \<in> due_times TmCrash s. now < d"
    using sk_step_crash [OF s] injected_again(1) [OF s] that by (cases "injects TmCrash x") simp_all
qed

interpretation drop_fault: timed_fault "sk_step e" "\<lambda>s. skDrop s y = Some True" "due_times (TmDrop y)" "starts (TmDrop y)" "\<lambda>_. False"
  for e :: "'m SockEnv" and y
proof unfold_locales
  fix now x and s s' :: "'m socket" assume s: "sk_step e now x s = Some s'"
  show "due_times (TmDrop y) s' \<subseteq> due_times (TmDrop y) s \<union> starts (TmDrop y) now x" by (rule sk_step_due [OF s]) (simp add: is_send_def)
  show "skDrop s' y = Some True" if "skDrop s y = Some True" "\<forall>d \<in> due_times (TmDrop y) s. now < d"
    using sk_step_drop [OF s] injected_again(2) [OF s] that by (cases "injects (TmDrop y) x") simp_all
qed

text \<open>Injecting a slow or a flaky link again may change the delay or the probability.\<close>

interpretation slow_fault: timed_fault "sk_step e" "\<lambda>s. skSlow s y = Some d" "due_times (TmSlow y)" "starts (TmSlow y)" "injects (TmSlow y)"
  for e :: "'m SockEnv" and y d
proof unfold_locales
  fix now x and s s' :: "'m socket" assume s: "sk_step e now x s = Some s'"
  show "due_times (TmSlow y) s' \<subseteq> due_times (TmSlow y) s \<union> starts (TmSlow y) now x" by (rule sk_step_due [OF s]) (simp add: is_send_def)
  show "skSlow s' y = Some d" if "\<not> injects (TmSlow y) x" "skSlow s y = Some d" "\<forall>d \<in> due_times (TmSlow y) s. now < d"
    using sk_step_slow [OF s that(1)] that by simp
qed

interpretation flaky_fault: timed_fault "sk_step e" "\<lambda>s. skFlaky s y = Some p" "due_times (TmFlaky y)" "starts (TmFlaky y)" "injects (TmFlaky y)"
  for e :: "'m SockEnv" and y p
proof unfold_locales
  fix now x and s s' :: "'m socket" assume s: "sk_step e now x s = Some s'"
  show "due_times (TmFlaky y) s' \<subseteq> due_times (TmFlaky y) s \<union> starts (TmFlaky y) now x" by (rule sk_step_due [OF s]) (simp add: is_send_def)
  show "skFlaky s' y = Some p" if "\<not> injects (TmFlaky y) x" "skFlaky s y = Some p" "\<forall>d \<in> due_times (TmFlaky y) s. now < d"
    using sk_step_flaky [OF s that(1)] that by simp
qed

text \<open>While messages to a node are dropped, sending to it changes nothing.\<close>

lemma drop_window_silent:
  assumes "\<forall>d \<in> due_times (TmDrop y) s. until \<le> d" and "until \<le> now0 + seconds t"
    and "timed_run (sk_step e) ops (SkDrop now0 s y t) = Some s'"
    and "list_all (\<lambda>x. fst x < until \<and> (\<forall>d \<in> starts (TmDrop y) (fst x) (snd x). until \<le> d)) ops"
  shows "send_on b e now s' y m = Some s'"
proof -
  have l: "list_all (\<lambda>x. fst x < until \<and> \<not> False \<and> (\<forall>d \<in> starts (TmDrop y) (fst x) (snd x). until \<le> d)) ops"
    using assms(4) by simp
  have i: "skDrop (SkDrop now0 s y t) y = Some True" "\<forall>d \<in> due_times (TmDrop y) (SkDrop now0 s y t). until \<le> d"
    using assms(1,2) by (auto simp: SkDrop_def due_times_def)
  from drop_fault.lasts [OF assms(3) l i] have "skDrop s' y = Some True" by (rule conjunct1)
  then show ?thesis by (simp add: send_on_def)
qed

text \<open>C34 (crash window): from the moment a crash is injected until the first time at which a crash timer is due, be it the timer of
  this crash, of one injected before or of one injected since, and whatever is called and whichever goroutine runs in
  between, the node is silent: sending, by whatever call, changes nothing, and what is received is thrown away.
  A crash of no positive length starts no timer and does not end by itself.\<close>

theorem crash_window_silent:
  assumes "\<forall>d \<in> due_times TmCrash s. until \<le> d" and "0 < t \<longrightarrow> until \<le> now0 + seconds t"
    and "timed_run (sk_step e) ops (SkCrash now0 s t) = Some s'"
    and "list_all (\<lambda>x. fst x < until \<and> (\<forall>d \<in> starts TmCrash (fst x) (snd x). until \<le> d)) ops"
  shows "send_on b e now s' y m = Some s' \<and> send_each b e now s' ys m = Some s' \<and>
    map_option fst (recv_on b s') \<in> {None, Some None}"
proof -
  have l: "list_all (\<lambda>x. fst x < until \<and> \<not> False \<and> (\<forall>d \<in> starts TmCrash (fst x) (snd x). until \<le> d)) ops"
    using assms(4) by simp
  have i: "skCrash (SkCrash now0 s t)" "\<forall>d \<in> due_times TmCrash (SkCrash now0 s t). until \<le> d"
    using assms(1,2) by (auto simp: SkCrash_def due_times_def Let_def)
  from crash_fault.lasts [OF assms(3) l i] have c: "skCrash s'" by (rule conjunct1)
  have "send_each b e now s' ys m = Some s'" by (induction ys) (simp_all add: send_on_def c)
  with c show ?thesis
    by (auto simp: send_on_def recv_on_def split: Option.bind_splits)
qed

theorem crash_window_silent_witness:
  "\<exists>s. timed_run (sk_step sk_env) [(5, OpArrive False 7), (9, OpBroadcast False 42), (10, OpCrash 4), (seconds 3 - 1, OpDrop ''2'' 1)]
       (SkCrash 0 sk_start 3) = Some s \<and>
     send_on False sk_env 10 s ''3'' 43 = Some s \<and> recv_on False s \<noteq> None \<and> map_option fst (recv_on False s) \<in> {None, Some None}"
proof -
  let ?ops = "[(5, OpArrive False 7), (9, OpBroadcast False 42), (10, OpCrash 4), (seconds 3 - 1, OpDrop ''2'' 1)] :: (Time \<times> nat sk_op) list"
  have l: "list_all (\<lambda>x. fst x < seconds 3 \<and> (\<forall>d \<in> starts TmCrash (fst x) (snd x). seconds 3 \<le> d)) ?ops"
    by (simp add: seconds_def i64_def)
  obtain s where r: "timed_run (sk_step sk_env) ?ops (SkCrash 0 sk_start 3) = Some s" "recv_on False s \<noteq> None"
    by (simp add: SkCrash_def add_timer_def sk_start_def NewSocket_def listener_def NewTransport_def full_address_def TcpListen_def
        nodes_of_def tcp_receiver_def chan_cap_def Broadcast_def send_on_def sk_env_def sk_addrs_def SkDrop_def recv_on_def
        set_node_def TrRecv_def chan_put_def)
  have "\<forall>d \<in> due_times TmCrash sk_start. seconds 3 \<le> d" by (simp add: due_times_def sk_start_fields)
  from crash_window_silent [OF this _ r(1) l, of False 10 "''3''" 43 "[]"] r show ?thesis by simp
qed

text \<open>Overlapping faults: a second crash does not extend the first, whose timer ends both.\<close>

lemma overlapping_crashes_end_early:
  assumes "timers s = []" and "0 < t" and "now0 < now1"
  shows "\<exists>s'. fire (now0 + seconds t) 0 (SkCrash now1 (SkCrash now0 s t) t) = Some s' \<and> \<not> skCrash s' \<and>
    now0 + seconds t < now1 + seconds t"
  using assms by (simp add: SkCrash_def add_timer_def fire_def)

text \<open>A message that was delayed leaves a node that has crashed or drops messages by then.\<close>

lemma delayed_message_ignores_faults:
  assumes "k < length (timers s)" and "timers s ! k = (d, TmSend b x m)" and "d \<le> now" and "nodes_of b s x = Some t"
    and "\<not> tClosed t" and "length (tSend t) < chan_cap" and "skCrash s" and "skDrop s x = Some True"
  shows "\<exists>s'. fire now k s = Some s' \<and> outgoing b s' x = outgoing b s x @ [m]"
proof -
  have "TrSend t m = Some (t\<lparr>tSend := tSend t @ [m]\<rparr>)" using assms(5,6) by (simp add: TrSend_Some)
  with assms show ?thesis by (simp add: fire_def outgoing_def)
qed

text \<open>A message to the node itself goes to its listening transport, which no goroutine writes: it is not received, and once the
  channel is full the call does not return.\<close>

lemma message_to_self_not_received:
  assumes "faultless s (skId s)" and "nodes_of b s (skId s) = Some t" and "skDelay e = 0" and "\<not> tClosed t"
  shows "send_on b e now s (skId s) m =
    (if length (tSend t) < chan_cap then Some (set_node b (skId s) (t\<lparr>tSend := tSend t @ [m]\<rparr>) s) else None)"
  using assms by (auto simp: send_on_def faultless_def connect_def transmit_def TrSend_def chan_put_def split: option.splits)

text \<open>\<open>Broadcast2\<close> does not reach a node that only the second table knows.\<close>

lemma broadcast2_misses_second_table:
  assumes "range_order (skRange e)" and "finite (dom (addresses s))" and "x \<notin> dom (addresses s)"
    and "Broadcast2 e now s m = Some s'"
  shows "outgoing True s' x = outgoing True s x"
proof -
  have "outgoing b s' x = outgoing b s x" if "send_each b e now s xs m = Some s'" "x \<notin> set xs" for b xs s
    using that by (induction xs arbitrary: s) (auto simp: bind_Some_conv outgoing_frame split: if_splits)
  with assms show ?thesis by (simp add: Broadcast2_def range_order_def)
qed

end
