(* ===== verification/NetNode.thy ===== *)
theory NetNode
  imports Socket Replica
begin

text \<open>
  The node of a replica (src/node/node.go, src/node/http.go): it receives messages from the socket, puts them on one
  of two channels, and calls the function registered for the type of each message.

  An \<open>interface{}\<close> value is an element of \<open>iface\<close>; \<open>IPtr\<close> is a pointer.  A handler is a function on the state of
  the application.  A step that waits on a channel is taken when the channel lets it; a panic and a fatal
  error are \<open>None\<close>.  \<open>node_dispatches_in_order\<close> shows that the channels lose and reorder nothing, and
  \<open>node_refines_replica\<close> that a node with the functions registered by \<open>NewReplica\<close> drives the replica of \<open>Replica\<close>.
\<close>

section \<open>Interface values\<close>

datatype iface =
    INil
  | IProposal Proposal
  | IMicroBlock MicroBlock
  | IVote Vote
  | ITMO TMO
  | ITC TC
  | ITransaction Transaction
  | IQuery
  | IMissingMBRequest NodeID Identifier "Identifier list"
  | IMissingStableMBRequest NodeID Identifier
  | IAck Ack
  | IExecuteResult ExecuteResult
  | IStable Stable
  | IBlock Block
  | IPtr iface

text \<open>\<open>reflect.ValueOf(m).Type().String()\<close>, which panics on \<open>nil\<close>.\<close>

fun type_name :: "iface \<Rightarrow> string option" where
  "type_name INil = None"
| "type_name (IProposal p) = Some ''blockchain.Proposal''"
| "type_name (IMicroBlock mb) = Some ''blockchain.MicroBlock''"
| "type_name (IVote v) = Some ''blockchain.Vote''"
| "type_name (ITMO t) = Some ''pacemaker.TMO''"
| "type_name (ITC t) = Some ''pacemaker.TC''"
| "type_name (ITransaction t) = Some ''message.Transaction''"
| "type_name IQuery = Some ''message.Query''"
| "type_name (IMissingMBRequest n x xs) = Some ''message.MissingMBRequest''"
| "type_name (IMissingStableMBRequest n x) = Some ''message.MissingStableMBRequest''"
| "type_name (IAck a) = Some ''blockchain.Ack''"
| "type_name (IExecuteResult r) = Some ''execute.ExecuteResult''"
| "type_name (IStable s) = Some ''blockchain.Stable''"
| "type_name (IBlock b) = Some ''blockchain.Block''"
| "type_name (IPtr m) = map_option (\<lambda>s. ''*'' @ s) (type_name m)"

section \<open>Node\<close>

text \<open>A value given to \<open>Register\<close>: whether it is a function, the types of its parameters, and its effect.\<close>

record 's go_func =
  gfIsFunc :: bool
  gfIn :: "string list"
  gfCall :: "iface \<Rightarrow> 's \<Rightarrow> 's option"

record 's node =
  ndId :: NodeID
  ndIsByz :: bool
  ndSocket :: "iface socket"
  MessageChan :: "iface list"
  TxChan :: "iface list"
  handles :: "string \<rightharpoonup> 's go_func"
  forwards :: "string \<rightharpoonup> Transaction"
  ndApp :: 's

record NdEnv =
  ndSock :: "iface SockEnv"
  ndAddrs :: "NodeID \<rightharpoonup> string"
  ndAddrs2 :: "NodeID \<rightharpoonup> string"
  ndHTTPAddrs :: "NodeID set"
  ndChanBufferSize :: nat
  ndStrategy :: string
  ndCrash :: int
  ndSlow :: int

definition NewNode :: "NdEnv \<Rightarrow> Time \<Rightarrow> NodeID \<Rightarrow> bool \<Rightarrow> 's \<Rightarrow> 's node option" where
  "NewNode e clk me isByz app =
     do { s \<leftarrow> NewSocket (ndSock e) clk me (ndAddrs e) (ndAddrs2 e);
          Some \<lparr>ndId = me, ndIsByz = isByz, ndSocket = s, MessageChan = [], TxChan = [], handles = Map.empty,
                forwards = Map.empty, ndApp = app\<rparr> }"

definition Register :: "'s node \<Rightarrow> iface \<Rightarrow> 's go_func \<Rightarrow> 's node option" where
  "Register n m f =
     (if \<not> gfIsFunc f then None
      else
        case gfIn f of
          [] \<Rightarrow> None
        | t0 # ts \<Rightarrow>
            if Some t0 \<noteq> type_name m then None
            else if ts \<noteq> [] then None
            else Some (n\<lparr>handles := (handles n)(t0 \<mapsto> f)\<rparr>))"

definition put_message :: "NdEnv \<Rightarrow> iface \<Rightarrow> 's node \<Rightarrow> 's node option" where
  "put_message e m n = do { q \<leftarrow> chan_put (ndChanBufferSize e) (MessageChan n) m; Some (n\<lparr>MessageChan := q\<rparr>) }"

definition put_tx :: "NdEnv \<Rightarrow> iface \<Rightarrow> 's node \<Rightarrow> 's node option" where
  "put_tx e m n = do { q \<leftarrow> chan_put (ndChanBufferSize e) (TxChan n) m; Some (n\<lparr>TxChan := q\<rparr>) }"

definition NdRetry :: "NdEnv \<Rightarrow> 's node \<Rightarrow> Transaction \<Rightarrow> 's node option" where
  "NdRetry e n t = put_message e (ITransaction t) n"

text \<open>An iteration of the loops \<open>recv\<close> and \<open>recv2\<close>.\<close>

definition nd_recv :: "bool \<Rightarrow> NdEnv \<Rightarrow> 's node \<Rightarrow> 's node option" where
  "nd_recv b e n =
     do { (r, s) \<leftarrow> recv_on b (ndSocket n);
          (case r of
             None \<Rightarrow> Some (n\<lparr>ndSocket := s\<rparr>)
           | Some m \<Rightarrow>
               if ndIsByz n \<and> ndStrategy e = ''silence'' then Some (n\<lparr>ndSocket := s\<rparr>)
               else
                 (case m of
                    ITransaction t \<Rightarrow> put_tx e m (n\<lparr>ndSocket := s\<rparr>)
                  | _ \<Rightarrow> put_message e m (n\<lparr>ndSocket := s\<rparr>))) }"

definition call_handler :: "iface \<Rightarrow> 's node \<Rightarrow> 's node option" where
  "call_handler m n =
     do { name \<leftarrow> type_name m;
          f \<leftarrow> handles n name;
          app \<leftarrow> gfCall f m (ndApp n);
          Some (n\<lparr>ndApp := app\<rparr>) }"

text \<open>An iteration of \<open>handle\<close> and of \<open>txn\<close>.\<close>

definition nd_handle :: "'s node \<Rightarrow> 's node option" where
  "nd_handle n = (case MessageChan n of [] \<Rightarrow> None | m # ms \<Rightarrow> call_handler m (n\<lparr>MessageChan := ms\<rparr>))"

definition nd_txn :: "'s node \<Rightarrow> 's node option" where
  "nd_txn n = (case TxChan n of [] \<Rightarrow> None | m # ms \<Rightarrow> call_handler m (n\<lparr>TxChan := ms\<rparr>))"

text \<open>The printed form of a command, under which \<open>Forward\<close> files the transaction.\<close>

definition lower_hex :: "nat \<Rightarrow> char" where
  "lower_hex d = char_of (if d < 10 then 48 + d else 87 + d)"

definition CommandString :: "Command \<Rightarrow> string" where
  "CommandString c =
     (case cmdValue c of
        None \<Rightarrow> ''Get{key='' @ Itoa (cmdKey c) @ '' id='' @ cmdClientID c @ '' cid='' @ Itoa (cmdCommandID c) @ ''}''
      | Some v \<Rightarrow>
          ''Put{key='' @ Itoa (cmdKey c) @ '' value='' @ concat (map (\<lambda>b. [lower_hex (unat b div 16), lower_hex (unat b mod 16)]) v) @
          '' id='' @ cmdClientID c @ '' cid='' @ Itoa (cmdCommandID c))"

definition Forward :: "NdEnv \<Rightarrow> Time \<Rightarrow> 's node \<Rightarrow> NodeID \<Rightarrow> Transaction \<Rightarrow> 's node option" where
  "Forward e clk n x m0 =
     (let m = m0\<lparr>txNodeID := ndId n\<rparr>;
          n1 = n\<lparr>forwards := (forwards n)(CommandString (txCommand m) \<mapsto> m)\<rparr> in
      do { s \<leftarrow> Send (ndSock e) clk (ndSocket n1) x (ITransaction m); Some (n1\<lparr>ndSocket := s\<rparr>) })"

section \<open>HTTP\<close>

definition handleRoot :: "NdEnv \<Rightarrow> Time \<Rightarrow> string \<Rightarrow> Bytes \<Rightarrow> 's node \<Rightarrow> 's node option" where
  "handleRoot e clk uri body n =
     put_tx e (ITransaction \<lparr>txCommand = \<lparr>cmdKey = 0, cmdValue = Some body, cmdClientID = [], cmdCommandID = 0\<rparr>,
        txTimestamp = clk, txNodeID = ndId n, txID = uri\<rparr>) n"

text \<open>The handler then waits for the reply of the replica.\<close>

definition NdHandleQuery :: "NdEnv \<Rightarrow> 's node \<Rightarrow> 's node option" where
  "NdHandleQuery e n = put_tx e IQuery n"

definition handleCrash :: "NdEnv \<Rightarrow> Time \<Rightarrow> 's node \<Rightarrow> 's node" where
  "handleCrash e clk n = n\<lparr>ndSocket := SkCrash clk (ndSocket n) (ndCrash e)\<rparr>"

fun slow_each :: "NdEnv \<Rightarrow> Time \<Rightarrow> NodeID list \<Rightarrow> iface socket \<Rightarrow> iface socket option" where
  "slow_each e clk [] s = Some s"
| "slow_each e clk (x # xs) s =
     (if ndSlow e \<le> 0 then None
      else slow_each e clk xs
        (SkSlow clk (s\<lparr>skRng := Suc (skRng s)\<rparr>) x (skIntn (ndSock e) (skRng s) (ndSlow e)) 10))"

definition handleSlow :: "NdEnv \<Rightarrow> Time \<Rightarrow> 's node \<Rightarrow> 's node option" where
  "handleSlow e clk n =
     do { s \<leftarrow> slow_each e clk (skRange (ndSock e) (ndHTTPAddrs e)) (ndSocket n); Some (n\<lparr>ndSocket := s\<rparr>) }"

definition handleFlaky :: "NdEnv \<Rightarrow> Time \<Rightarrow> 's node \<Rightarrow> 's node" where
  "handleFlaky e clk n =
     n\<lparr>ndSocket := foldl (\<lambda>s x. SkFlaky clk s x (1 / 2) 10) (ndSocket n) (skRange (ndSock e) (ndHTTPAddrs e))\<rparr>"

section \<open>The channels keep the order\<close>

text \<open>The goroutines started by \<open>Run\<close>, the HTTP requests, and what the application and the network do to the socket.\<close>

datatype nd_event =
    NdRecv bool
  | NdHandle
  | NdTxn
  | NdRetried Transaction
  | NdForward Time NodeID Transaction
  | NdRoot Time string Bytes
  | NdQuery
  | NdCrashed Time
  | NdSlowed Time
  | NdFlaky Time
  | NdSocketOp Time "iface sk_op"

fun nd_step :: "NdEnv \<Rightarrow> nd_event \<Rightarrow> 's node \<Rightarrow> 's node option" where
  "nd_step e (NdRecv b) n = nd_recv b e n"
| "nd_step e NdHandle n = nd_handle n"
| "nd_step e NdTxn n = nd_txn n"
| "nd_step e (NdRetried t) n = NdRetry e n t"
| "nd_step e (NdForward clk x t) n = Forward e clk n x t"
| "nd_step e (NdRoot clk uri body) n = handleRoot e clk uri body n"
| "nd_step e NdQuery n = NdHandleQuery e n"
| "nd_step e (NdCrashed clk) n = Some (handleCrash e clk n)"
| "nd_step e (NdSlowed clk) n = handleSlow e clk n"
| "nd_step e (NdFlaky clk) n = Some (handleFlaky e clk n)"
| "nd_step e (NdSocketOp clk x) n = do { s \<leftarrow> sk_step (ndSock e) clk x (ndSocket n); Some (n\<lparr>ndSocket := s\<rparr>) }"

text \<open>The message that a step puts on a channel, and the message for which it calls a handler; the flag is true for
  \<open>TxChan\<close>.\<close>

definition is_txn :: "iface \<Rightarrow> bool" where
  "is_txn m \<longleftrightarrow> (case m of ITransaction t \<Rightarrow> True | _ \<Rightarrow> False)"

fun puts :: "NdEnv \<Rightarrow> nd_event \<Rightarrow> 's node \<Rightarrow> (bool \<times> iface) list" where
  "puts e (NdRecv b) n =
     (case recv_on b (ndSocket n) of
        Some (Some m, s) \<Rightarrow> if ndIsByz n \<and> ndStrategy e = ''silence'' then [] else [(is_txn m, m)]
      | _ \<Rightarrow> [])"
| "puts e (NdRetried t) n = [(False, ITransaction t)]"
| "puts e (NdRoot clk uri body) n =
     [(True, ITransaction \<lparr>txCommand = \<lparr>cmdKey = 0, cmdValue = Some body, cmdClientID = [], cmdCommandID = 0\<rparr>,
        txTimestamp = clk, txNodeID = ndId n, txID = uri\<rparr>)]"
| "puts e NdQuery n = [(True, IQuery)]"
| "puts e ev n = []"

fun calls :: "nd_event \<Rightarrow> 's node \<Rightarrow> (bool \<times> iface) list" where
  "calls NdHandle n = map (Pair False) (take 1 (MessageChan n))"
| "calls NdTxn n = map (Pair True) (take 1 (TxChan n))"
| "calls ev n = []"

fun nd_run :: "NdEnv \<Rightarrow> nd_event list \<Rightarrow> 's node \<Rightarrow> ((bool \<times> iface) list \<times> (bool \<times> iface) list \<times> 's node) option" where
  "nd_run e [] n = Some ([], [], n)"
| "nd_run e (ev # evs) n =
     do { n1 \<leftarrow> nd_step e ev n;
          (ps, cs, n2) \<leftarrow> nd_run e evs n1;
          Some (puts e ev n @ ps, calls ev n @ cs, n2) }"

definition on_chan :: "bool \<Rightarrow> (bool \<times> iface) list \<Rightarrow> iface list" where
  "on_chan b xs = map snd (filter (\<lambda>x. fst x = b) xs)"

definition chan_of :: "bool \<Rightarrow> 's node \<Rightarrow> iface list" where
  "chan_of b n = (if b then TxChan n else MessageChan n)"

text \<open>Calling the registered functions for a sequence of messages.\<close>

fun call_all :: "(string \<rightharpoonup> 's go_func) \<Rightarrow> iface list \<Rightarrow> 's \<Rightarrow> 's option" where
  "call_all h [] a = Some a"
| "call_all h (m # ms) a = do { name \<leftarrow> type_name m; f \<leftarrow> h name; a1 \<leftarrow> gfCall f m a; call_all h ms a1 }"

lemma put_Some [simp]:
  "put_tx e m n = Some n' \<longleftrightarrow> length (TxChan n) < ndChanBufferSize e \<and> n' = n\<lparr>TxChan := TxChan n @ [m]\<rparr>"
  "put_message e m n = Some n' \<longleftrightarrow> length (MessageChan n) < ndChanBufferSize e \<and> n' = n\<lparr>MessageChan := MessageChan n @ [m]\<rparr>"
  by (auto simp: put_tx_def put_message_def bind_Some_conv)

lemma route_by_type:
  "(case m of ITransaction t \<Rightarrow> put_tx e m n | _ \<Rightarrow> put_message e m n) = (if is_txn m then put_tx e m n else put_message e m n)"
  by (cases m) (simp_all add: is_txn_def)

lemma call_handler_Some:
  "call_handler m n = Some n' \<longleftrightarrow> (\<exists>a. call_all (handles n) [m] (ndApp n) = Some a \<and> n' = n\<lparr>ndApp := a\<rparr>)"
  by (auto simp: call_handler_def bind_Some_conv)

lemma nd_step_facts:
  assumes "nd_step e ev n = Some n'"
  shows "handles n' = handles n \<and> chan_of b n @ on_chan b (puts e ev n) = on_chan b (calls ev n) @ chan_of b n' \<and>
    call_all (handles n) (map snd (calls ev n)) (ndApp n) = Some (ndApp n')"
proof (cases ev)
  case (NdRecv b')
  with assms have "nd_recv b' e n = Some n'" by simp
  then obtain r s where r: "recv_on b' (ndSocket n) = Some (r, s)"
    and n': "(case r of None \<Rightarrow> Some (n\<lparr>ndSocket := s\<rparr>)
       | Some m \<Rightarrow> if ndIsByz n \<and> ndStrategy e = ''silence'' then Some (n\<lparr>ndSocket := s\<rparr>)
           else if is_txn m then put_tx e m (n\<lparr>ndSocket := s\<rparr>) else put_message e m (n\<lparr>ndSocket := s\<rparr>)) = Some n'"
    unfolding nd_recv_def route_by_type by (auto simp: bind_Some_conv)
  then show ?thesis using NdRecv by (cases r) (auto simp: chan_of_def on_chan_def split: if_splits)
next
  case NdHandle
  with assms show ?thesis
    by (auto simp: nd_handle_def chan_of_def on_chan_def call_handler_Some simp del: call_all.simps split: list.splits)
next
  case NdTxn
  with assms show ?thesis
    by (auto simp: nd_txn_def chan_of_def on_chan_def call_handler_Some simp del: call_all.simps split: list.splits)
qed (use assms in \<open>auto simp: NdRetry_def Forward_def handleRoot_def NdHandleQuery_def handleCrash_def handleSlow_def
      handleFlaky_def chan_of_def on_chan_def Let_def bind_Some_conv\<close>)

lemma call_all_append: "call_all h (xs @ ys) a = do { a1 \<leftarrow> call_all h xs a; call_all h ys a1 }"
  by (induction xs arbitrary: a) (auto split: Option.bind_split)

lemma on_chan_append [simp]: "on_chan b (xs @ ys) = on_chan b xs @ on_chan b ys"
  by (simp add: on_chan_def)

lemma nd_run_facts:
  assumes "nd_run e evs n = Some (ps, cs, n')"
  shows "chan_of b n @ on_chan b ps = on_chan b cs @ chan_of b n' \<and> handles n' = handles n \<and>
    call_all (handles n) (map snd cs) (ndApp n) = Some (ndApp n')"
  using assms
proof (induction evs arbitrary: n ps cs)
  case (Cons ev evs)
  then obtain n1 ps1 cs1 where s: "nd_step e ev n = Some n1" and r: "nd_run e evs n1 = Some (ps1, cs1, n')"
    and p: "ps = puts e ev n @ ps1" "cs = calls ev n @ cs1" by (auto simp: bind_Some_conv)
  note S = nd_step_facts [OF s, of b] and R = Cons.IH [OF r]
  from S R have "chan_of b n @ on_chan b (puts e ev n) @ on_chan b ps1 = on_chan b (calls ev n) @ on_chan b cs1 @ chan_of b n'"
    by (metis append.assoc)
  with S R show ?case by (simp add: p call_all_append)
qed (simp add: on_chan_def)

text \<open>C30 (dispatch order): in any run of a node, on each of its two channels the messages put on it are, in this order, those for which a
  handler was called followed by those still waiting; and the state of the application is the one reached by
  calling the registered handlers for the messages of both channels one after the other.\<close>

theorem node_dispatches_in_order:
  assumes "nd_run e evs n = Some (ps, cs, n')"
  shows "chan_of b n @ on_chan b ps = on_chan b cs @ chan_of b n' \<and> handles n' = handles n \<and>
    call_all (handles n) (map snd cs) (ndApp n) = Some (ndApp n')"
  using assms by (rule nd_run_facts)

section \<open>The replica on its node\<close>

text \<open>A handler of the replica as a function value: \<open>f\<close> selects the argument, and a value of another type makes
  \<open>reflect.Value.Call\<close> panic.\<close>

definition rp_func :: "string \<Rightarrow> (iface \<Rightarrow> (Replica \<Rightarrow> Replica option) option) \<Rightarrow> Replica go_func" where
  "rp_func t f = \<lparr>gfIsFunc = True, gfIn = [t], gfCall = (\<lambda>m r. do { h \<leftarrow> f m; h r })\<rparr>"

text \<open>The registrations of \<open>NewReplica\<close>: the zero value of each message type and the handler.  \<open>query\<close> is \<open>handleQuery\<close>;
  \<open>call\<close> empties what the replica records of one call.\<close>

definition rp_registrations :: "RpEnv \<Rightarrow> (Replica \<Rightarrow> Replica option) \<Rightarrow> (iface \<times> Replica go_func) list" where
  "rp_registrations e query =
     [(IProposal \<lparr>ppHeader = zeroHeader, ppHashList = [], ppTxNums = [], ppGroupList = [], ppAckNode = [], ppMbTime = []\<rparr>,
       rp_func ''blockchain.Proposal'' (\<lambda>m. case m of IProposal p \<Rightarrow> Some (\<lambda>r. HandleProposal e (call r) p) | _ \<Rightarrow> None)),
      (IMicroBlock zeroMicroBlock,
       rp_func ''blockchain.MicroBlock'' (\<lambda>m. case m of IMicroBlock mb \<Rightarrow> Some (\<lambda>r. HandleMicroblock e (call r) mb) | _ \<Rightarrow> None)),
      (IVote \<lparr>voteView = 0, voteVoter = [], voteBlockID = 0, voteTimestamp = 0, voteSignature = []\<rparr>,
       rp_func ''blockchain.Vote'' (\<lambda>m. case m of IVote v \<Rightarrow> Some (\<lambda>r. Some (HandleVote e (call r) v)) | _ \<Rightarrow> None)),
      (ITMO \<lparr>tmoView = 0, tmoNodeID = [], tmoHighQC = None\<rparr>,
       rp_func ''pacemaker.TMO'' (\<lambda>m. case m of ITMO t \<Rightarrow> Some (\<lambda>r. Some (HandleTmo (call r) t)) | _ \<Rightarrow> None)),
      (ITransaction zeroTransaction,
       rp_func ''message.Transaction'' (\<lambda>m. case m of ITransaction t \<Rightarrow> Some (\<lambda>r. handleTxn e (call r) t) | _ \<Rightarrow> None)),
      (IQuery,
       rp_func ''message.Query'' (\<lambda>m. case m of IQuery \<Rightarrow> Some query | _ \<Rightarrow> None)),
      (IMissingMBRequest [] 0 [],
       rp_func ''message.MissingMBRequest''
         (\<lambda>m. case m of IMissingMBRequest x p xs \<Rightarrow> Some (\<lambda>r. Some (HandleMissingMBRequest (call r) x xs)) | _ \<Rightarrow> None)),
      (IMissingStableMBRequest [] 0,
       rp_func ''message.MissingStableMBRequest''
         (\<lambda>m. case m of IMissingStableMBRequest x y \<Rightarrow> Some (\<lambda>r. Some (RpHandleMissingStableMb (call r) x y)) | _ \<Rightarrow> None)),
      (IAck \<lparr>ackReceiver = [], ackMicroblockID = 0, ackSignature = [], ackOutGroup = False\<rparr>,
       rp_func ''blockchain.Ack'' (\<lambda>m. case m of IAck a \<Rightarrow> Some (\<lambda>r. HandleAck e (call r) a) | _ \<Rightarrow> None)),
      (IExecuteResult zeroResult,
       rp_func ''execute.ExecuteResult'' (\<lambda>m. case m of IExecuteResult res \<Rightarrow> Some (\<lambda>r. Some (handleResult (call r) res)) | _ \<Rightarrow> None)),
      (IStable \<lparr>stAckInGroup = [], stAckOutGroup = [], stAckNodeList = {}, stMicroblockID = 0, stSender = [], stGroupId = 0,
         stMbCreationTime = 0, stTxNums = 0\<rparr>,
       rp_func ''blockchain.Stable'' (\<lambda>m. case m of IStable s \<Rightarrow> Some (\<lambda>r. HandleStable e (call r) s) | _ \<Rightarrow> None))]"

fun register_all :: "(iface \<times> 's go_func) list \<Rightarrow> 's node \<Rightarrow> 's node option" where
  "register_all [] n = Some n"
| "register_all (x # xs) n = do { n1 \<leftarrow> Register n (fst x) (snd x); register_all xs n1 }"

definition rp_handles :: "RpEnv \<Rightarrow> (Replica \<Rightarrow> Replica option) \<Rightarrow> string \<rightharpoonup> Replica go_func" where
  "rp_handles e query = map_of (map (\<lambda>x. (hd (gfIn (snd x)), snd x)) (rp_registrations e query))"

text \<open>All registrations are accepted, and build this table.\<close>

lemma Register_rp_func: "type_name m = Some t \<Longrightarrow> Register n m (rp_func t f) = Some (n\<lparr>handles := (handles n)(t \<mapsto> rp_func t f)\<rparr>)"
  by (simp add: Register_def rp_func_def)

lemma register_all_table:
  assumes "\<forall>x\<in>set xs. \<exists>t f. type_name (fst x) = Some t \<and> snd x = rp_func t f"
    and "distinct (map (\<lambda>x. hd (gfIn (snd x))) xs)"
  shows "register_all xs n = Some (n\<lparr>handles := handles n ++ map_of (map (\<lambda>x. (hd (gfIn (snd x)), snd x)) xs)\<rparr>)"
  using assms
proof (induction xs arbitrary: n)
  case (Cons x xs)
  then obtain t f where x: "type_name (fst x) = Some t" "snd x = rp_func t f" by auto
  have t: "hd (gfIn (rp_func t f)) = t" by (simp add: rp_func_def)
  with Cons.prems(2) x have "t \<notin> dom (map_of (map (\<lambda>x. (hd (gfIn (snd x)), snd x)) xs))"
    by (simp add: dom_map_of_conv_image_fst image_image)
  then have e: "(handles n)(t \<mapsto> rp_func t f) ++ map_of (map (\<lambda>x. (hd (gfIn (snd x)), snd x)) xs) =
      handles n ++ map_of (map (\<lambda>x. (hd (gfIn (snd x)), snd x)) (x # xs))"
    using x(2) t by (auto simp: fun_eq_iff map_add_def split: option.split)
  have "register_all (x # xs) n = register_all xs (n\<lparr>handles := (handles n)(t \<mapsto> rp_func t f)\<rparr>)"
    using x Register_rp_func [OF x(1), of n f] by simp
  also have "\<dots> = Some (n\<lparr>handles := (handles n)(t \<mapsto> rp_func t f) ++ map_of (map (\<lambda>x. (hd (gfIn (snd x)), snd x)) xs)\<rparr>)"
    using Cons.IH [of "n\<lparr>handles := (handles n)(t \<mapsto> rp_func t f)\<rparr>"] Cons.prems by (simp add: fun_upd_def)
  finally show ?case unfolding e .
qed simp

lemma registrations_succeed:
  assumes "handles n = Map.empty"
  shows "register_all (rp_registrations e query) n = Some (n\<lparr>handles := rp_handles e query\<rparr>)"
proof -
  have t: "hd (gfIn (rp_func t f)) = t" for t f by (simp add: rp_func_def)
  have "\<forall>x\<in>set (rp_registrations e query). \<exists>t f. type_name (fst x) = Some t \<and> snd x = rp_func t f"
    unfolding rp_registrations_def list.set ball_simps fst_conv snd_conv type_name.simps option.inject by blast
  moreover have "distinct (map (\<lambda>x. hd (gfIn (snd x))) (rp_registrations e query))"
    by (simp add: rp_registrations_def t)
  ultimately show ?thesis using register_all_table assms by (simp add: rp_handles_def)
qed

text \<open>What the registered functions amount to: each message is an input of the replica, a query, or fatal.\<close>

fun input_of :: "iface \<Rightarrow> rp_input option" where
  "input_of (IProposal p) = Some (InProposal p)"
| "input_of (IMicroBlock mb) = Some (InMicroblock mb)"
| "input_of (IVote v) = Some (InVote v)"
| "input_of (ITMO t) = Some (InTmo t)"
| "input_of (ITransaction t) = Some (InTxn t)"
| "input_of (IMissingMBRequest x p xs) = Some (InMissing x xs)"
| "input_of (IMissingStableMBRequest x y) = Some (InMissingStable x y)"
| "input_of (IAck a) = Some (InAck a)"
| "input_of (IExecuteResult r) = Some (InResult r)"
| "input_of (IStable s) = Some (InStable s)"
| "input_of _ = None"

definition rp_message :: "RpEnv \<Rightarrow> (Replica \<Rightarrow> Replica option) \<Rightarrow> iface \<Rightarrow> Replica \<Rightarrow> Replica option" where
  "rp_message e query m r = (if m = IQuery then query r else do { i \<leftarrow> input_of m; rp_handle e (call r) i })"

fun rp_messages :: "RpEnv \<Rightarrow> (Replica \<Rightarrow> Replica option) \<Rightarrow> iface list \<Rightarrow> Replica \<Rightarrow> Replica option" where
  "rp_messages e query [] r = Some r"
| "rp_messages e query (m # ms) r = do { r1 \<leftarrow> rp_message e query m r; rp_messages e query ms r1 }"

lemma rp_messages_run: "map input_of ms = map Some inps \<Longrightarrow> rp_messages e query ms r = rp_run e r inps"
proof (induction ms arbitrary: inps r)
  case (Cons m ms)
  then obtain i js where i: "inps = i # js" "input_of m = Some i" "map input_of ms = map Some js" by (cases inps) auto
  then have "m \<noteq> IQuery" by auto
  moreover have "rp_messages e query ms = (\<lambda>r. rp_run e r js)" by (rule ext) (rule Cons.IH [OF i(3)])
  ultimately show ?case using i by (simp add: rp_message_def)
qed simp

lemma rp_handles_simps:
  "rp_handles e query ''blockchain.Proposal'' =
     Some (rp_func ''blockchain.Proposal'' (\<lambda>m. case m of IProposal p \<Rightarrow> Some (\<lambda>r. HandleProposal e (call r) p) | _ \<Rightarrow> None))"
  "rp_handles e query ''blockchain.MicroBlock'' =
     Some (rp_func ''blockchain.MicroBlock'' (\<lambda>m. case m of IMicroBlock mb \<Rightarrow> Some (\<lambda>r. HandleMicroblock e (call r) mb) | _ \<Rightarrow> None))"
  "rp_handles e query ''blockchain.Vote'' =
     Some (rp_func ''blockchain.Vote'' (\<lambda>m. case m of IVote v \<Rightarrow> Some (\<lambda>r. Some (HandleVote e (call r) v)) | _ \<Rightarrow> None))"
  "rp_handles e query ''pacemaker.TMO'' =
     Some (rp_func ''pacemaker.TMO'' (\<lambda>m. case m of ITMO t \<Rightarrow> Some (\<lambda>r. Some (HandleTmo (call r) t)) | _ \<Rightarrow> None))"
  "rp_handles e query ''message.Transaction'' =
     Some (rp_func ''message.Transaction'' (\<lambda>m. case m of ITransaction t \<Rightarrow> Some (\<lambda>r. handleTxn e (call r) t) | _ \<Rightarrow> None))"
  "rp_handles e query ''message.Query'' = Some (rp_func ''message.Query'' (\<lambda>m. case m of IQuery \<Rightarrow> Some query | _ \<Rightarrow> None))"
  "rp_handles e query ''message.MissingMBRequest'' =
     Some (rp_func ''message.MissingMBRequest''
       (\<lambda>m. case m of IMissingMBRequest x p xs \<Rightarrow> Some (\<lambda>r. Some (HandleMissingMBRequest (call r) x xs)) | _ \<Rightarrow> None))"
  "rp_handles e query ''message.MissingStableMBRequest'' =
     Some (rp_func ''message.MissingStableMBRequest''
       (\<lambda>m. case m of IMissingStableMBRequest x y \<Rightarrow> Some (\<lambda>r. Some (RpHandleMissingStableMb (call r) x y)) | _ \<Rightarrow> None))"
  "rp_handles e query ''blockchain.Ack'' =
     Some (rp_func ''blockchain.Ack'' (\<lambda>m. case m of IAck a \<Rightarrow> Some (\<lambda>r. HandleAck e (call r) a) | _ \<Rightarrow> None))"
  "rp_handles e query ''execute.ExecuteResult'' =
     Some (rp_func ''execute.ExecuteResult'' (\<lambda>m. case m of IExecuteResult res \<Rightarrow> Some (\<lambda>r. Some (handleResult (call r) res)) | _ \<Rightarrow> None))"
  "rp_handles e query ''blockchain.Stable'' =
     Some (rp_func ''blockchain.Stable'' (\<lambda>m. case m of IStable s \<Rightarrow> Some (\<lambda>r. HandleStable e (call r) s) | _ \<Rightarrow> None))"
  "rp_handles e query ''pacemaker.TC'' = None" "rp_handles e query ''blockchain.Block'' = None"
  "rp_handles e query (CHR ''*'' # t) = None"
  by (simp_all add: rp_handles_def rp_registrations_def rp_func_def)

text \<open>The table sends each message to its handler, and only there.\<close>

lemma rp_handles_dispatch:
  "do { name \<leftarrow> type_name m; f \<leftarrow> rp_handles e query name; gfCall f m r } = rp_message e query m r"
proof (cases m)
  case (IPtr p)
  then show ?thesis by (cases "type_name p") (simp_all add: rp_message_def rp_handles_simps)
qed (simp_all add: rp_message_def rp_handles_simps, simp_all add: rp_func_def)

lemma call_all_rp_messages: "call_all (rp_handles e query) ms r = rp_messages e query ms r"
proof (induction ms arbitrary: r)
  case (Cons m ms)
  have "call_all (rp_handles e query) (m # ms) r =
      do { r1 \<leftarrow> do { name \<leftarrow> type_name m; f \<leftarrow> rp_handles e query name; gfCall f m r }; call_all (rp_handles e query) ms r1 }"
    by (auto split: Option.bind_splits)
  then show ?case using Cons.IH unfolding rp_handles_dispatch by simp
qed simp

lemma call_handler_rp:
  assumes "handles n = rp_handles e query"
  shows "call_handler m n = map_option (\<lambda>r. n\<lparr>ndApp := r\<rparr>) (rp_message e query m (ndApp n))"
proof -
  have "call_handler m n = map_option (\<lambda>r. n\<lparr>ndApp := r\<rparr>)
      (do { name \<leftarrow> type_name m; f \<leftarrow> rp_handles e query name; gfCall f m (ndApp n) })"
    by (auto simp: call_handler_def assms map_option_case split: Option.bind_splits option.splits)
  then show ?thesis unfolding rp_handles_dispatch .
qed

text \<open>C29 (node and replica): a node with the functions that \<open>NewReplica\<close> registers calls, for each message, exactly the handler
  of its type.  After any run the replica is in the state that its handlers reach on the messages in the order of
  the calls, which is the state that the model of the replica reaches on them when none of them is a query; and the next
  message of either channel takes the node to the result of the handler of that message, and ends the process
  when the handler does or when there is none.\<close>

theorem node_refines_replica:
  assumes "nd_run e evs n = Some (ps, cs, n')" and "handles n = rp_handles re query"
  shows "rp_messages re query (map snd cs) (ndApp n) = Some (ndApp n') \<and>
    (\<forall>inps. map (\<lambda>x. input_of (snd x)) cs = map Some inps \<longrightarrow> rp_run re (ndApp n) inps = Some (ndApp n')) \<and>
    (\<forall>m ms. MessageChan n' = m # ms \<longrightarrow>
       nd_handle n' = map_option (\<lambda>r. n'\<lparr>MessageChan := ms, ndApp := r\<rparr>) (rp_message re query m (ndApp n'))) \<and>
    (\<forall>m ms. TxChan n' = m # ms \<longrightarrow>
       nd_txn n' = map_option (\<lambda>r. n'\<lparr>TxChan := ms, ndApp := r\<rparr>) (rp_message re query m (ndApp n')))"
proof -
  note F = nd_run_facts [OF assms(1), of True]
  have h: "handles n' = rp_handles re query" and r: "rp_messages re query (map snd cs) (ndApp n) = Some (ndApp n')"
    using F assms(2) by (simp_all add: call_all_rp_messages)
  have "rp_run re (ndApp n) inps = Some (ndApp n')" if "map (\<lambda>x. input_of (snd x)) cs = map Some inps" for inps
    using rp_messages_run [of "map snd cs" inps re query "ndApp n"] that r by (simp add: comp_def)
  with r show ?thesis by (simp add: nd_handle_def nd_txn_def call_handler_rp h)
qed

section \<open>Which messages have handlers\<close>

text \<open>
  What a receiver gets over TCP or UDP: the gob encoder follows pointers, and knows the types registered in
  message/message.go and by \<open>NewReplica\<close>; any other value is lost with an error in the log.
\<close>

definition gob_types :: "string list" where
  "gob_types =
     [''message.Transaction'', ''message.Query'', ''blockchain.Proposal'', ''blockchain.MicroBlock'', ''blockchain.Vote'',
      ''pacemaker.TC'', ''pacemaker.TMO'', ''message.MissingMBRequest'', ''blockchain.Ack'', ''execute.ExecuteResult'',
      ''blockchain.Stable'', ''message.MissingStableMBRequest'']"

fun pointee :: "iface \<Rightarrow> iface" where
  "pointee (IPtr m) = pointee m"
| "pointee m = m"

definition gob_transfer :: "iface \<Rightarrow> iface option" where
  "gob_transfer m =
     (case type_name (pointee m) of
        Some t \<Rightarrow> if t \<in> set gob_types then Some (pointee m) else None
      | None \<Rightarrow> None)"

text \<open>The values that the replica, its protocol, its mempool and its executor pass to the socket: pointers, but for the
  forwarded microblocks, the stable messages and the requests for a missing microblock.\<close>

fun iface_of_payload :: "rp_payload \<Rightarrow> iface" where
  "iface_of_payload (PMicroblock mb) = IPtr (IMicroBlock mb)"
| "iface_of_payload (PAck a) = IPtr (IAck a)"
| "iface_of_payload (PProposal p) = IPtr (IProposal p)"

fun iface_of_hs :: "hs_msg \<Rightarrow> iface" where
  "iface_of_hs (MsgVote x v) = IPtr (IVote v)"
| "iface_of_hs (MsgTMO t) = IPtr (ITMO t)"

definition sent_values :: "iface set" where
  "sent_values = range iface_of_payload \<union> range iface_of_hs \<union> range IMicroBlock \<union> range IStable \<union>
     range (\<lambda>r. IPtr (IExecuteResult r)) \<union> range (\<lambda>(x, y). IMissingStableMBRequest x y)"

text \<open>C31 (handlers exist): every message that a replica sends reaches the other side of a TCP connection as a value whose type has a
  registered handler that passes it to the replica.\<close>

theorem sent_messages_have_handlers:
  assumes "m \<in> sent_values"
  shows "\<exists>v t i. gob_transfer m = Some v \<and> type_name v = Some t \<and> rp_handles e query t \<noteq> None \<and> input_of v = Some i"
proof -
  from assms consider p where "m = iface_of_payload p" | h where "m = iface_of_hs h" | mb where "m = IMicroBlock mb"
    | s where "m = IStable s" | r where "m = IPtr (IExecuteResult r)" | x y where "m = IMissingStableMBRequest x y"
    by (auto simp: sent_values_def)
  then show ?thesis
  proof cases
    case (1 p)
    then show ?thesis by (cases p) (simp_all add: gob_transfer_def gob_types_def rp_handles_simps)
  next
    case (2 h)
    then show ?thesis by (cases h) (simp_all add: gob_transfer_def gob_types_def rp_handles_simps)
  qed (simp_all add: gob_transfer_def gob_types_def rp_handles_simps)
qed

theorem sent_messages_have_handlers_witness:
  "\<exists>v t i. gob_transfer (IMissingStableMBRequest ''2'' 9) = Some v \<and> type_name v = Some t \<and>
     rp_handles rp_env Some t \<noteq> None \<and> input_of v = Some i"
proof -
  have "IMissingStableMBRequest ''2'' 9 \<in> sent_values"
    unfolding sent_values_def by (rule UnI2, rule range_eqI [of _ _ "(''2'', 9)"]) simp
  from sent_messages_have_handlers [OF this, of rp_env Some] show ?thesis .
qed

text \<open>The in-process transport passes pointers on as they are, and no handler is registered for a pointer type, so the first message
  ends the receiving process.\<close>

lemma pointer_message_is_fatal:
  assumes "handles n = rp_handles e query" and "MessageChan n = IPtr m # ms"
  shows "nd_handle n = None"
  using assms by (simp add: nd_handle_def call_handler_rp rp_message_def)

text \<open>A packet that cannot be decoded reaches the channel as \<open>nil\<close> and ends the process; a block that Streamlet or lbft echoes
  is not transferred.\<close>

lemma nil_message_is_fatal: "MessageChan n = INil # ms \<Longrightarrow> nd_handle n = None"
  by (simp add: nd_handle_def call_handler_def)

lemma undecodable_packet_becomes_nil:
  "\<not> tClosed t \<Longrightarrow> length (tRecv t) < chan_cap \<Longrightarrow>
     map_option tRecv (udp_receiver INil (Inr (Inl err)) t) = Some (tRecv t @ [INil])"
  by (simp add: udp_receiver_def chan_put_def)

lemma echoed_block_is_lost: "gob_transfer (IPtr (IBlock b)) = None"
  by (simp add: gob_transfer_def gob_types_def)

section \<open>A run\<close>

definition nd_env :: NdEnv where
  "nd_env = \<lparr>ndSock = \<lparr>skScheme = ''tcp'', skParse = (\<lambda>a. Some (''tcp'', a)), skListen = (\<lambda>t. None), skResolve = (\<lambda>t. None),
       skDial = (\<lambda>t k. None), skDelay = 0, skDErr = 0, skFloat = (\<lambda>k. 0), skIntn = (\<lambda>k n. 0), skRange = sorted_list_of_set,
       skSize = (\<lambda>m. 8)\<rparr>,
     ndAddrs = sk_addrs, ndAddrs2 = sk_addrs, ndHTTPAddrs = {}, ndChanBufferSize = 4, ndStrategy = [], ndCrash = 10, ndSlow = 10\<rparr>"

definition nd_start :: "Replica node" where
  "nd_start = (the (NewNode nd_env 0 ''1'' False (rp_new [])))\<lparr>handles := rp_handles rp_env Some\<rparr>"

definition nd_events :: "nd_event list" where
  "nd_events = [NdQuery, NdSocketOp 4 (OpArrive False (IMissingStableMBRequest ''2'' 9)),
     NdSocketOp 5 (OpArrive False (IMissingStableMBRequest ''3'' 8)), NdRecv False, NdHandle, NdRecv False]"

lemma nd_demo:
  "\<exists>n. nd_run nd_env nd_events nd_start =
     Some ([(True, IQuery), (False, IMissingStableMBRequest ''2'' 9), (False, IMissingStableMBRequest ''3'' 8)],
       [(False, IMissingStableMBRequest ''2'' 9)], n)"
  by (simp add: nd_events_def nd_start_def NewNode_def NewSocket_def listener_def NewTransport_def full_address_def TcpListen_def
      nd_env_def sk_addrs_def NdHandleQuery_def put_tx_def chan_put_def nodes_of_def set_node_def tcp_receiver_def chan_cap_def
      nd_recv_def recv_on_def TrRecv_def put_message_def nd_handle_def call_handler_def rp_handles_simps rp_func_def is_txn_def)

theorem node_dispatches_in_order_witness:
  "\<exists>ps n. nd_run nd_env nd_events nd_start = Some (ps, [(False, IMissingStableMBRequest ''2'' 9)], n) \<and>
     MessageChan n = [IMissingStableMBRequest ''3'' 8] \<and> length ps = 3"
proof -
  obtain n where n: "nd_run nd_env nd_events nd_start =
     Some ([(True, IQuery), (False, IMissingStableMBRequest ''2'' 9), (False, IMissingStableMBRequest ''3'' 8)],
       [(False, IMissingStableMBRequest ''2'' 9)], n)" using nd_demo by blast
  have "MessageChan nd_start = []" by (simp add: nd_start_def NewNode_def NewSocket_def listener_def NewTransport_def
        full_address_def TcpListen_def nd_env_def sk_addrs_def)
  with node_dispatches_in_order [OF n, of False] n show ?thesis by (simp add: chan_of_def on_chan_def)
qed

theorem node_refines_replica_witness:
  "\<exists>ps n. nd_run nd_env nd_events nd_start = Some (ps, [(False, IMissingStableMBRequest ''2'' 9)], n) \<and>
     rp_run rp_env (ndApp nd_start) [InMissingStable ''2'' 9] = Some (ndApp n) \<and>
     nd_handle n = map_option (\<lambda>r. n\<lparr>MessageChan := [], ndApp := r\<rparr>)
       (rp_handle rp_env (call (ndApp n)) (InMissingStable ''3'' 8))"
proof -
  obtain n where n: "nd_run nd_env nd_events nd_start =
     Some ([(True, IQuery), (False, IMissingStableMBRequest ''2'' 9), (False, IMissingStableMBRequest ''3'' 8)],
       [(False, IMissingStableMBRequest ''2'' 9)], n)" using nd_demo by blast
  have h: "handles nd_start = rp_handles rp_env Some" "MessageChan nd_start = []"
    by (simp_all add: nd_start_def NewNode_def NewSocket_def listener_def NewTransport_def full_address_def TcpListen_def
        nd_env_def sk_addrs_def)
  have "MessageChan n = [IMissingStableMBRequest ''3'' 8]"
    using nd_run_facts [OF n, of False] h(2) by (simp add: chan_of_def on_chan_def)
  with node_refines_replica [OF n h(1)] n show ?thesis
    by (auto simp: rp_message_def dest: spec [of _ "[InMissingStable ''2'' 9]"])
qed

end
