(* ===== verification/Reports.thy ===== *)
theory Reports
  imports Replica Executor
begin

text \<open>
  The reports of a replica, its load generator and its monitor (src/replica/replica.go: \<open>handleQuery\<close>, \<open>saveQuery\<close>,
  \<open>benchmark\<close>, \<open>startMonitor\<close>).

  A report is the record of the integers from which the source computes it; dividing them and printing the quotients
  are arguments (\<open>reLine\<close>, \<open>reStatus\<close>).  A ratio is a pair of numerator and denominator.  Clock readings are
  numbered by \<open>reNow\<close>.
\<close>

section \<open>Queries\<close>

record report_line =
  rlElapsed :: int
  rlTxLen :: int
  rlStableRate :: "int \<times> int"
  rlStableDelay :: "int \<times> int"
  rlTotalTx :: int
  rlExecuted :: int
  rlCommitted :: int
  rlSince :: int
  rlDelay :: "int \<times> int"
  rlExDelay :: "float64 option"

record report_status =
  rsLeader :: NodeID
  rsRealTime :: "int \<times> int"
  rsRoundTime :: "int \<times> int"
  rsProposeTime :: "int \<times> int"
  rsDissemination :: "int \<times> int"
  rsSlow :: "int \<times> int"
  rsCreation :: "int \<times> int"
  rsBlockSize :: "int \<times> int"
  rsVoteTime :: "int \<times> int"
  rsTxRate :: "int \<times> int"
  rsMbRate :: "int \<times> int"
  rsCounts :: "int list"
  rsHops :: "int \<times> int"
  rsRates :: "int \<times> int"
  rsThrus :: string

record ReportEnv =
  reRp :: RpEnv
  reEx :: ExEnv
  reNow :: "nat \<Rightarrow> Time"
  reLine :: "report_line \<Rightarrow> string"
  reStatus :: "report_status \<Rightarrow> string"
  reRates :: "int \<times> int"
  reQueueEnabled :: bool

record Reporter =
  rtReplica :: Replica
  rtExecutor :: Executor
  rtThrus :: string
  rtMissing :: int
  rtResult :: string
  rtReplies :: "string list"
  rtQueue :: "string list"

definition line_of :: "ReportEnv \<Rightarrow> bool \<Rightarrow> Reporter \<Rightarrow> report_line" where
  "line_of e saved s =
     (let r = rtReplica s in
      \<lparr>rlElapsed = TimeSub (reNow e 0) (rStartTime r), rlTxLen = TxLen (rPool r),
       rlStableRate = (AmTotalStableMb (rSm r), TimeSub (reNow e 1) (rStartTime r)),
       rlStableDelay = (Milliseconds (AmTotalStableTime (rSm r)), AmTotalStableMb (rSm r)),
       rlTotalTx = totalTx r, rlExecuted = TotalNum (rtExecutor s), rlCommitted = totalCommittedTx r,
       rlSince = TimeSub (reNow e 2) (rTmpTime r), rlDelay = (Milliseconds (totalDelay r), latencyNo r),
       rlExDelay = (if saved then Some (DelayForQuery (reEx e) (rtExecutor s)) else None)\<rparr>)"

text \<open>The counters of the reporting window.\<close>

definition reset_window :: "Time \<Rightarrow> Replica \<Rightarrow> Replica" where
  "reset_window tm r = r\<lparr>totalCommittedTx := 0, rTmpTime := tm, totalDelay := 0, latencyNo := 0\<rparr>"

definition status_of :: "ReportEnv \<Rightarrow> Reporter \<Rightarrow> report_status option" where
  "status_of e s =
     (let r = rtReplica s in
      do { leader \<leftarrow> GetCurrentLeader (reRp e) r;
           Some \<lparr>rsLeader = leader,
             rsRealTime = (if rpByGroup (reRp e) then (Milliseconds (totaRealDissminationTime r), totalRealMBS r)
                           else (Milliseconds (totalDisseminationTime r), totalMicroblocks r)),
             rsRoundTime = (Milliseconds (totalRoundTime r), roundNo r),
             rsProposeTime = (Milliseconds (totalProposeDuration r), receivedNo r),
             rsDissemination = (Milliseconds (totalDisseminationTime r), totalMicroblocks r),
             rsSlow = (Milliseconds (totalSlowDisemminationDur r), totalSlowMBs r),
             rsCreation = (Milliseconds (totalCreateDuration r), proposedNo r),
             rsBlockSize = (totalBlockSize r, proposedNo r + receivedNo r),
             rsVoteTime = (Milliseconds (totalVoteTime r), voteNo r),
             rsTxRate = (AmTotalTx (rSm r), TimeSub (reNow e 4) (rStartTime r)),
             rsMbRate = (AmTotalMB (rSm r), TimeSub (reNow e 5) (rStartTime r)),
             rsCounts = [txNoInMB r, totalRedundantMBs r, AmTotalMB (rSm r), AmRemainingMB (rSm r), rtMissing s, totalProposedMBs r,
                AmTotalTx (rSm r), AmRemainingTx (rSm r), AmStableMB (rSm r), AmPendingMB (rSm r)],
             rsHops = (totalHops r, getTotalCommittedBlock r), rsRates = reRates e, rsThrus = rtThrus s\<rparr> })"

text \<open>The part that \<open>handleQuery\<close> and \<open>saveQuery\<close> have in common: the line, the resets and the status.\<close>

definition report :: "ReportEnv \<Rightarrow> bool \<Rightarrow> Reporter \<Rightarrow> (report_line \<times> string \<times> Reporter) option" where
  "report e saved s =
     (let line = line_of e saved s;
          s1 = s\<lparr>rtThrus := rtThrus s @ reLine e line, rtReplica := reset_window (reNow e 3) (rtReplica s),
                 rtExecutor := Reset (rtExecutor s)\<rparr> in
      do { st \<leftarrow> status_of e s1;
           Some (line, reStatus e st,
                 s1\<lparr>rtReplica := (rtReplica s1)\<lparr>totalSlowDisemminationDur := 0, totalSlowMBs := 0\<rparr>\<rparr>) })"

definition handleQuery :: "ReportEnv \<Rightarrow> Reporter \<Rightarrow> (report_line \<times> Reporter) option" where
  "handleQuery e s =
     do { (line, status, s1) \<leftarrow> report e False s;
          Some (line, s1\<lparr>rtReplies := rtReplies s1 @ [status],
                         rtQueue := rtQueue s1 @ (if reQueueEnabled e then [status] else [])\<rparr>) }"

definition saveQuery :: "ReportEnv \<Rightarrow> Reporter \<Rightarrow> (report_line \<times> Reporter) option" where
  "saveQuery e s = do { (line, status, s1) \<leftarrow> report e True s; Some (line, s1\<lparr>rtResult := status\<rparr>) }"

datatype rt_event = RtInput rp_input | RtQuery | RtSave

fun rt_step :: "ReportEnv \<Rightarrow> Reporter \<Rightarrow> rt_event \<Rightarrow> (report_line list \<times> Reporter) option" where
  "rt_step e s (RtInput i) = do { r \<leftarrow> rp_handle (reRp e) (call (rtReplica s)) i; Some ([], s\<lparr>rtReplica := r\<rparr>) }"
| "rt_step e s RtQuery = do { (line, s1) \<leftarrow> handleQuery e s; Some ([line], s1) }"
| "rt_step e s RtSave = do { (line, s1) \<leftarrow> saveQuery e s; Some ([line], s1) }"

fun rt_run :: "ReportEnv \<Rightarrow> Reporter \<Rightarrow> rt_event list \<Rightarrow> (report_line list \<times> Reporter) option" where
  "rt_run e s [] = Some ([], s)"
| "rt_run e s (x # xs) = do { (ls, s1) \<leftarrow> rt_step e s x; (ls', s2) \<leftarrow> rt_run e s1 xs; Some (ls @ ls', s2) }"

section \<open>Load generator\<close>

datatype bench_event = BenchTick | BenchEnd

definition bench_amount :: "string \<Rightarrow> int \<Rightarrow> int option" where
  "bench_amount model txPerSecond =
     (if model = ''exp1'' then Some 10000
      else if model = ''exp2'' then Some txPerSecond
      else if model = ''exp3'' then Some 10000
      else if model = ''exp4'' then Some 100000
      else None)"

text \<open>The seconds between ticks and until the end.\<close>

definition bench_times :: "string \<Rightarrow> int \<Rightarrow> int \<times> int" where
  "bench_times model t =
     (if model = ''exp1'' then (5, t) else if model = ''exp4'' then (3, 30) else (1, t))"

fun bench_loop :: "NodeID \<Rightarrow> (int \<Rightarrow> Bytes \<times> Time) \<Rightarrow> int \<Rightarrow> bench_event list \<Rightarrow> Txpool \<Rightarrow> Txpool option" where
  "bench_loop me gen n [] pool = None"
| "bench_loop me gen n (BenchEnd # evs) pool = Some pool"
| "bench_loop me gen n (BenchTick # evs) pool = do { p \<leftarrow> AddTx me gen pool n; bench_loop me gen n evs p }"

definition benchmark ::
  "NodeID \<Rightarrow> (int \<Rightarrow> Bytes \<times> Time) \<Rightarrow> string \<Rightarrow> int \<Rightarrow> bench_event list \<Rightarrow> Txpool \<Rightarrow> Txpool option" where
  "benchmark me gen model txPerSecond evs pool =
     (if model = ''onlyConsensus'' then None
      else case bench_amount model txPerSecond of None \<Rightarrow> Some pool | Some n \<Rightarrow> bench_loop me gen n evs pool)"

section \<open>Monitor\<close>

text \<open>The clock readings of the loop condition, each with the sample that the tick after it collects.\<close>

fun monitor_loop ::
  "(nat \<Rightarrow> nat) \<Rightarrow> FloatEnv \<Rightarrow> (string set \<Rightarrow> string list) \<Rightarrow> Time \<Rightarrow> (Time \<times> Sample) list \<Rightarrow> MonitorManager \<Rightarrow> MonitorManager option" where
  "monitor_loop growth fe rng endTime [] m = None"
| "monitor_loop growth fe rng endTime ((tm, smp) # ts) m =
     (if tm < endTime then monitor_loop growth fe rng endTime ts (collectData growth fe rng m smp) else Some m)"

record MonConfig =
  mcN :: int
  mcThreshold :: int
  mcTxPerSecond :: int
  mcGroupNum :: int
  mcPayloadSize :: int
  mcTime :: int
  mcByGroup :: bool
  mcBySample :: bool

text \<open>\<open>dur\<close> is \<open>Duration.String\<close> and \<open>stamp\<close> the formatted time.\<close>

definition result_path :: "MonConfig \<Rightarrow> (int \<Rightarrow> string) \<Rightarrow> string \<Rightarrow> NodeID \<Rightarrow> int \<Rightarrow> int \<Rightarrow> string" where
  "result_path c dur stamp me duration interval =
     ''./result/ID'' @ me @ ''-N'' @ Itoa (mcN c) @ ''-Threshold'' @ Itoa (mcThreshold c) @ ''-Tx'' @ Itoa (mcTxPerSecond c) @
     ''-txSize'' @ Itoa (mcPayloadSize c) @ ''-BenchTime'' @ Itoa (mcTime c) @
     (if mcByGroup c then ''-Gnum'' @ Itoa (mcGroupNum c) @ ''-group'' else if mcBySample c then ''-sample'' else ''-stratus'') @
     ''-duration'' @ dur duration @ ''-interval'' @ dur interval @ ''-'' @ stamp @ ''.json''"

definition startMonitor ::
  "MonConfig \<Rightarrow> (int \<Rightarrow> string) \<Rightarrow> string \<Rightarrow> NodeID \<Rightarrow> (nat \<Rightarrow> nat) \<Rightarrow> FloatEnv \<Rightarrow> (string set \<Rightarrow> string list) \<Rightarrow>
   Time \<Rightarrow> int \<Rightarrow> int \<Rightarrow> (Time \<times> Sample) list \<Rightarrow> MonitorManager \<Rightarrow> (string \<times> MonitorManager) option" where
  "startMonitor c dur stamp me growth fe rng tm duration interval ts m =
     do { m1 \<leftarrow> monitor_loop growth fe rng (tm + duration) ts (m\<lparr>mmDuration := duration, mmInterval := interval\<rparr>);
          Some (result_path c dur stamp me duration interval, m1) }"

section \<open>Lemmas\<close>

lemma report_facts:
  assumes "report e saved s = Some (line, status, s')"
  shows "rlCommitted line = totalCommittedTx (rtReplica s)" and "totalCommittedTx (rtReplica s') = 0"
    and "com (rtReplica s') = (case com (rtReplica s) of (d, n, seen, _) \<Rightarrow> (d, n, seen, 0))"
    and "rtThrus s' = rtThrus s @ reLine e line"
  using assms
  by (auto simp: report_def reset_window_def line_of_def Let_def bind_Some_conv com_def delivered_def)

text \<open>What the lines report and what is still to be reported.\<close>

definition reported :: "report_line list \<Rightarrow> int" where
  "reported ls = sum_list (map rlCommitted ls)"

lemma rt_step_counts:
  assumes "rt_step e s x = Some (ls, s')"
  shows "uncounted (com (rtReplica s)) = uncounted (com (rtReplica s')) - reported ls \<and>
    rtThrus s' = rtThrus s @ concat (map (reLine e) ls)"
proof (cases x)
  case (RtInput i)
  with assms obtain r where "rp_handle (reRp e) (call (rtReplica s)) i = Some r" "ls = []" "s' = s\<lparr>rtReplica := r\<rparr>"
    by (auto simp: bind_Some_conv)
  with rp_handle_counts [OF this(1)] show ?thesis by (simp add: com_simps reported_def)
next
  case RtQuery
  with assms obtain line status s1 where "report e False s = Some (line, status, s1)" and l: "ls = [line]"
    "rtReplica s' = rtReplica s1" "rtThrus s' = rtThrus s1"
    by (auto simp: handleQuery_def bind_Some_conv)
  from report_facts [OF this(1)] l show ?thesis by (simp add: reported_def uncounted_def com_def)
next
  case RtSave
  with assms obtain line status s1 where "report e True s = Some (line, status, s1)" and l: "ls = [line]"
    "rtReplica s' = rtReplica s1" "rtThrus s' = rtThrus s1"
    by (auto simp: saveQuery_def bind_Some_conv)
  from report_facts [OF this(1)] l show ?thesis by (simp add: reported_def uncounted_def com_def)
qed

lemma rt_run_counts:
  "rt_run e s xs = Some (ls, s') \<Longrightarrow>
     uncounted (com (rtReplica s)) = uncounted (com (rtReplica s')) - reported ls \<and>
     rtThrus s' = rtThrus s @ concat (map (reLine e) ls)"
proof (induction xs arbitrary: s ls)
  case (Cons x xs)
  then obtain l1 s1 l2 where a: "rt_step e s x = Some (l1, s1)" "rt_run e s1 xs = Some (l2, s')" "ls = l1 @ l2"
    by (auto simp: bind_Some_conv)
  from rt_step_counts [OF a(1)] Cons.IH [OF a(2)] a(3) show ?case by (simp add: reported_def)
qed (simp add: reported_def)

text \<open>C35 (reports): over any run of a replica from its start, with queries in between, every committed transaction is counted in exactly one
  line of the report or not yet: the counts of the lines and the current counter add up to the transactions
  of the microblocks delivered to the executor, and the text of the report is the lines in order.\<close>

theorem reports_count_each_commit_once:
  assumes "rt_run e \<lparr>rtReplica = rp_init sm hs gm pool lim, rtExecutor = ex, rtThrus = [], rtMissing = 0, rtResult = [], rtReplies = [],
      rtQueue = []\<rparr> xs = Some (ls, s)"
  shows "reported ls + totalCommittedTx (rtReplica s) = txs_of (delivered (rtReplica s)) \<and>
    rtThrus s = concat (map (reLine e) ls)"
  using rt_run_counts [OF assms] by (simp add: uncounted_def com_def delivered_def rp_init_def txs_of_def)

definition rt_env :: ReportEnv where
  "rt_env = \<lparr>reRp = rp_env, reEx = ex_env False False, reNow = (\<lambda>k. int k), reLine = (\<lambda>l. Itoa (rlCommitted l)), reStatus = rsThrus,
     reRates = (0, 0), reQueueEnabled = False\<rparr>"

definition tx_block :: Block where
  "tx_block = \<lparr>blkHeader = zeroHeader, blkPayload = Some (NewPayload
     [Some (zeroMicroBlock\<lparr>mbHash := 5, mbTxns := [zeroTransaction, zeroTransaction]\<rparr>)] Map.empty [] [])\<rparr>"

theorem reports_count_each_commit_once_witness:
  "\<exists>ls s. rt_run rt_env \<lparr>rtReplica = rp_new [tx_block, rp_block [6]], rtExecutor = ex_new, rtThrus = [], rtMissing = 0, rtResult = [],
       rtReplies = [], rtQueue = []\<rparr> [RtInput InCommitted, RtSave, RtInput InCommitted, RtSave] = Some (ls, s) \<and>
     map rlCommitted ls = [2, 0] \<and> txs_of (delivered (rtReplica s)) = 2"
proof -
  obtain ls s where r: "rt_run rt_env \<lparr>rtReplica = rp_new [tx_block, rp_block [6]], rtExecutor = ex_new, rtThrus = [], rtMissing = 0,
       rtResult = [], rtReplies = [], rtQueue = []\<rparr> [RtInput InCommitted, RtSave, RtInput InCommitted, RtSave] = Some (ls, s)"
    and l: "map rlCommitted ls = [2, 0]" "totalCommittedTx (rtReplica s) = 0"
    by (simp add: rt_env_def tx_block_def saveQuery_def report_def status_of_def line_of_def reset_window_def rp_eval
        GetCurrentLeader_def sample_env_def commit_txn_def StaticFindLeaderFor_def NewStatic_def numeral_2_eq_2)
  from reports_count_each_commit_once [OF r [unfolded rp_new_def]] l r show ?thesis by (auto simp: reported_def)
qed

text \<open>The load generator keeps the accounts of the pool, and a run of it ends with the first end event.\<close>

lemma bench_loop_ok:
  "bench_loop me gen n evs p = Some p' \<Longrightarrow> pool_inv (p, out) \<Longrightarrow> pool_inv (p', out) \<and> Poolsize p' = Poolsize p"
proof (induction evs arbitrary: p)
  case (Cons ev evs)
  show ?case
  proof (cases ev)
    case BenchTick
    with Cons.prems obtain p1 where a: "AddTx me gen p n = Some p1" "bench_loop me gen n evs p1 = Some p'"
      by (auto simp: bind_Some_conv)
    have "pool_step me gen (p, out) (PoolAdd n) = Some (p1, out)" using a(1) by simp
    from pool_step_inv [OF Cons.prems(2) this] Cons.IH [OF a(2)] show ?thesis by simp
  qed (use Cons.prems in simp)
qed simp

lemma monitor_loop_ticks:
  assumes "monitor_loop growth fe rng endTime ts m = Some m'"
  shows "\<exists>k. StableNumList m' = StableNumList m @ map (smStable \<circ> snd) (take k ts) \<and>
    list_all (\<lambda>x. fst x < endTime) (take k ts) \<and> k < length ts \<and> endTime \<le> fst (ts ! k)"
  using assms
proof (induction ts arbitrary: m)
  case (Cons x ts)
  obtain tm smp where x: "x = (tm, smp)" by (cases x)
  show ?case
  proof (cases "tm < endTime")
    case True
    with Cons.prems x have "monitor_loop growth fe rng endTime ts (collectData growth fe rng m smp) = Some m'" by simp
    from Cons.IH [OF this] obtain k where "StableNumList m' = StableNumList (collectData growth fe rng m smp) @ map (smStable \<circ> snd) (take k ts)"
      "list_all (\<lambda>x. fst x < endTime) (take k ts)" "k < length ts" "endTime \<le> fst (ts ! k)" by blast
    then show ?thesis using True x by (intro exI [of _ "Suc k"]) (simp add: collectData_lists)
  next
    case False
    with Cons.prems x show ?thesis by (intro exI [of _ 0]) simp
  qed
qed simp

end
