(* ===== verification/Gossip.thy ===== *)
theory Gossip
  imports Replica
begin

text \<open>
  Gossip of microblocks (src/replica/replica.go: \<open>gossip\<close>, \<open>pickFanoutNodes\<close>, \<open>pickGroup\<close>) and the check of a
  table of signatures (\<open>verifySigs\<close>).

  The bitmap of nodes is a library type: setting a bit and listing the bits are the arguments \<open>gsBmSet\<close> and
  \<open>gsBmRange\<close>, with \<open>bitmap_ok\<close> for what is documented of them; \<open>shuffle_ok\<close> states that a shuffle permutes.  The
  microblock handed to \<open>MulticastQuorum\<close> is the one that \<open>pickFanoutNodes\<close> has updated.
\<close>

record GsEnv =
  gsRp :: RpEnv
  gsOpt :: bool
  gsFanout :: int
  gsP :: int
  gsAddrs :: nat
  gsShuffle :: "nat \<Rightarrow> NodeID list \<Rightarrow> NodeID list"
  gsBmSet :: "nat \<Rightarrow> Bitmap \<Rightarrow> Bitmap"
  gsBmRange :: "Bitmap \<Rightarrow> nat list"

record Gossip =
  gsReplica :: Replica
  mbSentNodes :: "Identifier \<rightharpoonup> Bitmap"
  gsShuffles :: nat

definition pickFanoutNodes :: "GsEnv \<Rightarrow> Gossip \<Rightarrow> MicroBlock \<Rightarrow> (NodeID list \<times> MicroBlock \<times> Gossip) option" where
  "pickFanoutNodes e g mb =
     (let g1 = g\<lparr>gsShuffles := Suc (gsShuffles g)\<rparr>; pick = PickRandomNodes (gsShuffle e (gsShuffles g)) (gsAddrs e) (gsFanout e) in
      if \<not> gsOpt e then do { xs \<leftarrow> pick []; Some (xs, mb, g1) }
      else
        let mb1 = (case mbSentNodes g (mbHash mb) of
                     Some bm \<Rightarrow> AddSentNodes (gsBmSet e) mb (BitmapToNodes (gsBmRange e) bm)
                   | None \<Rightarrow> mb);
            acks = (case AmAckList (rpAm (gsRp e)) (rSm (gsReplica g)) (mbHash mb) of None \<Rightarrow> [] | Some xs \<Rightarrow> xs);
            mb2 = AddSentNodes (gsBmSet e) mb1 acks;
            mb3 = AddSentNodes (gsBmSet e) mb2 [rpID (gsRp e)] in
        do { xs \<leftarrow> pick (FindSentNodes (gsBmRange e) mb3);
             let mb4 = AddSentNodes (gsBmSet e) mb3 xs in
             Some (xs, mb4, g1\<lparr>mbSentNodes := (mbSentNodes g1)(mbHash mb \<mapsto> mbBitmap mb4)\<rparr>) })"

text \<open>Waiting for tokens; the delay is slept.\<close>

definition gossip_take :: "GsEnv \<Rightarrow> Time \<Rightarrow> Gossip \<Rightarrow> int \<times> Gossip" where
  "gossip_take e tm g =
     (let (tt, lim) = Take (rLimiter (gsReplica g)) tm (gsFanout e) in (tt, g\<lparr>gsReplica := (gsReplica g)\<lparr>rLimiter := lim\<rparr>\<rparr>))"

definition multicast_mb :: "GsEnv \<Rightarrow> Gossip \<Rightarrow> MicroBlock \<Rightarrow> ((NodeID list \<times> MicroBlock) list \<times> Gossip) option" where
  "multicast_mb e g mb =
     do { (xs, mb', g1) \<leftarrow> pickFanoutNodes e g mb;
          Some ([(xs, mb')], g1\<lparr>gsReplica := send (RMulticastQuorum xs (PMicroblock mb')) (gsReplica g1)\<rparr>) }"

text \<open>An iteration of the inner loop, with the microblocks it multicasts.  When a microblock of its own is waiting it goes first,
  unless it came (\<open>late\<close>) after the first \<open>select\<close>, which leaves the choice open.\<close>

definition gossip_iter :: "GsEnv \<Rightarrow> bool \<Rightarrow> Gossip \<Rightarrow> ((NodeID list \<times> MicroBlock) list \<times> Gossip) option" where
  "gossip_iter e late g =
     (let r = gsReplica g in
      if rSelfMBChan r \<noteq> [] \<and> (\<not> late \<or> rOtherMBChan r = []) then
        multicast_mb e (g\<lparr>gsReplica := r\<lparr>rSelfMBChan := tl (rSelfMBChan r)\<rparr>\<rparr>) (hd (rSelfMBChan r))
      else
        case rOtherMBChan r of
          [] \<Rightarrow> None
        | mb # mbs \<Rightarrow>
            let r1 = r\<lparr>rOtherMBChan := mbs\<rparr> in
            if \<not> AmIsStable (rSm r) (mbHash mb) \<and> mbHops mb \<le> rpR (gsRp e) then
              if Node (rpID (gsRp e)) > rpSlowNo (gsRp e) then multicast_mb e (g\<lparr>gsReplica := r1\<rparr>) mb
              else if rpIntn (gsRp e) (rDraw r1) 100 < gsP e
                then multicast_mb e (g\<lparr>gsReplica := r1\<lparr>rDraw := Suc (rDraw r1)\<rparr>\<rparr>) mb
              else Some ([], g\<lparr>gsReplica := r1\<lparr>rDraw := Suc (rDraw r1)\<rparr>\<rparr>)
            else Some ([], g\<lparr>gsReplica := r1\<rparr>))"

definition pickGroup :: "RpEnv \<Rightarrow> Replica \<Rightarrow> (NodeID list \<times> Replica) option" where
  "pickGroup e r =
     (let n = rpN e - 1 in
      do { (pick, k) \<leftarrow> RandomPick (rpIntn e) n 3 (rDraw r);
           Some (map (\<lambda>item. NewNodeID (item + 2)) pick, r\<lparr>rDraw := k\<rparr>) })"

text \<open>The table of signatures, in the order in which its maps are enumerated.\<close>

fun verify_sigs_of :: "KeyRing \<Rightarrow> Identifier \<Rightarrow> (NodeID \<times> Signature) list \<Rightarrow> bool option" where
  "verify_sigs_of kr mbID [] = Some True"
| "verify_sigs_of kr mbID (x # xs) =
     do { (voteIsVerified, err) \<leftarrow> PubVerify kr (snd x) (IDToByte mbID) (fst x);
          if err \<noteq> None then Some False
          else if \<not> voteIsVerified then Some False
          else verify_sigs_of kr mbID xs }"

fun verifySigs :: "KeyRing \<Rightarrow> (Identifier \<times> (NodeID \<times> Signature) list) list \<Rightarrow> bool option" where
  "verifySigs kr [] = Some True"
| "verifySigs kr (x # xs) =
     do { ok \<leftarrow> verify_sigs_of kr (fst x) (snd x); if \<not> ok then Some False else verifySigs kr xs }"

section \<open>Signatures\<close>

lemma verify_sigs_of_iff:
  "verify_sigs_of kr mbID xs = Some True \<longleftrightarrow>
     list_all (\<lambda>x. PubVerify kr (snd x) (IDToByte mbID) (fst x) = Some (True, None)) xs"
  by (induction xs) (auto split: Option.bind_splits)

lemma verifySigs_iff:
  "verifySigs kr xs = Some True \<longleftrightarrow>
     list_all (\<lambda>x. list_all (\<lambda>y. PubVerify kr (snd y) (IDToByte (fst x)) (fst y) = Some (True, None)) (snd x)) xs"
  by (induction xs) (auto simp: verify_sigs_of_iff [symmetric] split: Option.bind_splits)

section \<open>A microblock is not sent twice to the same node\<close>

definition bitmap_ok :: "GsEnv \<Rightarrow> bool" where
  "bitmap_ok e \<longleftrightarrow> (\<forall>k bm. k < 2 ^ 32 \<longrightarrow> set (gsBmRange e (gsBmSet e k bm)) = insert k (set (gsBmRange e bm)))"

definition shuffle_ok :: "GsEnv \<Rightarrow> bool" where
  "shuffle_ok e \<longleftrightarrow> (\<forall>k xs. set (gsShuffle e k xs) = set xs \<and> distinct (gsShuffle e k xs) = distinct xs)"

definition bit_of :: "NodeID \<Rightarrow> nat" where
  "bit_of x = nat (Node x mod 2 ^ 32)"

lemma bit_of_less: "bit_of x < 2 ^ 32"
  by (simp add: bit_of_def nat_less_iff)

lemma bits_AddSentNodes:
  assumes "bitmap_ok e"
  shows "set (gsBmRange e (mbBitmap (AddSentNodes (gsBmSet e) mb xs))) = set (gsBmRange e (mbBitmap mb)) \<union> bit_of ` set xs"
proof -
  have s: "set (gsBmRange e (gsBmSet e (bit_of x) bm)) = insert (bit_of x) (set (gsBmRange e bm))" for x bm
    using assms bit_of_less by (simp add: bitmap_ok_def)
  have "set (gsBmRange e (foldl (\<lambda>bm x. gsBmSet e (bit_of x) bm) bm xs)) = set (gsBmRange e bm) \<union> bit_of ` set xs" for bm
    by (induction xs arbitrary: bm) (auto simp: s)
  then show ?thesis by (simp add: AddSentNodes_def bit_of_def)
qed

lemma AddSentNodes_hash [simp]: "mbHash (AddSentNodes f mb xs) = mbHash mb"
  by (simp add: AddSentNodes_def)

lemma nodes_not_sent_facts:
  assumes "0 \<le> i" and "i + int k < 2 ^ 63"
  shows "set (nodes_not_sent sent i k) = NewNodeID ` {j. i < j \<and> j \<le> i + int k \<and> \<not> list_ex (\<lambda>x. j - 1 = i64 (Node x - 1)) sent}"
    and "distinct (nodes_not_sent sent i k)"
  using assms
proof (induction k arbitrary: i)
  case (Suc k)
  let ?P = "\<lambda>j. list_ex (\<lambda>x. j - 1 = i64 (Node x - 1)) sent"
  have s: "{j. i < j \<and> j \<le> i + int (Suc k) \<and> \<not> ?P j} =
      (if ?P (i + 1) then {} else {i + 1}) \<union> {j. i + 1 < j \<and> j \<le> (i + 1) + int k \<and> \<not> ?P j}" for i
    by (auto simp: order.strict_iff_order)
  { case 1
    then have "set (nodes_not_sent sent i (Suc k)) =
        NewNodeID ` ((if ?P (i + 1) then {} else {i + 1}) \<union> {j. i + 1 < j \<and> j \<le> (i + 1) + int k \<and> \<not> ?P j})"
      using Suc.IH(1) [of "i + 1"] by simp
    then show ?case by (simp only: s)
  next
    case 2
    have "NewNodeID (i + 1) \<notin> NewNodeID ` {j. i + 1 < j \<and> j \<le> (i + 1) + int k \<and> \<not> ?P j}"
    proof
      assume "NewNodeID (i + 1) \<in> NewNodeID ` {j. i + 1 < j \<and> j \<le> (i + 1) + int k \<and> \<not> ?P j}"
      then obtain j where j: "NewNodeID (i + 1) = NewNodeID j" "i + 1 < j" "j \<le> (i + 1) + int k" by auto
      from NewNodeID_inj [OF j(1)] j(2,3) 2 show False by simp
    qed
    with 2 Suc.IH [of "i + 1"] show ?case by simp }
qed simp_all

text \<open>The nodes picked are different, and none of their bits was set.\<close>

lemma PickRandomNodes_fresh:
  assumes "shuffle_ok e" and "gsAddrs e < 2 ^ 32"
    and "PickRandomNodes (gsShuffle e k) (gsAddrs e) fanout (FindSentNodes (gsBmRange e) mb) = Some xs"
  shows "distinct xs" and "x \<in> set xs \<Longrightarrow> bit_of x \<notin> set (gsBmRange e (mbBitmap mb))" and "inj_on bit_of (set xs)"
proof -
  let ?sent = "FindSentNodes (gsBmRange e) mb"
  let ?b = "nodes_not_sent ?sent 0 (gsAddrs e)"
  have a: "(0 :: int) + int (gsAddrs e) < 2 ^ 63" using assms(2) by simp
  note N = nodes_not_sent_facts [OF order.refl a, of ?sent]
  from assms(3) have sub: "set xs \<subseteq> set ?b" and d: "distinct xs"
    using N(2) assms(1) by (auto simp: PickRandomNodes_def Let_def shuffle_ok_def dest: in_set_takeD split: if_splits)
  show "distinct xs" by (rule d)
  have j: "\<exists>j. x = NewNodeID j \<and> 0 < j \<and> j \<le> int (gsAddrs e) \<and> bit_of x = nat j \<and> \<not> list_ex (\<lambda>x. j - 1 = i64 (Node x - 1)) ?sent"
    if "x \<in> set xs" for x
  proof -
    from that sub N(1) obtain j where j: "x = NewNodeID j" "0 < j" "j \<le> int (gsAddrs e)"
      "\<not> list_ex (\<lambda>x. j - 1 = i64 (Node x - 1)) ?sent" by auto
    have "int (gsAddrs e) < 4294967296" using assms(2) by simp
    with j(3) have "j < 4294967296" by linarith
    with j show ?thesis by (auto simp: bit_of_def)
  qed
  show "bit_of x \<notin> set (gsBmRange e (mbBitmap mb))" if "x \<in> set xs"
  proof
    assume b: "bit_of x \<in> set (gsBmRange e (mbBitmap mb))"
    from j [OF that] obtain j where j: "0 < j" "j \<le> int (gsAddrs e)" "bit_of x = nat j"
      "\<not> list_ex (\<lambda>x. j - 1 = i64 (Node x - 1)) ?sent" by blast
    from b j(1,3) have "NewNodeID j \<in> set ?sent" by (auto simp: FindSentNodes_def NewNodeID_def intro!: image_eqI [of _ _ "nat j"])
    moreover have "Node (NewNodeID j) = j" using j(1,2) assms(2) by simp
    moreover have "i64 (j - 1) = j - 1" using j(1,2) assms(2) by (intro i64_id) (simp add: in_i64_def)
    ultimately show False using j(4) by (auto simp: list_ex_iff)
  qed
  show "inj_on bit_of (set xs)"
    by (rule inj_onI) (use j in \<open>metis nat_0_iff nat_eq_iff2 not_less order_less_imp_le\<close>)
qed

text \<open>With the optimisation switched on, what one call picks and records.\<close>

lemma pickFanoutNodes_facts:
  assumes "bitmap_ok e" and "shuffle_ok e" and "gsAddrs e < 2 ^ 32" and "gsOpt e" and "pickFanoutNodes e g mb = Some (xs, mb', g')"
  shows "\<exists>bm. mbSentNodes g' = (mbSentNodes g)(mbHash mb \<mapsto> bm) \<and> mbHash mb' = mbHash mb \<and> distinct xs \<and> inj_on bit_of (set xs) \<and>
    (\<forall>old. mbSentNodes g (mbHash mb) = Some old \<longrightarrow>
       (\<lambda>k. bit_of (Itoa (int k))) ` set (gsBmRange e old) \<subseteq> set (gsBmRange e bm) - bit_of ` set xs) \<and>
    bit_of ` set xs \<subseteq> set (gsBmRange e bm) \<and> rpID (gsRp e) \<notin> set xs"
proof -
  let ?mb1 = "case mbSentNodes g (mbHash mb) of Some bm \<Rightarrow> AddSentNodes (gsBmSet e) mb (BitmapToNodes (gsBmRange e) bm) | None \<Rightarrow> mb"
  let ?acks = "case AmAckList (rpAm (gsRp e)) (rSm (gsReplica g)) (mbHash mb) of None \<Rightarrow> [] | Some xs \<Rightarrow> xs"
  define mb3 where "mb3 = AddSentNodes (gsBmSet e) (AddSentNodes (gsBmSet e) ?mb1 ?acks) [rpID (gsRp e)]"
  from assms(4,5) have p: "PickRandomNodes (gsShuffle e (gsShuffles g)) (gsAddrs e) (gsFanout e) (FindSentNodes (gsBmRange e) mb3) = Some xs"
    and mb': "mb' = AddSentNodes (gsBmSet e) mb3 xs" "mbSentNodes g' = (mbSentNodes g)(mbHash mb \<mapsto> mbBitmap mb')"
    by (auto simp: pickFanoutNodes_def Let_def mb3_def bind_Some_conv)
  note F = PickRandomNodes_fresh [OF assms(2,3) p]
  have b3: "set (gsBmRange e (mbBitmap mb3)) = set (gsBmRange e (mbBitmap ?mb1)) \<union> bit_of ` set ?acks \<union> {bit_of (rpID (gsRp e))}"
    by (simp add: mb3_def bits_AddSentNodes [OF assms(1)])
  have old: "(\<lambda>k. bit_of (Itoa (int k))) ` set (gsBmRange e old) \<subseteq> set (gsBmRange e (mbBitmap mb3))"
    if "mbSentNodes g (mbHash mb) = Some old" for old
    using that by (auto simp: b3 bits_AddSentNodes [OF assms(1)] BitmapToNodes_def)
  have h: "mbHash mb' = mbHash mb" by (simp add: mb'(1) mb3_def split: option.split)
  have "set (gsBmRange e (mbBitmap mb')) = set (gsBmRange e (mbBitmap mb3)) \<union> bit_of ` set xs"
    by (simp add: mb'(1) bits_AddSentNodes [OF assms(1)])
  moreover have "rpID (gsRp e) \<notin> set xs" using F(2) b3 by blast
  moreover have "set (gsBmRange e (mbBitmap mb3)) \<inter> bit_of ` set xs = {}" using F(2) by blast
  ultimately show ?thesis using mb'(2) h F(1,3) old by blast
qed

datatype gs_event = GsTake Time | GsIter bool | GsReplica Replica

text \<open>Between the iterations the rest of the replica may do anything to its state.\<close>

fun gs_step :: "GsEnv \<Rightarrow> Gossip \<Rightarrow> gs_event \<Rightarrow> ((NodeID list \<times> MicroBlock) list \<times> Gossip) option" where
  "gs_step e g (GsTake tm) = Some ([], snd (gossip_take e tm g))"
| "gs_step e g (GsIter late) = gossip_iter e late g"
| "gs_step e g (GsReplica r) = Some ([], g\<lparr>gsReplica := r\<rparr>)"

fun gs_run :: "GsEnv \<Rightarrow> Gossip \<Rightarrow> gs_event list \<Rightarrow> ((NodeID list \<times> MicroBlock) list \<times> Gossip) option" where
  "gs_run e g [] = Some ([], g)"
| "gs_run e g (x # xs) = do { (out, g1) \<leftarrow> gs_step e g x; (outs, g2) \<leftarrow> gs_run e g1 xs; Some (out @ outs, g2) }"

text \<open>The receivers of a microblock, over all its multicasts.\<close>

definition receivers_of :: "Identifier \<Rightarrow> (NodeID list \<times> MicroBlock) list \<Rightarrow> NodeID list" where
  "receivers_of h outs = concat (map fst (filter (\<lambda>x. mbHash (snd x) = h) outs))"

lemma receivers_of_append [simp]: "receivers_of h (xs @ ys) = receivers_of h xs @ receivers_of h ys"
  by (simp add: receivers_of_def)

lemma bit_of_Itoa: "k < 2 ^ 32 \<Longrightarrow> bit_of (Itoa (int k)) = k"
  using Node_NewNodeID [of "int k"] by (simp add: bit_of_def NewNodeID_def)

definition gs_ok :: "GsEnv \<Rightarrow> (NodeID list \<times> MicroBlock) list \<Rightarrow> (Identifier \<rightharpoonup> Bitmap) \<Rightarrow> bool" where
  "gs_ok e outs sent \<longleftrightarrow>
     (\<forall>h. distinct (receivers_of h outs) \<and> rpID (gsRp e) \<notin> set (receivers_of h outs) \<and>
        (receivers_of h outs \<noteq> [] \<longrightarrow>
           (\<exists>bm. sent h = Some bm \<and> bit_of ` set (receivers_of h outs) \<subseteq> set (gsBmRange e bm))))"

lemma gossip_iter_cases:
  assumes "gossip_iter e late g = Some (outs, g')"
  obtains (skip) "outs = []" "mbSentNodes g' = mbSentNodes g"
  | (multicast) g0 mb xs mb' g1 where "mbSentNodes g0 = mbSentNodes g" "pickFanoutNodes e g0 mb = Some (xs, mb', g1)"
      "outs = [(xs, mb')]" "mbSentNodes g' = mbSentNodes g1"
proof -
  have m: thesis if "multicast_mb e g0 mb = Some (outs, g')" "mbSentNodes g0 = mbSentNodes g" for g0 mb
    using that multicast by (auto simp: multicast_mb_def bind_Some_conv)
  show thesis
    using assms skip by (auto simp: gossip_iter_def Let_def split: if_splits list.splits intro: m)
qed

lemma gs_ok_multicast:
  assumes "bitmap_ok e" and "shuffle_ok e" and "gsAddrs e < 2 ^ 32" and "gsOpt e" and "pickFanoutNodes e g mb = Some (xs, mb', g')"
    and "gs_ok e outs (mbSentNodes g)"
  shows "gs_ok e (outs @ [(xs, mb')]) (mbSentNodes g')"
proof -
  from pickFanoutNodes_facts [OF assms(1-5)] obtain bm where bm: "mbSentNodes g' = (mbSentNodes g)(mbHash mb \<mapsto> bm)"
    "mbHash mb' = mbHash mb" "distinct xs" "bit_of ` set xs \<subseteq> set (gsBmRange e bm)" "rpID (gsRp e) \<notin> set xs"
    and old: "\<forall>old. mbSentNodes g (mbHash mb) = Some old \<longrightarrow>
       (\<lambda>k. bit_of (Itoa (int k))) ` set (gsBmRange e old) \<subseteq> set (gsBmRange e bm) - bit_of ` set xs" by blast
  have b: "bit_of ` set (receivers_of (mbHash mb) outs) \<subseteq> set (gsBmRange e bm) - bit_of ` set xs"
  proof
    fix k assume k: "k \<in> bit_of ` set (receivers_of (mbHash mb) outs)"
    then have "receivers_of (mbHash mb) outs \<noteq> []" by auto
    with assms(6) obtain o' where o': "mbSentNodes g (mbHash mb) = Some o'"
      "bit_of ` set (receivers_of (mbHash mb) outs) \<subseteq> set (gsBmRange e o')" unfolding gs_ok_def by blast
    have "bit_of (Itoa (int k)) = k" using k bit_of_less by (auto simp: bit_of_Itoa)
    with old o' k show "k \<in> set (gsBmRange e bm) - bit_of ` set xs" by (metis (no_types, lifting) image_eqI subsetD)
  qed
  have d: "set (receivers_of (mbHash mb) outs) \<inter> set xs = {}" using b by blast
  have r: "receivers_of h (outs @ [(xs, mb')]) = receivers_of h outs @ (if h = mbHash mb then xs else [])" for h
    using bm(2) by (simp add: receivers_of_def)
  show ?thesis
    unfolding gs_ok_def r
  proof (intro allI conjI impI)
    fix h
    note O = assms(6) [unfolded gs_ok_def, rule_format, of h]
    show "distinct (receivers_of h outs @ (if h = mbHash mb then xs else []))" using O d bm(3) by auto
    show "rpID (gsRp e) \<notin> set (receivers_of h outs @ (if h = mbHash mb then xs else []))" using O bm(5) by auto
    assume ne: "receivers_of h outs @ (if h = mbHash mb then xs else []) \<noteq> []"
    show "\<exists>bm. mbSentNodes g' h = Some bm \<and>
        bit_of ` set (receivers_of h outs @ (if h = mbHash mb then xs else [])) \<subseteq> set (gsBmRange e bm)"
      using O b bm(1,4) ne by (cases "h = mbHash mb") auto
  qed
qed

lemma gs_run_ok:
  assumes "bitmap_ok e" and "shuffle_ok e" and "gsAddrs e < 2 ^ 32" and "gsOpt e"
    and "gs_run e g evs = Some (outs, g')" and "gs_ok e pre (mbSentNodes g)"
  shows "gs_ok e (pre @ outs) (mbSentNodes g')"
  using assms(5,6)
proof (induction evs arbitrary: g outs pre)
  case (Cons ev evs)
  then obtain o1 g1 o2 where a: "gs_step e g ev = Some (o1, g1)" "gs_run e g1 evs = Some (o2, g')" "outs = o1 @ o2"
    by (auto simp: bind_Some_conv)
  have "gs_ok e (pre @ o1) (mbSentNodes g1)"
  proof (cases ev)
    case (GsIter late)
    with a(1) have "gossip_iter e late g = Some (o1, g1)" by simp
    then show ?thesis
    proof (cases rule: gossip_iter_cases)
      case (multicast g0 mb xs mb' g2)
      with gs_ok_multicast [OF assms(1-4) multicast(2), of pre] Cons.prems(2) show ?thesis by simp
    qed (use Cons.prems(2) in simp)
  qed (use a(1) Cons.prems(2) in \<open>auto simp: gossip_take_def split: prod.splits\<close>)
  from Cons.IH [OF a(2) this] a(3) show ?case by simp
qed simp

text \<open>C36 (gossip): with the optimisation on, whatever the rest of the replica does, the gossip loop never sends a microblock twice to the same
  replica, and never to itself.\<close>

theorem gossip_never_repeats:
  assumes "bitmap_ok e" and "shuffle_ok e" and "gsAddrs e < 2 ^ 32" and "gsOpt e"
    and "gs_run e \<lparr>gsReplica = r, mbSentNodes = Map.empty, gsShuffles = 0\<rparr> evs = Some (outs, g)"
  shows "distinct (receivers_of h outs) \<and> rpID (gsRp e) \<notin> set (receivers_of h outs)"
proof -
  have "gs_ok e [] Map.empty" by (simp add: gs_ok_def receivers_of_def)
  from gs_run_ok [OF assms(1-5), of "[]"] this have "gs_ok e outs (mbSentNodes g)" by simp
  then show ?thesis by (simp add: gs_ok_def)
qed

definition gs_env :: GsEnv where
  "gs_env = \<lparr>gsRp = rp_env, gsOpt = True, gsFanout = 2, gsP = 50, gsAddrs = 4, gsShuffle = (\<lambda>k xs. xs),
     gsBmSet = (\<lambda>k bm. of_nat k # bm), gsBmRange = map unat\<rparr>"

definition gs_start :: Replica where
  "gs_start = (rp_new [])\<lparr>rSelfMBChan := [zeroMicroBlock\<lparr>mbHash := 5\<rparr>, zeroMicroBlock\<lparr>mbHash := 5\<rparr>]\<rparr>"

lemma gs_demo:
  "\<exists>outs g. gs_run gs_env \<lparr>gsReplica = gs_start, mbSentNodes = Map.empty, gsShuffles = 0\<rparr> [GsIter False, GsIter False] = Some (outs, g) \<and>
     receivers_of 5 outs = [NewNodeID 1, NewNodeID 3, NewNodeID 4]"
proof -
  have n: "Node (Itoa i) = i" if "0 \<le> i" "i < 2 ^ 63" for i using Node_NewNodeID [OF that] that by (simp add: NewNodeID_def)
  have four: "nodes_not_sent sent 0 4 = nodes_not_sent sent 0 (Suc (Suc (Suc (Suc 0))))" for sent by (simp add: eval_nat_numeral)
  show ?thesis
    by (simp add: four gs_env_def gs_start_def gossip_iter_def multicast_mb_def pickFanoutNodes_def AddSentNodes_def FindSentNodes_def BitmapToNodes_def
        PickRandomNodes_def AmAckList_def am0_def NewAckMem_def rp_eval sample_env_def n i64_def send_def receivers_of_def)
qed

theorem gossip_never_repeats_witness:
  "\<exists>outs g. gs_run gs_env \<lparr>gsReplica = gs_start, mbSentNodes = Map.empty, gsShuffles = 0\<rparr> [GsIter False, GsIter False] = Some (outs, g) \<and>
     length (receivers_of 5 outs) = 3 \<and> distinct (receivers_of 5 outs) \<and> rpID (gsRp gs_env) \<notin> set (receivers_of 5 outs)"
proof -
  obtain outs g where o: "gs_run gs_env \<lparr>gsReplica = gs_start, mbSentNodes = Map.empty, gsShuffles = 0\<rparr> [GsIter False, GsIter False] = Some (outs, g)"
    "receivers_of 5 outs = [NewNodeID 1, NewNodeID 3, NewNodeID 4]" using gs_demo by blast
  have "unat (of_nat k :: 64 word) = k" if "k < 2 ^ 32" for k using that by (simp add: unat_of_nat)
  then have "bitmap_ok gs_env" "shuffle_ok gs_env" "gsAddrs gs_env < 2 ^ 32" "gsOpt gs_env"
    by (simp_all add: bitmap_ok_def shuffle_ok_def gs_env_def)
  from gossip_never_repeats [OF this o(1), of 5] o show ?thesis by simp
qed

end
