(* ===== verification/Config.thy ===== *)
theory Config
  imports Transport Complex_Main
begin

text \<open>
  Configuration and start-up (src/config/config.go, src/server/server.go, src/init.go).

  A map that the JSON file leaves out is a nil map (\<open>None\<close>), and writing to it panics.  A floating-point setting is the
  real number it stands for.  The outcome of decoding the file and the lines of ips.txt are arguments.
\<close>

record Bconfig =
  bcT :: int
  bcN :: int
  bcK :: int
  bcThrottle :: int
  bcConcurrency :: int
  bcDistribution :: string
  bcCold :: bool
  bcConflicts :: int
  bcMin :: int
  bcMu :: real
  bcSigma :: real
  bcMove :: bool
  bcSpeed :: int

record Mconfig =
  mqAddress :: "string list"
  mqTopic :: string
  mqEnable :: bool

record Config =
  cfAddrs :: "(NodeID \<rightharpoonup> string) option"
  cfAddrs2 :: "(NodeID \<rightharpoonup> string) option"
  cfHTTPAddrs :: "(NodeID \<rightharpoonup> string) option"
  cfPolicy :: string
  cfThreshold :: real
  cfThrifty :: bool
  cfBufferSize :: int
  cfChanBufferSize :: int
  cfMultiVersion :: bool
  cfTimeout :: int
  cfByzNo :: int
  cfBSize :: int
  cfMSize :: int
  cfFixed :: bool
  cfBenchmark :: Bconfig
  cfDelta :: int
  cfPprof :: bool
  cfMaxRound :: int
  cfStrategy :: string
  cfProposeTime :: int
  cfPayloadSize :: int
  cfMaster :: NodeID
  cfDelay :: int
  cfDErr :: int
  cfMemSize :: int
  cfSlow :: int
  cfCrash :: int
  cfMemType :: string
  cfEstimateNum :: int
  cfEstimateWindow :: int
  cfDefaultDelay :: int
  cfGossip :: bool
  cfFanout :: int
  cfSlowFanout :: int
  cfFillInterval :: int
  cfCapacity :: int
  cfP :: int
  cfSlowNo :: int
  cfQ :: int
  cfR :: int
  cfZipf :: bool
  cfOpt :: bool
  cfLoadBalance :: bool
  cfLoadedIndex :: int
  cfForwardP :: int
  cfD :: int
  cfBroadcastByGroup :: bool
  cfBroadcastBySample :: bool
  cfOnlyworker :: bool
  cfZipfianS :: real
  cfZipfianV :: real
  cfHasher :: string
  cfSigner :: string
  cfN :: int
  cfGroupNum :: int
  cfMemberNum :: int
  cfTime :: int
  cfPoolsize :: int
  cfModel :: string
  cfTxPerSecond :: int
  cfMb_broadcast :: int
  cfMessageQueue :: Mconfig
  cfDuration :: int
  cfInterval :: int

definition zeroBconfig :: Bconfig where
  "zeroBconfig =
     \<lparr>bcT = 0, bcN = 0, bcK = 0, bcThrottle = 0, bcConcurrency = 0, bcDistribution = [], bcCold = False,
      bcConflicts = 0, bcMin = 0, bcMu = 0, bcSigma = 0, bcMove = False, bcSpeed = 0\<rparr>"

definition zeroMconfig :: Mconfig where
  "zeroMconfig = \<lparr>mqAddress = [], mqTopic = [], mqEnable = False\<rparr>"

definition MakeDefaultConfig :: Config where
  "MakeDefaultConfig =
     \<lparr>cfAddrs = None, cfAddrs2 = None, cfHTTPAddrs = None, cfPolicy = ''consecutive'', cfThreshold = 3,
      cfThrifty = False, cfBufferSize = 1024, cfChanBufferSize = 1024, cfMultiVersion = False, cfTimeout = 0,
      cfByzNo = 0, cfBSize = 0, cfMSize = 0, cfFixed = False, cfBenchmark = zeroBconfig, cfDelta = 0,
      cfPprof = False, cfMaxRound = 0, cfStrategy = [], cfProposeTime = 0, cfPayloadSize = 0, cfMaster = [],
      cfDelay = 0, cfDErr = 0, cfMemSize = 0, cfSlow = 0, cfCrash = 0, cfMemType = [], cfEstimateNum = 0,
      cfEstimateWindow = 0, cfDefaultDelay = 0, cfGossip = False, cfFanout = 0, cfSlowFanout = 0,
      cfFillInterval = 0, cfCapacity = 0, cfP = 0, cfSlowNo = 0, cfQ = 0, cfR = 0, cfZipf = False,
      cfOpt = False, cfLoadBalance = False, cfLoadedIndex = 0, cfForwardP = 0, cfD = 0,
      cfBroadcastByGroup = False, cfBroadcastBySample = False, cfOnlyworker = False, cfZipfianS = 0,
      cfZipfianV = 0, cfHasher = ''sha3_256'', cfSigner = ''ECDSA_P256'', cfN = 0, cfGroupNum = 0,
      cfMemberNum = 0, cfTime = 0, cfPoolsize = 0, cfModel = [], cfTxPerSecond = 0, cfMb_broadcast = 0,
      cfMessageQueue = zeroMconfig, cfDuration = 0, cfInterval = 0\<rparr>"

definition GetTimer :: "Config \<Rightarrow> int" where
  "GetTimer c = i64 (cfTimeout c * 10 ^ 6)"

definition map_or_nil :: "('k \<rightharpoonup> 'v) option \<Rightarrow> 'k \<rightharpoonup> 'v" where
  "map_or_nil m = (case m of None \<Rightarrow> Map.empty | Some f \<Rightarrow> f)"

definition IDs :: "(NodeID set \<Rightarrow> NodeID list) \<Rightarrow> Config \<Rightarrow> NodeID list" where
  "IDs rng c = rng (dom (map_or_nil (cfAddrs c)))"

definition ConfigN :: "Config \<Rightarrow> int" where "ConfigN c = cfN c"

definition GetHashScheme :: "Config \<Rightarrow> string" where "GetHashScheme c = cfHasher c"

definition GetSignatureScheme :: "Config \<Rightarrow> string" where "GetSignatureScheme c = cfSigner c"

definition put_map :: "('k \<rightharpoonup> 'v) option \<Rightarrow> 'k \<Rightarrow> 'v \<Rightarrow> ('k \<rightharpoonup> 'v) option option" where
  "put_map m k v = map_option (\<lambda>f. Some (f(k \<mapsto> v))) m"

definition mempool_addr :: "string \<Rightarrow> int \<Rightarrow> string" where
  "mempool_addr host i = ''tcp://'' @ host @ '':'' @ Itoa (3734 + i)"

definition consensus_addr :: "string \<Rightarrow> int \<Rightarrow> string" where
  "consensus_addr host i = ''tcp://'' @ host @ '':'' @ Itoa (2628 + i)"

definition http_addr :: "string \<Rightarrow> int \<Rightarrow> string" where
  "http_addr host i = ''http://'' @ host @ '':'' @ Itoa (8069 + i)"

fun load_ips :: "int \<Rightarrow> string list \<Rightarrow> Config \<Rightarrow> Config option" where
  "load_ips i [] c = Some c"
| "load_ips i (host # hosts) c =
     do { a \<leftarrow> put_map (cfAddrs c) (NewNodeID i) (mempool_addr host i);
          a2 \<leftarrow> put_map (cfAddrs2 c) (NewNodeID i) (consensus_addr host i);
          h \<leftarrow> put_map (cfHTTPAddrs c) (NewNodeID i) (http_addr host i);
          load_ips (i + 1) hosts (c\<lparr>cfAddrs := a, cfAddrs2 := a2, cfHTTPAddrs := h\<rparr>) }"

definition Load :: "(Config \<Rightarrow> Config option) \<Rightarrow> string list \<Rightarrow> Config \<Rightarrow> Config option" where
  "Load decode hosts c =
     do { c1 \<leftarrow> decode c;
          c2 \<leftarrow> load_ips 1 hosts c1;
          Some (c2\<lparr>cfN := int (maplen (map_or_nil (cfAddrs c2)))\<rparr>) }"

definition IsByzantine :: "Config \<Rightarrow> NodeID \<Rightarrow> bool" where
  "IsByzantine c x \<longleftrightarrow> cfByzNo c \<ge> Node x"

text \<open>The choice that server.go makes in both of its modes.\<close>

definition server_isByz :: "Config \<Rightarrow> int \<Rightarrow> bool" where
  "server_isByz c i \<longleftrightarrow> i > ConfigN c - cfByzNo c"

text \<open>\<open>Simulation\<close> changes the default scheme of addresses.\<close>

definition Simulation :: "string \<Rightarrow> string" where
  "Simulation dflt = ''chan''"

section \<open>Loaded addresses\<close>

lemma itoa_nat_digits: "set (itoa_nat n) \<subseteq> set ''0123456789''"
proof (induction n rule: itoa_nat.induct)
  case (1 n)
  have d: "digit_char k \<in> set ''0123456789''" if "k < 10" for k
    unfolding digit_char_def by (rule nth_mem) (use that in simp)
  show ?case
  proof (cases "n < 10")
    case True
    then show ?thesis using d [of n] by (subst itoa_nat.simps) simp
  next
    case False
    then show ?thesis using 1 d [of "n mod 10"] by (subst itoa_nat.simps) auto
  qed
qed

lemma Itoa_no_colon: "0 \<le> i \<Longrightarrow> CHR '':'' \<notin> set (Itoa i)"
  using itoa_nat_digits [of "nat i"] by (auto simp: Itoa_def)

lemma Itoa_inj: "Itoa i = Itoa j \<Longrightarrow> 0 \<le> i \<Longrightarrow> i < 2 ^ 63 \<Longrightarrow> 0 \<le> j \<Longrightarrow> j < 2 ^ 63 \<Longrightarrow> i = j"
  using NewNodeID_inj [of i j] by (simp add: NewNodeID_def)

text \<open>The port is what follows the last colon.\<close>

lemma same_port:
  assumes "a @ '':'' @ Itoa i = b @ '':'' @ Itoa j" and "0 \<le> i" "i < 2 ^ 63" "0 \<le> j" "j < 2 ^ 63"
  shows "i = j"
proof -
  have split: "takeWhile (\<lambda>c. c \<noteq> CHR '':'') (rev (x @ '':'' @ Itoa k)) = rev (Itoa k)" if "0 \<le> k" for x k
  proof -
    have "takeWhile (\<lambda>c. c \<noteq> CHR '':'') (rev (Itoa k) @ ys) = rev (Itoa k) @ takeWhile (\<lambda>c. c \<noteq> CHR '':'') ys" for ys
      by (rule takeWhile_append2) (use Itoa_no_colon [OF that] in auto)
    then show ?thesis by simp
  qed
  from split [OF assms(2), of a] split [OF assms(4), of b] assms(1) have "Itoa i = Itoa j" by (metis rev_rev_ident)
  from Itoa_inj [OF this assms(2-5)] show ?thesis .
qed

lemma map_upds_nth:
  "distinct xs \<Longrightarrow> length xs = length ys \<Longrightarrow> k < length xs \<Longrightarrow> (f(xs [\<mapsto>] ys)) (xs ! k) = Some (ys ! k)"
  by (induction xs ys arbitrary: f k rule: list_induct2') (auto simp: nth_Cons split: nat.split)

definition ids_from :: "int \<Rightarrow> nat \<Rightarrow> NodeID list" where
  "ids_from i n = map (\<lambda>k. NewNodeID (i + int k)) [0..<n]"

lemma ids_from_simps [simp]: "ids_from i 0 = []" "ids_from i (Suc n) = NewNodeID i # ids_from (i + 1) n" "length (ids_from i n) = n"
  by (simp_all add: ids_from_def upt_conv_Cons map_Suc_upt [symmetric] comp_def algebra_simps del: upt_Suc)

lemma ids_from_distinct: "0 \<le> i \<Longrightarrow> i + int n < 2 ^ 63 \<Longrightarrow> distinct (ids_from i n)"
  by (auto simp: ids_from_def distinct_map inj_on_def dest!: NewNodeID_inj)

definition hosts_with :: "(string \<Rightarrow> int \<Rightarrow> string) \<Rightarrow> int \<Rightarrow> string list \<Rightarrow> string list" where
  "hosts_with f i hosts = map (\<lambda>k. f (hosts ! k) (i + int k)) [0..<length hosts]"

lemma hosts_with_simps [simp]: "hosts_with f i [] = []" "hosts_with f i (x # xs) = f x i # hosts_with f (i + 1) xs"
  by (simp_all add: hosts_with_def upt_conv_Cons map_Suc_upt [symmetric] comp_def algebra_simps del: upt_Suc)

lemma load_ips_maps:
  "load_ips i hosts c = Some c' \<Longrightarrow>
     cfAddrs c' = map_option (\<lambda>f. f(ids_from i (length hosts) [\<mapsto>] hosts_with mempool_addr i hosts)) (cfAddrs c) \<and>
     cfAddrs2 c' = map_option (\<lambda>f. f(ids_from i (length hosts) [\<mapsto>] hosts_with consensus_addr i hosts)) (cfAddrs2 c) \<and>
     cfHTTPAddrs c' = map_option (\<lambda>f. f(ids_from i (length hosts) [\<mapsto>] hosts_with http_addr i hosts)) (cfHTTPAddrs c) \<and>
     (hosts \<noteq> [] \<longrightarrow> cfAddrs c \<noteq> None \<and> cfAddrs2 c \<noteq> None \<and> cfHTTPAddrs c \<noteq> None)"
proof (induction hosts arbitrary: i c)
  case (Cons host hosts)
  then obtain a a2 h where m: "cfAddrs c = Some a" "cfAddrs2 c = Some a2" "cfHTTPAddrs c = Some h"
    and r: "load_ips (i + 1) hosts (c\<lparr>cfAddrs := Some (a(NewNodeID i \<mapsto> mempool_addr host i)),
      cfAddrs2 := Some (a2(NewNodeID i \<mapsto> consensus_addr host i)), cfHTTPAddrs := Some (h(NewNodeID i \<mapsto> http_addr host i))\<rparr>) = Some c'"
    by (auto simp: put_map_def bind_Some_conv)
  from Cons.IH [OF r] m show ?case by simp
qed (simp add: option.map_ident)

text \<open>The two addresses of each of the first \<open>n\<close> nodes.\<close>

definition node_addrs :: "Config \<Rightarrow> nat \<Rightarrow> string option list" where
  "node_addrs c n = map (map_or_nil (cfAddrs c)) (ids_from 1 n) @ map (map_or_nil (cfAddrs2 c)) (ids_from 1 n)"

lemma mempool_addr_inj: "mempool_addr g i = mempool_addr h j \<Longrightarrow> 0 \<le> i \<Longrightarrow> i < 2 ^ 62 \<Longrightarrow> 0 \<le> j \<Longrightarrow> j < 2 ^ 62 \<Longrightarrow> i = j"
  using same_port [of "''tcp://'' @ g" "3734 + i" "''tcp://'' @ h" "3734 + j"] by (simp add: mempool_addr_def)

lemma consensus_addr_inj: "consensus_addr g i = consensus_addr h j \<Longrightarrow> 0 \<le> i \<Longrightarrow> i < 2 ^ 62 \<Longrightarrow> 0 \<le> j \<Longrightarrow> j < 2 ^ 62 \<Longrightarrow> i = j"
  using same_port [of "''tcp://'' @ g" "2628 + i" "''tcp://'' @ h" "2628 + j"] by (simp add: consensus_addr_def)

lemma addr_clash: "mempool_addr g i = consensus_addr h j \<Longrightarrow> 0 \<le> i \<Longrightarrow> i < 2 ^ 62 \<Longrightarrow> 0 \<le> j \<Longrightarrow> j < 2 ^ 62 \<Longrightarrow> j = i + 1106"
  using same_port [of "''tcp://'' @ g" "3734 + i" "''tcp://'' @ h" "2628 + j"] by (simp add: mempool_addr_def consensus_addr_def)

lemma map_upds_all:
  "distinct xs \<Longrightarrow> length xs = length ys \<Longrightarrow> map (f(xs [\<mapsto>] ys)) xs = map Some ys"
  by (rule nth_equalityI) (simp_all add: map_upds_nth)

lemma load_ips_returns:
  "load_ips i hosts c = None \<longleftrightarrow> hosts \<noteq> [] \<and> (cfAddrs c = None \<or> cfAddrs2 c = None \<or> cfHTTPAddrs c = None)"
proof (induction hosts arbitrary: i c)
  case (Cons host hosts)
  then show ?case by (cases "cfAddrs c"; cases "cfAddrs2 c"; cases "cfHTTPAddrs c") (simp_all add: put_map_def)
qed simp

text \<open>C37 (loaded addresses): with up to 1106 hosts in ips.txt, whatever their names and whatever the JSON file says, \<open>Load\<close> returns
  exactly when there is no host or the JSON file has all three tables.  Then each host's node has the address for the
  mempool and the one for consensus that are made from its host and number, replacing what the JSON file
  gave it, no two of all these addresses are the same, and the number of nodes counts these nodes and those of
  the JSON file.\<close>

theorem loaded_addresses_distinct:
  assumes "decode c = Some c1" and "length hosts \<le> 1106"
  shows "if hosts \<noteq> [] \<and> (cfAddrs c1 = None \<or> cfAddrs2 c1 = None \<or> cfHTTPAddrs c1 = None) then Load decode hosts c = None
    else \<exists>c'. Load decode hosts c = Some c' \<and>
      node_addrs c' (length hosts) = map Some (hosts_with mempool_addr 1 hosts @ hosts_with consensus_addr 1 hosts) \<and>
      distinct (node_addrs c' (length hosts)) \<and>
      ConfigN c' = int (card (dom (map_or_nil (cfAddrs c1)) \<union> set (ids_from 1 (length hosts))))"
proof (cases "load_ips 1 hosts c1")
  case None
  with assms(1) load_ips_returns [of 1 hosts c1] show ?thesis by (simp add: Load_def)
next
  case (Some c2)
  let ?ids = "ids_from 1 (length hosts)" and ?c' = "c2\<lparr>cfN := int (maplen (map_or_nil (cfAddrs c2)))\<rparr>"
  have d: "distinct ?ids" by (rule ids_from_distinct) (use assms(2) in simp_all)
  have len: "length ?ids = length (hosts_with f 1 hosts)" for f by (simp add: hosts_with_def)
  note M = load_ips_maps [OF Some]
  have a: "map (map_or_nil (map_option (\<lambda>f. f(?ids [\<mapsto>] hosts_with g 1 hosts)) m)) ?ids = map Some (hosts_with g 1 hosts)"
    if "hosts \<noteq> [] \<Longrightarrow> m \<noteq> None" for g m
    using that map_upds_all [OF d len] by (cases m; cases "hosts = []") (simp_all add: map_or_nil_def)
  have addrs: "node_addrs ?c' (length hosts) = map Some (hosts_with mempool_addr 1 hosts @ hosts_with consensus_addr 1 hosts)"
    using M a [of "cfAddrs c1" mempool_addr] a [of "cfAddrs2 c1" consensus_addr] by (simp add: node_addrs_def)
  have "distinct (hosts_with mempool_addr 1 hosts)" "distinct (hosts_with consensus_addr 1 hosts)"
    using assms(2) by (auto simp: hosts_with_def distinct_map inj_on_def dest!: mempool_addr_inj consensus_addr_inj)
  moreover have "set (hosts_with mempool_addr 1 hosts) \<inter> set (hosts_with consensus_addr 1 hosts) = {}"
    using assms(2) by (auto simp: hosts_with_def dest!: addr_clash)
  ultimately have "distinct (node_addrs ?c' (length hosts))" unfolding addrs by (auto simp: distinct_map)
  moreover have "dom (map_or_nil (cfAddrs c2)) = dom (map_or_nil (cfAddrs c1)) \<union> set ?ids"
    using M len [of mempool_addr] by (cases "cfAddrs c1"; cases hosts) (auto simp: map_or_nil_def)
  then have "ConfigN ?c' = int (card (dom (map_or_nil (cfAddrs c1)) \<union> set ?ids))" by (simp add: ConfigN_def maplen_def)
  moreover have "Load decode hosts c = Some ?c'" using assms(1) Some by (simp add: Load_def)
  ultimately show ?thesis using addrs load_ips_returns [of 1 hosts c1] Some by auto
qed

definition demo_config :: Config where
  "demo_config = MakeDefaultConfig\<lparr>cfAddrs := Some [''3'' \<mapsto> ''tcp://x:1'', ''9'' \<mapsto> ''tcp://y:1''], cfAddrs2 := Some Map.empty,
     cfHTTPAddrs := Some Map.empty\<rparr>"

theorem loaded_addresses_distinct_witness:
  "\<exists>c'. Load (\<lambda>c. Some demo_config) [''h'', ''h'', ''k''] MakeDefaultConfig = Some c' \<and> distinct (node_addrs c' 3) \<and>
     cfAddrs demo_config = Some [''3'' \<mapsto> ''tcp://x:1'', ''9'' \<mapsto> ''tcp://y:1''] \<and> None \<notin> set (node_addrs c' 3)"
proof -
  have t: "cfAddrs demo_config = Some [''3'' \<mapsto> ''tcp://x:1'', ''9'' \<mapsto> ''tcp://y:1'']" "cfAddrs2 demo_config \<noteq> None"
    "cfHTTPAddrs demo_config \<noteq> None" by (simp_all add: demo_config_def)
  have n: "length [''h'', ''h'', ''k''] = 3" by simp
  from loaded_addresses_distinct [of "\<lambda>c. Some demo_config" MakeDefaultConfig demo_config "[''h'', ''h'', ''k'']"] t
  obtain c' where "Load (\<lambda>c. Some demo_config) [''h'', ''h'', ''k''] MakeDefaultConfig = Some c'"
    "node_addrs c' 3 = map Some (hosts_with mempool_addr 1 [''h'', ''h'', ''k''] @ hosts_with consensus_addr 1 [''h'', ''h'', ''k''])"
    "distinct (node_addrs c' 3)" unfolding n by auto
  with t(1) show ?thesis by auto
qed

text \<open>Beyond that a node's consensus address can be another node's mempool address on the same host.\<close>

lemma address_clash: "consensus_addr host (i + 1106) = mempool_addr host i"
  by (simp add: consensus_addr_def mempool_addr_def)

text \<open>Without tables in the JSON file, \<open>Load\<close> panics on the first host.\<close>

lemma load_needs_tables: "cfAddrs c1 = None \<Longrightarrow> decode c = Some c1 \<Longrightarrow> Load decode (host # hosts) c = None"
  by (simp add: Load_def put_map_def)

text \<open>\<open>IsByzantine\<close> names the first nodes, server.go the last ones.\<close>

lemma byzantine_choices_differ:
  assumes "0 < cfByzNo c" and "cfByzNo c < ConfigN c"
  shows "IsByzantine c (NewNodeID 1) \<and> \<not> server_isByz c 1"
  using assms by (simp add: IsByzantine_def server_isByz_def)

text \<open>A loaded address names its scheme, so that the simulation mode does not change the transport.\<close>

lemma str_contains_append: "str_contains s p \<Longrightarrow> str_contains (t @ s) p"
  by (induction t) simp_all

lemma simulation_keeps_tcp:
  "NewTransport (Simulation dflt) parse (mempool_addr host i) = NewTransport dflt parse (mempool_addr host i)"
proof -
  have "str_contains (mempool_addr host i) ''://''" by (simp add: mempool_addr_def)
  then show ?thesis by (simp add: NewTransport_def full_address_def)
qed

end
