(* ===== verification/Benchmark.thy ===== *)
theory Benchmark
  imports Config Mempool "HOL-Library.Multiset"
begin

text \<open>
  The load generator of the client (src/benchmark): the rate limiter, the history of operations, the statistics of the
  latencies, and the main loop.

  Floating point is \<open>FloatEnv\<close> of \<open>Monitor\<close> with the operations that are used here only; \<open>sort.Sort\<close> is a parameter with
  \<open>sorter_ok\<close> for what is documented of it.  The clock readings, and whether the timer has fired when the loop looks, are
  arguments.  A panic, a fatal error and an operation that waits forever are outcomes of \<open>Run\<close>.
\<close>

section \<open>Rate limiter\<close>

record BmLimiter =
  limLast :: "Time option"
  limSleep :: int
  limInterval :: int
  limSlack :: int

definition NewLimiter :: "int \<Rightarrow> BmLimiter option" where
  "NewLimiter rate =
     (if rate = 0 then None
      else Some \<lparr>limLast = None, limSleep = 0, limInterval = go_quot (10 ^ 9) rate, limSlack = go_quot (- (10 ^ 10)) rate\<rparr>)"

text \<open>The time for which \<open>Wait\<close> sleeps, and the limiter afterwards.\<close>

definition LimWait :: "Time \<Rightarrow> BmLimiter \<Rightarrow> int \<times> BmLimiter" where
  "LimWait clk l =
     (case limLast l of
        None \<Rightarrow> (0, l\<lparr>limLast := Some clk\<rparr>)
      | Some prev \<Rightarrow>
          let s0 = i64 (limSleep l + i64 (limInterval l - TimeSub clk prev));
              s = (if s0 < limSlack l then limSlack l else s0) in
          if s > 0 then (s, l\<lparr>limLast := Some (clk + s), limSleep := 0\<rparr>)
          else (0, l\<lparr>limLast := Some clk, limSleep := s\<rparr>))"

text \<open>Calls given by the time at which they start and by how much later than asked they return; the result is the times of return.\<close>

fun wait_run :: "BmLimiter \<Rightarrow> (Time \<times> int) list \<Rightarrow> Time list" where
  "wait_run l [] = []"
| "wait_run l ((clk, late) # cs) = (clk + fst (LimWait clk l) + late) # wait_run (snd (LimWait clk l)) cs"

text \<open>A call starts when the one before has returned.\<close>

fun in_turn :: "Time \<Rightarrow> BmLimiter \<Rightarrow> (Time \<times> int) list \<Rightarrow> bool" where
  "in_turn t l [] \<longleftrightarrow> True"
| "in_turn t l ((clk, late) # cs) \<longleftrightarrow>
     t \<le> clk \<and> clk < 2 ^ 62 \<and> 0 \<le> late \<and> in_turn (clk + fst (LimWait clk l) + late) (snd (LimWait clk l)) cs"

section \<open>Operations and their history\<close>

record operation =
  opInput :: "string option"
  opOutput :: "string option"
  opStart :: int
  opEnd :: int

definition happenBefore :: "operation \<Rightarrow> operation \<Rightarrow> bool" where
  "happenBefore a b \<longleftrightarrow> opEnd a < opStart b"

definition op_concurrent :: "operation \<Rightarrow> operation \<Rightarrow> bool" where
  "op_concurrent a b \<longleftrightarrow> \<not> happenBefore a b \<and> \<not> happenBefore b a"

definition op_equal :: "operation \<Rightarrow> operation \<Rightarrow> bool" where
  "op_equal a b \<longleftrightarrow> opInput a = opInput b \<and> opOutput a = opOutput b \<and> opStart a = opStart b \<and> opEnd a = opEnd b"

record OpHistory =
  hiShard :: "int \<rightharpoonup> operation list"
  hiOperations :: "operation list"

definition NewHistory :: OpHistory where
  "NewHistory = \<lparr>hiShard = Map.empty, hiOperations = []\<rparr>"

definition AddOperation :: "OpHistory \<Rightarrow> int \<Rightarrow> operation \<Rightarrow> OpHistory" where
  "AddOperation h key op =
     (let sh = (if hiShard h key = None then (hiShard h)(key \<mapsto> []) else hiShard h) in
      h\<lparr>hiShard := sh(key \<mapsto> the (sh key) @ [op]), hiOperations := hiOperations h @ [op]\<rparr>)"

definition HistoryAdd :: "OpHistory \<Rightarrow> int \<Rightarrow> string option \<Rightarrow> string option \<Rightarrow> int \<Rightarrow> int \<Rightarrow> OpHistory" where
  "HistoryAdd h key i out t u = AddOperation h key \<lparr>opInput = i, opOutput = out, opStart = t, opEnd = u\<rparr>"

text \<open>\<open>strconv.ParseInt(s, 10, 64)\<close> and \<open>strconv.Atoi\<close>\<close>

definition ParseInt :: "string \<Rightarrow> int option" where
  "ParseInt s =
     (case s of
        c # t \<Rightarrow>
          if c = CHR ''-'' then
            (case ParseUint t of Some n \<Rightarrow> if n \<le> 2 ^ 63 then Some (- int n) else None | None \<Rightarrow> None)
          else
            (case ParseUint (if c = CHR ''+'' then t else s) of
               Some n \<Rightarrow> if n < 2 ^ 63 then Some (int n) else None
             | None \<Rightarrow> None)
      | [] \<Rightarrow> None)"

datatype read_error = CsvError error | FormatError | AtoiError string

definition null_or :: "string \<Rightarrow> string option" where
  "null_or s = (if s = ''null'' \<or> s = [] then None else Some s)"

text \<open>The loop of \<open>ReadFile\<close> over what the CSV reader returns until the end of the file.  \<open>None\<close>: \<open>log.Fatal\<close>.\<close>

fun ReadFile :: "OpHistory \<Rightarrow> (error + string list) list \<Rightarrow> (read_error option \<times> OpHistory) option" where
  "ReadFile h [] = Some (None, h)"
| "ReadFile h (Inl err # rows) = Some (Some (CsvError err), h)"
| "ReadFile h (Inr row # rows) =
     (if length row < 5 then Some (Some FormatError, h)
      else
        case ParseInt (row ! 0) of
          None \<Rightarrow> Some (Some (AtoiError (row ! 0)), h)
        | Some key \<Rightarrow>
            do { t \<leftarrow> ParseInt (row ! 3);
                 u \<leftarrow> ParseInt (row ! 4);
                 ReadFile
                   (AddOperation h key \<lparr>opInput = null_or (row ! 1), opOutput = null_or (row ! 2), opStart = t, opEnd = u\<rparr>) rows })"

section \<open>Statistics\<close>

record BmFloat = FloatEnv +
  bfLess :: "float64 \<Rightarrow> float64 \<Rightarrow> bool"
  bfToInt :: "float64 \<Rightarrow> int"
  bfSort :: "float64 list \<Rightarrow> float64 list"
  bfLit :: "string \<Rightarrow> float64"

record Stat =
  stData :: "float64 list"
  stSize :: int
  stMean :: float64
  stMin :: float64
  stMax :: float64
  stMedian :: float64
  stP95 :: float64
  stP99 :: float64
  stP999 :: float64

definition quantile :: "BmFloat \<Rightarrow> string \<Rightarrow> float64 list \<Rightarrow> float64 option" where
  "quantile fe q ms =
     (let i = bfToInt fe (flMul fe (bfLit fe q) (flOfInt fe (int (length ms)))) in
      if 0 \<le> i \<and> i < int (length ms) then Some (ms ! nat i) else None)"

text \<open>An index out of range panics.\<close>

definition Statistic :: "BmFloat \<Rightarrow> int list \<Rightarrow> Stat option" where
  "Statistic fe latency =
     (let ms = bfSort fe (map (\<lambda>l. flDiv fe (flOfInt fe l) (bfLit fe ''1000000.0'')) latency);
          total = foldl (flAdd fe) (bfLit fe ''0.0'') ms in
      if ms = [] then None
      else
        do { median \<leftarrow> quantile fe ''0.5'' ms;
             p95 \<leftarrow> quantile fe ''0.95'' ms;
             p99 \<leftarrow> quantile fe ''0.99'' ms;
             p999 \<leftarrow> quantile fe ''0.999'' ms;
             Some \<lparr>stData = ms, stSize = int (length ms), stMean = flDiv fe total (flOfInt fe (int (length ms))), stMin = ms ! 0,
                   stMax = ms ! (length ms - 1), stMedian = median, stP95 = p95, stP99 = p99, stP999 = p999\<rparr> })"

text \<open>The lines that \<open>WriteFile\<close> of a history writes: one for each operation, and the figures of a second.\<close>

datatype hist_line =
    OpLine "string option" "string option" float64 float64
  | PerSecond float64 int

fun write_ops :: "BmFloat \<Rightarrow> float64 \<Rightarrow> int \<Rightarrow> float64 \<Rightarrow> operation list \<Rightarrow> hist_line list" where
  "write_ops fe latency throughput s [] = []"
| "write_ops fe latency throughput s (op # ops) =
     (let t = flDiv fe (flOfInt fe (opStart op)) (bfLit fe ''1000000000.0'');
          u = flDiv fe (flOfInt fe (opEnd op)) (bfLit fe ''1000000000.0'');
          latency1 = flAdd fe latency (flSub fe u t);
          throughput1 = throughput + 1 in
      OpLine (opInput op) (opOutput op) t u #
      (if bfLess fe s u then
         PerSecond (flMul fe (flDiv fe latency1 (flOfInt fe throughput1)) (bfLit fe ''1000.0'')) throughput1 #
         write_ops fe (bfLit fe ''0.0'') 0 (flAdd fe s (bfLit fe ''1.0'')) ops
       else write_ops fe latency1 throughput1 s ops))"

definition WriteFile :: "BmFloat \<Rightarrow> (operation list \<Rightarrow> operation list) \<Rightarrow> OpHistory \<Rightarrow> hist_line list \<times> OpHistory" where
  "WriteFile fe sorter h =
     (let ops = sorter (hiOperations h) in
      (write_ops fe (bfLit fe ''0.0'') 0 (bfLit fe ''1.0'') ops, h\<lparr>hiOperations := ops\<rparr>))"

section \<open>The benchmark\<close>

definition DefaultBConfig :: Bconfig where
  "DefaultBConfig = zeroBconfig\<lparr>bcT := 60, bcN := 0, bcThrottle := 0, bcConcurrency := 1\<rparr>"

record Benchmark =
  bmConfig :: Bconfig
  bmHistory :: OpHistory
  bmRate :: "BmLimiter option"
  bmLatency :: "int list"
  bmStartTime :: Time
  bmWait :: int

definition NewBenchmark :: "Config \<Rightarrow> Benchmark option" where
  "NewBenchmark c =
     do { rate \<leftarrow> (if bcThrottle (cfBenchmark c) > 0 then map_option Some (NewLimiter (bcThrottle (cfBenchmark c))) else Some None);
          Some \<lparr>bmConfig = cfBenchmark c, bmHistory = NewHistory, bmRate = rate, bmLatency = [], bmStartTime = 0, bmWait = 0\<rparr> }"

text \<open>\<open>cnt\<close> is the package variable \<open>count\<close>, an unsigned 64-bit number.  \<open>None\<close>: a fatal error or a panic.\<close>

definition next_key :: "Config \<Rightarrow> Time \<Rightarrow> nat \<Rightarrow> Benchmark \<Rightarrow> (int \<times> nat \<times> Benchmark) option" where
  "next_key c clk cnt b =
     (if bcDistribution (bmConfig b) = ''uniform'' then
        let key = i64 (int cnt); cnt1 = (cnt + uint64 (ConfigN c - cfByzNo c)) mod 2 ^ 64 in
        if bcThrottle (bmConfig b) > 0 then
          do { l \<leftarrow> bmRate b; Some (key, cnt1, b\<lparr>bmRate := Some (snd (LimWait clk l))\<rparr>) }
        else Some (key, cnt1, b)
      else None)"

text \<open>One latency taken by the goroutine \<open>collect\<close>; \<open>Done\<close> panics when the counter gets negative.\<close>

definition bm_collect :: "int \<Rightarrow> Benchmark \<Rightarrow> Benchmark option" where
  "bm_collect t b = (if bmWait b \<le> 0 then None else Some (b\<lparr>bmLatency := bmLatency b @ [t], bmWait := bmWait b - 1\<rparr>))"

text \<open>The writes of a \<open>worker\<close> for the keys it receives; \<open>fill\<close> is \<open>rand.Read\<close>.\<close>

fun bm_worker :: "(nat \<Rightarrow> Bytes) \<Rightarrow> nat \<Rightarrow> int list \<Rightarrow> (int \<times> Bytes) list" where
  "bm_worker fill i [] = []"
| "bm_worker fill i (k # ks) = (k, fill i) # bm_worker fill (Suc i) ks"

datatype 'a outcome = Blocked | Crashed | Went 'a

text \<open>The loop with the timer: \<open>fired i\<close> tells whether the timer has fired when the loop looks for the \<open>i\<close>-th time, and \<open>clk i\<close> is
  the time read by the limiter.  No goroutine receives from the channel \<open>keys\<close>, since the line that starts the workers is
  commented out; a send on the full channel blocks.\<close>

function timed_keys :: "Config \<Rightarrow> (nat \<Rightarrow> bool) \<Rightarrow> (nat \<Rightarrow> Time) \<Rightarrow> nat \<Rightarrow> nat \<Rightarrow> int list \<Rightarrow> nat \<Rightarrow> Benchmark \<Rightarrow>
    (int list \<times> nat \<times> Benchmark) outcome" where
  "timed_keys c fired clk capacity i ks cnt b =
     (if fired i then Went (ks, cnt, b)
      else
        case next_key c (clk i) cnt (b\<lparr>bmWait := bmWait b + 1\<rparr>) of
          None \<Rightarrow> Crashed
        | Some (k, cnt1, b1) \<Rightarrow>
            if length ks < capacity then timed_keys c fired clk capacity (Suc i) (ks @ [k]) cnt1 b1 else Blocked)"
  by pat_completeness auto
termination
  by (relation "measure (\<lambda>(c, fired, clk, capacity, i, ks, cnt, b). capacity - length ks)") auto

declare timed_keys.simps [simp del]

fun counted_keys :: "Config \<Rightarrow> (nat \<Rightarrow> Time) \<Rightarrow> nat \<Rightarrow> nat \<Rightarrow> int list \<Rightarrow> nat \<Rightarrow> Benchmark \<Rightarrow>
    (int list \<times> nat \<times> Benchmark) outcome" where
  "counted_keys c clk capacity 0 ks cnt b = Went (ks, cnt, b)"
| "counted_keys c clk capacity (Suc n) ks cnt b =
     (case next_key c (clk n) cnt (b\<lparr>bmWait := bmWait b + 1\<rparr>) of
        None \<Rightarrow> Crashed
      | Some (k, cnt1, b1) \<Rightarrow> if length ks < capacity then counted_keys c clk capacity n (ks @ [k]) cnt1 b1 else Blocked)"

definition gen_keys :: "Config \<Rightarrow> (nat \<Rightarrow> bool) \<Rightarrow> (nat \<Rightarrow> Time) \<Rightarrow> nat \<Rightarrow> Benchmark \<Rightarrow> (int list \<times> nat \<times> Benchmark) outcome" where
  "gen_keys c fired clk cnt b =
     (let cfg = bmConfig b in
      if bcConcurrency cfg < 0 then Crashed
      else if bcT cfg > 0 then timed_keys c fired clk (nat (bcConcurrency cfg)) 0 [] cnt b
      else
        case counted_keys c clk (nat (bcConcurrency cfg)) (nat (bcN cfg)) [] cnt b of
          Went (ks, cnt1, b1) \<Rightarrow> if bmWait b1 > 0 then Blocked else Went (ks, cnt1, b1)
        | r \<Rightarrow> r)"

definition Run :: "BmFloat \<Rightarrow> Config \<Rightarrow> (nat \<Rightarrow> bool) \<Rightarrow> (nat \<Rightarrow> Time) \<Rightarrow> Time \<Rightarrow> nat \<Rightarrow> Benchmark \<Rightarrow> Stat outcome" where
  "Run fe c fired clk start cnt b0 =
     (case gen_keys c fired clk cnt (b0\<lparr>bmLatency := [], bmStartTime := start\<rparr>) of
        Blocked \<Rightarrow> Blocked
      | Crashed \<Rightarrow> Crashed
      | Went (ks, cnt1, b1) \<Rightarrow>
          (case Statistic fe (bmLatency b1) of
             None \<Rightarrow> Crashed
           | Some st \<Rightarrow> Went st))"

section \<open>The limiter spaces the operations\<close>

text \<open>A limiter that has been used: the sleep it owes is between the slack and zero, and its last release is not in the future.\<close>

definition lim_ok :: "Time \<Rightarrow> BmLimiter \<Rightarrow> bool" where
  "lim_ok t l \<longleftrightarrow> (case limLast l of None \<Rightarrow> False | Some p \<Rightarrow> 0 \<le> p \<and> p \<le> t) \<and> limSlack l \<le> limSleep l \<and> limSleep l \<le> 0 \<and>
     0 \<le> limInterval l \<and> limInterval l \<le> 10 ^ 9 \<and> - (10 ^ 10) \<le> limSlack l"

definition lim_virtual :: "BmLimiter \<Rightarrow> int" where
  "lim_virtual l = the (limLast l) + limSleep l"

lemma LimWait_step:
  assumes "lim_ok t l" and "t \<le> clk" and "clk < 2 ^ 62"
  shows "lim_ok (clk + fst (LimWait clk l)) (snd (LimWait clk l))"
    and "limLast (snd (LimWait clk l)) = Some (clk + fst (LimWait clk l))"
    and "lim_virtual (snd (LimWait clk l)) \<ge> lim_virtual l + limInterval l"
    and "limInterval (snd (LimWait clk l)) = limInterval l" "limSlack (snd (LimWait clk l)) = limSlack l"
proof -
  from assms(1) obtain p where p: "limLast l = Some p" "0 \<le> p" "p \<le> t" by (auto simp: lim_ok_def split: option.splits)
  have d: "TimeSub clk p = clk - p" using p assms(2,3) by (intro TimeSub_exact) (simp add: in_i64_def)
  have s: "i64 (limSleep l + i64 (limInterval l - (clk - p))) = limSleep l + (limInterval l - (clk - p))"
  proof -
    have "in_i64 (limInterval l - (clk - p))" "in_i64 (limSleep l + (limInterval l - (clk - p)))"
      using p assms by (simp_all add: in_i64_def lim_ok_def)
    then show ?thesis by (simp add: i64_id)
  qed
  note W = LimWait_def p(1) option.case d s Let_def
  show "lim_ok (clk + fst (LimWait clk l)) (snd (LimWait clk l))"
    using assms p by (simp add: W lim_ok_def)
  show "limLast (snd (LimWait clk l)) = Some (clk + fst (LimWait clk l))" by (simp add: W)
  show "lim_virtual (snd (LimWait clk l)) \<ge> lim_virtual l + limInterval l" by (simp add: W lim_virtual_def)
  show "limInterval (snd (LimWait clk l)) = limInterval l" "limSlack (snd (LimWait clk l)) = limSlack l" by (simp_all add: W)
qed

lemma lim_ok_mono: "lim_ok t l \<Longrightarrow> t \<le> u \<Longrightarrow> lim_ok u l"
  by (auto simp: lim_ok_def split: option.splits)

lemma length_wait_run [simp]: "length (wait_run l cs) = length cs"
  by (induction l cs rule: wait_run.induct) simp_all

lemma wait_run_spaced:
  assumes "lim_ok t l" and "in_turn t l cs" and "k < length cs"
  shows "wait_run l cs ! k \<ge> lim_virtual l + (int k + 1) * limInterval l"
  using assms
proof (induction cs arbitrary: t l k)
  case (Cons x cs)
  obtain clk late where x: "x = (clk, late)" by (cases x)
  with Cons.prems have i: "t \<le> clk" "clk < 2 ^ 62" "0 \<le> late"
    and r: "in_turn (clk + fst (LimWait clk l) + late) (snd (LimWait clk l)) cs" by simp_all
  note S = LimWait_step [OF Cons.prems(1) i(1,2)]
  have ok: "lim_ok (clk + fst (LimWait clk l) + late) (snd (LimWait clk l))" by (rule lim_ok_mono [OF S(1)]) (simp add: i)
  show ?case
  proof (cases k)
    case 0
    have "lim_virtual (snd (LimWait clk l)) \<le> clk + fst (LimWait clk l)" using S(1,2) by (simp add: lim_virtual_def lim_ok_def)
    then show ?thesis using S(3) i by (simp add: 0 x)
  next
    case (Suc j)
    from Cons.IH [OF ok r, of j] Cons.prems(3) Suc S(3,4) show ?thesis by (simp add: x algebra_simps)
  qed
qed simp

lemma wait_run_window:
  assumes "lim_ok t l" and "in_turn t l cs" and "i < j" and "j < length cs"
  shows "wait_run l cs ! j \<ge> wait_run l cs ! i - snd (cs ! i) + int (j - i) * limInterval l + limSlack l"
  using assms
proof (induction cs arbitrary: t l i j)
  case (Cons x cs)
  obtain clk late where x: "x = (clk, late)" by (cases x)
  with Cons.prems have b: "t \<le> clk" "clk < 2 ^ 62" "0 \<le> late"
    and r: "in_turn (clk + fst (LimWait clk l) + late) (snd (LimWait clk l)) cs" by simp_all
  note S = LimWait_step [OF Cons.prems(1) b(1,2)]
  have ok: "lim_ok (clk + fst (LimWait clk l) + late) (snd (LimWait clk l))" by (rule lim_ok_mono [OF S(1)]) (simp add: b)
  from Cons.prems obtain j' where j: "j = Suc j'" by (cases j) auto
  show ?case
  proof (cases i)
    case 0
    have "lim_virtual (snd (LimWait clk l)) \<ge> clk + fst (LimWait clk l) + limSlack l"
      using S(1,2,5) by (simp add: lim_virtual_def lim_ok_def)
    with wait_run_spaced [OF ok r, of j'] Cons.prems(4) S(4) show ?thesis by (simp add: 0 j x algebra_simps)
  next
    case (Suc i')
    from Cons.IH [OF ok r, of i' j'] Cons.prems(3,4) S(4,5) show ?thesis by (simp add: Suc j x)
  qed
qed simp

lemma NewLimiter_pos:
  assumes "NewLimiter rate = Some l" and "0 < rate"
  shows "limLast l = None" "limSleep l = 0" "limInterval l = 10 ^ 9 div rate" "limSlack l = - (10 ^ 10 div rate)"
  using assms by (auto simp: NewLimiter_def go_quot_def split: if_splits)

lemma first_wait:
  assumes "NewLimiter rate = Some l" and "0 < rate" and "0 \<le> clk" and "0 \<le> late"
  shows "lim_ok (clk + late) (snd (LimWait clk l)) \<and> fst (LimWait clk l) = 0 \<and> lim_virtual (snd (LimWait clk l)) = clk \<and>
    limInterval (snd (LimWait clk l)) = 10 ^ 9 div rate \<and> limSlack (snd (LimWait clk l)) = - (10 ^ 10 div rate)"
proof -
  note N = NewLimiter_pos [OF assms(1,2)]
  have "0 \<le> (10 ^ 9 :: int) div rate" "(10 ^ 9 :: int) div rate \<le> 10 ^ 9" "0 \<le> (10 ^ 10 :: int) div rate" "(10 ^ 10 :: int) div rate \<le> 10 ^ 10"
    using assms(2) zdiv_mono2 [of "10 ^ 9" 1 rate] zdiv_mono2 [of "10 ^ 10" 1 rate] by (simp_all add: pos_imp_zdiv_nonneg_iff)
  then show ?thesis using N assms(3,4) by (simp add: LimWait_def lim_ok_def lim_virtual_def)
qed

text \<open>C38 (request rate): in any sequence of calls of \<open>Wait\<close> on a new limiter of a positive rate, the \<open>k\<close>-th call after the first returns at
  least \<open>k\<close> intervals after the first was made, and between any two calls that return there are the intervals
  for the calls made, less the slack of ten intervals and the delay with which the first of the two returned.\<close>

theorem limiter_spaces_operations:
  assumes "NewLimiter rate = Some l" and "0 < rate" and "in_turn 0 l cs" and "i < j" and "j < length cs"
  shows "wait_run l cs ! j \<ge> fst (cs ! 0) + int j * (10 ^ 9 div rate) \<and>
    wait_run l cs ! j - (wait_run l cs ! i - snd (cs ! i)) \<ge> int (j - i) * (10 ^ 9 div rate) - 10 ^ 10 div rate"
proof -
  obtain clk late cs' where cs: "cs = (clk, late) # cs'" using assms(5) by (cases cs) auto
  with assms(3) have b: "0 \<le> clk" "0 \<le> late" by simp_all
  note F = first_wait [OF assms(1,2) b]
  have r: "in_turn (clk + late) (snd (LimWait clk l)) cs'" using assms(3) F by (simp add: cs)
  from F have ok: "lim_ok (clk + late) (snd (LimWait clk l))" by simp
  from assms obtain j' where j: "j = Suc j'" by (cases j) auto
  with assms(5) cs have j': "j' < length cs'" by simp
  have a: "wait_run l cs ! j \<ge> clk + int j * (10 ^ 9 div rate)"
    using wait_run_spaced [OF ok r j'] F by (simp add: cs j algebra_simps)
  show ?thesis
  proof (cases i)
    case 0
    have "0 \<le> (10 ^ 10 :: int) div rate" using assms(2) by (simp add: pos_imp_zdiv_nonneg_iff)
    with a F show ?thesis by (simp add: 0 cs)
  next
    case (Suc i')
    with wait_run_window [OF ok r, of i' j'] assms(4) j j' F a show ?thesis by (simp add: cs)
  qed
qed

theorem limiter_spaces_operations_witness:
  "\<exists>l. NewLimiter 1000 = Some l \<and>
     wait_run l [(0, 0), (500, 7), (5000000, 0), (5000001, 0)] ! 3 \<ge> 3 * 1000000"
proof -
  let ?l = "\<lparr>limLast = None, limSleep = 0, limInterval = 1000000, limSlack = - 10000000\<rparr>"
  have n: "NewLimiter 1000 = Some ?l" by (simp add: NewLimiter_def go_quot_def)
  have t: "in_turn 0 ?l [(0, 0), (500, 7), (5000000, 0), (5000001, 0)]"
    by (simp add: LimWait_def TimeSub_def i64_def)
  from limiter_spaces_operations [OF n _ t, of 2 3] n show ?thesis by simp
qed

section \<open>Operations in real time\<close>

lemma op_trichotomy:
  assumes "opStart a \<le> opEnd a" and "opStart b \<le> opEnd b"
  shows "(happenBefore a b \<longrightarrow> \<not> happenBefore b a \<and> \<not> op_concurrent a b) \<and> (happenBefore a b \<or> happenBefore b a \<or> op_concurrent a b)"
  using assms by (auto simp: happenBefore_def op_concurrent_def)

lemma happenBefore_trans: "happenBefore a b \<Longrightarrow> opStart b \<le> opEnd b \<Longrightarrow> happenBefore b c \<Longrightarrow> happenBefore a c"
  by (simp add: happenBefore_def)

section \<open>The history keeps every operation\<close>

definition adds :: "OpHistory \<Rightarrow> (int \<times> operation) list \<Rightarrow> OpHistory" where
  "adds h xs = foldl (\<lambda>h (k, op). AddOperation h k op) h xs"

lemma adds_simps [simp]: "adds h [] = h" "adds h ((k, op) # xs) = adds (AddOperation h k op) xs"
  by (simp_all add: adds_def)

lemma adds_facts:
  "hiOperations (adds h xs) = hiOperations h @ map snd xs \<and>
   (case hiShard (adds h xs) key of None \<Rightarrow> [] | Some ops \<Rightarrow> ops) =
     (case hiShard h key of None \<Rightarrow> [] | Some ops \<Rightarrow> ops) @ map snd (filter (\<lambda>x. fst x = key) xs)"
proof (induction xs arbitrary: h)
  case (Cons x xs)
  obtain k op where x: "x = (k, op)" by (cases x)
  show ?case using Cons.IH [of "AddOperation h k op"] by (simp add: x AddOperation_def Let_def split: option.splits if_splits)
qed simp

text \<open>The rows of a history in the format that \<open>ReadFile\<close> expects.\<close>

definition field_of :: "string option \<Rightarrow> string" where
  "field_of v = (case v of None \<Rightarrow> ''null'' | Some s \<Rightarrow> s)"

definition history_row :: "int \<times> operation \<Rightarrow> string list" where
  "history_row x = [Itoa (fst x), field_of (opInput (snd x)), field_of (opOutput (snd x)), Itoa (opStart (snd x)), Itoa (opEnd (snd x))]"

definition op_ok :: "int \<times> operation \<Rightarrow> bool" where
  "op_ok x \<longleftrightarrow> in_i64 (fst x) \<and> in_i64 (opStart (snd x)) \<and> in_i64 (opEnd (snd x)) \<and>
     opInput (snd x) \<notin> {Some [], Some ''null''} \<and> opOutput (snd x) \<notin> {Some [], Some ''null''}"

lemma itoa_first: "hd (itoa_nat n) \<noteq> CHR ''-'' \<and> hd (itoa_nat n) \<noteq> CHR ''+''"
proof -
  have "hd (itoa_nat n) \<in> set ''0123456789''" using itoa_nat_digits [of n] hd_in_set [OF itoa_nat_Nil [of n]] by (rule subsetD)
  then show ?thesis by auto
qed

lemma ParseInt_Itoa: "in_i64 i \<Longrightarrow> ParseInt (Itoa i) = Some i"
proof (cases "i < 0")
  case True
  assume "in_i64 i"
  with True have "nat (- i) < 2 ^ 64" "nat (- i) \<le> 2 ^ 63" by (simp_all add: in_i64_def)
  with True show ?thesis using ParseUint_itoa [of "nat (- i)"] by (simp add: ParseInt_def Itoa_def)
next
  case False
  assume "in_i64 i"
  with False have n: "nat i < 2 ^ 64" "nat i < 2 ^ 63" by (simp_all add: in_i64_def)
  obtain c t where ct: "itoa_nat (nat i) = c # t" using itoa_nat_Nil [of "nat i"] by (cases "itoa_nat (nat i)") auto
  with itoa_first [of "nat i"] have "c \<noteq> CHR ''-''" "c \<noteq> CHR ''+''" by simp_all
  with False ct n show ?thesis using ParseUint_itoa [OF n(1)] by (simp add: ParseInt_def Itoa_def)
qed

lemma null_or_field: "v \<notin> {Some [], Some ''null''} \<Longrightarrow> null_or (field_of v) = v"
  by (auto simp: null_or_def field_of_def split: option.splits)

lemma op_eta: "\<lparr>opInput = opInput op, opOutput = opOutput op, opStart = opStart op, opEnd = opEnd op\<rparr> = (op :: operation)"
  by (cases op) simp

lemma ReadFile_rows:
  "list_all op_ok xs \<Longrightarrow> ReadFile h (map (Inr \<circ> history_row) xs) = Some (None, adds h xs)"
proof (induction xs arbitrary: h)
  case (Cons x xs)
  obtain k op where x: "x = (k, op)" by (cases x)
  with Cons.prems have "op_ok (k, op)" by simp
  then show ?case using Cons by (simp add: x history_row_def op_ok_def ParseInt_Itoa null_or_field op_eta)
qed simp

text \<open>Operation history: reading a file of operations with keys and times in the 64-bit range back into a new history succeeds and gives
  the list of the operations in the order of the file, and for each key the list of its operations.\<close>

theorem history_roundtrip:
  assumes "list_all op_ok xs"
  shows "\<exists>h. ReadFile NewHistory (map (Inr \<circ> history_row) xs) = Some (None, h) \<and> hiOperations h = map snd xs \<and>
    (case hiShard h key of None \<Rightarrow> [] | Some ops \<Rightarrow> ops) = map snd (filter (\<lambda>x. fst x = key) xs)"
  using ReadFile_rows [OF assms, of NewHistory] adds_facts [of NewHistory xs key] by (simp add: NewHistory_def)

theorem history_roundtrip_witness:
  "\<exists>h. ReadFile NewHistory [Inr [''-3'', ''a'', ''null'', ''17'', ''20'']] = Some (None, h) \<and> length (hiOperations h) = 1"
proof -
  let ?x = "(- 3, \<lparr>opInput = Some ''a'', opOutput = None, opStart = 17, opEnd = 20\<rparr>) :: int \<times> operation"
  have r: "history_row ?x = [''-3'', ''a'', ''null'', ''17'', ''20'']"
    by (simp add: history_row_def field_of_def Itoa_def itoa_nat.simps digit_char_def)
  have "list_all op_ok [?x]" by (simp add: op_ok_def in_i64_def)
  from history_roundtrip [OF this, of 0] r show ?thesis by auto
qed

text \<open>A line that \<open>WriteFile\<close> writes for an operation has four fields (\<open>fv\<close> and \<open>ff\<close> print a value and a number), so that
  \<open>ReadFile\<close> refuses the file.\<close>

fun line_fields :: "(string option \<Rightarrow> string) \<Rightarrow> (float64 \<Rightarrow> string) \<Rightarrow> hist_line \<Rightarrow> string list" where
  "line_fields fv ff (OpLine a b t u) = [fv a, fv b, ff t, ff u]"
| "line_fields fv ff (PerSecond x n) = [''PerSecond '' @ ff x @ '' '' @ Itoa n]"

lemma written_history_refused:
  assumes "hiOperations (snd (WriteFile fe sorter h)) \<noteq> []"
  shows "ReadFile h' (map (Inr \<circ> line_fields fv ff) (fst (WriteFile fe sorter h)) @ rows) = Some (Some FormatError, h')"
  using assms by (cases "sorter (hiOperations h)") (simp_all add: WriteFile_def Let_def)

text \<open>What is documented of \<open>sort.Sort\<close>.\<close>

definition sorter_ok :: "(operation list \<Rightarrow> operation list) \<Rightarrow> bool" where
  "sorter_ok f \<longleftrightarrow> (\<forall>xs. mset (f xs) = mset xs \<and> sorted (map opStart (f xs)))"

lemma sorter_ok_sort: "sorter_ok (sort_key opStart)"
  by (simp add: sorter_ok_def)

fun op_lines :: "hist_line list \<Rightarrow> (string option \<times> string option) list" where
  "op_lines [] = []"
| "op_lines (OpLine a b t u # ls) = (a, b) # op_lines ls"
| "op_lines (PerSecond x n # ls) = op_lines ls"

lemma write_ops_lines: "op_lines (write_ops fe l n s ops) = map (\<lambda>op. (opInput op, opOutput op)) ops"
  by (induction ops arbitrary: l n s) (simp_all add: Let_def)

lemma WriteFile_by_time:
  assumes "sorter_ok sorter"
  shows "mset (hiOperations (snd (WriteFile fe sorter h))) = mset (hiOperations h) \<and>
    sorted (map opStart (hiOperations (snd (WriteFile fe sorter h)))) \<and> hiShard (snd (WriteFile fe sorter h)) = hiShard h \<and>
    op_lines (fst (WriteFile fe sorter h)) = map (\<lambda>op. (opInput op, opOutput op)) (hiOperations (snd (WriteFile fe sorter h)))"
  using assms by (simp add: sorter_ok_def WriteFile_def Let_def write_ops_lines)

section \<open>Statistics\<close>

definition q_index :: "BmFloat \<Rightarrow> string \<Rightarrow> nat \<Rightarrow> int" where
  "q_index fe q n = bfToInt fe (flMul fe (bfLit fe q) (flOfInt fe (int n)))"

definition indices_ok :: "BmFloat \<Rightarrow> nat \<Rightarrow> bool" where
  "indices_ok fe n \<longleftrightarrow> 0 \<le> q_index fe ''0.5'' n \<and> q_index fe ''0.5'' n \<le> q_index fe ''0.95'' n \<and> q_index fe ''0.95'' n \<le> q_index fe ''0.99'' n \<and>
     q_index fe ''0.99'' n \<le> q_index fe ''0.999'' n \<and> q_index fe ''0.999'' n < int n"

text \<open>What is relied on of floating point: \<open>le\<close> is the order by which \<open>sort.Float64s\<close> sorts, and the index of a quantile is
  within the slice and grows with the quantile.\<close>

definition floats_ok :: "BmFloat \<Rightarrow> (float64 \<Rightarrow> float64 \<Rightarrow> bool) \<Rightarrow> bool" where
  "floats_ok fe le \<longleftrightarrow> (\<forall>x. le x x) \<and> (\<forall>xs. mset (bfSort fe xs) = mset xs \<and> sorted_wrt le (bfSort fe xs)) \<and>
     (\<forall>n > 0. indices_ok fe n)"

lemma sorted_wrt_le_nth: "sorted_wrt le xs \<Longrightarrow> (\<And>x. le x x) \<Longrightarrow> i \<le> j \<Longrightarrow> j < length xs \<Longrightarrow> le (xs ! i) (xs ! j)"
  using sorted_wrt_nth_less [of le xs i j] by (cases "i = j") simp_all

lemma Statistic_ordered:
  assumes "floats_ok fe le" and "latency \<noteq> []"
  shows "\<exists>st. Statistic fe latency = Some st \<and> stSize st = int (length latency) \<and>
    mset (stData st) = mset (map (\<lambda>l. flDiv fe (flOfInt fe l) (bfLit fe ''1000000.0'')) latency) \<and>
    le (stMin st) (stMedian st) \<and> le (stMedian st) (stP95 st) \<and> le (stP95 st) (stP99 st) \<and> le (stP99 st) (stP999 st) \<and>
    le (stP999 st) (stMax st)"
proof -
  define ms where "ms = bfSort fe (map (\<lambda>l. flDiv fe (flOfInt fe l) (bfLit fe ''1000000.0'')) latency)"
  have m: "mset ms = mset (map (\<lambda>l. flDiv fe (flOfInt fe l) (bfLit fe ''1000000.0'')) latency)" and s: "sorted_wrt le ms"
    and refl: "\<And>x. le x x" using assms(1) by (simp_all add: floats_ok_def ms_def)
  have len: "length ms = length latency" using mset_eq_length [OF m] by simp
  with assms(2) have n: "length ms > 0" by simp
  with assms(1) have ok: "indices_ok fe (length ms)" by (simp add: floats_ok_def)
  obtain i1 i2 i3 i4 where i: "q_index fe ''0.5'' (length ms) = i1" "q_index fe ''0.95'' (length ms) = i2" "q_index fe ''0.99'' (length ms) = i3"
    "q_index fe ''0.999'' (length ms) = i4" by simp
  from ok have o: "0 \<le> i1" "i1 \<le> i2" "i2 \<le> i3" "i3 \<le> i4" "i4 < int (length ms)" unfolding indices_ok_def i by simp_all
  have q: "quantile fe x ms = Some (ms ! nat j)" if "q_index fe x (length ms) = j" "0 \<le> j" "j < int (length ms)" for x j
    using that by (simp add: quantile_def q_index_def)
  have le: "le (ms ! k) (ms ! j)" if "k \<le> j" "j < length ms" for k j by (rule sorted_wrt_le_nth [OF s refl that])
  have st: "Statistic fe latency = Some \<lparr>stData = ms, stSize = int (length ms),
      stMean = flDiv fe (foldl (flAdd fe) (bfLit fe ''0.0'') ms) (flOfInt fe (int (length ms))), stMin = ms ! 0,
      stMax = ms ! (length ms - 1), stMedian = ms ! nat i1, stP95 = ms ! nat i2, stP99 = ms ! nat i3, stP999 = ms ! nat i4\<rparr>"
    unfolding Statistic_def ms_def [symmetric] Let_def using n o by (simp add: q [OF i(1)] q [OF i(2)] q [OF i(3)] q [OF i(4)])
  have "nat i1 \<le> nat i2" "nat i2 \<le> nat i3" "nat i3 \<le> nat i4" "nat i4 < length ms" using o by linarith+
  then have "le (ms ! 0) (ms ! nat i1)" "le (ms ! nat i1) (ms ! nat i2)" "le (ms ! nat i2) (ms ! nat i3)" "le (ms ! nat i3) (ms ! nat i4)"
    "le (ms ! nat i4) (ms ! (length ms - 1))" by (simp_all add: le)
  then show ?thesis using st m len by simp
qed

lemma Statistic_empty: "mset (bfSort fe []) = {#} \<Longrightarrow> Statistic fe [] = None"
  by (simp add: Statistic_def)

section \<open>The benchmark does not return\<close>

lemma next_key_latency: "next_key c t cnt b = Some (k, cnt1, b1) \<Longrightarrow> bmLatency b1 = bmLatency b"
  by (auto simp: next_key_def Let_def bind_Some_conv split: if_splits)

lemma timed_stop: "fired i \<Longrightarrow> timed_keys c fired clk capacity i ks cnt b = Went (ks, cnt, b)"
  by (simp add: timed_keys.simps)

lemma timed_next:
  "\<not> fired i \<Longrightarrow> next_key c (clk i) cnt (b\<lparr>bmWait := bmWait b + 1\<rparr>) = Some (k, cnt1, b1) \<Longrightarrow> length ks < capacity \<Longrightarrow>
    timed_keys c fired clk capacity i ks cnt b = timed_keys c fired clk capacity (Suc i) (ks @ [k]) cnt1 b1"
  by (subst timed_keys.simps) simp

lemma timed_full:
  "\<not> fired i \<Longrightarrow> next_key c (clk i) cnt (b\<lparr>bmWait := bmWait b + 1\<rparr>) = Some (k, cnt1, b1) \<Longrightarrow> \<not> length ks < capacity \<Longrightarrow>
    timed_keys c fired clk capacity i ks cnt b = Blocked"
  by (subst timed_keys.simps) simp

lemma timed_keys_latency: "timed_keys c fired clk capacity i ks cnt b = Went (ks', cnt', b') \<Longrightarrow> bmLatency b' = bmLatency b"
proof (induction c fired clk capacity i ks cnt b rule: timed_keys.induct)
  case (1 c fired clk capacity i ks cnt b)
  show ?case
  proof (cases "fired i")
    case True
    with 1(2) show ?thesis by (simp add: timed_keys.simps)
  next
    case False
    with 1(2) obtain k cnt1 b1 where n: "next_key c (clk i) cnt (b\<lparr>bmWait := bmWait b + 1\<rparr>) = Some (k, cnt1, b1)"
      and l: "length ks < capacity" "timed_keys c fired clk capacity (Suc i) (ks @ [k]) cnt1 b1 = Went (ks', cnt', b')"
      by (subst (asm) timed_keys.simps) (auto split: option.splits prod.splits if_splits)
    from 1(1) [OF False n refl refl l] next_key_latency [OF n] show ?thesis by simp
  qed
qed

lemma counted_keys_latency: "counted_keys c clk capacity n ks cnt b = Went (ks', cnt', b') \<Longrightarrow> bmLatency b' = bmLatency b"
  by (induction c clk capacity n ks cnt b rule: counted_keys.induct)
    (auto dest!: next_key_latency split: option.splits prod.splits if_splits)

lemma gen_keys_latency: "gen_keys c fired clk cnt b = Went (ks', cnt', b') \<Longrightarrow> bmLatency b' = bmLatency b"
  using timed_keys_latency [of c fired clk "nat (bcConcurrency (bmConfig b))" 0 "[]" cnt b ks' cnt' b']
    counted_keys_latency [of c clk "nat (bcConcurrency (bmConfig b))" "nat (bcN (bmConfig b))" "[]" cnt b ks' cnt' b']
  by (simp add: gen_keys_def Let_def split: if_splits outcome.splits prod.splits)

lemma Run_outcome:
  assumes "mset (bfSort fe []) = {#}"
  shows "Run fe c fired clk start cnt b \<in> {Blocked, Crashed}"
proof (cases "gen_keys c fired clk cnt (b\<lparr>bmLatency := [], bmStartTime := start\<rparr>)")
  case (Went x)
  obtain ks cnt' b' where x: "x = (ks, cnt', b')" by (cases x)
  with gen_keys_latency [of c fired clk cnt _ ks cnt' b'] Went have "bmLatency b' = []" by simp
  then show ?thesis by (simp add: Run_def Went x Statistic_empty [OF assms])
qed (simp_all add: Run_def)

text \<open>Benchmark end: whatever the configuration, the clock and the timer, \<open>Run\<close> does not return: it waits forever on the channel of the keys
  or for the answers, or it panics, at the latest when it computes the statistics of no latency.\<close>

theorem benchmark_never_returns:
  assumes "mset (bfSort fe []) = {#}"
  shows "Run fe c fired clk start cnt b \<in> {Blocked, Crashed}"
  using assms by (rule Run_outcome)

definition bm_float :: BmFloat where
  "bm_float = \<lparr>flOfInt = word_of_int, flAdd = (+), flSub = (-), flMul = (*), flDiv = (div), flEq = (=), flFormat = \<lambda>x. [],
     flParse = \<lambda>s. 0, bfLess = (<), bfToInt = uint, bfSort = sort, bfLit = \<lambda>s. 1\<rparr>"

definition bm_conf :: Config where
  "bm_conf = MakeDefaultConfig\<lparr>cfN := 4, cfByzNo := 1, cfBenchmark := DefaultBConfig\<lparr>bcDistribution := ''uniform''\<rparr>\<rparr>"

theorem benchmark_never_returns_witness:
  "\<exists>b. NewBenchmark bm_conf = Some b \<and> Run bm_float bm_conf (\<lambda>i. i = 7) int 0 0 b = Blocked \<and>
     Run bm_float bm_conf (\<lambda>i. i = 1) int 0 0 b \<noteq> Blocked \<and> Run bm_float bm_conf (\<lambda>i. i = 1) int 0 0 b \<in> {Blocked, Crashed}"
proof -
  obtain b where b: "NewBenchmark bm_conf = Some b" and cfg: "bmConfig b = DefaultBConfig\<lparr>bcDistribution := ''uniform''\<rparr>"
    by (simp add: NewBenchmark_def bm_conf_def DefaultBConfig_def zeroBconfig_def)
  have nx: "next_key bm_conf t k b' = Some (i64 (int k), (k + uint64 (ConfigN bm_conf - cfByzNo bm_conf)) mod 2 ^ 64, b')"
    if "bmConfig b' = bmConfig b" for t k b' using that by (simp add: next_key_def cfg DefaultBConfig_def zeroBconfig_def)
  have g: "gen_keys bm_conf fired clk cnt b' = timed_keys bm_conf fired clk 1 0 [] cnt b'" if "bmConfig b' = bmConfig b" for fired clk cnt b'
    using that by (simp add: gen_keys_def cfg DefaultBConfig_def zeroBconfig_def)
  have "Run bm_float bm_conf (\<lambda>i. i = 7) int 0 0 b = Blocked"
    unfolding Run_def by (simp add: g timed_next [OF _ nx] timed_full [OF _ nx])
  moreover have "Run bm_float bm_conf (\<lambda>i. i = 1) int 0 0 b = Crashed"
    unfolding Run_def by (simp add: g timed_next [OF _ nx] timed_stop Statistic_empty bm_float_def)
  moreover have "Run bm_float bm_conf (\<lambda>i. i = 1) int 0 0 b \<in> {Blocked, Crashed}"
    by (rule benchmark_never_returns) (simp add: bm_float_def)
  ultimately show ?thesis using b by simp
qed

text \<open>With the workers not started the keys are the multiples of the number of honest nodes, while the channel has room.\<close>

lemma next_key_uniform:
  assumes "bcDistribution (bmConfig b) = ''uniform''" and "bcThrottle (bmConfig b) \<le> 0"
  shows "next_key c t cnt b = Some (i64 (int cnt), (cnt + uint64 (ConfigN c - cfByzNo c)) mod 2 ^ 64, b)"
  using assms by (simp add: next_key_def)

end
