(* ===== verification/Client.thy ===== *)
theory Client
  imports Benchmark NetNode "HOL-Library.Sublist"
begin

text \<open>
  The HTTP client (src/client.go, src/client/client.go) and the routes of the server that it calls (src/node/http.go).

  A request is the value handed to \<open>http.Client.Do\<close>, and \<open>clDo\<close> the answer to it; \<open>clNewRequest\<close> is the error of
  \<open>http.NewRequest\<close>.  The random draws, the JSON functions and the order in which a map is ranged over are parameters
  too.  \<open>consensus_iff_comparable\<close> says what the comparison of histories finds, and \<open>put_becomes_transaction\<close> what a request of the client does at a
  node.
\<close>

section \<open>Requests\<close>

record http_request =
  rqMethod :: string
  rqURL :: string
  rqBody :: Value
  rqHeader :: "string \<rightharpoonup> string"

text \<open>The body is \<open>None\<close> when reading it fails.\<close>

record http_response =
  hrCode :: int
  hrStatus :: string
  hrBody :: "Bytes option"

record ClEnv =
  clZipf :: "nat \<Rightarrow> nat \<Rightarrow> nat"
  clIntn :: Draws
  clNewRequest :: "string \<Rightarrow> string \<Rightarrow> error option"
  clDo :: "http_request \<Rightarrow> error + http_response"
  clMarshal :: "Command \<Rightarrow> Bytes"
  clUnmarshal :: "Bytes \<Rightarrow> Value list option"
  clRange :: "NodeID set \<Rightarrow> NodeID list"

record HTTPClient =
  hcHTTP :: "NodeID \<rightharpoonup> string"
  hcID :: NodeID
  hcN :: int
  hcZipf :: bool
  hcIds :: "NodeID list"
  hcCID :: int

section \<open>Client\<close>

text \<open>The client shares the table of addresses with the configuration, so that the entries it deletes are gone there too.  The
  constructor of \<open>rand.Zipf\<close> returns \<open>nil\<close> when its parameters are out of range.\<close>

definition del_nodes :: "int list \<Rightarrow> (NodeID \<rightharpoonup> string) \<Rightarrow> NodeID \<rightharpoonup> string" where
  "del_nodes is h = foldl (\<lambda>h i. h(NewNodeID i := None)) h is"

definition NewHTTPClient :: "Config \<Rightarrow> (HTTPClient \<times> Config) option" where
  "NewHTTPClient c =
     (let n = int (maplen (map_or_nil (cfAddrs c)));
          h0 = map_or_nil (cfHTTPAddrs c);
          h1 = (if cfStrategy c = ''silence'' then del_nodes [1..cfByzNo c] h0 else h0);
          xs = map NewNodeID [1..n];
          zipf = (cfZipfianS c > 1 \<and> cfZipfianV c \<ge> 1) in
      if cfMaster c \<noteq> ''0'' then
        let h2 = h1(cfMaster c := None); mi = i64 (Node (cfMaster c) - 1) in
        if 0 \<le> mi \<and> mi < n then
          Some (\<lparr>hcHTTP = h2, hcID = [], hcN = n, hcZipf = zipf, hcIds = take (nat mi) xs @ drop (nat mi + 1) xs, hcCID = 0\<rparr>,
                c\<lparr>cfHTTPAddrs := map_option (\<lambda>_. h2) (cfHTTPAddrs c)\<rparr>)
        else None
      else
        Some (\<lparr>hcHTTP = h1, hcID = [], hcN = n, hcZipf = zipf, hcIds = xs, hcCID = 0\<rparr>,
              c\<lparr>cfHTTPAddrs := map_option (\<lambda>_. h1) (cfHTTPAddrs c)\<rparr>))"

definition HcGet :: "HTTPClient \<Rightarrow> Key \<Rightarrow> string \<times> HTTPClient" where
  "HcGet c key = ([], c\<lparr>hcCID := hcCID c + 1\<rparr>)"

definition url_of :: "HTTPClient \<Rightarrow> NodeID \<Rightarrow> string" where
  "url_of c x = (case hcHTTP c x of None \<Rightarrow> [] | Some u \<Rightarrow> u)"

text \<open>\<open>k\<close> counts the draws made so far.\<close>

definition GetURL :: "ClEnv \<Rightarrow> bool \<Rightarrow> nat \<Rightarrow> HTTPClient \<Rightarrow> Key \<Rightarrow> (NodeID \<times> string) option" where
  "GetURL e zipf k c key =
     (if zipf then
        if \<not> hcZipf c then None
        else
          let v = clZipf e k (uint64 (int (length (hcIds c)) - 1)) in
          if v < length (hcIds c) then Some (hcIds c ! v, url_of c (hcIds c ! v) @ ''/'' @ Itoa key) else None
      else if hcIds c = [] then None
      else
        let v = clIntn e k (int (length (hcIds c))) in
        if 0 \<le> v \<and> v < int (length (hcIds c)) then Some (hcIds c ! nat v, url_of c (hcIds c ! nat v) @ ''/'' @ Itoa key) else None)"

definition rest_request :: "HTTPClient \<Rightarrow> string \<Rightarrow> Value \<Rightarrow> http_request" where
  "rest_request c url v =
     \<lparr>rqMethod = (if v = None then ''GET'' else ''PUT''), rqURL = url, rqBody = v,
      rqHeader = [''Id'' \<mapsto> hcID c, ''Cid'' \<mapsto> Itoa (hcCID c), ''Connection'' \<mapsto> ''keep-alive'']\<rparr>"

text \<open>The requests sent, and the error returned.\<close>

definition rest :: "ClEnv \<Rightarrow> HTTPClient \<Rightarrow> string \<Rightarrow> Value \<Rightarrow> http_request list \<times> error option" where
  "rest e c url v =
     (let req = rest_request c url v in
      case clNewRequest e (rqMethod req) url of
        Some err \<Rightarrow> ([], Some err)
      | None \<Rightarrow>
          ([req], case clDo e req of
                    Inl err \<Rightarrow> Some err
                  | Inr rep \<Rightarrow> if hrCode rep = 200 then None else Some (hrStatus rep)))"

definition SinglePut :: "ClEnv \<Rightarrow> bool \<Rightarrow> nat \<Rightarrow> HTTPClient \<Rightarrow> Key \<Rightarrow> Value \<Rightarrow> (http_request list \<times> error option) option" where
  "SinglePut e zipf k c key v = do { (x, ip) \<leftarrow> GetURL e zipf k c key; Some (rest e c ip v) }"

definition RESTPut :: "ClEnv \<Rightarrow> bool \<Rightarrow> nat \<Rightarrow> HTTPClient \<Rightarrow> Key \<Rightarrow> Value \<Rightarrow> (http_request list \<times> error option) option" where
  "RESTPut = SinglePut"

definition HcPut :: "ClEnv \<Rightarrow> bool \<Rightarrow> nat \<Rightarrow> HTTPClient \<Rightarrow> Key \<Rightarrow> Value \<Rightarrow> (http_request list \<times> error option \<times> HTTPClient) option" where
  "HcPut e zipf k c0 key v =
     (let c = c0\<lparr>hcCID := hcCID c0 + 1\<rparr> in do { (reqs, err) \<leftarrow> RESTPut e zipf k c key v; Some (reqs, err, c) })"

definition hc_json :: "ClEnv \<Rightarrow> HTTPClient \<Rightarrow> NodeID \<Rightarrow> Key \<Rightarrow> Value \<Rightarrow> http_request list \<times> (error + Bytes)" where
  "hc_json e c x key v =
     (let body = clMarshal e \<lparr>cmdKey = key, cmdValue = v, cmdClientID = hcID c, cmdCommandID = hcCID c\<rparr>;
          req = \<lparr>rqMethod = ''POST'', rqURL = url_of c x, rqBody = Some body, rqHeader = [''Content-Type'' \<mapsto> ''json'']\<rparr> in
      case clNewRequest e ''POST'' (url_of c x) of
        Some err \<Rightarrow> ([], Inl err)
      | None \<Rightarrow>
          ([req], case clDo e req of
                    Inl err \<Rightarrow> Inl err
                  | Inr rep \<Rightarrow>
                      if hrCode rep = 200 then Inr (case hrBody rep of None \<Rightarrow> [] | Some b \<Rightarrow> b) else Inl (hrStatus rep)))"

definition JSONGet :: "ClEnv \<Rightarrow> HTTPClient \<Rightarrow> Key \<Rightarrow> http_request list \<times> (error + Bytes)" where
  "JSONGet e c key = hc_json e c (hcID c) key None"

definition JSONPut :: "ClEnv \<Rightarrow> HTTPClient \<Rightarrow> Key \<Rightarrow> Value \<Rightarrow> http_request list \<times> (error + Bytes)" where
  "JSONPut e c key v = hc_json e c (hcID c) key v"

text \<open>The goroutines of \<open>AllPut\<close> finish in the order \<open>xs\<close>, and the error of the last one remains.\<close>

definition AllPut :: "ClEnv \<Rightarrow> NodeID list \<Rightarrow> HTTPClient \<Rightarrow> Key \<Rightarrow> Value \<Rightarrow> http_request list \<times> error option" where
  "AllPut e xs c key v =
     foldl (\<lambda>(reqs, err) x. let (r, err1) = rest e c (url_of c x @ ''/'' @ Itoa (i64 (key + Node x))) v in (reqs @ r, err1)) ([], None) xs"

text \<open>The history of a key at a node, as strings; a failure counts as the empty history.\<close>

definition history_of :: "ClEnv \<Rightarrow> HTTPClient \<Rightarrow> Key \<Rightarrow> NodeID \<Rightarrow> Bytes list" where
  "history_of e c k x =
     (let url = url_of c x @ ''/history?key='' @ Itoa k in
      case clNewRequest e ''GET'' url of
        Some err \<Rightarrow> []
      | None \<Rightarrow>
          (case clDo e \<lparr>rqMethod = ''GET'', rqURL = url, rqBody = None, rqHeader = Map.empty\<rparr> of
             Inl err \<Rightarrow> []
           | Inr rep \<Rightarrow>
               (case hrBody rep of
                  None \<Rightarrow> []
                | Some b \<Rightarrow>
                    (case clUnmarshal e b of
                       None \<Rightarrow> []
                     | Some vs \<Rightarrow> map (\<lambda>v. case v of None \<Rightarrow> [] | Some s \<Rightarrow> s) vs))))"

definition Consensus :: "ClEnv \<Rightarrow> HTTPClient \<Rightarrow> Key \<Rightarrow> bool" where
  "Consensus e c k =
     (let xs = clRange e (dom (hcHTTP c));
          h = history_of e c k;
          n = foldl max 0 (map (\<lambda>x. length (h x)) xs) in
      list_all (\<lambda>i. length (remdups (map (\<lambda>x. h x ! i) (filter (\<lambda>x. length (h x) > i) xs))) \<le> 1) [0..<n])"

definition get_request :: "string \<Rightarrow> http_request" where
  "get_request url = \<lparr>rqMethod = ''GET'', rqURL = url, rqBody = None, rqHeader = Map.empty\<rparr>"

definition HcCrash :: "HTTPClient \<Rightarrow> NodeID \<Rightarrow> int \<Rightarrow> http_request" where
  "HcCrash c x t = get_request (url_of c x @ ''/crash?t='' @ Itoa t)"

definition HcDrop :: "HTTPClient \<Rightarrow> NodeID \<Rightarrow> NodeID \<Rightarrow> int \<Rightarrow> http_request" where
  "HcDrop c x y t = get_request (url_of c x @ ''/drop?id='' @ y @ ''&t='' @ Itoa t)"

section \<open>Server\<close>

text \<open>The routes registered by \<open>http\<close>: the pattern \<open>/\<close> takes every path that no other pattern names.\<close>

definition http_serve :: "NdEnv \<Rightarrow> Time \<Rightarrow> string \<Rightarrow> Bytes \<Rightarrow> 's node \<Rightarrow> 's node option" where
  "http_serve e clk uri body n =
     (let path = takeWhile (\<lambda>ch. ch \<noteq> CHR ''?'') uri in
      if path = ''/query'' then NdHandleQuery e n
      else if path = ''/slow'' then handleSlow e clk n
      else if path = ''/flaky'' then Some (handleFlaky e clk n)
      else if path = ''/crash'' then Some (handleCrash e clk n)
      else handleRoot e clk uri body n)"

section \<open>The client program\<close>

text \<open>The connection of the benchmark to the client, and \<open>main\<close> after the configuration is loaded.\<close>

definition DbWrite :: "ClEnv \<Rightarrow> bool \<Rightarrow> nat \<Rightarrow> HTTPClient \<Rightarrow> int \<Rightarrow> Bytes \<Rightarrow> (http_request list \<times> error option \<times> HTTPClient) option" where
  "DbWrite e zipf k c key v = HcPut e zipf k c key (Some v)"

definition client_main :: "BmFloat \<Rightarrow> (nat \<Rightarrow> bool) \<Rightarrow> (nat \<Rightarrow> Time) \<Rightarrow> Time \<Rightarrow> Config \<Rightarrow> Stat outcome" where
  "client_main fe fired clk start c =
     (case NewHTTPClient c of
        None \<Rightarrow> Crashed
      | Some (client, c1) \<Rightarrow>
          (case NewBenchmark c1 of None \<Rightarrow> Crashed | Some b \<Rightarrow> Run fe c1 fired clk start 0 b))"

section \<open>Comparison of histories\<close>

definition comparable :: "'a list \<Rightarrow> 'a list \<Rightarrow> bool" where
  "comparable xs ys \<longleftrightarrow> prefix xs ys \<or> prefix ys xs"

lemma comparable_nth: "comparable xs ys \<longleftrightarrow> (\<forall>i < min (length xs) (length ys). xs ! i = ys ! i)"
proof -
  have p: "prefix xs ys \<longleftrightarrow> (\<forall>i < length xs. xs ! i = ys ! i)" if "length xs \<le> length ys" for xs ys :: "'a list"
  proof -
    have "prefix xs ys \<longleftrightarrow> take (length xs) ys = xs" by (auto simp: prefix_def) (metis append_take_drop_id)
    also have "\<dots> \<longleftrightarrow> (\<forall>i < length xs. xs ! i = ys ! i)" using that by (auto simp: list_eq_iff_nth_eq min_def)
    finally show ?thesis .
  qed
  have n: "length xs \<le> length ys" if "prefix xs ys" for xs ys :: "'a list" using that by (rule prefix_length_le)
  show ?thesis
  proof (cases "length xs \<le> length ys")
    case True
    then show ?thesis using p [OF True] p [of ys xs] n [of ys xs] unfolding comparable_def by (auto simp: min_def)
  next
    case False
    then have "length ys \<le> length xs" by simp
    then show ?thesis using p [of ys xs] n [of xs ys] False unfolding comparable_def by (auto simp: min_def)
  qed
qed

lemma remdups_short: "length (remdups xs) \<le> 1 \<longleftrightarrow> (\<forall>x \<in> set xs. \<forall>y \<in> set xs. x = y)"
proof -
  have "length (remdups xs) \<le> 1 \<longleftrightarrow> card (set xs) \<le> 1" by (simp add: length_remdups_card_conv)
  also have "\<dots> \<longleftrightarrow> (\<forall>x \<in> set xs. \<forall>y \<in> set xs. x = y)" by (auto simp: card_le_Suc0_iff_eq)
  finally show ?thesis .
qed

lemma foldl_max_less: "i < foldl max b xs \<longleftrightarrow> i < b \<or> (\<exists>x \<in> set xs. i < x)" for b :: nat
  by (induction xs arbitrary: b) (simp_all add: less_max_iff_disj disj_assoc)

lemma columns_agree:
  "list_all (\<lambda>i. length (remdups (map (\<lambda>x. h x ! i) (filter (\<lambda>x. length (h x) > i) xs))) \<le> 1) [0..<foldl max 0 (map (\<lambda>x. length (h x)) xs)] \<longleftrightarrow>
   (\<forall>x \<in> set xs. \<forall>y \<in> set xs. comparable (h x) (h y))" (is "list_all ?P [0..<?n] \<longleftrightarrow> ?R")
proof
  assume l: "list_all ?P [0..<?n]"
  show ?R
  proof (intro ballI)
    fix x y
    assume xy: "x \<in> set xs" "y \<in> set xs"
    have "h x ! i = h y ! i" if i: "i < length (h x)" "i < length (h y)" for i
    proof -
      have "length (h x) \<in> set (map (\<lambda>x. length (h x)) xs)" using xy(1) by simp
      with i(1) have "\<exists>m \<in> set (map (\<lambda>x. length (h x)) xs). i < m" by (rule rev_bexI [rotated])
      then have "i < ?n" unfolding foldl_max_less by (rule disjI2)
      then have "i \<in> set [0..<?n]" by (simp only: set_upt atLeastLessThan_iff le0 simp_thms)
      with l have p: "?P i" unfolding list_all_iff by (rule bspec)
      have "h z ! i \<in> set (map (\<lambda>x. h x ! i) (filter (\<lambda>x. length (h x) > i) xs))" if "z \<in> set xs" "i < length (h z)" for z
        using that by simp
      note mem = this [OF xy(1) i(1)] this [OF xy(2) i(2)]
      from bspec [OF bspec [OF iffD1 [OF remdups_short p] mem(1)] mem(2)] show ?thesis .
    qed
    then show "comparable (h x) (h y)" by (simp add: comparable_nth)
  qed
next
  assume r: ?R
  have "?P i" for i
    unfolding remdups_short
  proof (intro ballI)
    fix u v
    assume "u \<in> set (map (\<lambda>x. h x ! i) (filter (\<lambda>x. length (h x) > i) xs))" "v \<in> set (map (\<lambda>x. h x ! i) (filter (\<lambda>x. length (h x) > i) xs))"
    then obtain x y where xy: "x \<in> set xs" "y \<in> set xs" and i: "i < length (h x)" "i < length (h y)" and uv: "u = h x ! i" "v = h y ! i"
      by auto
    from bspec [OF bspec [OF r xy(1)] xy(2)] i show "u = v" unfolding uv by (simp add: comparable_nth)
  qed
  then show "list_all ?P [0..<?n]" unfolding list_all_iff by (intro ballI)
qed

definition cl_range_ok :: "ClEnv \<Rightarrow> bool" where
  "cl_range_ok e \<longleftrightarrow> (\<forall>A. finite A \<longrightarrow> set (clRange e A) = A)"

text \<open>C39 (comparison of histories): \<open>Consensus\<close> answers true exactly when of the histories received from any two nodes in the table of the client
  one is a prefix of the other.\<close>

theorem consensus_iff_comparable:
  assumes "cl_range_ok e" and "finite (dom (hcHTTP c))"
  shows "Consensus e c k \<longleftrightarrow> (\<forall>x \<in> dom (hcHTTP c). \<forall>y \<in> dom (hcHTTP c). comparable (history_of e c k x) (history_of e c k y))"
proof -
  have "set (clRange e (dom (hcHTTP c))) = dom (hcHTTP c)" using assms by (simp add: cl_range_ok_def)
  then show ?thesis unfolding Consensus_def Let_def columns_agree by simp
qed

definition cl_env :: ClEnv where
  "cl_env = \<lparr>clZipf = \<lambda>k n. 0, clIntn = \<lambda>k n. 0, clNewRequest = \<lambda>m u. None,
     clDo = \<lambda>req. Inr \<lparr>hrCode = 200, hrStatus = [], hrBody = Some (if rqURL req = ''a/history?key=7'' then [1] else [1, 2])\<rparr>,
     clMarshal = \<lambda>c. [], clUnmarshal = \<lambda>b. Some (map (\<lambda>x. Some [x]) b), clRange = \<lambda>A. sorted_list_of_set A\<rparr>"

definition cl_demo :: HTTPClient where
  "cl_demo = \<lparr>hcHTTP = [''1'' \<mapsto> ''a'', ''2'' \<mapsto> ''b''], hcID = [], hcN = 2, hcZipf = False, hcIds = [''1'', ''2''], hcCID = 0\<rparr>"

theorem consensus_iff_comparable_witness:
  "history_of cl_env cl_demo 7 ''1'' \<noteq> history_of cl_env cl_demo 7 ''2'' \<and> Consensus cl_env cl_demo 7"
proof -
  have r: "cl_range_ok cl_env" by (simp add: cl_range_ok_def cl_env_def)
  have h: "history_of cl_env cl_demo 7 ''1'' = [[1]]" "history_of cl_env cl_demo 7 ''2'' = [[1], [2]]"
    by (simp_all add: history_of_def cl_env_def cl_demo_def url_of_def Itoa_def itoa_nat.simps digit_char_def)
  have d: "dom (hcHTTP cl_demo) = {''1'', ''2''}" by (auto simp: cl_demo_def)
  from consensus_iff_comparable [OF r, of cl_demo 7] h d show ?thesis by (simp add: comparable_def)
qed

section \<open>Requests at the server\<close>

definition key_chars :: "char set" where
  "key_chars = insert (CHR ''-'') (set ''0123456789'')"

lemma Itoa_chars: "set (Itoa i) \<subseteq> key_chars"
proof -
  have "set (CHR ''-'' # xs) \<subseteq> insert (CHR ''-'') A \<and> set xs \<subseteq> insert (CHR ''-'') A" if "set xs \<subseteq> A" for xs A using that by auto
  from this [OF itoa_nat_digits] show ?thesis unfolding Itoa_def key_chars_def by (simp only: split: if_split) blast
qed

lemma Itoa_not_word: "c \<in> set s \<Longrightarrow> c \<notin> key_chars \<Longrightarrow> Itoa i \<noteq> s"
  using Itoa_chars [of i] by auto

lemma key_path:
  "takeWhile (\<lambda>ch. ch \<noteq> CHR ''?'') (''/'' @ Itoa key) = ''/'' @ Itoa key"
  "''/'' @ Itoa key \<notin> {''/query'', ''/slow'', ''/flaky'', ''/crash''}"
proof -
  have "CHR ''?'' \<notin> key_chars" by (simp add: key_chars_def)
  then have "CHR ''?'' \<notin> set (Itoa key)" using Itoa_chars [of key] by blast
  then show "takeWhile (\<lambda>ch. ch \<noteq> CHR ''?'') (''/'' @ Itoa key) = ''/'' @ Itoa key" by (auto simp: takeWhile_eq_all_conv)
  have "Itoa key \<noteq> ''query''" by (rule Itoa_not_word [of "CHR ''q''"]) (simp_all add: key_chars_def)
  moreover have "Itoa key \<noteq> ''slow''" by (rule Itoa_not_word [of "CHR ''s''"]) (simp_all add: key_chars_def)
  moreover have "Itoa key \<noteq> ''flaky''" by (rule Itoa_not_word [of "CHR ''f''"]) (simp_all add: key_chars_def)
  moreover have "Itoa key \<noteq> ''crash''" by (rule Itoa_not_word [of "CHR ''c''"]) (simp_all add: key_chars_def)
  ultimately show "''/'' @ Itoa key \<notin> {''/query'', ''/slow'', ''/flaky'', ''/crash''}" by simp
qed

lemma GetURL_node: "GetURL e zipf k c key = Some (x, url) \<Longrightarrow> x \<in> set (hcIds c) \<and> url = url_of c x @ ''/'' @ Itoa key"
  by (auto simp: GetURL_def Let_def split: if_splits)

text \<open>C40 (client requests): a write by the client sends at most one request, and that one is a PUT of the value to the path of the key at a node among
  its targets; the node that serves it puts exactly one transaction, with this value and the path as
  its identifier, on the channel of transactions.\<close>

theorem put_becomes_transaction:
  assumes "HcPut e zipf k c key (Some v) = Some (reqs, err, c')" and "reqs \<noteq> []"
    and "http_serve nd clk (''/'' @ Itoa key) v n = Some n'"
  shows "\<exists>x \<in> set (hcIds c). \<exists>req. reqs = [req] \<and> rqMethod req = ''PUT'' \<and> rqURL req = url_of c x @ ''/'' @ Itoa key \<and> rqBody req = Some v \<and>
    n' = n\<lparr>TxChan := TxChan n @ [ITransaction \<lparr>txCommand = \<lparr>cmdKey = 0, cmdValue = Some v, cmdClientID = [], cmdCommandID = 0\<rparr>,
      txTimestamp = clk, txNodeID = ndId n, txID = ''/'' @ Itoa key\<rparr>]\<rparr>"
proof -
  from assms(1) obtain x url where g: "GetURL e zipf k (c\<lparr>hcCID := hcCID c + 1\<rparr>) key = Some (x, url)"
    and r: "rest e (c\<lparr>hcCID := hcCID c + 1\<rparr>) url (Some v) = (reqs, err)"
    by (auto simp: HcPut_def RESTPut_def SinglePut_def Let_def bind_Some_conv)
  from GetURL_node [OF g] have x: "x \<in> set (hcIds c)" "url = url_of c x @ ''/'' @ Itoa key" by (simp_all add: url_of_def)
  from r assms(2) have q: "reqs = [rest_request (c\<lparr>hcCID := hcCID c + 1\<rparr>) url (Some v)]"
    by (auto simp: rest_def Let_def split: option.splits)
  have "handleRoot nd clk (''/'' @ Itoa key) v n = Some n'"
    using assms(3) key_path(2) [of key] unfolding http_serve_def Let_def key_path(1) by simp
  then show ?thesis using x q by (auto simp: handleRoot_def rest_request_def)
qed

theorem put_becomes_transaction_witness:
  "\<exists>reqs err c' n'. HcPut cl_env False 0 cl_demo 7 (Some [5]) = Some (reqs, err, c') \<and>
     http_serve nd_env 0 ''/7'' [5] (nd_start\<lparr>TxChan := []\<rparr>) = Some n' \<and> length reqs = 1 \<and> length (TxChan n') = 1"
proof -
  have i: "Itoa 7 = ''7''" by (simp add: Itoa_def itoa_nat.simps digit_char_def)
  obtain reqs err c' where p: "HcPut cl_env False 0 cl_demo 7 (Some [5]) = Some (reqs, err, c')" "reqs \<noteq> []"
    by (simp add: HcPut_def RESTPut_def SinglePut_def GetURL_def rest_def cl_env_def cl_demo_def Let_def)
  obtain n' where s: "http_serve nd_env 0 (''/'' @ Itoa 7) [5] (nd_start\<lparr>TxChan := []\<rparr>) = Some n'"
    by (simp add: i http_serve_def handleRoot_def nd_env_def)
  from put_becomes_transaction [OF p s] have "length reqs = 1" "length (TxChan n') = 1" by auto
  moreover from s have "http_serve nd_env 0 ''/7'' [5] (nd_start\<lparr>TxChan := []\<rparr>) = Some n'" by (simp only: i append.simps)
  ultimately show ?thesis using p(1) by (intro exI conjI)
qed

section \<open>Deviations\<close>

text \<open>The server has no routes for histories and for dropped links: such a request becomes a transaction.\<close>

lemma history_request_is_transaction:
  "http_serve nd clk (''/history?key='' @ s) body n = handleRoot nd clk (''/history?key='' @ s) body n"
  "http_serve nd clk (''/drop?id='' @ s) body n = handleRoot nd clk (''/drop?id='' @ s) body n"
  by (simp_all add: http_serve_def)

text \<open>When no answer can be decoded, as with the empty answers of this route, the histories count as agreeing.\<close>

lemma consensus_of_nothing:
  assumes "\<And>b. clUnmarshal e b = None"
  shows "Consensus e c k"
proof -
  have "history_of e c k = (\<lambda>x. [])" using assms by (auto simp: history_of_def Let_def fun_eq_iff split: option.splits sum.splits)
  then show ?thesis unfolding Consensus_def Let_def columns_agree by (simp add: comparable_def)
qed

text \<open>The time of a crash request is not read.\<close>

lemma crash_time_ignored: "http_serve nd clk (''/crash?t='' @ s) body n = Some (handleCrash nd clk n)"
  by (simp add: http_serve_def)

text \<open>The silent replicas lose their address but stay among the targets of the client, which then sends to an empty
  address.\<close>

lemma del_nodes_gone: "x \<in> NewNodeID ` set js \<or> h x = None \<Longrightarrow> del_nodes js h x = None"
proof (induction js arbitrary: h)
  case (Cons i js)
  have "del_nodes (i # js) h = del_nodes js (h(NewNodeID i := None))" by (simp add: del_nodes_def)
  moreover have "x \<in> NewNodeID ` set js \<or> (h(NewNodeID i := None)) x = None" using Cons.prems by auto
  ultimately show ?case by (simp only: Cons.IH)
qed (simp add: del_nodes_def)

lemma silent_replicas_remain_targets:
  assumes "NewHTTPClient c = Some (client, c1)" and "cfStrategy c = ''silence''" and "cfMaster c = ''0''"
    and "1 \<le> i" and "i \<le> cfByzNo c" and "i \<le> hcN client"
  shows "NewNodeID i \<in> set (hcIds client) \<and> url_of client (NewNodeID i) = []"
proof -
  let ?h = "del_nodes [1..cfByzNo c] (map_or_nil (cfHTTPAddrs c))" and ?n = "int (maplen (map_or_nil (cfAddrs c)))"
  let ?client = "\<lparr>hcHTTP = ?h, hcID = [], hcN = ?n, hcZipf = (cfZipfianS c > 1 \<and> cfZipfianV c \<ge> 1), hcIds = map NewNodeID [1..?n], hcCID = 0\<rparr>"
  have "NewHTTPClient c = Some (?client, c\<lparr>cfHTTPAddrs := map_option (\<lambda>_. ?h) (cfHTTPAddrs c)\<rparr>)"
    unfolding NewHTTPClient_def Let_def assms(2,3) by simp
  with assms(1) have c: "client = ?client" by (metis option.inject prod.inject)
  have h: "hcHTTP client = ?h" and x: "hcIds client = map NewNodeID [1..hcN client]" unfolding c by simp_all
  have "NewNodeID i \<in> NewNodeID ` set [1..cfByzNo c]" using assms(4,5) by simp
  then have "hcHTTP client (NewNodeID i) = None" unfolding h by (intro del_nodes_gone) simp
  moreover have "NewNodeID i \<in> set (hcIds client)" unfolding x using assms(4,6) by simp
  ultimately show ?thesis by (simp add: url_of_def)
qed

text \<open>The client program does not end by itself.\<close>

lemma client_main_never_returns: "mset (bfSort fe []) = {#} \<Longrightarrow> client_main fe fired clk start c \<in> {Blocked, Crashed}"
  using Run_outcome [of fe] by (auto simp: client_main_def split: option.splits prod.splits)

end
