(* ===== verification/Spec2Isabelle.thy ===== *)
theory Spec2Isabelle
  imports Fhs Lbft Monitor AckMem NaiveMem TimeMem Txpool Limiter Utils Executor Replica ProofOps NetNode Reports Gossip Client "HOL-Library.Sublist"
begin

text \<open>
  Verification of a shared mempool and its BFT consensus (the Go program under src/).

  \<^bold>\<open>The program.\<close>  Replicas batch transactions into microblocks (txpool, mempool), send them to the other
  replicas or to a group of them (group), and collect acknowledgements until a microblock is stable.  The
  leader of a view (election, pacemaker) proposes the identifiers of stable microblocks; replicas fill the
  proposal from their mempools and run a chained HotStuff protocol on it (hotstuff, blockchain).  Committed
  blocks are numbered microblock by microblock (replica) and executed (execute), with the results exchanged
  so that a microblock need not be executed everywhere.  A monitor collects statistics, and a token bucket
  limits the gossip rate.  Replicas run on a node, which dispatches the messages that a socket receives over its transports
  (node, socket, transport); clients write over HTTP (client, benchmark).

  \<^bold>\<open>The theories\<close>, in the order of the imports:

  \<^item> \<open>Prelude\<close>: Go integers (\<open>i64\<close>, \<open>go_quot\<close>, \<open>go_rem\<close>), checked indexing, maps and their length, and the
    lemma collections.
  \<^item> \<open>Identity\<close>, \<open>Crypto\<close>, \<open>Merkle\<close>: identity/identity.go, crypto/{id,sign,ecdsa,hash}.go, crypto/merkle/{tree,proof,hash}.go.
    Identifiers and their bytes, key tables, quorum signatures, Merkle roots and proofs.
  \<^item> \<open>KeyPath\<close>, \<open>ProofOps\<close>: crypto/merkle/{proof_key_path,proof_op,proof_value,types}.go, key paths and chained proof
    operators.
  \<^item> \<open>Db\<close>, \<open>GroupMgr\<close>, \<open>Block\<close>: db/db.go, group/group.go, blockchain/block.go with types and message.
  \<^item> \<open>Collector\<close>: the contract of a collector that announces a threshold once (a locale); \<open>Quorum\<close>
    (blockchain/quorum.go) and \<open>Pacemaker\<close> (pacemaker/*.go) interpret it.
  \<^item> \<open>Forest\<close>, \<open>Blockchain\<close>: blockchain/{leveled_forrest,vertex,container,blockchain}.go.
  \<^item> \<open>Election\<close>: election/{rotation,static}.go.
  \<^item> \<open>Safety\<close>: replica/safety.go, the interface of a protocol as a record and its contract as a locale;
    \<open>HotStuff\<close> (hotstuff/hotstuff.go), \<open>Tchs\<close> (tchs/tchs.go), \<open>Fhs\<close> (fasthostuff/fhs.go), \<open>Streamlet\<close>
    (streamlet/streamlet.go) and \<open>Lbft\<close> (lbft/lbft.go) interpret it.
  \<^item> \<open>Monitor\<close>: monitor/monitor.go, and the sampling in replica/replica.go.
  \<^item> \<open>Mempool\<close>: what the mempools share, with the contracts \<open>txn_batcher\<close> and \<open>proposal_filler\<close>;
    \<open>AckMem\<close> (mempool/ackmem.go), \<open>NaiveMem\<close> (mempool/naivemem.go) and \<open>TimeMem\<close> (mempool/timemem.go) interpret both.
  \<^item> \<open>PriorityQueue\<close>: pq/pq.go with the container/heap functions it uses, and its contract \<open>priority_queue\<close>.
  \<^item> \<open>Txpool\<close> (txpool/txpool.go), \<open>Limiter\<close> (limiter/*.go), \<open>Utils\<close> (utils/utils.go).
  \<^item> \<open>Executor\<close> (execute/execute.go), \<open>Replica\<close> (replica/replica.go), \<open>Reports\<close> (its queries, load generator and monitoring loop)
    and \<open>Gossip\<close> (its gossip loop and the functions that nothing calls).
  \<^item> \<open>Transport\<close> (transport/transport.go), \<open>Socket\<close> (socket/socket.go, with the contract \<open>timed_fault\<close> of an injected fault,
    interpreted for crash, drop, slow and flaky), \<open>NetNode\<close> (node/node.go, node/http.go, and the registrations of
    replica/replica.go).
  \<^item> \<open>Config\<close> (config/config.go, server/server.go), \<open>Benchmark\<close> (benchmark/*.go), \<open>Client\<close> (client.go, client/client.go).
  \<^item> This theory joins replica and executor.

  \<^bold>\<open>How code is modelled.\<close>  A struct is a record with the source's fields (prefixed where names would
  clash), a method a function from state to state, under the source's name where it is free.  A panic, a
  blocked channel operation or a call that never returns is \<open>None\<close>; a Go error is a value.  64-bit
  arithmetic on values that a peer can choose wraps (\<open>i64\<close>).  Time is an integer of nanoseconds.  Clock
  readings, random draws, map iteration order, \<open>sort.Slice\<close>, hash functions, signatures, encoders and
  floating point are parameters; what is used of them is a named hypothesis
  (\<open>ecdsa_correct\<close>, \<open>range_order\<close>, \<open>sort_slice_ok\<close>, \<open>draws_ok\<close>, \<open>fair\<close>, \<open>bitmap_ok\<close>, \<open>shuffle_ok\<close>, \<open>cl_range_ok\<close>), with an instance in each witness.
  Channels and messages sent are lists.  A mutex makes a method one step, and the interleaving of
  methods is the order of the steps in a run.  The goroutines of the in-process transport and of the node are steps of their
  own, taken when the channels let them.

  \<^bold>\<open>What is shown.\<close>
  \<^item> Consensus: along every run the view does not go back and the committed log is only extended, one block per level;
    a commit needs a certificate that passes the check of the code, known ancestors and three consecutive views; two certificates share a
    correct voter; certificates and timeout certificates are announced exactly at their threshold; votes obey
    the voting rule; the recursion over buffered blocks ends.  The four other protocols have the same guarantee
    for their logs, and the two-chain protocol and Streamlet for their commit rules; the handlers of Fast-HotStuff, defined from
    its own source, agree with those of the two-chain protocol, and those of lbft with those of Streamlet.
  \<^item> Chain: commitment splits the pruned blocks into committed and forked; the log increases; lookups return the
    first insertion.
  \<^item> Data: Merkle proofs and value proofs are sound and complete, the iterative root is the recursive one; signatures round-trip;
    pending blocks complete exactly when nothing is missing; conflict-free batches commute; groups are well formed.
  \<^item> Mempools: a microblock that is not removed is proposed at most once; stability exactly at the threshold; transactions are
    batched in order within the size limit; filled proposals complete; the simple mempool is a queue; the time-based one
    proposes the earliest first, over a heap that refines a map.
  \<^item> Rate limit: tokens granted never exceed capacity plus refill, and a wait ends at the first tick that pays for it.
  \<^item> Execution: committed microblocks are numbered consecutively, executed in that order and once;
    outside the sampling mode results are taken over only with enough reports; only verified acknowledgements count.
  \<^item> Network: the in-process transport is first-in first-out per sender; a broadcast reaches every other node once; a
    crashed node is silent until the first crash timer is due; a node handles the messages of a channel in order, calls for
    each the handler that the replica registered, and has a handler for every message a replica sends; gossip sends
    a microblock to a replica at most once.
  \<^item> Reports and client: every committed transaction is reported once; the addresses of up to 1106 hosts are distinct; the limiter of the
    benchmark spaces the requests; the comparison of histories finds exactly the diverging ones; a write of the client
    becomes one transaction at the node.
  \<^item> Behaviour that departs from the evident intent is stated as it is, for instance
    \<open>last_vote_is_forgotten\<close>, \<open>forged_certificate_commits\<close>, \<open>certificate_view_unchecked\<close>, \<open>sampling_repeats_execution\<close>,
    \<open>removed_microblock_proposed_twice\<close>, \<open>fetched_number_misplaces_confirmation\<close>,
    \<open>CommitBlock_newest_first\<close>, \<open>arrived_microblock_not_found\<close>, \<open>streamlet_commits_conflicting_blocks\<close>,
    \<open>overlapping_crashes_end_early\<close>, \<open>benchmark_never_returns\<close>, \<open>consensus_of_nothing\<close>.

  \<^bold>\<open>Bounds and fuel.\<close>  Loops over slices are structural recursion, the searches are total functions with a measure, and
  the loops that may not end (\<open>ProcessBlock\<close>, \<open>sl_do\<close>, the draw loops) are partial functions for which a result is
  proved under the stated conditions.  Fuel appears only in \<open>process_fuel\<close> and \<open>sl_fuel\<close>, which state that the
  recursion through the buffers ends: one call more than the blocks buffered at or above the view is
  enough for HotStuff, and a bound from the buffered blocks and certificates for Streamlet.  Theorems on runs
  assume views below \<open>2 ^ 63 - 2\<close>, or counters of the token bucket below \<open>2 ^ 61\<close>, where wrap-around would
  change the meaning; the wrap-around itself is shown in \<open>AdvanceView_wraps_at_max\<close>.

  \<^bold>\<open>What is not modelled.\<close>  The TCP and UDP connections and the HTTP server (what the system calls return is a
  parameter), the Kafka producer, log files, the result file of the monitor, the profiling server, flags and JSON decoding, and
  the wrappers of the JSON and RLP codecs are input and output.  \<open>MakeProposal\<close> of tchs, fasthostuff, streamlet and
  lbft calls \<open>BuildProposal\<close> with arguments it no longer has, so that these packages do not compile; the other handlers are
  modelled.  Data races between goroutines that share state without a lock are outside the model: each
  handler is one step.
\<close>

section \<open>From commitment to execution\<close>

lemma ev_added_mbs: "ev_added ev = map mbHash (ev_mbs ev)"
  by (cases ev) simp_all

lemma added_mbs: "concat (map ev_added evs) = map mbHash (concat (map ev_mbs evs))"
  by (induction evs) (simp_all add: ev_added_mbs)

text \<open>C6 (executed once): let a replica run in any way from its start, and let its executor, outside the sampling mode, take any part of
  what the replica has delivered so far, interleaved in any way with fetched microblocks and results.  Then
  the executor handles the committed microblocks in the order of their commit numbers, none of them twice.\<close>

theorem committed_microblocks_executed_once:
  assumes "rp_run e (rp_init sm hs gm pool bucket) is = Some r"
    and "exBroadcastByGroup x \<or> \<not> exBroadcastBySample x"
    and "ex_run x (NewExecutor gm' mon None) evs = Some ex" and "prefix (concat (map ev_mbs evs)) (delivered r)"
  shows "prefix (map line_hash (exLog ex)) (map mbHash (delivered r)) \<and> distinct (map line_hash (exLog ex))"
proof -
  have "flow ex = map mbHash (concat (map ev_mbs evs))"
    using ex_run_flow [OF assms(2,3)] NewExecutor_empty [of gm' mon] by (simp add: added_mbs)
  then have "prefix (map line_hash (exLog ex)) (map mbHash (concat (map ev_mbs evs)))"
    unfolding flow_def by (metis prefixI)
  also have "prefix \<dots> (map mbHash (delivered r))" using assms(4) by (rule map_mono_prefix)
  finally have p: "prefix (map line_hash (exLog ex)) (map mbHash (delivered r))" .
  have "distinct (map mbHash (delivered r))" using rp_run_ok [OF assms(1) com_ok_New] by (simp add: com_ok_def com_def)
  with p have "distinct (map line_hash (exLog ex))" by (auto simp: prefix_def)
  with p show ?thesis ..
qed

theorem committed_microblocks_executed_once_witness:
  "\<exists>r ex. rp_run rp_env (rp_new [rp_block [5, 6], rp_block [5, 7]]) [InCommitted, InCommitted] = Some r \<and>
     ex_run (ex_env False False) ex_new (rExChan r) = Some ex \<and> map line_hash (exLog ex) = [5, 6, 7] \<and>
     distinct (map line_hash (exLog ex))"
proof -
  obtain r ex where r: "rp_run rp_env (rp_new [rp_block [5, 6], rp_block [5, 7]]) [InCommitted, InCommitted] = Some r"
    and x: "ex_run (ex_env False False) ex_new (rExChan r) = Some ex" and l: "map line_hash (exLog ex) = [5, 6, 7]"
    by (simp add: rp_eval ex_eval numeral_2_eq_2)
  have "prefix (concat (map ev_mbs (rExChan r))) (delivered r)" by (simp add: delivered_def)
  from committed_microblocks_executed_once [OF r [unfolded rp_new_def] _ x [unfolded ex_new_def] this] r x l show ?thesis
    by (auto simp: ex_env_def)
qed

end
